(* ===== verification/Prelude.thy ===== *)
theory Prelude
  imports Complex_Main "HOL-Library.Char_ord" "HOL-Library.List_Lexorder" "HOL-Library.Code_Target_Nat"
begin

text \<open>
  What the components share: Go strings as lists of bytes with the functions of
  the \<open>strings\<close> package the code calls, the collections of rewrite rules the
  component theories fill, and generic facts on lists, maps and sorting.

  A Go string is a sequence of bytes, so it is a \<^typ>\<open>string\<close> (a \<^typ>\<open>char\<close> is one
  byte); \<open>len\<close> is \<^const>\<open>length\<close>, and \<open>sort.Strings\<close> is \<^const>\<open>sort\<close> under the bytewise
  lexicographic order of \<open>HOL-Library.List_Lexorder\<close> over \<open>HOL-Library.Char_ord\<close>.
\<close>

named_theorems go_string_simps \<open>rewrite rules of the string functions\<close>
named_theorems ascii_rules \<open>facts about ASCII text and case folding\<close>

section \<open>Bytes\<close>

abbreviation byte_code :: "char \<Rightarrow> nat" where
  "byte_code c \<equiv> of_char c"

definition is_lower :: "char \<Rightarrow> bool" where
  "is_lower c \<longleftrightarrow> 97 \<le> byte_code c \<and> byte_code c \<le> 122"

definition is_upper :: "char \<Rightarrow> bool" where
  "is_upper c \<longleftrightarrow> 65 \<le> byte_code c \<and> byte_code c \<le> 90"

definition is_digit :: "char \<Rightarrow> bool" where
  "is_digit c \<longleftrightarrow> 48 \<le> byte_code c \<and> byte_code c \<le> 57"

definition is_ascii_char :: "char \<Rightarrow> bool" where
  "is_ascii_char c \<longleftrightarrow> byte_code c < 128"

definition is_ascii :: "string \<Rightarrow> bool" where
  "is_ascii s \<longleftrightarrow> list_all is_ascii_char s"

text \<open>\<open>c + 'a' - 'A'\<close> for an upper-case ASCII letter, any other byte unchanged.\<close>

definition lower_char :: "char \<Rightarrow> char" where
  "lower_char c = (if is_upper c then char_of (byte_code c + 32) else c)"

definition ascii_lower :: "string \<Rightarrow> string" where
  "ascii_lower s = map lower_char s"

text \<open>
  \<open>strings.ToLower\<close>: a string of ASCII bytes is folded byte by byte; any other is
  mapped rune by rune through the Unicode tables, which are the parameter \<open>ul\<close>.
\<close>

definition to_lower :: "(string \<Rightarrow> string) \<Rightarrow> string \<Rightarrow> string" where
  "to_lower ul s = (if is_ascii s then ascii_lower s else ul s)"

lemma byte_code_lower_char:
  "byte_code (lower_char c) = (if is_upper c then byte_code c + 32 else byte_code c)"
  by (auto simp: lower_char_def is_upper_def)

lemma not_upper_lower_char [simp]: "\<not> is_upper (lower_char c)"
  using byte_code_lower_char [of c] by (auto simp: is_upper_def split: if_splits)

lemma lower_char_id: "\<not> is_upper c \<Longrightarrow> lower_char c = c"
  by (simp add: lower_char_def)

lemma lower_char_idem [simp]: "lower_char (lower_char c) = lower_char c"
  by (simp add: lower_char_id)

lemma is_ascii_char_lower [simp]: "is_ascii_char (lower_char c) = is_ascii_char c"
  using byte_code_lower_char [of c] by (auto simp: is_ascii_char_def is_upper_def split: if_splits)

lemma is_ascii_lower [simp]: "is_ascii (ascii_lower s) = is_ascii s"
  by (simp add: is_ascii_def ascii_lower_def list_all_iff)

lemma ascii_lower_idem [simp]: "ascii_lower (ascii_lower s) = ascii_lower s"
  by (simp add: ascii_lower_def)

lemma to_lower_ascii [ascii_rules, simp]: "is_ascii s \<Longrightarrow> to_lower ul s = ascii_lower s"
  by (simp add: to_lower_def)

lemma ascii_lower_Nil_iff [simp]: "ascii_lower s = [] \<longleftrightarrow> s = []"
  by (simp add: ascii_lower_def)

lemma length_ascii_lower [simp]: "length (ascii_lower s) = length s"
  by (simp add: ascii_lower_def)

lemma ascii_lower_append [simp]: "ascii_lower (s @ t) = ascii_lower s @ ascii_lower t"
  by (simp add: ascii_lower_def)

text \<open>A byte that is no upper-case letter is in the folded text when it was in the text.\<close>

lemma lower_char_eq_iff:
  assumes "\<not> is_upper d" "\<not> is_lower d"
  shows "lower_char c = d \<longleftrightarrow> c = d"
proof
  assume h: "lower_char c = d"
  have "\<not> is_upper c"
  proof
    assume u: "is_upper c"
    then have "byte_code d = byte_code c + 32"
      using byte_code_lower_char [of c] h by simp
    with u assms(2) show False by (simp add: is_upper_def is_lower_def)
  qed
  with h show "c = d" by (simp add: lower_char_id)
qed (simp add: lower_char_id assms(1))

lemma ascii_lower_mem_iff:
  assumes "\<not> is_upper d" "\<not> is_lower d"
  shows "d \<in> set (ascii_lower s) \<longleftrightarrow> d \<in> set s"
proof -
  have "lower_char c = d \<longleftrightarrow> c = d" for c
    by (rule lower_char_eq_iff [OF assms])
  then show ?thesis unfolding ascii_lower_def by (auto simp: image_iff) metis+
qed

section \<open>The strings package\<close>

text \<open>
  \<open>strings.Split\<close> at one byte is \<open>split_on\<close>; \<open>strings.FieldsFunc\<close> is the non-empty
  pieces between separators; \<open>strings.Join\<close>, \<open>strings.LastIndexByte\<close>,
  \<open>strings.IndexByte\<close>, \<open>strings.ContainsAny\<close> (for an ASCII set) and \<open>strings.Trim\<close>,
  \<open>TrimLeft\<close>, \<open>TrimRight\<close> (for an ASCII cutset) are as in the package.
\<close>

fun split_by :: "(char \<Rightarrow> bool) \<Rightarrow> string \<Rightarrow> string list" where
  "split_by p [] = [[]]"
| "split_by p (c # cs) =
     (if p c then [] # split_by p cs
      else (case split_by p cs of [] \<Rightarrow> [[c]] | w # ws \<Rightarrow> (c # w) # ws))"

definition split_on :: "char \<Rightarrow> string \<Rightarrow> string list" where
  "split_on c s = split_by (\<lambda>x. x = c) s"

definition fields_by :: "(char \<Rightarrow> bool) \<Rightarrow> string \<Rightarrow> string list" where
  "fields_by p s = filter (\<lambda>w. w \<noteq> []) (split_by p s)"

fun join :: "string \<Rightarrow> string list \<Rightarrow> string" where
  "join sep [] = []"
| "join sep [w] = w"
| "join sep (w # v # ws) = w @ sep @ join sep (v # ws)"

fun last_index :: "char \<Rightarrow> string \<Rightarrow> nat option" where
  "last_index c [] = None"
| "last_index c (x # xs) =
     (case last_index c xs of
        Some i \<Rightarrow> Some (Suc i)
      | None \<Rightarrow> (if x = c then Some 0 else None))"

fun index_of :: "char \<Rightarrow> string \<Rightarrow> nat option" where
  "index_of c [] = None"
| "index_of c (x # xs) = (if x = c then Some 0 else map_option Suc (index_of c xs))"

definition contains_any :: "string \<Rightarrow> string \<Rightarrow> bool" where
  "contains_any s cs \<longleftrightarrow> list_ex (\<lambda>c. c \<in> set cs) s"

definition trim_left :: "string \<Rightarrow> string \<Rightarrow> string" where
  "trim_left cs s = dropWhile (\<lambda>c. c \<in> set cs) s"

definition trim_right :: "string \<Rightarrow> string \<Rightarrow> string" where
  "trim_right cs s = rev (dropWhile (\<lambda>c. c \<in> set cs) (rev s))"

definition trim :: "string \<Rightarrow> string \<Rightarrow> string" where
  "trim cs s = trim_right cs (trim_left cs s)"

lemma split_by_neq_Nil [simp]: "split_by p s \<noteq> []"
  by (induction s) (auto split: list.splits)

lemma split_by_no_sep: "list_all (\<lambda>c. \<not> p c) s \<Longrightarrow> split_by p s = [s]"
  by (induction s) auto

lemma split_by_append_sep:
  "list_all (\<lambda>c. \<not> p c) w \<Longrightarrow> p c \<Longrightarrow> split_by p (w @ c # s) = w # split_by p s"
  by (induction w) auto

lemma split_by_chars: "c \<in> set s \<Longrightarrow> p c \<or> (\<exists>w \<in> set (split_by p s). c \<in> set w)"
  by (induction s) (auto split: list.splits)

lemma split_on_chars: "c \<in> set s \<Longrightarrow> c = d \<or> (\<exists>w \<in> set (split_on d s). c \<in> set w)"
  unfolding split_on_def by (rule split_by_chars)

lemma split_on_append: "c \<notin> set w \<Longrightarrow> split_on c (w @ c # s) = w # split_on c s"
  unfolding split_on_def by (rule split_by_append_sep) (auto simp: list_all_iff)

lemma split_on_notin: "c \<notin> set w \<Longrightarrow> split_on c w = [w]"
  unfolding split_on_def by (rule split_by_no_sep) (auto simp: list_all_iff)

lemma sort_eq_Nil_iff [simp]: "sort xs = [] \<longleftrightarrow> xs = []"
  by (metis set_empty set_sort)

lemma split_by_join:
  "ws \<noteq> [] \<Longrightarrow> list_all (list_all (\<lambda>c. \<not> p c)) ws \<Longrightarrow> p c \<Longrightarrow> split_by p (join [c] ws) = ws"
  by (induction "[c]" ws rule: join.induct) (auto simp: split_by_no_sep split_by_append_sep)

lemma fields_by_join:
  assumes "list_all (list_all (\<lambda>c. \<not> p c)) ws" and "p c" and "[] \<notin> set ws"
  shows "fields_by p (join [c] ws) = ws"
proof (cases "ws = []")
  case False
  with assms show ?thesis by (auto simp: fields_by_def split_by_join intro: filter_True)
qed (simp add: fields_by_def)

lemma last_index_None_iff [simp]: "last_index c s = None \<longleftrightarrow> c \<notin> set s"
  by (induction s) (auto split: option.splits)

lemma last_index_notin [simp]: "c \<notin> set s \<Longrightarrow> last_index c s = None"
  by simp

lemma last_index_Some:
  "last_index c s = Some i \<Longrightarrow> i < length s \<and> s ! i = c \<and> c \<notin> set (drop (Suc i) s)"
  by (induction s arbitrary: i) (auto split: option.splits if_splits)

lemma last_index_split:
  assumes "last_index c s = Some i"
  shows "s = take i s @ c # drop (Suc i) s" "c \<notin> set (drop (Suc i) s)"
  using last_index_Some [OF assms] by (auto simp: id_take_nth_drop)

lemma last_index_drop: "last_index c s = Some i \<Longrightarrow> drop i s = c # drop (Suc i) s"
  using last_index_Some [of c s i] by (simp add: Cons_nth_drop_Suc [symmetric])

lemma last_index_append_notin:
  "c \<notin> set t \<Longrightarrow> last_index c (s @ c # t) = Some (length s)"
  by (induction s) auto

lemma contains_any_iff: "contains_any s cs \<longleftrightarrow> (\<exists>c \<in> set s. c \<in> set cs)"
  by (simp add: contains_any_def list_ex_iff)

lemma dropWhile_id: "s = [] \<or> \<not> p (hd s) \<Longrightarrow> dropWhile p s = s"
  by (cases s) auto

lemma trim_right_id: "s = [] \<or> last s \<notin> set cs \<Longrightarrow> trim_right cs s = s"
  unfolding trim_right_def by (subst dropWhile_id) (auto simp: hd_rev)

lemma trim_left_id: "s = [] \<or> hd s \<notin> set cs \<Longrightarrow> trim_left cs s = s"
  unfolding trim_left_def by (rule dropWhile_id) auto

lemma join_eq_Nil: "join sep ws = [] \<Longrightarrow> [] \<notin> set ws \<Longrightarrow> ws = []"
  by (cases "(sep, ws)" rule: join.cases) auto

lemma set_join: "set (join sep ws) \<subseteq> set sep \<union> (\<Union>w \<in> set ws. set w)"
  by (induction sep ws rule: join.induct) auto

section \<open>White space\<close>

text \<open>
  The encodings of the runes \<open>unicode.IsSpace\<close> accepts: the six ASCII blanks, U+0085,
  U+00A0 and the rest of White\_Space. \<open>strings.TrimSpace\<close> takes them off both ends;
  each is a complete UTF-8 sequence, so matching it as a prefix or as a suffix is what
  decoding the first or the last rune does.
\<close>

definition space_runes :: "string list" where
  "space_runes =
     [[CHR 0x09], [CHR 0x0A], [CHR 0x0B], [CHR 0x0C], [CHR 0x0D], [CHR 0x20],
      [CHR 0xC2, CHR 0x85], [CHR 0xC2, CHR 0xA0], [CHR 0xE1, CHR 0x9A, CHR 0x80]]
     @ map (\<lambda>n. [CHR 0xE2, CHR 0x80, char_of (n :: nat)]) ([0x80..<0x8B] @ [0xA8, 0xA9, 0xAF])
     @ [[CHR 0xE2, CHR 0x81, CHR 0x9F], [CHR 0xE3, CHR 0x80, CHR 0x80]]"

lemma drop_rune_shorter:
  "r \<noteq> [] \<Longrightarrow> take (length r) s = r \<Longrightarrow> length (drop (length r) s) < length s"
  by (cases r; cases s) auto

function drop_runes :: "string list \<Rightarrow> string \<Rightarrow> string" where
  "drop_runes rs s =
     (case find (\<lambda>r. r \<noteq> [] \<and> take (length r) s = r) rs of
        None \<Rightarrow> s
      | Some r \<Rightarrow> drop_runes rs (drop (length r) s))"
  by pat_completeness auto
termination
  by (relation "measure (\<lambda>(rs, s). length s)") (auto simp: find_Some_iff dest: drop_rune_shorter)

declare drop_runes.simps [simp del]

definition trim_space :: "string \<Rightarrow> string" where
  "trim_space s =
     rev (drop_runes (map rev space_runes) (rev (drop_runes space_runes s)))"

section \<open>Runes\<close>

text \<open>
  \<open>range\<close> over a string and \<open>[]rune\<close> decode UTF-8: a well-formed sequence is one rune
  (\<open>Rune\<close> with its bytes), any other byte is one \<open>utf8.RuneError\<close> of width 1 (\<open>Bad\<close>).
  \<open>rune_len\<close> is the table of \<open>unicode/utf8\<close>.
\<close>

datatype rune = Rune string | Bad char

definition cont_between :: "nat \<Rightarrow> nat \<Rightarrow> char \<Rightarrow> bool" where
  "cont_between lo hi c \<longleftrightarrow> lo \<le> byte_code c \<and> byte_code c \<le> hi"

abbreviation is_cont :: "char \<Rightarrow> bool" where
  "is_cont \<equiv> cont_between 0x80 0xBF"

definition second_range :: "nat \<Rightarrow> nat \<times> nat" where
  "second_range b =
     (if b = 0xE0 then (0xA0, 0xBF) else if b = 0xED then (0x80, 0x9F)
      else if b = 0xF0 then (0x90, 0xBF) else if b = 0xF4 then (0x80, 0x8F) else (0x80, 0xBF))"

fun rune_len :: "string \<Rightarrow> nat option" where
  "rune_len [] = None"
| "rune_len (c # cs) =
     (let b = byte_code c; (lo, hi) = second_range b
      in if b < 0x80 then Some 1
         else if 0xC2 \<le> b \<and> b \<le> 0xDF then
           (case cs of d # _ \<Rightarrow> if is_cont d then Some 2 else None | _ \<Rightarrow> None)
         else if 0xE0 \<le> b \<and> b \<le> 0xEF then
           (case cs of d # e # _ \<Rightarrow> if cont_between lo hi d \<and> is_cont e then Some 3 else None | _ \<Rightarrow> None)
         else if 0xF0 \<le> b \<and> b \<le> 0xF4 then
           (case cs of d # e # f # _ \<Rightarrow>
              if cont_between lo hi d \<and> is_cont e \<and> is_cont f then Some 4 else None | _ \<Rightarrow> None)
         else None)"

function runes :: "string \<Rightarrow> rune list" where
  "runes [] = []"
| "runes (c # cs) =
     (case rune_len (c # cs) of
        Some n \<Rightarrow> Rune (c # take (n - 1) cs) # runes (drop (n - 1) cs)
      | None \<Rightarrow> Bad c # runes cs)"
  by pat_completeness auto
termination by (relation "measure length") auto

definition rune_count :: "string \<Rightarrow> nat" where
  "rune_count s = length (runes s)"

text \<open>A rune written back as UTF-8: \<open>RuneError\<close> is U+FFFD.\<close>

fun rune_bytes :: "rune \<Rightarrow> string" where
  "rune_bytes (Rune bs) = bs"
| "rune_bytes (Bad c) = [CHR 0xEF, CHR 0xBF, CHR 0xBD]"

lemma rune_len_ascii: "is_ascii_char c \<Longrightarrow> rune_len (c # cs) = Some 1"
  by (simp add: is_ascii_char_def Let_def second_range_def)

lemma runes_ascii: "is_ascii s \<Longrightarrow> runes s = map (\<lambda>c. Rune [c]) s"
  by (induction s) (auto simp: is_ascii_def rune_len_ascii simp del: rune_len.simps)

lemma rune_count_ascii: "is_ascii s \<Longrightarrow> rune_count s = length s"
  by (simp add: rune_count_def runes_ascii)

lemma rune_count_le: "rune_count s \<le> length s"
  unfolding rune_count_def
proof (induction s rule: runes.induct)
  case (2 c cs)
  show ?case
  proof (cases "rune_len (c # cs)")
    case None
    with 2(1) [OF None] show ?thesis by (simp del: rune_len.simps)
  next
    case (Some n)
    then have "length (runes (drop (n - 1) cs)) \<le> length cs - (n - 1)"
      using 2(2) by simp
    with Some show ?thesis by (simp del: rune_len.simps)
  qed
qed simp

text \<open>A visible ASCII character is no white space, nor the end of any.\<close>

definition visible :: "char \<Rightarrow> bool" where
  "visible c \<longleftrightarrow> 0x21 \<le> byte_code c \<and> byte_code c \<le> 0x7E"

lemma drop_runes_keeps:
  assumes "\<forall>r \<in> set rs. r = [] \<or> \<not> visible (hd r)" "s = [] \<or> visible (hd s)"
  shows "drop_runes rs s = s"
proof -
  have "find (\<lambda>r. r \<noteq> [] \<and> take (length r) s = r) rs = None"
    unfolding find_None_iff
  proof (rule notI, elim exE conjE)
    fix r assume r: "r \<in> set rs" "r \<noteq> []" "take (length r) s = r"
    then have "s \<noteq> []" "hd s = hd r" by (metis take_Nil, metis hd_take length_greater_0_conv)
    with r assms show False by auto
  qed
  then show ?thesis by (subst drop_runes.simps) simp
qed

lemma space_runes_invisible:
  "\<forall>r \<in> set space_runes. r = [] \<or> \<not> visible (hd r)" "\<forall>r \<in> set (map rev space_runes). r = [] \<or> \<not> visible (hd r)"
  by (simp_all add: space_runes_def visible_def upt_rec)

lemma trim_space_visible:
  assumes "s \<noteq> []" "visible (hd s)" "visible (last s)"
  shows "trim_space s = s"
  using assms by (simp add: trim_space_def drop_runes_keeps [OF space_runes_invisible(1)]
      drop_runes_keeps [OF space_runes_invisible(2)] hd_rev)

text \<open>\<open>strings.HasPrefix\<close>, \<open>strings.HasSuffix\<close>.\<close>

definition has_prefix :: "string \<Rightarrow> string \<Rightarrow> bool" where
  "has_prefix p s \<longleftrightarrow> take (length p) s = p"

definition has_suffix :: "string \<Rightarrow> string \<Rightarrow> bool" where
  "has_suffix p s \<longleftrightarrow> length p \<le> length s \<and> drop (length s - length p) s = p"

lemma has_prefix_append [simp]: "has_prefix p (p @ s)"
  by (simp add: has_prefix_def)

lemma has_prefix_iff: "has_prefix p s \<longleftrightarrow> (\<exists>t. s = p @ t)"
  unfolding has_prefix_def by (metis append_eq_conv_conj append_take_drop_id)

section \<open>Header names\<close>

text \<open>
  \<open>textproto.CanonicalMIMEHeaderKey\<close>: a name of token characters gets an upper-case letter
  first and after each hyphen and lower case elsewhere; any other name is left as it is.
\<close>

definition token_char :: "char \<Rightarrow> bool" where
  "token_char c \<longleftrightarrow> is_lower c \<or> is_upper c \<or> is_digit c \<or> c \<in> set ''!#$%&*+-.^_`|~'' \<or> c = CHR 0x27"

definition upper_char :: "char \<Rightarrow> char" where
  "upper_char c = (if is_lower c then char_of (byte_code c - 32) else c)"

fun canon_from :: "bool \<Rightarrow> string \<Rightarrow> string" where
  "canon_from up [] = []"
| "canon_from up (c # cs) =
     (if up then upper_char c else lower_char c) # canon_from (c = CHR ''-'') cs"

definition canonical_key :: "string \<Rightarrow> string" where
  "canonical_key s = (if list_all token_char s then canon_from True s else s)"

lemma lower_upper_char [simp]: "lower_char (upper_char c) = lower_char c"
proof (cases "is_lower c")
  case True
  have "(byte_code c - 32) mod 256 = byte_code c - 32"
    by (rule mod_less) (use nat_of_char_less_256 [of c] in linarith)
  with True have "byte_code (upper_char c) = byte_code c - 32"
    by (simp add: upper_char_def)
  with True have "is_upper (upper_char c)" "byte_code (upper_char c) + 32 = byte_code c"
    by (auto simp: is_lower_def is_upper_def)
  then show ?thesis using True by (auto simp: lower_char_def is_upper_def is_lower_def)
qed (simp add: upper_char_def)

lemma ascii_lower_canon_from [simp]: "ascii_lower (canon_from up s) = ascii_lower s"
  by (induction up s rule: canon_from.induct) (auto simp: ascii_lower_def)

lemma ascii_lower_canonical_key: "ascii_lower (canonical_key s) = ascii_lower s"
  by (simp add: canonical_key_def)

lemma lower_char_letter:
  assumes "lower_char c = d" "is_lower d"
  shows "c = d \<or> c = upper_char d"
proof (cases "is_upper c")
  case True
  then have "byte_code d = byte_code c + 32"
    using byte_code_lower_char [of c] assms(1) by simp
  with assms(2) show ?thesis by (simp add: upper_char_def)
qed (use assms in \<open>simp add: lower_char_def\<close>)

text \<open>The three names the milters look for are found in any case, and nothing else is.\<close>

lemma letter_code_simps:
  "is_lower CHR ''f''" "is_lower CHR ''r''" "is_lower CHR ''o''" "is_lower CHR ''m''" "is_lower CHR ''s''"
  "is_lower CHR ''e''" "is_lower CHR ''n''" "is_lower CHR ''d''" "is_lower CHR ''u''" "is_lower CHR ''b''"
  "is_lower CHR ''j''" "is_lower CHR ''c''" "is_lower CHR ''t''"
  by (simp_all add: is_lower_def)

lemma canonical_key_From: "canonical_key s = ''From'' \<longleftrightarrow> ascii_lower s = ''from''"
proof
  assume "canonical_key s = ''From''"
  then have "ascii_lower s = ascii_lower ''From''" by (metis ascii_lower_canonical_key)
  then show "ascii_lower s = ''from''" by (simp, code_simp)
next
  assume "ascii_lower s = ''from''"
  then obtain a b c d where s: "s = [a, b, c, d]" and
    "lower_char a = CHR ''f''" "lower_char b = CHR ''r''" "lower_char c = CHR ''o''" "lower_char d = CHR ''m''"
    by (auto simp: ascii_lower_def map_eq_Cons_conv)
  then have "a = CHR ''f'' \<or> a = upper_char CHR ''f''" "b = CHR ''r'' \<or> b = upper_char CHR ''r''"
    "c = CHR ''o'' \<or> c = upper_char CHR ''o''" "d = CHR ''m'' \<or> d = upper_char CHR ''m''"
    using lower_char_letter letter_code_simps by blast+
  then show "canonical_key s = ''From''"
    unfolding s by (elim disjE; hypsubst; code_simp)
qed


section \<open>Decimal numbers\<close>

text \<open>\<open>strconv.Itoa\<close> of a number that is not negative.\<close>

fun show_nat :: "nat \<Rightarrow> string" where
  "show_nat n = (if n < 10 then [char_of (48 + n)] else show_nat (n div 10) @ [char_of (48 + n mod 10)])"

declare show_nat.simps [simp del]

section \<open>Times\<close>

text \<open>A time is the int of its nanoseconds; what is written RFC3339 keeps its whole seconds.\<close>

definition second :: int where "second = 1000000000"
definition minute :: int where "minute = 60 * second"
definition hour :: int where "hour = 60 * minute"

definition stamp :: "int \<Rightarrow> int" where "stamp now = now div second"

section \<open>Counting\<close>

lemma length_filter_mono: "(\<And>x. x \<in> set xs \<Longrightarrow> P x \<Longrightarrow> Q x) \<Longrightarrow> length (filter P xs) \<le> length (filter Q xs)"
  by (induction xs) auto

text \<open>A call whose result is known, with whatever state it leaves.\<close>

lemma call_result: "snd p = x \<Longrightarrow> p = (fst p, x)"
  by (cases p) simp

end
