(* ===== verification/Net_Addr.thy ===== *)
theory Net_Addr
  imports Prelude
begin

text \<open>
  What the code uses of the package \<open>net\<close>: \<open>net.ParseIP\<close> (\<open>parse_ip\<close>, over the IPv4 and
  IPv6 text forms \<open>netip.ParseAddr\<close> reads; a zone is refused), \<open>IP.Equal\<close> (equality of the
  16-byte form), \<open>IP.To4\<close>, and \<open>net.ParseCIDR\<close> with \<open>IPNet.Contains\<close>. An address is its list
  of 16 byte values; an IPv4 address is kept in its mapped form ::ffff:a.b.c.d.
\<close>

type_synonym ip = "nat list"

definition digit_val :: "char \<Rightarrow> nat option" where
  "digit_val c = (if is_digit c then Some (byte_code c - 48) else None)"

definition hex_val :: "char \<Rightarrow> nat option" where
  "hex_val c =
     (let b = byte_code c
      in if is_digit c then Some (b - 48)
         else if 97 \<le> b \<and> b \<le> 102 then Some (b - 87)
         else if 65 \<le> b \<and> b \<le> 70 then Some (b - 55)
         else None)"

fun decimal_from :: "nat \<Rightarrow> string \<Rightarrow> nat option" where
  "decimal_from n [] = Some n"
| "decimal_from n (c # cs) =
     (case digit_val c of None \<Rightarrow> None | Some d \<Rightarrow> decimal_from (10 * n + d) cs)"

text \<open>One field of a dotted quad: digits, no leading zero, at most 255.\<close>

definition octet :: "string \<Rightarrow> nat option" where
  "octet s =
     (if s = [] \<or> (length s > 1 \<and> hd s = CHR ''0'') then None
      else (case decimal_from 0 s of
              Some n \<Rightarrow> if n \<le> 255 then Some n else None
            | None \<Rightarrow> None))"

definition ipv4_fields :: "string \<Rightarrow> nat list option" where
  "ipv4_fields s =
     (case map octet (split_on CHR ''.'' s) of
        [Some a, Some b, Some c, Some d] \<Rightarrow> Some [a, b, c, d]
      | _ \<Rightarrow> None)"

definition v4_prefix :: "nat list" where
  "v4_prefix = replicate 10 0 @ [255, 255]"

text \<open>The hexadecimal digits in front: their value and the rest; more than four fail.\<close>

fun hex_group :: "nat \<Rightarrow> nat \<Rightarrow> string \<Rightarrow> (nat \<times> nat \<times> string) option" where
  "hex_group off acc [] = Some (off, acc, [])"
| "hex_group off acc (c # cs) =
     (case hex_val c of
        None \<Rightarrow> Some (off, acc, c # cs)
      | Some d \<Rightarrow> if off > 3 then None else hex_group (off + 1) (16 * acc + d) cs)"

text \<open>
  The loop of the IPv6 parser: \<open>bytes\<close> read so far, where the ellipsis was, and what is left of
  the string; \<open>fuel\<close> bounds the groups (a ninth is never read: the loop ends at 16 bytes).
\<close>

fun ipv6_loop :: "nat \<Rightarrow> nat list \<Rightarrow> nat option \<Rightarrow> string \<Rightarrow> (nat list \<times> nat option \<times> string) option" where
  "ipv6_loop 0 bytes ell s = Some (bytes, ell, s)"
| "ipv6_loop (Suc fuel) bytes ell s =
     (case hex_group 0 0 s of
        None \<Rightarrow> None
      | Some (off, acc, rest) \<Rightarrow>
          (if off = 0 then None
           else if rest \<noteq> [] \<and> hd rest = CHR ''.'' then
             (if (ell = None \<and> length bytes \<noteq> 12) \<or> length bytes + 4 > 16 then None
              else (case ipv4_fields s of
                      None \<Rightarrow> None
                    | Some q \<Rightarrow> Some (bytes @ q, ell, [])))
           else
             (let bytes' = bytes @ [acc div 256, acc mod 256]
              in case rest of
                   [] \<Rightarrow> Some (bytes', ell, [])
                 | c # cs \<Rightarrow>
                     (if c \<noteq> CHR '':'' \<or> cs = [] then None
                      else if hd cs = CHR '':'' then
                        (if ell \<noteq> None then None
                         else if tl cs = [] then Some (bytes', Some (length bytes'), [])
                         else ipv6_loop fuel bytes' (Some (length bytes')) (tl cs))
                      else ipv6_loop fuel bytes' ell cs))))"

definition ipv6_bytes :: "string \<Rightarrow> nat list option" where
  "ipv6_bytes s =
     (let (ell0, s0) = (if take 2 s = ''::'' then (Some 0, drop 2 s) else (None, s))
      in if ell0 = Some 0 \<and> s0 = [] then Some (replicate 16 0)
         else (case ipv6_loop 8 [] ell0 s0 of
           None \<Rightarrow> None
         | Some (bytes, ell, rest) \<Rightarrow>
             (if rest \<noteq> [] then None
              else if length bytes < 16 then
                (case ell of
                   None \<Rightarrow> None
                 | Some e \<Rightarrow> Some (take e bytes @ replicate (16 - length bytes) 0 @ drop e bytes))
              else if ell \<noteq> None then None
              else Some bytes)))"

text \<open>The first of \<open>.\<close>, \<open>:\<close> and \<open>%\<close> decides the form; an IPv6 zone makes \<open>ParseIP\<close> nil.\<close>

definition parse_ip :: "string \<Rightarrow> ip option" where
  "parse_ip s =
     (case find (\<lambda>c. c \<in> set ''.:%'') s of
        None \<Rightarrow> None
      | Some c \<Rightarrow>
          (if c = CHR ''.'' then map_option (\<lambda>q. v4_prefix @ q) (ipv4_fields s)
           else if c = CHR '':'' \<and> CHR ''%'' \<notin> set s then ipv6_bytes s
           else None))"

definition is_v4 :: "ip \<Rightarrow> bool" where
  "is_v4 a \<longleftrightarrow> take 12 a = v4_prefix"

text \<open>\<open>net.ParseCIDR\<close>: the address, whether it was written as IPv4, and the prefix length.\<close>

definition parse_cidr :: "string \<Rightarrow> (ip \<times> bool \<times> nat) option" where
  "parse_cidr s =
     (case index_of CHR ''/'' s of
        None \<Rightarrow> None
      | Some i \<Rightarrow>
          (let addr = take i s; mask = drop (i + 1) s; four = CHR '':'' \<notin> set addr
           in case parse_ip addr of
                None \<Rightarrow> None
              | Some a \<Rightarrow>
                  (case (if mask = [] then None else decimal_from 0 mask) of
                     None \<Rightarrow> None
                   | Some n \<Rightarrow> if n \<le> (if four then 32 else 128) then Some (a, four, n) else None)))"

text \<open>The first \<open>n\<close> bits of two equally long byte lists agree.\<close>

fun bits_agree :: "nat \<Rightarrow> nat list \<Rightarrow> nat list \<Rightarrow> bool" where
  "bits_agree n [] ys = True"
| "bits_agree n (x # xs) [] = True"
| "bits_agree n (x # xs) (y # ys) =
     (if n \<ge> 8 then x = y \<and> bits_agree (n - 8) xs ys
      else x div 2 ^ (8 - n) = y div 2 ^ (8 - n))"

text \<open>
  \<open>IPNet.Contains\<close>: the number and the mask are cut to four bytes when the masked address is
  IPv4; an address of the other family is not contained.
\<close>

fun mask_bytes :: "nat \<Rightarrow> nat list \<Rightarrow> nat list" where
  "mask_bytes n [] = []"
| "mask_bytes n (x # xs) =
     (if n \<ge> 8 then x # mask_bytes (n - 8) xs
      else (x div 2 ^ (8 - n) * 2 ^ (8 - n)) # mask_bytes 0 xs)"

definition cidr_contains :: "ip \<times> bool \<times> nat \<Rightarrow> ip \<Rightarrow> bool" where
  "cidr_contains net a =
     (let (base, four, n) = net
      in if four then is_v4 a \<and> bits_agree n (drop 12 base) (drop 12 a)
         else (let nn = mask_bytes n base
               in if is_v4 nn then is_v4 a \<and> bits_agree (n - 96) (drop 12 nn) (drop 12 a)
                  else \<not> is_v4 a \<and> bits_agree n nn a))"

lemma ipv4_fields_length: "ipv4_fields s = Some q \<Longrightarrow> length q = 4 \<and> (\<forall>b \<in> set q. b \<le> 255)"
  by (auto simp: ipv4_fields_def octet_def split: list.splits option.splits if_splits)


section \<open>IP.String\<close>

definition hex_digit :: "nat \<Rightarrow> char" where
  "hex_digit n = (if n < 10 then char_of (48 + n) else char_of (87 + n))"

fun show_hex :: "nat \<Rightarrow> string" where
  "show_hex n = (if n < 16 then [hex_digit n] else show_hex (n div 16) @ [hex_digit (n mod 16)])"

declare show_hex.simps [simp del]

fun ipv6_groups :: "nat list \<Rightarrow> nat list" where
  "ipv6_groups (x # y # bs) = (256 * x + y) # ipv6_groups bs"
| "ipv6_groups _ = []"

definition zero_run :: "nat list \<Rightarrow> nat" where
  "zero_run gs = length (takeWhile (\<lambda>g. g = 0) gs)"

text \<open>Where the longest run of at least two zero groups starts, the first of equals, and its length.\<close>

fun best_run :: "nat \<Rightarrow> nat list \<Rightarrow> nat \<times> nat \<Rightarrow> nat \<times> nat" where
  "best_run i [] best = best"
| "best_run i (g # gs) best =
     (let l = zero_run (g # gs)
      in best_run (i + 1) gs (if l \<ge> 2 \<and> l > snd best then (i, l) else best))"

definition ipv6_string :: "nat list \<Rightarrow> string" where
  "ipv6_string gs =
     (let (start, len) = best_run 0 gs (0, 0)
      in if len = 0 then join '':'' (map show_hex gs)
         else join '':'' (map show_hex (take start gs)) @ ''::'' @
              join '':'' (map show_hex (drop (start + len) gs)))"

definition ip_string :: "ip \<Rightarrow> string" where
  "ip_string a =
     (if is_v4 a then join ''.'' (map show_nat (drop 12 a)) else ipv6_string (ipv6_groups a))"

end
