(* ===== verification/Validators.thy ===== *)
theory Validators
  imports Net_Addr
begin

text \<open>
  The server-side checks of what a form submits: \<open>internal/web/validate\<close> (user names,
  passwords, domains, selectors, mailboxes), \<open>internal/app/validate.go\<close> (SASL logins, sender
  addresses) and \<open>internal/inbound/validate.go\<close> (upstream hosts, ports, mailboxes). Each
  returns \<open>None\<close> for the nil error. A check that ranges over runes and accepts ASCII only is
  written over bytes: every byte of a rune outside ASCII is outside ASCII.
\<close>

named_theorems validator_defs \<open>definitions of the checks\<close>

datatype verror =
    Msg string
  | Quoted string string
  | Wrap string verror

definition letter_or_digit :: "char \<Rightarrow> bool" where
  "letter_or_digit c \<longleftrightarrow> is_lower c \<or> is_upper c \<or> is_digit c"

fun first_error :: "('a \<Rightarrow> 'e option) \<Rightarrow> 'a list \<Rightarrow> 'e option" where
  "first_error f [] = None"
| "first_error f (x # xs) = (case f x of Some e \<Rightarrow> Some e | None \<Rightarrow> first_error f xs)"

lemma first_error_None [simp]: "first_error f xs = None \<longleftrightarrow> (\<forall>x \<in> set xs. f x = None)"
  by (induction xs) (auto split: option.splits)

section \<open>internal/web/validate\<close>

definition min_admin_password_len :: nat where "min_admin_password_len = 12"
definition min_secret_file_password_len :: nat where "min_secret_file_password_len = min_admin_password_len"
definition max_password_bytes :: nat where "max_password_bytes = 72"

definition username_check :: "string \<Rightarrow> verror option" where
  "username_check u =
     (if length u < 3 \<or> length u > 64 then Some (Msg ''username must be 3-64 characters'')
      else if list_all (\<lambda>r. letter_or_digit r \<or> r \<in> set ''.-_'') u then None
      else Some (Msg (''username may contain only letters, digits, '.', '-' and '_'' @ [CHR 0x27])))"

definition admin_password_check :: "string \<Rightarrow> verror option" where
  "admin_password_check p =
     (if rune_count p < min_admin_password_len then Some (Msg ''password must be at least 12 characters'')
      else if length p > max_password_bytes
        then Some (Msg ''password must be at most 72 bytes (the hashing algorithm's limit)'')
      else None)"

definition secret_file_password_check :: "string \<Rightarrow> verror option" where
  "secret_file_password_check p =
     (if rune_count p < min_secret_file_password_len then Some (Msg ''password must be at least 12 characters'')
      else if length p > max_password_bytes then Some (Msg ''password must be at most 72 bytes'')
      else None)"

definition normalize_domain :: "(string \<Rightarrow> string) \<Rightarrow> string \<Rightarrow> string" where
  "normalize_domain ul name = to_lower ul (trim_space name)"

definition label_char :: "char \<Rightarrow> bool" where
  "label_char c \<longleftrightarrow> is_lower c \<or> is_digit c \<or> c = CHR ''-''"

definition domain_label :: "string \<Rightarrow> verror option" where
  "domain_label label =
     (if length label = 0 then Some (Msg ''domain must not contain an empty label'')
      else if length label > 63 then Some (Msg ''each domain label must be at most 63 characters'')
      else if hd label = CHR ''-'' \<or> last label = CHR ''-''
        then Some (Msg (''domain labels must not start or end with '-'' @ [CHR 0x27]))
      else if list_all label_char label then None
      else Some (Msg (''domain may contain only lower-case letters, digits, '.' and '-'' @ [CHR 0x27])))"

definition domain_check :: "string \<Rightarrow> verror option" where
  "domain_check name =
     (if name = [] then Some (Msg ''domain is required'')
      else if length name > 253 then Some (Msg ''domain must be at most 253 characters'')
      else (let labels = split_on CHR ''.'' name
            in if length labels < 2
                 then Some (Msg ''domain must include at least one dot (e.g. example.com)'')
               else first_error domain_label labels))"

definition selector_check :: "string \<Rightarrow> verror option" where
  "selector_check s =
     (if s = [] then Some (Msg ''selector is required'')
      else if length s > 63 then Some (Msg ''selector must be at most 63 characters'')
      else map_option (Wrap ''selector'') (first_error domain_label (split_on CHR ''.'' s)))"

definition freemail_domains :: "string list" where
  "freemail_domains =
     [''gmail.com'', ''googlemail.com'', ''outlook.com'', ''hotmail.com'', ''live.com'',
      ''yahoo.com'', ''icloud.com'', ''me.com'', ''proton.me'', ''protonmail.com'']"

definition mailbox_char :: "char \<Rightarrow> bool" where
  "mailbox_char c \<longleftrightarrow> letter_or_digit c \<or> c \<in> set ''.-_+''"

text \<open>The loop over the local part: the first rune that is refused decides the message.\<close>

fun local_runes :: "string \<Rightarrow> verror option" where
  "local_runes [] = None"
| "local_runes (r # rs) =
     (if \<not> is_ascii_char r then Some (Msg ''email address must be ASCII'')
      else if \<not> mailbox_char r then Some (Msg ''email address contains invalid characters'')
      else local_runes rs)"

definition email_address :: "(string \<Rightarrow> string) \<Rightarrow> string \<Rightarrow> bool \<Rightarrow> verror option" where
  "email_address ul raw public_hosts =
     (let addr = trim_space raw
      in if addr = [] then None
         else (case last_index CHR ''@'' addr of
           None \<Rightarrow> Some (Msg ''enter a valid email address'')
         | Some pos \<Rightarrow>
             (if pos = 0 \<or> pos \<ge> length addr - 1 then Some (Msg ''enter a valid email address'')
              else (let local = take pos addr; domain = normalize_domain ul (drop (pos + 1) addr)
                in if hd local = CHR ''-'' then Some (Msg (''email address must not begin with '-'' @ [CHR 0x27]))
                   else (case domain_check domain of
                     Some e \<Rightarrow> Some (Wrap ''email domain is invalid'' e)
                   | None \<Rightarrow>
                       (case local_runes local of
                          Some e \<Rightarrow> Some e
                        | None \<Rightarrow>
                            (if domain \<in> set freemail_domains \<and> \<not> public_hosts then
                               Some (Msg ''use an address on a domain you control; public mail hosts cannot receive authorised DMARC reports'')
                             else None)))))))"

definition account_email :: "(string \<Rightarrow> string) \<Rightarrow> string \<Rightarrow> verror option" where
  "account_email ul addr = email_address ul addr True"

definition email_check :: "(string \<Rightarrow> string) \<Rightarrow> string \<Rightarrow> verror option" where
  "email_check ul addr = email_address ul addr False"

section \<open>internal/app/validate.go\<close>

datatype address_mode = Wildcard | Address_list

text \<open>A submitted mode is any string; the two known ones are the store's.\<close>

definition mode_of :: "string \<Rightarrow> address_mode option" where
  "mode_of m = (if m = ''wildcard'' then Some Wildcard else if m = ''list'' then Some Address_list else None)"

definition fold_login :: "(string \<Rightarrow> string) \<Rightarrow> string \<Rightarrow> string" where
  "fold_login ul login = to_lower ul login"

definition login_char :: "char \<Rightarrow> bool" where
  "login_char c \<longleftrightarrow> letter_or_digit c \<or> c \<in> set ''.-_''"

definition validate_login :: "string \<Rightarrow> verror option" where
  "validate_login login =
     (if length login < 3 \<or> length login > 64 then Some (Msg ''login must be 3-64 characters'')
      else if list_all login_char login then None
      else Some (Msg (''login may contain only letters, digits, '.', '-' and '_'' @ [CHR 0x27])))"

definition validate_imported_password :: "string \<Rightarrow> verror option" where
  "validate_imported_password p =
     (if p = [] then Some (Msg ''imported application password is empty'')
      else if length p > 1024 then Some (Msg ''imported application password is too long'')
      else if list_ex (\<lambda>r. byte_code r < 0x20 \<or> byte_code r = 0x7F) p
        then Some (Msg ''imported application password contains control characters'')
      else None)"

definition validate_address_mode :: "string \<Rightarrow> verror option" where
  "validate_address_mode mode = (if mode_of mode = None then Some (Msg ''invalid address mode'') else None)"

definition normalize_address :: "(string \<Rightarrow> string) \<Rightarrow> string \<Rightarrow> string" where
  "normalize_address ul addr = to_lower ul (trim_space addr)"

definition local_char :: "char \<Rightarrow> bool" where
  "local_char c \<longleftrightarrow> is_lower c \<or> is_digit c \<or> c \<in> set ''.-_+''"

definition validate_local_part :: "string \<Rightarrow> verror option" where
  "validate_local_part local =
     (if local = [] then Some (Msg (''missing the part before '@'' @ [CHR 0x27]))
      else if hd local = CHR ''.'' \<or> last local = CHR ''.''
        then Some (Msg (''local part must not start or end with '.'' @ [CHR 0x27]))
      else if list_all local_char local then None
      else Some (Msg (''local part may contain only lower-case letters, digits, '.', '-', '_' and '+'' @ [CHR 0x27])))"

definition validate_sender_address :: "string \<Rightarrow> string \<Rightarrow> verror option" where
  "validate_sender_address addr domain =
     (case last_index CHR ''@'' addr of
        None \<Rightarrow> Some (Quoted addr ''is not a valid email address'')
      | Some pos \<Rightarrow>
          (if drop (pos + 1) addr \<noteq> domain then Some (Quoted addr (''does not belong to domain '' @ domain))
           else map_option (Wrap addr) (validate_local_part (take pos addr))))"

text \<open>The loop of \<open>parseAddresses\<close>: \<open>out\<close> holds each accepted address once, in order.\<close>

fun parse_address_loop ::
  "(string \<Rightarrow> string) \<Rightarrow> string \<Rightarrow> string list \<Rightarrow> string list \<Rightarrow> verror + string list" where
  "parse_address_loop ul domain out [] = Inr out"
| "parse_address_loop ul domain out (r # rs) =
     (let addr = normalize_address ul r
      in if addr = [] then parse_address_loop ul domain out rs
         else (case validate_sender_address addr domain of
                 Some e \<Rightarrow> Inl e
               | None \<Rightarrow>
                   parse_address_loop ul domain (if addr \<in> set out then out else out @ [addr]) rs))"

definition parse_addresses :: "(string \<Rightarrow> string) \<Rightarrow> string list \<Rightarrow> string \<Rightarrow> verror + string list" where
  "parse_addresses ul raw domain =
     (case parse_address_loop ul domain [] raw of
        Inl e \<Rightarrow> Inl e
      | Inr out \<Rightarrow> if out = [] then Inl (Msg ''list mode requires at least one address'') else Inr out)"

section \<open>internal/inbound/validate.go\<close>

definition normalize_host :: "(string \<Rightarrow> string) \<Rightarrow> string \<Rightarrow> string" where
  "normalize_host ul raw =
     (let host = to_lower ul (trim_space raw)
      in if host \<noteq> [] \<and> hd host = CHR ''['' \<and> last host = CHR '']'' \<and> length host \<ge> 2
           then butlast (tl host) else host)"

definition check_label :: "string \<Rightarrow> verror option" where
  "check_label label =
     (if length label = 0 then Some (Msg ''must not contain an empty label'')
      else if length label > 63 then Some (Msg ''each label must be at most 63 characters'')
      else if hd label = CHR ''-'' \<or> last label = CHR ''-''
        then Some (Msg (''labels must not start or end with '-'' @ [CHR 0x27]))
      else if list_all label_char label then None
      else Some (Msg (''may contain only lower-case letters, digits, '.' and '-'' @ [CHR 0x27])))"

definition check_inbound_domain :: "string \<Rightarrow> verror option" where
  "check_inbound_domain name =
     (if name = [] then Some (Msg ''domain is required'')
      else if length name > 253 then Some (Msg ''domain must be at most 253 characters'')
      else (let labels = split_on CHR ''.'' name
            in if length labels < 2
                 then Some (Msg ''domain must include at least one dot (e.g. example.com)'')
               else first_error check_label labels))"

definition check_host :: "string \<Rightarrow> verror option" where
  "check_host host =
     (if host = [] then Some (Msg ''host is required'')
      else if length host > 253 then Some (Msg ''host must be at most 253 characters'')
      else if parse_ip host \<noteq> None then None
      else map_option (Wrap ''host is invalid'') (first_error check_label (split_on CHR ''.'' host)))"

text \<open>
  \<open>strconv.Atoi\<close>: an optional sign and decimal digits; \<open>None\<close> for no digits or any other byte.
  A number past 64 bits is its error, and is past 65535 here all the same.
\<close>

definition atoi :: "string \<Rightarrow> int option" where
  "atoi s =
     (let (neg, ds) = (case s of
          [] \<Rightarrow> (False, [])
        | c # cs \<Rightarrow> if c = CHR ''-'' then (True, cs) else if c = CHR ''+'' then (False, cs) else (False, s))
      in if ds = [] then None
         else map_option (\<lambda>n. if neg then - int n else int n) (decimal_from 0 ds))"

definition parse_port :: "string \<Rightarrow> verror + nat" where
  "parse_port raw0 =
     (let raw = trim_space raw0
      in if raw = [] then Inl (Msg ''port is required'')
         else (case atoi raw of
                 None \<Rightarrow> Inl (Msg ''port must be between 1 and 65535'')
               | Some n \<Rightarrow>
                   if n < 1 \<or> n > 65535 then Inl (Msg ''port must be between 1 and 65535'')
                   else Inr (nat n)))"

definition check_tls_mode :: "string \<Rightarrow> verror option" where
  "check_tls_mode mode =
     (if mode \<in> {''may'', ''encrypt'', ''secure'', ''none''} then None else Some (Msg ''invalid TLS mode''))"

definition check_secure_host :: "string \<Rightarrow> string \<Rightarrow> verror option" where
  "check_secure_host host mode =
     (if mode = ''secure'' \<and> parse_ip host \<noteq> None then
        Some (Msg ''Verified TLS checks the upstream's certificate against its name: give the upstream by name, not by address'')
      else None)"

definition check_recipient_mode :: "string \<Rightarrow> verror option" where
  "check_recipient_mode mode =
     (if mode \<in> {''list'', ''any''} then None else Some (Msg ''invalid recipient mode''))"

definition check_mailbox :: "string \<Rightarrow> string \<Rightarrow> verror option" where
  "check_mailbox addr domain =
     (case last_index CHR ''@'' addr of
        None \<Rightarrow> Some (Quoted addr ''is not a valid email address'')
      | Some pos \<Rightarrow>
          (let local = take pos addr; host = drop (pos + 1) addr
           in if pos = 0 \<or> pos \<ge> length addr - 1 then Some (Quoted addr ''is not a valid email address'')
              else if host \<noteq> domain then Some (Quoted addr (''does not belong to domain '' @ domain))
              else if local = [] \<or> hd local = CHR ''.'' \<or> last local = CHR ''.''
                then Some (Quoted addr ''invalid local part'')
              else if list_all local_char local then None
              else Some (Quoted addr ''local part contains invalid characters'')))"

section \<open>What a checked value is\<close>

definition domain_char :: "char \<Rightarrow> bool" where
  "domain_char c \<longleftrightarrow> label_char c \<or> c = CHR ''.''"

lemma domain_label_None:
  "domain_label l = None \<longleftrightarrow>
     l \<noteq> [] \<and> length l \<le> 63 \<and> hd l \<noteq> CHR ''-'' \<and> last l \<noteq> CHR ''-'' \<and> (\<forall>c \<in> set l. label_char c)"
  by (auto simp: domain_label_def list_all_iff)

lemma check_label_None: "check_label l = None \<longleftrightarrow> domain_label l = None"
  by (auto simp: check_label_def domain_label_def)

lemma check_inbound_domain_None: "check_inbound_domain d = None \<longleftrightarrow> domain_check d = None"
  by (auto simp: check_inbound_domain_def domain_check_def Let_def check_label_None)

lemma labels_chars:
  assumes "\<forall>l \<in> set (split_on CHR ''.'' d). domain_label l = None"
  shows "\<forall>c \<in> set d. domain_char c"
  using split_on_chars [of _ d "CHR ''.''"] assms by (fastforce simp: domain_label_None domain_char_def)

lemma split_on_Cons_sep: "split_on c (c # s) = [] # split_on c s"
  by (simp add: split_on_def)

lemma domain_check_None:
  assumes "domain_check d = None"
  shows "d \<noteq> []" "length d \<le> 253" "\<forall>c \<in> set d. domain_char c"
    "CHR ''.'' \<in> set d" "hd d \<noteq> CHR ''.''" "\<forall>l \<in> set (split_on CHR ''.'' d). domain_label l = None"
proof -
  from assms show "d \<noteq> []" "length d \<le> 253"
    and l: "\<forall>l \<in> set (split_on CHR ''.'' d). domain_label l = None"
    by (auto simp: domain_check_def Let_def split: if_splits)
  from labels_chars [OF l] show "\<forall>c \<in> set d. domain_char c" .
  show "CHR ''.'' \<in> set d"
  proof (rule ccontr)
    assume "CHR ''.'' \<notin> set d"
    then have "split_on CHR ''.'' d = [d]" by (rule split_on_notin)
    with assms show False by (auto simp: domain_check_def split: if_splits)
  qed
  show "hd d \<noteq> CHR ''.''"
  proof
    assume "hd d = CHR ''.''"
    with \<open>d \<noteq> []\<close> have "d = CHR ''.'' # tl d" by (cases d) auto
    then have "[] \<in> set (split_on CHR ''.'' d)" by (metis split_on_Cons_sep list.set_intros(1))
    with l show False by (auto simp: domain_label_None)
  qed
qed

lemma domain_char_facts:
  "domain_char c \<Longrightarrow> is_ascii_char c \<and> lower_char c = c \<and>
     c \<notin> {CHR '' '', CHR 0x09, CHR 0x0A, CHR 0x0D, CHR '','', CHR '':'', CHR 0x5C, CHR 0x22, CHR ''@'', CHR ''#'', CHR ''/''}"
  by (auto simp: domain_char_def label_char_def is_lower_def is_digit_def is_ascii_char_def lower_char_def is_upper_def)

lemma local_char_facts:
  "local_char c \<Longrightarrow> is_ascii_char c \<and> lower_char c = c \<and>
     c \<notin> {CHR '' '', CHR 0x09, CHR 0x0A, CHR 0x0D, CHR '','', CHR '':'', CHR 0x5C, CHR 0x22, CHR ''@'', CHR ''#''}"
  by (auto simp: local_char_def is_lower_def is_digit_def is_ascii_char_def lower_char_def is_upper_def)

lemma login_char_facts:
  "login_char c \<Longrightarrow> is_ascii_char c \<and>
     c \<notin> {CHR '' '', CHR 0x09, CHR 0x0A, CHR 0x0D, CHR '','', CHR '':'', CHR 0x5C, CHR ''@''}"
  by (auto simp: login_char_def letter_or_digit_def is_lower_def is_digit_def is_upper_def is_ascii_char_def)

lemma validate_login_None:
  "validate_login l = None \<longleftrightarrow> 3 \<le> length l \<and> length l \<le> 64 \<and> (\<forall>c \<in> set l. login_char c)"
  by (auto simp: validate_login_def list_all_iff)

lemma validate_local_part_None:
  "validate_local_part l = None \<longleftrightarrow>
     l \<noteq> [] \<and> hd l \<noteq> CHR ''.'' \<and> last l \<noteq> CHR ''.'' \<and> (\<forall>c \<in> set l. local_char c)"
  by (auto simp: validate_local_part_def list_all_iff)

lemma validate_sender_address_None:
  assumes "validate_sender_address a d = None"
  shows "\<exists>l. a = l @ CHR ''@'' # d \<and> CHR ''@'' \<notin> set d \<and> validate_local_part l = None"
proof -
  from assms obtain i where i: "last_index CHR ''@'' a = Some i" and d: "drop (i + 1) a = d"
    and l: "validate_local_part (take i a) = None"
    by (cases "last_index CHR ''@'' a") (auto simp: validate_sender_address_def split: if_splits)
  with last_index_split [OF i] show ?thesis by auto
qed

lemma parse_address_loop_Inr:
  assumes "parse_address_loop ul d out raw = Inr out'" "distinct out"
    and "\<forall>a \<in> set out. validate_sender_address a d = None"
  shows "distinct out' \<and> (\<forall>a \<in> set out'. validate_sender_address a d = None) \<and>
         set out' = set out \<union> {normalize_address ul r | r. r \<in> set raw \<and> normalize_address ul r \<noteq> []}"
  using assms
proof (induction raw arbitrary: out)
  case (Cons r rs)
  show ?case
  proof (cases "normalize_address ul r = []")
    case True
    with Cons show ?thesis by auto
  next
    case False
    with Cons.prems(1) have v: "validate_sender_address (normalize_address ul r) d = None"
      and c: "parse_address_loop ul d
        (if normalize_address ul r \<in> set out then out else out @ [normalize_address ul r]) rs = Inr out'"
      by (auto simp: Let_def split: option.splits)
    have "distinct (if normalize_address ul r \<in> set out then out else out @ [normalize_address ul r])"
      "\<forall>a \<in> set (if normalize_address ul r \<in> set out then out else out @ [normalize_address ul r]).
         validate_sender_address a d = None"
      using Cons.prems v by auto
    from Cons.IH [OF c this] False show ?thesis by (auto split: if_splits)
  qed
qed auto

lemma parse_addresses_Inr:
  assumes "parse_addresses ul raw d = Inr out"
  shows "out \<noteq> [] \<and> distinct out \<and> (\<forall>a \<in> set out. validate_sender_address a d = None) \<and>
         set out = {normalize_address ul r | r. r \<in> set raw \<and> normalize_address ul r \<noteq> []}"
  using assms parse_address_loop_Inr [of ul d "[]" raw]
  by (auto simp: parse_addresses_def split: sum.splits if_splits)

section \<open>What passes\<close>

text \<open>
  The panel has two readings of a domain name - \<open>validate.Domain\<close> for one it sends as and
  \<open>inbound.checkDomain\<close> for one it receives for - and they accept the same names.
\<close>

theorem domain_checks_agree:
  "check_inbound_domain d = None \<longleftrightarrow> domain_check d = None"
  by (rule check_inbound_domain_None)

text \<open>
  The addresses accepted for an application are all the ones typed, once each after folding,
  each with a local part of the allowed characters in the application's own domain; a login that
  passes has 3 to 64 characters, none of which means anything to the files it is written to.
\<close>

theorem accepted_addresses:
  assumes "parse_addresses ul raw d = Inr out"
  shows "out \<noteq> [] \<and> distinct out \<and>
    set out = {normalize_address ul r | r. r \<in> set raw \<and> normalize_address ul r \<noteq> []} \<and>
    (\<forall>a \<in> set out. \<exists>l. a = l @ CHR ''@'' # d \<and> l \<noteq> [] \<and> (\<forall>c \<in> set l. local_char c))"
  using parse_addresses_Inr [OF assms] validate_sender_address_None validate_local_part_None by metis

lemma accepted_addresses_witness:
  "distinct [''x@a.io'', ''y@a.io''] \<and> set [''x@a.io'', ''y@a.io''] =
     {normalize_address id r | r. r \<in> set ['' X@a.io'', ''y@A.io'', [], ''x@a.io''] \<and> normalize_address id r \<noteq> []}"
proof -
  have "parse_addresses id ['' X@a.io'', ''y@A.io'', [], ''x@a.io''] ''a.io'' = Inr [''x@a.io'', ''y@a.io'']" by code_simp
  from accepted_addresses [OF this] show ?thesis by blast
qed

end
