(* ===== verification/Sender_Map.thy ===== *)
theory Sender_Map
  imports Prelude
begin

text \<open>
  The table of sender bindings, from both of its ends. \<open>internal/postfix/postfix.go\<close>
  renders it from the registry's bindings (\<open>render_sender_login_maps\<close>, guarded by
  \<open>internal/configsafe\<close>), and \<open>internal/milter/sender.go\<close> reads the file the way
  Postfix does (\<open>parse_sender_map\<close>, \<open>split_table_line\<close>) and looks a sender up in it
  (\<open>allowed_in\<close>). The lemmas end in the round trip: what is parsed from the rendered
  file is the bindings' own relation between addresses and logins.
\<close>

section \<open>Rendering: internal/postfix\<close>

record binding =
  b_address :: string
  b_login :: string

datatype token_error =
    Empty_token string
  | Unsafe_token string string

text \<open>\<open>configsafe.Token\<close>: \<open>None\<close> is the nil error.\<close>

definition config_token :: "string \<Rightarrow> string \<Rightarrow> string \<Rightarrow> token_error option" where
  "config_token what v forbidden =
     (if v = [] then Some (Empty_token what)
      else if contains_any v forbidden then Some (Unsafe_token what v)
      else None)"

definition sender_map_address_forbidden :: string where
  "sender_map_address_forbidden =
     [CHR '' '', CHR 0x09, CHR 0x0D, CHR 0x0A, CHR '','', CHR '':'', CHR 0x5C]"

definition sender_map_login_forbidden :: string where
  "sender_map_login_forbidden =
     [CHR '' '', CHR 0x09, CHR 0x0D, CHR 0x0A, CHR '','', CHR '':'', CHR ''@'', CHR 0x5C]"

definition assert_map_safe :: "string \<Rightarrow> string \<Rightarrow> token_error option" where
  "assert_map_safe addr login =
     (case config_token ''address'' addr sender_map_address_forbidden of
        Some e \<Rightarrow> Some e
      | None \<Rightarrow> config_token ''login'' login sender_map_login_forbidden)"

definition append_unique :: "'a list \<Rightarrow> 'a \<Rightarrow> 'a list" where
  "append_unique xs v = (if v \<in> set xs then xs else xs @ [v])"

text \<open>The loop over the bindings: the map \<open>byAddr\<close> and the list \<open>order\<close> of its keys.\<close>

fun collect_bindings ::
  "(string \<Rightarrow> string) \<Rightarrow> binding list \<Rightarrow> (string \<rightharpoonup> string list) \<Rightarrow> string list \<Rightarrow>
   token_error + (string \<rightharpoonup> string list) \<times> string list" where
  "collect_bindings ul [] by_addr ord = Inr (by_addr, ord)"
| "collect_bindings ul (b # bs) by_addr ord =
     (case assert_map_safe (b_address b) (b_login b) of
        Some e \<Rightarrow> Inl e
      | None \<Rightarrow>
          (let addr = to_lower ul (b_address b);
               ord' = (case by_addr addr of None \<Rightarrow> ord @ [addr] | Some _ \<Rightarrow> ord);
               old = (case by_addr addr of None \<Rightarrow> [] | Some ls \<Rightarrow> ls)
           in collect_bindings ul bs (by_addr(addr \<mapsto> append_unique old (b_login b))) ord'))"

definition newline :: char where "newline = CHR 0x0A"

definition map_line :: "string \<Rightarrow> string list \<Rightarrow> string" where
  "map_line addr logins = addr @ '' '' @ join '','' (sort logins)"

definition render_sender_login_maps :: "(string \<Rightarrow> string) \<Rightarrow> binding list \<Rightarrow> token_error + string" where
  "render_sender_login_maps ul bs =
     (case collect_bindings ul bs Map.empty [] of
        Inl e \<Rightarrow> Inl e
      | Inr (by_addr, ord) \<Rightarrow>
          Inr (concat (map (\<lambda>a. map_line a (case by_addr a of None \<Rightarrow> [] | Some ls \<Rightarrow> ls) @ [newline])
                           (sort ord))))"

section \<open>Reading the file: internal/milter/sender.go\<close>

definition blanks :: string where "blanks = [CHR '' '', CHR 0x09]"

definition domain_of :: "(string \<Rightarrow> string) \<Rightarrow> string \<Rightarrow> string" where
  "domain_of ul addr =
     (case last_index CHR ''@'' addr of
        Some i \<Rightarrow> to_lower ul (drop (i + 1) addr)
      | None \<Rightarrow> [])"

text \<open>The first loop of \<open>parseSenderMap\<close>: comments and empty lines dropped, continuations joined.\<close>

fun logical_lines :: "string list \<Rightarrow> string list \<Rightarrow> string list" where
  "logical_lines acc [] = acc"
| "logical_lines acc (l # ls) =
     (let line = trim_right [CHR 0x0D] l; trimmed = trim_left blanks line
      in if trimmed = [] \<or> hd trimmed = CHR ''#'' then logical_lines acc ls
         else if length trimmed < length line \<and> acc \<noteq> []
           then logical_lines (butlast acc @ [last acc @ line]) ls
         else logical_lines (acc @ [trimmed]) ls)"

text \<open>
  The scan of \<open>splitTableLine\<close>: up to the first blank outside double quotes, a backslash
  taking the next byte with it. The result is whether the scan ended in quotes, the
  bytes passed (the key) and the rest.
\<close>

fun scan_key :: "bool \<Rightarrow> string \<Rightarrow> bool \<times> string \<times> string" where
  "scan_key q [] = (q, [], [])"
| "scan_key q (c # cs) =
     (if c = CHR 0x5C then
        (case cs of
           [] \<Rightarrow> (q, [c], [])
         | d # ds \<Rightarrow> (let (q', k, r) = scan_key q ds in (q', c # d # k, r)))
      else if c = CHR 0x22 then (let (q', k, r) = scan_key (\<not> q) cs in (q', c # k, r))
      else if c \<in> set blanks \<and> \<not> q then (q, [], c # cs)
      else (let (q', k, r) = scan_key q cs in (q', c # k, r)))"

definition split_table_line :: "string \<Rightarrow> (string \<times> string) option" where
  "split_table_line line =
     (let (in_quotes, key, rest) = scan_key False line; val = trim blanks rest
      in if in_quotes then None
         else if key \<noteq> [] \<and> val \<noteq> [] then Some (key, val) else None)"

record sender_table =
  tbl_logins :: "string \<rightharpoonup> string set"
  tbl_domains :: "string \<rightharpoonup> string"

definition empty_table :: sender_table where
  "empty_table = \<lparr>tbl_logins = Map.empty, tbl_domains = Map.empty\<rparr>"

definition owner_sep :: "char \<Rightarrow> bool" where
  "owner_sep c \<longleftrightarrow> c \<in> {CHR '','', CHR '' '', CHR 0x09, CHR 0x0D, CHR 0x0A}"

fun read_owners :: "(string \<Rightarrow> string) \<Rightarrow> string \<Rightarrow> string list \<Rightarrow> sender_table \<Rightarrow> sender_table" where
  "read_owners ul sender [] t = t"
| "read_owners ul sender (w # ws) t =
     (let l = to_lower ul w;
          owners = (case tbl_logins t sender of None \<Rightarrow> {} | Some s \<Rightarrow> s)
      in read_owners ul sender ws
           (t\<lparr>tbl_logins := (tbl_logins t)(sender \<mapsto> insert l owners),
              tbl_domains := (case tbl_domains t l of
                            None \<Rightarrow> (tbl_domains t)(l \<mapsto> domain_of ul sender)
                          | Some _ \<Rightarrow> tbl_domains t)\<rparr>))"

text \<open>The second loop: a key given twice makes the whole table unusable (\<open>Inl\<close> of the key).\<close>

fun read_lines :: "(string \<Rightarrow> string) \<Rightarrow> string list \<Rightarrow> sender_table \<Rightarrow> string + sender_table" where
  "read_lines ul [] t = Inr t"
| "read_lines ul (l # ls) t =
     (case split_table_line l of
        None \<Rightarrow> read_lines ul ls t
      | Some (key, val) \<Rightarrow>
          (let sender = to_lower ul key
           in if tbl_logins t sender \<noteq> None then Inl sender
              else read_lines ul ls
                     (read_owners ul sender (fields_by owner_sep val)
                        (t\<lparr>tbl_logins := (tbl_logins t)(sender \<mapsto> {})\<rparr>))))"

definition parse_sender_map :: "(string \<Rightarrow> string) \<Rightarrow> string list \<Rightarrow> string + sender_table" where
  "parse_sender_map ul ls = read_lines ul (logical_lines [] ls) empty_table"

section \<open>Looking a sender up\<close>

definition without_extension :: "string \<Rightarrow> string" where
  "without_extension addr =
     (case last_index CHR ''@'' addr of
        None \<Rightarrow> addr
      | Some pos \<Rightarrow>
          (case index_of CHR ''+'' (take pos addr) of
             Some i \<Rightarrow> if i > 0 then take i addr @ drop pos addr else addr
           | None \<Rightarrow> addr))"

text \<open>The keys \<open>Allowed\<close> tries, in order, for an address already in lower case.\<close>

definition candidate_keys :: "string \<Rightarrow> string list" where
  "candidate_keys addr =
     [addr]
     @ (let bare = without_extension addr in if bare \<noteq> addr then [bare] else [])
     @ (case last_index CHR ''@'' addr of
          Some pos \<Rightarrow> if pos < length addr - 1 then [drop pos addr] else []
        | None \<Rightarrow> [])"

fun first_owners :: "sender_table \<Rightarrow> string list \<Rightarrow> string set option" where
  "first_owners t [] = None"
| "first_owners t (k # ks) =
     (case tbl_logins t k of Some owners \<Rightarrow> Some owners | None \<Rightarrow> first_owners t ks)"

definition allowed_in :: "sender_table \<Rightarrow> string \<Rightarrow> string \<Rightarrow> bool" where
  "allowed_in t login addr =
     (case first_owners t (candidate_keys (ascii_lower addr)) of
        Some owners \<Rightarrow> ascii_lower login \<in> owners
      | None \<Rightarrow> False)"

section \<open>The round trip\<close>

text \<open>
  A binding the panel may write: its fields pass the writer's own guard, they are ASCII,
  and the address neither starts a comment nor opens a quote, which the guard alone does
  not exclude (the validators of \<open>internal/app\<close> and \<open>internal/web/validate\<close> do).
\<close>

definition plain_binding :: "binding \<Rightarrow> bool" where
  "plain_binding b \<longleftrightarrow>
     assert_map_safe (b_address b) (b_login b) = None \<and>
     is_ascii (b_address b) \<and> is_ascii (b_login b) \<and>
     CHR 0x22 \<notin> set (b_address b) \<and> hd (b_address b) \<noteq> CHR ''#''"

definition owners_of :: "binding list \<Rightarrow> string \<Rightarrow> string set" where
  "owners_of bs k = set (map b_login (filter (\<lambda>b. ascii_lower (b_address b) = k) bs))"

definition opt_set :: "'a list option \<Rightarrow> 'a set" where
  "opt_set m = (case m of None \<Rightarrow> {} | Some xs \<Rightarrow> set xs)"

lemma opt_set_simps [simp]: "opt_set None = {}" "opt_set (Some xs) = set xs"
  by (simp_all add: opt_set_def)

lemma set_append_unique [simp]: "set (append_unique xs v) = insert v (set xs)"
  by (auto simp: append_unique_def)

lemma config_token_None:
  "config_token w v f = None \<longleftrightarrow> v \<noteq> [] \<and> set v \<inter> set f = {}"
  by (auto simp: config_token_def contains_any_iff)

lemma assert_map_safe_None:
  "assert_map_safe a l = None \<longleftrightarrow>
     a \<noteq> [] \<and> set a \<inter> set sender_map_address_forbidden = {} \<and>
     l \<noteq> [] \<and> set l \<inter> set sender_map_login_forbidden = {}"
proof -
  have "assert_map_safe a l = None \<longleftrightarrow>
      config_token ''address'' a sender_map_address_forbidden = None \<and>
      config_token ''login'' l sender_map_login_forbidden = None"
    by (auto simp: assert_map_safe_def split: option.splits)
  then show ?thesis unfolding config_token_None by blast
qed

lemma collect_bindings_owners:
  assumes "collect_bindings ul bs m ord = Inr (m', ord')"
    and "\<forall>b \<in> set bs. plain_binding b" and "distinct ord" and "set ord = dom m"
  shows "distinct ord' \<and> set ord' = dom m' \<and>
         (\<forall>k. opt_set (m' k) = opt_set (m k) \<union> owners_of bs k) \<and>
         (\<forall>k. m' k = None \<longleftrightarrow> m k = None \<and> owners_of bs k = {})"
  using assms
proof (induction bs arbitrary: m ord)
  case Nil
  then show ?case by (simp add: owners_of_def)
next
  case (Cons b bs)
  let ?a = "ascii_lower (b_address b)"
  let ?old = "case m ?a of None \<Rightarrow> [] | Some ls \<Rightarrow> ls"
  let ?m = "m(?a \<mapsto> append_unique ?old (b_login b))"
  let ?o = "case m ?a of None \<Rightarrow> ord @ [?a] | Some _ \<Rightarrow> ord"
  have pb: "assert_map_safe (b_address b) (b_login b) = None" "is_ascii (b_address b)"
    using Cons.prems(2) by (auto simp: plain_binding_def)
  have step: "collect_bindings ul bs ?m ?o = Inr (m', ord')"
    using Cons.prems(1) pb by (simp add: Let_def)
  have d: "distinct ?o" and s: "set ?o = dom ?m"
    using Cons.prems(3,4) by (auto split: option.splits)
  have own: "owners_of (b # bs) k = (if k = ?a then {b_login b} else {}) \<union> owners_of bs k" for k
    by (auto simp: owners_of_def)
  have mk: "opt_set (?m k) = (if k = ?a then {b_login b} else {}) \<union> opt_set (m k)" for k
    by (cases "m ?a") auto
  have nk: "?m k = None \<longleftrightarrow> k \<noteq> ?a \<and> m k = None" for k
    by simp
  have "\<forall>b \<in> set bs. plain_binding b"
    using Cons.prems(2) by simp
  from Cons.IH [OF step this d s] show ?case
    unfolding mk nk own by auto
qed

lemma collect_bindings_Inr:
  "\<forall>b \<in> set bs. plain_binding b \<Longrightarrow> \<exists>m' ord'. collect_bindings ul bs m ord = Inr (m', ord')"
  by (induction bs arbitrary: m ord) (auto simp: plain_binding_def Let_def)

text \<open>A line of the file as the writer leaves it, and the readers on it.\<close>

definition plain_key :: "string \<Rightarrow> bool" where
  "plain_key k \<longleftrightarrow> k \<noteq> [] \<and> hd k \<noteq> CHR ''#'' \<and> ascii_lower k = k \<and> is_ascii k \<and>
     (\<forall>c \<in> set k. c \<notin> {CHR '' '', CHR 0x09, CHR 0x0A, CHR 0x5C, CHR 0x22})"

definition plain_login :: "string \<Rightarrow> bool" where
  "plain_login l \<longleftrightarrow> l \<noteq> [] \<and> is_ascii l \<and> (\<forall>c \<in> set l. \<not> owner_sep c)"

lemma split_on_lines:
  "\<forall>l \<in> set ls. newline \<notin> set l \<Longrightarrow>
   split_on newline (concat (map (\<lambda>l. l @ [newline]) ls)) = ls @ [[]]"
  by (induction ls) (auto simp: split_on_append split_on_notin)

lemma logical_lines_plain:
  "\<forall>l \<in> set ls. l \<noteq> [] \<and> last l \<noteq> CHR 0x0D \<and> hd l \<notin> set blanks \<and> hd l \<noteq> CHR ''#'' \<Longrightarrow>
   logical_lines acc (ls @ [[]]) = acc @ ls"
proof (induction ls arbitrary: acc)
  case Nil
  show ?case by (simp add: trim_left_def trim_right_def)
next
  case (Cons l ls)
  then show ?case by (simp add: trim_right_id trim_left_id Let_def)
qed

lemma scan_key_plain:
  "\<forall>c \<in> set k. c \<notin> {CHR '' '', CHR 0x09, CHR 0x5C, CHR 0x22} \<Longrightarrow>
   scan_key False (k @ CHR '' '' # v) = (False, k, CHR '' '' # v)"
  by (induction k) (auto simp: blanks_def)

lemma trim_blank_prefix:
  "v \<noteq> [] \<Longrightarrow> set v \<inter> set blanks = {} \<Longrightarrow> trim blanks (CHR '' '' # v) = v"
proof -
  assume v: "v \<noteq> []" "set v \<inter> set blanks = {}"
  then have "hd v \<notin> set blanks" "last v \<notin> set blanks"
    by (metis disjoint_iff hd_in_set, metis disjoint_iff last_in_set)
  with v have "trim_left blanks (CHR '' '' # v) = v" "trim_right blanks v = v"
    by (auto simp: trim_left_def blanks_def intro!: dropWhile_id trim_right_id)
  then show ?thesis by (simp add: trim_def)
qed

lemma join_plain_logins:
  assumes "ls \<noteq> []" "\<forall>l \<in> set ls. plain_login l"
  shows "join '','' ls \<noteq> []" "fields_by owner_sep (join '','' ls) = ls"
    "set (join '','' ls) \<inter> {CHR '' '', CHR 0x09, CHR 0x0D, CHR 0x0A} = {}"
proof -
  show "join '','' ls \<noteq> []"
    using join_eq_Nil [of "'',''" ls] assms by (auto simp: plain_login_def)
  show "fields_by owner_sep (join '','' ls) = ls"
    using assms by (intro fields_by_join) (auto simp: list_all_iff plain_login_def owner_sep_def)
  show "set (join '','' ls) \<inter> {CHR '' '', CHR 0x09, CHR 0x0D, CHR 0x0A} = {}"
    using set_join [of "'',''" ls] assms(2) by (fastforce simp: plain_login_def owner_sep_def)
qed

lemma split_table_line_map_line:
  assumes "plain_key k" "ls \<noteq> []" "\<forall>l \<in> set ls. plain_login l"
  shows "split_table_line (map_line k ls) = Some (k, join '','' (sort ls))"
proof -
  note j = join_plain_logins [of "sort ls"]
  have ne: "join '','' (sort ls) \<noteq> []" and dis: "set (join '','' (sort ls)) \<inter> set blanks = {}"
    using j assms by (auto simp: blanks_def)
  have "scan_key False (k @ CHR '' '' # join '','' (sort ls)) = (False, k, CHR '' '' # join '','' (sort ls))"
    by (rule scan_key_plain) (use assms(1) in \<open>auto simp: plain_key_def\<close>)
  then show ?thesis
    using assms(1) ne dis by (simp add: split_table_line_def map_line_def trim_blank_prefix plain_key_def)
qed

text \<open>Reading the owners of one line, and the lines of a whole file.\<close>

lemma read_owners_logins:
  assumes "tbl_logins t k = Some old"
  shows "tbl_logins (read_owners ul k ws t) =
         (tbl_logins t)(k \<mapsto> old \<union> to_lower ul ` set ws)"
  using assms
proof (induction ws arbitrary: t old)
  case (Cons w ws)
  show ?case
    by (auto simp: Let_def Cons.prems Cons.IH fun_eq_iff)
qed (simp add: fun_upd_idem)

lemma read_lines_entries:
  assumes "\<forall>(k, ls) \<in> set es. plain_key k \<and> ls \<noteq> [] \<and> (\<forall>l \<in> set ls. plain_login l)"
    and "distinct (map fst es)" and "\<forall>k \<in> fst ` set es. tbl_logins t k = None"
  shows "\<exists>t'. read_lines ul (map (\<lambda>(k, ls). map_line k ls) es) t = Inr t' \<and>
           (\<forall>k. tbl_logins t' k =
              (case map_of es k of Some ls \<Rightarrow> Some (ascii_lower ` set ls) | None \<Rightarrow> tbl_logins t k))"
  using assms
proof (induction es arbitrary: t)
  case (Cons e es)
  obtain k ls where e: "e = (k, ls)" by (cases e)
  have pk: "plain_key k" "ls \<noteq> []" "\<forall>l \<in> set ls. plain_login l" and kn: "tbl_logins t k = None"
    using Cons.prems by (auto simp: e)
  have k: "to_lower ul k = k"
    using pk(1) by (simp add: plain_key_def)
  have own: "fields_by owner_sep (join '','' (sort ls)) = sort ls"
    using join_plain_logins(2) [of "sort ls"] pk by simp
  have low: "to_lower ul ` set ls = ascii_lower ` set ls"
    using pk(3) by (intro image_cong) (auto simp: plain_login_def)
  let ?t = "read_owners ul k (sort ls) (t\<lparr>tbl_logins := (tbl_logins t)(k \<mapsto> {})\<rparr>)"
  have t': "tbl_logins ?t = (tbl_logins t)(k \<mapsto> ascii_lower ` set ls)"
    using read_owners_logins [of "t\<lparr>tbl_logins := (tbl_logins t)(k \<mapsto> {})\<rparr>" k "{}" ul "sort ls"]
    by (simp add: low)
  have "\<forall>k' \<in> fst ` set es. tbl_logins ?t k' = None"
    using Cons.prems(2,3) by (auto simp: t' e)
  from Cons.IH [OF _ _ this] Cons.prems(1,2) obtain t'' where
    "read_lines ul (map (\<lambda>(k, ls). map_line k ls) es) ?t = Inr t''"
    "\<forall>k'. tbl_logins t'' k' = (case map_of es k' of Some ls \<Rightarrow> Some (ascii_lower ` set ls) | None \<Rightarrow> tbl_logins ?t k')"
    by auto
  moreover have "map_of es k = None"
    using Cons.prems(2) by (auto simp: e map_of_eq_None_iff)
  ultimately show ?case
    by (auto simp: e split_table_line_map_line [OF pk] k kn own t' Let_def split: option.splits)
qed simp

lemma plain_binding_parts:
  assumes "plain_binding b"
  shows "plain_key (ascii_lower (b_address b))" "plain_login (b_login b)"
proof -
  let ?a = "b_address b"
  have a: "?a \<noteq> []" "set ?a \<inter> set sender_map_address_forbidden = {}" "hd ?a \<noteq> CHR ''#''"
      "CHR 0x22 \<notin> set ?a" "is_ascii ?a"
    and l: "b_login b \<noteq> []" "set (b_login b) \<inter> set sender_map_login_forbidden = {}" "is_ascii (b_login b)"
    using assms by (auto simp: plain_binding_def assert_map_safe_None)
  have mem: "d \<in> set (ascii_lower ?a) \<longleftrightarrow> d \<in> set ?a"
    if "d \<in> {CHR '' '', CHR 0x09, CHR 0x0A, CHR 0x5C, CHR 0x22}" for d
    using that by (intro ascii_lower_mem_iff) (auto simp: is_upper_def is_lower_def)
  have "hd (ascii_lower ?a) = lower_char (hd ?a)"
    using a(1) by (cases ?a) (auto simp: ascii_lower_def)
  then have "hd (ascii_lower ?a) \<noteq> CHR ''#''"
    using a(3) lower_char_eq_iff [of "CHR ''#''" "hd ?a"] by (auto simp: is_upper_def is_lower_def)
  with a mem show "plain_key (ascii_lower ?a)"
    by (fastforce simp: plain_key_def sender_map_address_forbidden_def)
  from l show "plain_login (b_login b)"
    by (fastforce simp: plain_login_def owner_sep_def sender_map_login_forbidden_def)
qed

text \<open>
  What the table is for: the owners of the first candidate key any binding has, as the
  registry's bindings themselves give them.
\<close>

definition spec_allowed :: "binding list \<Rightarrow> string \<Rightarrow> string \<Rightarrow> bool" where
  "spec_allowed bs login addr =
     (case find (\<lambda>k. owners_of bs k \<noteq> {}) (candidate_keys (ascii_lower addr)) of
        Some k \<Rightarrow> ascii_lower login \<in> ascii_lower ` owners_of bs k
      | None \<Rightarrow> False)"

definition table_of :: "binding list \<Rightarrow> sender_table \<Rightarrow> bool" where
  "table_of bs t \<longleftrightarrow>
     (\<forall>k. tbl_logins t k = (if owners_of bs k = {} then None else Some (ascii_lower ` owners_of bs k)))"

lemma first_owners_find:
  "table_of bs t \<Longrightarrow>
   first_owners t ks = map_option (\<lambda>k. ascii_lower ` owners_of bs k) (find (\<lambda>k. owners_of bs k \<noteq> {}) ks)"
  by (induction ks) (auto simp: table_of_def)

lemma allowed_in_spec: "table_of bs t \<Longrightarrow> allowed_in t login addr = spec_allowed bs login addr"
  by (auto simp: allowed_in_def spec_allowed_def first_owners_find split: option.splits)

lemma map_line_no_newline:
  assumes "plain_key k" "ls \<noteq> []" "\<forall>l \<in> set ls. plain_login l"
  shows "newline \<notin> set (map_line k ls)" "map_line k ls \<noteq> []" "hd (map_line k ls) = hd k"
    "last (map_line k ls) \<noteq> CHR 0x0D"
proof -
  note j = join_plain_logins [of "sort ls"]
  have ne: "join '','' (sort ls) \<noteq> []"
    and dis: "set (join '','' (sort ls)) \<inter> {CHR '' '', CHR 0x09, CHR 0x0D, CHR 0x0A} = {}"
    using j assms by auto
  show "newline \<notin> set (map_line k ls)"
    using dis assms(1) by (auto simp: map_line_def newline_def plain_key_def)
  show "map_line k ls \<noteq> []" "hd (map_line k ls) = hd k"
    using assms(1) by (simp_all add: map_line_def plain_key_def)
  show "last (map_line k ls) \<noteq> CHR 0x0D"
  proof -
    have "last (join '','' (sort ls)) \<notin> {CHR '' '', CHR 0x09, CHR 0x0D, CHR 0x0A}"
      using dis last_in_set [OF ne] by blast
    then show ?thesis using ne by (simp add: map_line_def)
  qed
qed

lemma parse_sender_map_entries:
  assumes es: "\<forall>(k, ls) \<in> set es. plain_key k \<and> ls \<noteq> [] \<and> (\<forall>l \<in> set ls. plain_login l)"
    and d: "distinct (map fst es)"
  shows "\<exists>t. parse_sender_map ul
               (split_on newline (concat (map (\<lambda>(k, ls). map_line k ls @ [newline]) es))) = Inr t \<and>
             (\<forall>k. tbl_logins t k = map_option (\<lambda>ls. ascii_lower ` set ls) (map_of es k))"
proof -
  let ?ls = "map (\<lambda>(k, ls). map_line k ls) es"
  have pl: "l \<noteq> [] \<and> last l \<noteq> CHR 0x0D \<and> hd l \<notin> set blanks \<and> hd l \<noteq> CHR ''#'' \<and> newline \<notin> set l"
    if "l \<in> set ?ls" for l
  proof -
    from that obtain k ls where kls: "(k, ls) \<in> set es" "l = map_line k ls" by auto
    with es have p: "plain_key k" "ls \<noteq> []" "\<forall>l \<in> set ls. plain_login l" by auto
    then have "hd k \<in> set k" by (simp add: plain_key_def)
    with p(1) map_line_no_newline [OF p] show ?thesis
      by (auto simp: kls(2) plain_key_def blanks_def)
  qed
  have "concat (map (\<lambda>(k, ls). map_line k ls @ [newline]) es) = concat (map (\<lambda>l. l @ [newline]) ?ls)"
    by (simp add: o_def case_prod_unfold)
  moreover have "split_on newline (concat (map (\<lambda>l. l @ [newline]) ?ls)) = ?ls @ [[]]"
    by (rule split_on_lines) (use pl in blast)
  moreover have "logical_lines [] (?ls @ [[]]) = [] @ ?ls"
    by (rule logical_lines_plain) (use pl in blast)
  moreover obtain t where "read_lines ul ?ls empty_table = Inr t"
      "\<forall>k. tbl_logins t k =
         (case map_of es k of Some ls \<Rightarrow> Some (ascii_lower ` set ls) | None \<Rightarrow> tbl_logins empty_table k)"
    using read_lines_entries [OF es d, of empty_table ul] by (auto simp: empty_table_def)
  ultimately show ?thesis
    by (auto simp: parse_sender_map_def empty_table_def split: option.splits)
qed

theorem render_parse:
  assumes "\<forall>b \<in> set bs. plain_binding b"
  shows "\<exists>out t. render_sender_login_maps ul bs = Inr out \<and>
           parse_sender_map ul (split_on newline out) = Inr t \<and> table_of bs t"
proof -
  obtain m ord where c: "collect_bindings ul bs Map.empty [] = Inr (m, ord)"
    using collect_bindings_Inr [OF assms] by blast
  have ord: "distinct ord" "set ord = dom m"
    and own: "opt_set (m k) = owners_of bs k" "m k = None \<longleftrightarrow> owners_of bs k = {}" for k
    using collect_bindings_owners [OF c assms] by auto
  let ?es = "map (\<lambda>a. (a, case m a of None \<Rightarrow> [] | Some ls \<Rightarrow> ls)) (sort ord)"
  have "plain_key k \<and> ls \<noteq> [] \<and> (\<forall>l \<in> set ls. plain_login l)" if "(k, ls) \<in> set ?es" for k ls
  proof -
    from that ord have mk: "m k = Some ls" by (auto split: option.splits)
    with own [of k] have o: "set ls = owners_of bs k" "owners_of bs k \<noteq> {}" by auto
    then obtain b where "b \<in> set bs" "ascii_lower (b_address b) = k" by (auto simp: owners_of_def)
    with plain_binding_parts assms have "plain_key k" by blast
    moreover have "\<forall>l \<in> set ls. plain_login l"
      using o(1) plain_binding_parts(2) assms by (auto simp: owners_of_def)
    ultimately show ?thesis using o by auto
  qed
  then have es: "\<forall>(k, ls) \<in> set ?es. plain_key k \<and> ls \<noteq> [] \<and> (\<forall>l \<in> set ls. plain_login l)"
    by blast
  have d: "distinct (map fst ?es)" using ord(1) by (simp add: o_def)
  have mo: "map_of ?es k = (if k \<in> set ord then Some (case m k of None \<Rightarrow> [] | Some ls \<Rightarrow> ls) else None)" for k
    by (auto simp: map_of_map_restrict [unfolded o_def] restrict_map_def)
  obtain t where t: "parse_sender_map ul
        (split_on newline (concat (map (\<lambda>(k, ls). map_line k ls @ [newline]) ?es))) = Inr t"
      "\<forall>k. tbl_logins t k = map_option (\<lambda>ls. ascii_lower ` set ls) (map_of ?es k)"
    using parse_sender_map_entries [OF es d] by blast
  have "tbl_logins t k = (if owners_of bs k = {} then None else Some (ascii_lower ` owners_of bs k))" for k
    using t(2) own [of k] ord(2) by (cases "m k") (auto simp: mo dom_def)
  then have "table_of bs t" by (simp add: table_of_def)
  then show ?thesis
    using t(1) c by (auto simp: render_sender_login_maps_def o_def)
qed

text \<open>
  The domains a table names for its logins: each from a key the login is an owner of, and every
  owner has one - for any file, well-formed or not.
\<close>

definition domains_ok :: "(string \<Rightarrow> string) \<Rightarrow> sender_table \<Rightarrow> bool" where
  "domains_ok ul t \<longleftrightarrow>
     (\<forall>l d. tbl_domains t l = Some d \<longrightarrow> (\<exists>k owners. tbl_logins t k = Some owners \<and> l \<in> owners \<and> d = domain_of ul k)) \<and>
     (\<forall>k owners. tbl_logins t k = Some owners \<longrightarrow> (\<forall>l \<in> owners. tbl_domains t l \<noteq> None))"

lemma read_owners_domains_ok: "domains_ok ul t \<Longrightarrow> domains_ok ul (read_owners ul k ws t)"
proof (induction ws arbitrary: t)
  case (Cons w ws)
  let ?l = "to_lower ul w"
  let ?t = "t\<lparr>tbl_logins := (tbl_logins t)(k \<mapsto> insert ?l (case tbl_logins t k of None \<Rightarrow> {} | Some s \<Rightarrow> s)),
              tbl_domains := (case tbl_domains t ?l of
                 None \<Rightarrow> (tbl_domains t)(?l \<mapsto> domain_of ul k) | Some _ \<Rightarrow> tbl_domains t)\<rparr>"
  have "domains_ok ul ?t"
    using Cons.prems unfolding domains_ok_def
    by (auto split: option.splits if_splits) (metis option.inject option.distinct(1) insert_iff)+
  from Cons.IH [OF this] show ?case by (simp add: Let_def)
qed simp

lemma read_lines_domains_ok: "domains_ok ul t \<Longrightarrow> read_lines ul ls t = Inr t' \<Longrightarrow> domains_ok ul t'"
proof (induction ls arbitrary: t)
  case (Cons l ls)
  show ?case
  proof (cases "split_table_line l")
    case None
    with Cons show ?thesis by simp
  next
    case (Some kv)
    obtain key val where kv: "kv = (key, val)" by (cases kv)
    let ?k = "to_lower ul key"
    have n: "tbl_logins t ?k = None"
      and r: "read_lines ul ls (read_owners ul ?k (fields_by owner_sep val)
                (t\<lparr>tbl_logins := (tbl_logins t)(?k \<mapsto> {})\<rparr>)) = Inr t'"
      using Cons.prems(2) Some kv by (auto simp: Let_def split: if_splits)
    have "domains_ok ul (t\<lparr>tbl_logins := (tbl_logins t)(?k \<mapsto> {})\<rparr>)"
      using Cons.prems(1) n unfolding domains_ok_def by (auto split: if_splits) (metis option.distinct(1))
    from Cons.IH [OF read_owners_domains_ok [OF this] r] show ?thesis .
  qed
qed simp

lemma parse_sender_map_domains_ok: "parse_sender_map ul ls = Inr t \<Longrightarrow> domains_ok ul t"
  unfolding parse_sender_map_def
  by (rule read_lines_domains_ok) (simp_all add: domains_ok_def empty_table_def)

section \<open>The check's own state: Bindings\<close>

text \<open>
  \<open>tableFile\<close> remembers the modification time and the size the file had when it was read
  last; \<open>file_view\<close> is what \<open>os.Stat\<close> and \<open>os.ReadFile\<close> answer at one call (\<open>None\<close> for an
  error).
\<close>

record table_file =
  tf_mod_time :: int
  tf_size :: nat
  tf_loaded :: bool

record file_view =
  fv_stat :: "(int \<times> nat) option"
  fv_read :: "string option"

datatype bind_error = File_error | Duplicate_key string

definition changed :: "file_view \<Rightarrow> table_file \<Rightarrow> table_file \<times> (bind_error + string list option)" where
  "changed v f =
     (case fv_stat v of
        None \<Rightarrow> (f, Inl File_error)
      | Some (mod_time, sz) \<Rightarrow>
          (if tf_loaded f \<and> mod_time = tf_mod_time f \<and> sz = tf_size f then (f, Inr None)
           else (case fv_read v of
                   None \<Rightarrow> (f, Inl File_error)
                 | Some raw \<Rightarrow>
                     (\<lparr>tf_mod_time = mod_time, tf_size = sz, tf_loaded = True\<rparr>,
                      Inr (Some (split_on newline raw))))))"

record bindings =
  bs_file :: table_file
  bs_table :: sender_table
  bs_broken :: "bind_error option"

definition new_bindings :: bindings where
  "new_bindings =
     \<lparr>bs_file = \<lparr>tf_mod_time = 0, tf_size = 0, tf_loaded = False\<rparr>,
      bs_table = empty_table, bs_broken = None\<rparr>"

definition fresh :: "(string \<Rightarrow> string) \<Rightarrow> file_view \<Rightarrow> bindings \<Rightarrow> bindings \<times> bind_error option" where
  "fresh ul v b =
     (case changed v (bs_file b) of
        (f, Inl e) \<Rightarrow> (b\<lparr>bs_file := f\<rparr>, Some e)
      | (f, Inr None) \<Rightarrow> (b\<lparr>bs_file := f\<rparr>, bs_broken b)
      | (f, Inr (Some ls)) \<Rightarrow>
          (case parse_sender_map ul ls of
             Inl k \<Rightarrow> (\<lparr>bs_file = f, bs_table = empty_table, bs_broken = Some (Duplicate_key k)\<rparr>,
                       Some (Duplicate_key k))
           | Inr t \<Rightarrow> (\<lparr>bs_file = f, bs_table = t, bs_broken = None\<rparr>, None)))"

definition allowed ::
  "(string \<Rightarrow> string) \<Rightarrow> file_view \<Rightarrow> string \<Rightarrow> string \<Rightarrow> bindings \<Rightarrow> bindings \<times> (bind_error + bool)" where
  "allowed ul v login addr b =
     (case fresh ul v b of
        (b', Some e) \<Rightarrow> (b', Inl e)
      | (b', None) \<Rightarrow> (b', Inr (allowed_in (bs_table b') login addr)))"

definition domain_of_login :: "(string \<Rightarrow> string) \<Rightarrow> file_view \<Rightarrow> string \<Rightarrow> bindings \<Rightarrow> bindings \<times> string" where
  "domain_of_login ul v login b =
     (case fresh ul v b of
        (b', Some e) \<Rightarrow> (b', [])
      | (b', None) \<Rightarrow>
          (b', case tbl_domains (bs_table b') (ascii_lower login) of None \<Rightarrow> [] | Some d \<Rightarrow> d))"

text \<open>When the file on disk is the one the panel rendered and has to be read, the answer is the specification's.\<close>

lemma fresh_rendered:
  assumes "\<forall>b \<in> set bs. plain_binding b" and "render_sender_login_maps ul bs = Inr out"
    and "fv_stat v = Some (mt, sz)" and "fv_read v = Some out"
    and "\<not> (tf_loaded (bs_file b) \<and> mt = tf_mod_time (bs_file b) \<and> sz = tf_size (bs_file b))"
  shows "\<exists>b'. fresh ul v b = (b', None) \<and> table_of bs (bs_table b')"
proof -
  from render_parse [OF assms(1), of ul] assms(2) obtain t where
    "parse_sender_map ul (split_on newline out) = Inr t" "table_of bs t" by auto
  with assms(3-5) show ?thesis
    by (auto simp: fresh_def changed_def)
qed

lemma allowed_rendered:
  assumes "\<forall>b \<in> set bs. plain_binding b" and "render_sender_login_maps ul bs = Inr out"
    and "fv_stat v = Some (mt, sz)" and "fv_read v = Some out"
    and "\<not> (tf_loaded (bs_file b) \<and> mt = tf_mod_time (bs_file b) \<and> sz = tf_size (bs_file b))"
  shows "snd (allowed ul v login addr b) = Inr (spec_allowed bs login addr)"
  using fresh_rendered [OF assms] by (auto simp: allowed_def allowed_in_spec)

text \<open>Without a file that can be looked at there is no yes and no no.\<close>

lemma allowed_no_file: "fv_stat v = None \<Longrightarrow> snd (allowed ul v login addr b) = Inl File_error"
  by (simp add: allowed_def fresh_def changed_def)

text \<open>A table that named a key twice stays refused until the file changes.\<close>

lemma allowed_stays_broken:
  assumes "bs_broken b = Some e" "tf_loaded (bs_file b)"
    "fv_stat v = Some (tf_mod_time (bs_file b), tf_size (bs_file b))"
  shows "allowed ul v login addr b = (b, Inl e)"
  using assms by (simp add: allowed_def fresh_def changed_def)

section \<open>The domain a candidate key belongs to\<close>

definition domain_part :: "string \<Rightarrow> string" where
  "domain_part a = (case last_index CHR ''@'' a of Some i \<Rightarrow> drop (i + 1) a | None \<Rightarrow> [])"

lemma domain_part_at: "CHR ''@'' \<notin> set d \<Longrightarrow> domain_part (l @ CHR ''@'' # d) = d"
  by (simp add: domain_part_def last_index_append_notin)

lemma without_extension_domain: "domain_part (without_extension a) = domain_part a"
proof (cases "last_index CHR ''@'' a")
  case None
  then show ?thesis by (simp add: without_extension_def)
next
  case (Some pos)
  note sp = last_index_split [OF Some]
  have d: "domain_part a = drop (Suc pos) a"
    by (simp add: domain_part_def Some)
  have dr: "drop pos a = CHR ''@'' # drop (Suc pos) a"
    by (rule last_index_drop [OF Some])
  show ?thesis
    using d sp(2) by (auto simp: without_extension_def Some dr domain_part_at split: option.splits)
qed

lemma candidate_key_domain:
  assumes "k \<in> set (candidate_keys a)"
  shows "domain_part k = domain_part a"
proof (cases "k = a \<or> k = without_extension a")
  case True
  then show ?thesis using without_extension_domain by auto
next
  case False
  then obtain pos where pos: "last_index CHR ''@'' a = Some pos" and k: "k = drop pos a"
    using assms by (cases "last_index CHR ''@'' a") (auto simp: candidate_keys_def Let_def split: if_splits)
  have "drop pos a = [] @ CHR ''@'' # drop (Suc pos) a"
    using last_index_drop [OF pos] by simp
  then have "domain_part k = drop (Suc pos) a"
    unfolding k using last_index_split(2) [OF pos] domain_part_at by metis
  then show ?thesis by (simp add: domain_part_def pos)
qed

text \<open>Who is allowed owns a binding of the address's own domain.\<close>

lemma spec_allowed_binding:
  assumes "spec_allowed bs login addr"
  shows "\<exists>b \<in> set bs. ascii_lower (b_login b) = ascii_lower login \<and>
           domain_part (ascii_lower (b_address b)) = domain_part (ascii_lower addr)"
proof -
  from assms obtain k where k: "find (\<lambda>k. owners_of bs k \<noteq> {}) (candidate_keys (ascii_lower addr)) = Some k"
      "ascii_lower login \<in> ascii_lower ` owners_of bs k"
    by (auto simp: spec_allowed_def split: option.splits)
  then have "k \<in> set (candidate_keys (ascii_lower addr))"
    by (auto simp: find_Some_iff)
  with candidate_key_domain k(2) show ?thesis
    by (fastforce simp: owners_of_def)
qed


section \<open>The contract between the map's writer and its reader\<close>

text \<open>
  The panel writes the table and the sender check reads it: a written table is read back
  without a fault, and a lookup in it answers as the bindings themselves do. Everything the
  rest of the development says of the sender check rests on these two laws.
\<close>

locale binding_table =
  fixes render :: "binding list \<Rightarrow> 'e + string"
    and load :: "string \<Rightarrow> 'x + 't"
    and look :: "'t \<Rightarrow> string \<Rightarrow> string \<Rightarrow> bool"
  assumes loads: "list_all plain_binding bs \<Longrightarrow> \<exists>out t. render bs = Inr out \<and> load out = Inr t"
    and answers: "list_all plain_binding bs \<Longrightarrow> render bs = Inr out \<Longrightarrow> load out = Inr t \<Longrightarrow>
      look t login addr = spec_allowed bs login addr"
begin

lemma owns_domain:
  assumes "list_all plain_binding bs" "render bs = Inr out" "load out = Inr t" "look t login addr"
  shows "\<exists>b \<in> set bs. ascii_lower (b_login b) = ascii_lower login \<and>
    domain_part (ascii_lower (b_address b)) = domain_part (ascii_lower addr)"
  using spec_allowed_binding answers [OF assms(1-3)] assms(4) by blast

lemma owner_passes:
  assumes "list_all plain_binding bs" "render bs = Inr out" "load out = Inr t" "b \<in> set bs"
  shows "look t (b_login b) (b_address b)"
proof -
  have o: "b_login b \<in> owners_of bs (ascii_lower (b_address b))"
    using assms(4) by (auto simp: owners_of_def)
  then have "find (\<lambda>k. owners_of bs k \<noteq> {}) (candidate_keys (ascii_lower (b_address b))) =
      Some (ascii_lower (b_address b))"
    by (auto simp: candidate_keys_def)
  with o show ?thesis by (simp add: answers [OF assms(1-3)] spec_allowed_def)
qed

lemma case_blind:
  assumes "list_all plain_binding bs" "render bs = Inr out" "load out = Inr t"
    "ascii_lower login' = ascii_lower login" "ascii_lower addr' = ascii_lower addr"
  shows "look t login' addr' = look t login addr"
  by (simp add: answers [OF assms(1-3)] spec_allowed_def assms(4,5) split: option.split)

end

interpretation sm: binding_table "render_sender_login_maps ul" "\<lambda>out. parse_sender_map ul (split_on newline out)"
  allowed_in for ul
proof
  fix bs :: "binding list"
  assume bs: "list_all plain_binding bs"
  with render_parse [of bs ul] show "\<exists>out t. render_sender_login_maps ul bs = Inr out \<and>
      parse_sender_map ul (split_on newline out) = Inr t"
    by (auto simp: list_all_iff)
  fix out t login addr
  assume "render_sender_login_maps ul bs = Inr out" "parse_sender_map ul (split_on newline out) = Inr t"
  with render_parse [of bs ul] bs have "table_of bs t" by (auto simp: list_all_iff)
  then show "allowed_in t login addr = spec_allowed bs login addr" by (rule allowed_in_spec)
qed

end
