(* ===== verification/Registry.thy ===== *)
theory Registry
  imports Validators Sender_Map
begin

text \<open>
  The registry in SQLite (\<open>internal/store\<close>): the tables \<open>domains\<close>, \<open>applications\<close> with their
  \<open>application_addresses\<close>, and \<open>rate_limits\<close>, with the operations of \<open>domains.go\<close>,
  \<open>applications.go\<close> and \<open>ratelimits.go\<close>. A table is the list of its rows in insertion order;
  AUTOINCREMENT is a counter, the UNIQUE and FOREIGN KEY constraints and ON DELETE CASCADE of
  \<open>migrations/0001_init.sql\<close> and \<open>0008_tenant_boundary.sql\<close> are written out.

  An operation is one statement or one transaction, so it happens as a whole or not at all.
  \<open>db_faults\<close> says of each operation to come whether the database fails it (\<open>True\<close>); once it is
  used up nothing fails. So every pattern of failures is a value of the state.
\<close>

section \<open>Rows and state\<close>

record domain_row =
  d_id :: nat
  d_name :: string
  d_selector :: string
  d_rua :: string
  d_created :: int

record app_row =
  a_id :: nat
  a_domain_id :: nat
  a_login :: string
  a_mode :: address_mode
  a_created :: int
  a_addresses :: "string list"
  a_restrict :: bool
  a_ips :: string

datatype scope = Scope_domain | Scope_app

datatype limit_mode = Mode_manual | Mode_auto

text \<open>\<open>RateLimit\<close>: a nullable column is read as its zero value, an unset time is \<open>None\<close>.\<close>

record rate_limit =
  rl_scope :: scope
  rl_ref :: nat
  rl_max :: int
  rl_window :: int
  rl_mode :: limit_mode
  rl_multiplier :: rat
  rl_updated :: "int option"

record db =
  db_domains :: "domain_row list"
  db_apps :: "app_row list"
  db_limits :: "rate_limit list"
  db_next_domain :: nat
  db_next_app :: nat
  db_faults :: "bool list"

definition empty_db :: db where
  "empty_db = \<lparr>db_domains = [], db_apps = [], db_limits = [], db_next_domain = 1, db_next_app = 1,
     db_faults = []\<rparr>"

datatype store_error =
    Domain_exists | Domain_not_found | Login_exists | Application_not_found
  | Foreign_key | Db_error

type_synonym 'a db_op = "db \<Rightarrow> db \<times> (store_error + 'a)"

definition db_step :: "'a db_op \<Rightarrow> 'a db_op" where
  "db_step f s =
     (case db_faults s of
        [] \<Rightarrow> f s
      | True # fs \<Rightarrow> (s\<lparr>db_faults := fs\<rparr>, Inl Db_error)
      | False # fs \<Rightarrow> f (s\<lparr>db_faults := fs\<rparr>))"

text \<open>Rows keep the order of their keys when a listing asks for it.\<close>

definition find_domain :: "nat \<Rightarrow> db \<Rightarrow> domain_row option" where
  "find_domain i s = find (\<lambda>d. d_id d = i) (db_domains s)"

definition find_app :: "nat \<Rightarrow> db \<Rightarrow> app_row option" where
  "find_app i s = find (\<lambda>a. a_id a = i) (db_apps s)"

section \<open>Domains\<close>

definition add_domain :: "int \<Rightarrow> string \<Rightarrow> string \<Rightarrow> domain_row db_op" where
  "add_domain now name selector = db_step (\<lambda>s.
     if list_ex (\<lambda>d. d_name d = name) (db_domains s) then (s, Inl Domain_exists)
     else (let d = \<lparr>d_id = db_next_domain s, d_name = name, d_selector = selector, d_rua = [], d_created = now\<rparr>
           in (s\<lparr>db_domains := db_domains s @ [d], db_next_domain := db_next_domain s + 1\<rparr>, Inr d)))"

definition list_domains :: "(domain_row list) db_op" where
  "list_domains = db_step (\<lambda>s. (s, Inr (sort_key d_name (db_domains s))))"

definition get_domain :: "nat \<Rightarrow> domain_row db_op" where
  "get_domain i = db_step (\<lambda>s.
     case find_domain i s of None \<Rightarrow> (s, Inl Domain_not_found) | Some d \<Rightarrow> (s, Inr d))"

text \<open>ON DELETE CASCADE takes the domain's applications, and with each its addresses.\<close>

definition delete_domain :: "nat \<Rightarrow> unit db_op" where
  "delete_domain i = db_step (\<lambda>s.
     if find_domain i s = None then (s, Inl Domain_not_found)
     else (s\<lparr>db_domains := filter (\<lambda>d. d_id d \<noteq> i) (db_domains s),
             db_apps := filter (\<lambda>a. a_domain_id a \<noteq> i) (db_apps s)\<rparr>, Inr ()))"

definition set_domain_dmarc_address :: "nat \<Rightarrow> string \<Rightarrow> unit db_op" where
  "set_domain_dmarc_address i rua = db_step (\<lambda>s.
     if find_domain i s = None then (s, Inl Domain_not_found)
     else (s\<lparr>db_domains := map (\<lambda>d. if d_id d = i then d\<lparr>d_rua := rua\<rparr> else d) (db_domains s)\<rparr>, Inr ()))"

text \<open>COLLATE NOCASE folds ASCII letters only.\<close>

definition domain_exists :: "string \<Rightarrow> bool db_op" where
  "domain_exists name = db_step (\<lambda>s.
     (s, Inr (list_ex (\<lambda>d. ascii_lower (d_name d) = ascii_lower (trim_space name)) (db_domains s))))"

section \<open>Applications\<close>

text \<open>A repeated address in one submission violates UNIQUE and is passed over.\<close>

fun insert_unique :: "string list \<Rightarrow> string list \<Rightarrow> string list" where
  "insert_unique rows [] = rows"
| "insert_unique rows (a # as) = insert_unique (if a \<in> set rows then rows else rows @ [a]) as"

definition insert_addresses :: "address_mode \<Rightarrow> string list \<Rightarrow> string list" where
  "insert_addresses mode addrs = (if mode = Address_list then insert_unique [] addrs else [])"

text \<open>Logins are unique, and unique without regard to ASCII case.\<close>

definition add_application ::
  "int \<Rightarrow> nat \<Rightarrow> string \<Rightarrow> address_mode \<Rightarrow> string list \<Rightarrow> app_row db_op" where
  "add_application now did login mode addrs = db_step (\<lambda>s.
     if list_ex (\<lambda>a. ascii_lower (a_login a) = ascii_lower login) (db_apps s) then (s, Inl Login_exists)
     else if find_domain did s = None then (s, Inl Foreign_key)
     else (let a = \<lparr>a_id = db_next_app s, a_domain_id = did, a_login = login, a_mode = mode, a_created = now,
                    a_addresses = insert_addresses mode addrs, a_restrict = False, a_ips = []\<rparr>
           in (s\<lparr>db_apps := db_apps s @ [a], db_next_app := db_next_app s + 1\<rparr>, Inr a)))"

definition update_app :: "nat \<Rightarrow> (app_row \<Rightarrow> app_row) \<Rightarrow> unit db_op" where
  "update_app i f = db_step (\<lambda>s.
     if find_app i s = None then (s, Inl Application_not_found)
     else (s\<lparr>db_apps := map (\<lambda>a. if a_id a = i then f a else a) (db_apps s)\<rparr>, Inr ()))"

definition update_application_mode :: "nat \<Rightarrow> address_mode \<Rightarrow> string list \<Rightarrow> unit db_op" where
  "update_application_mode i mode addrs =
     update_app i (\<lambda>a. a\<lparr>a_mode := mode, a_addresses := insert_addresses mode addrs\<rparr>)"

definition update_application_auth_ips :: "nat \<Rightarrow> bool \<Rightarrow> string list \<Rightarrow> unit db_op" where
  "update_application_auth_ips i restrict ips =
     update_app i (\<lambda>a. a\<lparr>a_restrict := restrict, a_ips := join '','' (if restrict then ips else [])\<rparr>)"

text \<open>\<open>splitIPs\<close>: the comma-separated column back as a list, blanks around an entry and empty ones dropped.\<close>

definition split_ips :: "string \<Rightarrow> string list" where
  "split_ips s =
     (if trim_space s = [] then []
      else filter (\<lambda>p. p \<noteq> []) (map trim_space (split_on CHR '','' s)))"

text \<open>What \<open>scanApplication\<close> and \<open>applicationAddresses\<close> make of a row.\<close>

record application =
  ap_id :: nat
  ap_domain_id :: nat
  ap_login :: string
  ap_mode :: address_mode
  ap_created :: int
  ap_addresses :: "string list"
  ap_restrict :: bool
  ap_ips :: "string list"
  ap_domain_name :: string

definition scan_application :: "app_row \<Rightarrow> application" where
  "scan_application a =
     \<lparr>ap_id = a_id a, ap_domain_id = a_domain_id a, ap_login = a_login a, ap_mode = a_mode a,
      ap_created = a_created a, ap_addresses = sort (a_addresses a), ap_restrict = a_restrict a,
      ap_ips = split_ips (a_ips a), ap_domain_name = []\<rparr>"

definition get_application :: "nat \<Rightarrow> application db_op" where
  "get_application i = db_step (\<lambda>s.
     case find_app i s of None \<Rightarrow> (s, Inl Application_not_found) | Some a \<Rightarrow> (s, Inr (scan_application a)))"

definition find_login :: "string \<Rightarrow> db \<Rightarrow> app_row option" where
  "find_login login s = find (\<lambda>a. a_login a = login) (db_apps s)"

definition application_by_login :: "string \<Rightarrow> application db_op" where
  "application_by_login login = db_step (\<lambda>s.
     case find_login login s of
       None \<Rightarrow> (s, Inl Application_not_found)
     | Some a \<Rightarrow>
         (case find_domain (a_domain_id a) s of
            None \<Rightarrow> (s, Inl Db_error)
          | Some d \<Rightarrow> (s, Inr ((scan_application a)\<lparr>ap_domain_name := d_name d\<rparr>))))"

definition list_applications_by_domain :: "nat \<Rightarrow> (application list) db_op" where
  "list_applications_by_domain did = db_step (\<lambda>s.
     (s, Inr (map scan_application (sort_key a_login (filter (\<lambda>a. a_domain_id a = did) (db_apps s))))))"

definition list_logins_by_domain :: "nat \<Rightarrow> (string list) db_op" where
  "list_logins_by_domain did = db_step (\<lambda>s.
     (s, Inr (sort (map a_login (filter (\<lambda>a. a_domain_id a = did) (db_apps s))))))"

definition list_application_logins :: "(string list) db_op" where
  "list_application_logins = db_step (\<lambda>s. (s, Inr (sort (map a_login (db_apps s)))))"

definition list_application_logins_by_domains :: "nat list \<Rightarrow> (string list) db_op" where
  "list_application_logins_by_domains ids =
     (if ids = [] then (\<lambda>s. (s, Inr []))
      else db_step (\<lambda>s.
        (s, Inr (sort (map a_login (filter (\<lambda>a. a_domain_id a \<in> set ids) (db_apps s)))))))"

definition delete_application :: "nat \<Rightarrow> application db_op" where
  "delete_application i s =
     (case get_application i s of
        (s1, Inl e) \<Rightarrow> (s1, Inl e)
      | (s1, Inr a) \<Rightarrow>
          db_step (\<lambda>s. if find_app i s = None then (s, Inl Application_not_found)
            else (s\<lparr>db_apps := filter (\<lambda>a. a_id a \<noteq> i) (db_apps s)\<rparr>, Inr a)) s1)"

text \<open>\<open>AllowsAuthFromIP\<close>.\<close>

definition allows_auth_from_ip :: "application \<Rightarrow> string \<Rightarrow> bool" where
  "allows_auth_from_ip a ip =
     (if \<not> ap_restrict a then True
      else (case parse_ip ip of
              None \<Rightarrow> False
            | Some c \<Rightarrow> list_ex (\<lambda>al. parse_ip al = Some c) (ap_ips a)))"

section \<open>Sender bindings\<close>

text \<open>
  The rows of one application: "@domain" for a wildcard one, each listed address for a list
  one (an application whose domain row is missing joins with nothing, in the first half).
\<close>

definition app_bindings :: "db \<Rightarrow> app_row \<Rightarrow> binding list" where
  "app_bindings s a =
     (case a_mode a of
        Wildcard \<Rightarrow>
          (case find_domain (a_domain_id a) s of
             None \<Rightarrow> []
           | Some d \<Rightarrow> [\<lparr>b_address = CHR ''@'' # d_name d, b_login = a_login a\<rparr>])
      | Address_list \<Rightarrow> map (\<lambda>ad. \<lparr>b_address = ad, b_login = a_login a\<rparr>) (a_addresses a))"

definition bindings_of :: "db \<Rightarrow> binding list" where
  "bindings_of s =
     sort_key (\<lambda>b. [b_address b, b_login b]) (concat (map (app_bindings s) (db_apps s)))"

definition list_bindings :: "(binding list) db_op" where
  "list_bindings = db_step (\<lambda>s. (s, Inr (bindings_of s)))"

section \<open>Rate limits\<close>

definition is_auto :: "rate_limit \<Rightarrow> bool" where
  "is_auto r \<longleftrightarrow> rl_mode r = Mode_auto"

definition active :: "rate_limit \<Rightarrow> bool" where
  "active r \<longleftrightarrow> rl_max r > 0 \<and> rl_window r > 0"

definition same_limit :: "scope \<Rightarrow> nat \<Rightarrow> rate_limit \<Rightarrow> bool" where
  "same_limit sc ref r \<longleftrightarrow> rl_scope r = sc \<and> rl_ref r = ref"

definition find_limit :: "scope \<Rightarrow> nat \<Rightarrow> db \<Rightarrow> rate_limit option" where
  "find_limit sc ref s = find (same_limit sc ref) (db_limits s)"

definition get_rate_limit :: "scope \<Rightarrow> nat \<Rightarrow> (rate_limit option) db_op" where
  "get_rate_limit sc ref = db_step (\<lambda>s. (s, Inr (find_limit sc ref s)))"

text \<open>The upsert: the multiplier is kept for an automatic limit only (NULL, read as 0, for another).\<close>

definition stored_limit :: "rate_limit \<Rightarrow> rate_limit" where
  "stored_limit r = (if is_auto r then r else r\<lparr>rl_multiplier := 0\<rparr>)"

definition set_rate_limit :: "rate_limit \<Rightarrow> unit db_op" where
  "set_rate_limit r = db_step (\<lambda>s.
     (s\<lparr>db_limits :=
          (if find_limit (rl_scope r) (rl_ref r) s = None then db_limits s @ [stored_limit r]
           else map (\<lambda>x. if same_limit (rl_scope r) (rl_ref r) x then stored_limit r else x) (db_limits s))\<rparr>,
      Inr ()))"

definition delete_rate_limit :: "scope \<Rightarrow> nat \<Rightarrow> unit db_op" where
  "delete_rate_limit sc ref = db_step (\<lambda>s.
     (s\<lparr>db_limits := filter (\<lambda>r. \<not> same_limit sc ref r) (db_limits s)\<rparr>, Inr ()))"

definition delete_rate_limits_for_domain :: "nat \<Rightarrow> unit db_op" where
  "delete_rate_limits_for_domain did = db_step (\<lambda>s.
     (s\<lparr>db_limits := filter (\<lambda>r. \<not> (same_limit Scope_domain did r \<or>
          (rl_scope r = Scope_app \<and>
           rl_ref r \<in> set (map a_id (filter (\<lambda>a. a_domain_id a = did) (db_apps s)))))) (db_limits s)\<rparr>,
      Inr ()))"

text \<open>\<open>RateLimit\<close>: the limit of a reference the milter has, a domain name or a login.\<close>

definition rate_limit_of :: "scope \<Rightarrow> string \<Rightarrow> (rate_limit option) db_op" where
  "rate_limit_of sc ref = db_step (\<lambda>s.
     (s, Inr (case sc of
        Scope_domain \<Rightarrow>
          (case find (\<lambda>d. d_name d = ref) (db_domains s) of
             None \<Rightarrow> None | Some d \<Rightarrow> find_limit Scope_domain (d_id d) s)
      | Scope_app \<Rightarrow>
          (case find_login ref s of None \<Rightarrow> None | Some a \<Rightarrow> find_limit Scope_app (a_id a) s))))"

section \<open>The invariant of the schema\<close>

definition registry_inv :: "db \<Rightarrow> bool" where
  "registry_inv s \<longleftrightarrow>
     distinct (map d_id (db_domains s)) \<and> distinct (map d_name (db_domains s)) \<and>
     (\<forall>d \<in> set (db_domains s). d_id d < db_next_domain s) \<and>
     distinct (map a_id (db_apps s)) \<and> distinct (map (\<lambda>a. ascii_lower (a_login a)) (db_apps s)) \<and>
     (\<forall>a \<in> set (db_apps s). a_id a < db_next_app s \<and> a_domain_id a \<in> d_id ` set (db_domains s) \<and>
        distinct (a_addresses a) \<and> (a_mode a = Wildcard \<longrightarrow> a_addresses a = [])) \<and>
     distinct (map (\<lambda>r. (rl_scope r, rl_ref r)) (db_limits s))"

text \<open>What the callers check before they write, as a property of the rows.\<close>

definition registry_checked :: "db \<Rightarrow> bool" where
  "registry_checked s \<longleftrightarrow>
     (\<forall>d \<in> set (db_domains s). domain_check (d_name d) = None) \<and>
     (\<forall>a \<in> set (db_apps s). validate_login (a_login a) = None) \<and>
     (\<forall>a \<in> set (db_apps s). \<forall>d \<in> set (db_domains s). d_id d = a_domain_id a \<longrightarrow>
        (\<forall>ad \<in> set (a_addresses a). validate_sender_address ad (d_name d) = None))"

lemma find_domain_Some:
  "find_domain i s = Some d \<Longrightarrow> d \<in> set (db_domains s) \<and> d_id d = i"
  by (auto simp: find_domain_def find_Some_iff)

lemma find_domain_None_iff: "find_domain i s = None \<longleftrightarrow> i \<notin> d_id ` set (db_domains s)"
  by (auto simp: find_domain_def find_None_iff)

lemma find_app_Some: "find_app i s = Some a \<Longrightarrow> a \<in> set (db_apps s) \<and> a_id a = i"
  by (auto simp: find_app_def find_Some_iff)

lemma find_login_Some: "find_login l s = Some a \<Longrightarrow> a \<in> set (db_apps s) \<and> a_login a = l"
  by (auto simp: find_login_def find_Some_iff)

lemma find_unique:
  assumes "distinct (map f xs)" "x \<in> set xs"
  shows "find (\<lambda>y. f y = f x) xs = Some x"
  using assms by (induction xs) (auto simp: image_iff)

lemma find_domain_unique:
  "registry_inv s \<Longrightarrow> d \<in> set (db_domains s) \<Longrightarrow> find_domain (d_id d) s = Some d"
  unfolding find_domain_def registry_inv_def by (blast intro: find_unique)

lemma insert_unique_props:
  "distinct rows \<Longrightarrow> distinct (insert_unique rows as) \<and> set (insert_unique rows as) = set rows \<union> set as"
  by (induction as arbitrary: rows) auto

lemma insert_unique_distinct: "distinct (rows @ as) \<Longrightarrow> insert_unique rows as = rows @ as"
  by (induction as arbitrary: rows) auto

lemma insert_addresses_props:
  "distinct (insert_addresses m as)" "m = Wildcard \<Longrightarrow> insert_addresses m as = []"
  "set (insert_addresses m as) \<subseteq> set as"
  using insert_unique_props [of "[]" as] by (auto simp: insert_addresses_def)

lemma registry_inv_faults [simp]: "registry_inv (s\<lparr>db_faults := fs\<rparr>) = registry_inv s"
  by (simp add: registry_inv_def)

lemma registry_checked_faults [simp]: "registry_checked (s\<lparr>db_faults := fs\<rparr>) = registry_checked s"
  by (simp add: registry_checked_def)

lemma find_faults [simp]:
  "find_domain i (s\<lparr>db_faults := fs\<rparr>) = find_domain i s"
  "find_app i (s\<lparr>db_faults := fs\<rparr>) = find_app i s"
  "find_login l (s\<lparr>db_faults := fs\<rparr>) = find_login l s"
  "find_limit sc r (s\<lparr>db_faults := fs\<rparr>) = find_limit sc r s"
  by (simp_all add: find_domain_def find_app_def find_login_def find_limit_def)

lemma app_bindings_faults [simp]: "app_bindings (s\<lparr>db_faults := fs\<rparr>) = app_bindings s"
  by (rule ext) (simp add: app_bindings_def split: address_mode.split)

lemma bindings_of_faults [simp]: "bindings_of (s\<lparr>db_faults := fs\<rparr>) = bindings_of s"
  by (simp add: bindings_of_def)

text \<open>An operation keeps a property of the rows when its body does.\<close>

lemma db_step_keeps:
  assumes "P s" "\<And>s fs. P s \<Longrightarrow> P (s\<lparr>db_faults := fs\<rparr>)" "\<And>s. P s \<Longrightarrow> P (fst (f s))"
  shows "P (fst (db_step f s))"
  using assms by (auto simp: db_step_def split: list.splits bool.splits)

named_theorems keeps_inv \<open>operations that keep the schema's invariant\<close>
named_theorems keeps_checked \<open>operations that keep the checked rows\<close>

lemmas inv_step = db_step_keeps [where P = registry_inv, OF _ registry_inv_faults [THEN iffD2]]
lemmas checked_step = db_step_keeps
  [where P = "\<lambda>s. registry_inv s \<and> registry_checked s", OF conjI]

lemma add_domain_inv [keeps_inv]: "registry_inv s \<Longrightarrow> registry_inv (fst (add_domain now n sel s))"
  unfolding add_domain_def
  by (erule inv_step) (auto simp: registry_inv_def Let_def list_ex_iff)

lemma delete_domain_inv [keeps_inv]: "registry_inv s \<Longrightarrow> registry_inv (fst (delete_domain i s))"
  unfolding delete_domain_def
  by (erule inv_step) (auto simp: registry_inv_def distinct_map_filter)

lemma set_rua_inv [keeps_inv]: "registry_inv s \<Longrightarrow> registry_inv (fst (set_domain_dmarc_address i r s))"
proof -
  have m: "map d_id (map (\<lambda>d. if d_id d = i then d\<lparr>d_rua := r\<rparr> else d) ds) = map d_id ds"
    "map d_name (map (\<lambda>d. if d_id d = i then d\<lparr>d_rua := r\<rparr> else d) ds) = map d_name ds" for ds
    by (induction ds) auto
  have im: "d_id ` (d_rua_update (\<lambda>_. r) ` (A \<inter> {d. d_id d = i}) \<union> A \<inter> {d. d_id d \<noteq> i}) = d_id ` A" for A
  proof -
    have "d_id ` (d_rua_update (\<lambda>_. r) ` (A \<inter> {d. d_id d = i}) \<union> A \<inter> {d. d_id d \<noteq> i}) =
        d_id ` (A \<inter> {d. d_id d = i} \<union> A \<inter> {d. d_id d \<noteq> i})"
      by (simp add: image_Un image_image)
    also have "\<dots> = d_id ` A" by (rule arg_cong [where f = "image d_id"]) blast
    finally show ?thesis .
  qed
  assume "registry_inv s"
  then show ?thesis
    unfolding set_domain_dmarc_address_def
    by (rule inv_step) (auto simp: registry_inv_def m im simp del: map_map)
qed

lemma add_application_inv [keeps_inv]:
  "registry_inv s \<Longrightarrow> registry_inv (fst (add_application now d l m as s))"
  unfolding add_application_def
  by (erule inv_step)
     (auto simp: registry_inv_def Let_def list_ex_iff insert_addresses_props find_domain_None_iff)

lemma map_update:
  assumes "\<And>a. g (f a) = g a"
  shows "map g (map (\<lambda>a. if p a then f a else a) as) = map g as"
  using assms by (induction as) auto

lemma update_app_inv:
  assumes "registry_inv s" and "\<And>a. a_id (f a) = a_id a" "\<And>a. a_login (f a) = a_login a"
    "\<And>a. a_domain_id (f a) = a_domain_id a"
    "\<And>a. distinct (a_addresses a) \<Longrightarrow> (a_mode a = Wildcard \<longrightarrow> a_addresses a = []) \<Longrightarrow>
       distinct (a_addresses (f a)) \<and> (a_mode (f a) = Wildcard \<longrightarrow> a_addresses (f a) = [])"
  shows "registry_inv (fst (update_app i f s))"
  using assms(1) unfolding update_app_def
proof (rule inv_step)
  fix s assume s: "registry_inv s"
  let ?u = "\<lambda>a. if a_id a = i then f a else a"
  have "map a_id (map ?u (db_apps s)) = map a_id (db_apps s)"
    "map (\<lambda>a. ascii_lower (a_login a)) (map ?u (db_apps s)) = map (\<lambda>a. ascii_lower (a_login a)) (db_apps s)"
    by (rule map_update; simp add: assms)+
  then show "registry_inv (fst (if find_app i s = None then (s, Inl Application_not_found)
      else (s\<lparr>db_apps := map ?u (db_apps s)\<rparr>, Inr ())))"
    using s assms(2-) by (auto simp: registry_inv_def simp del: map_map)
qed

lemma update_application_mode_inv [keeps_inv]:
  "registry_inv s \<Longrightarrow> registry_inv (fst (update_application_mode i m as s))"
  unfolding update_application_mode_def
  by (rule update_app_inv) (auto simp: insert_addresses_props)

lemma update_application_auth_ips_inv [keeps_inv]:
  "registry_inv s \<Longrightarrow> registry_inv (fst (update_application_auth_ips i r ips s))"
  unfolding update_application_auth_ips_def by (rule update_app_inv) auto

lemma read_op_inv: "registry_inv s \<Longrightarrow> (\<And>s. fst (f s) = s) \<Longrightarrow> registry_inv (fst (db_step f s))"
  by (rule inv_step) auto

lemma get_application_fst: "registry_inv s \<Longrightarrow> registry_inv (fst (get_application i s))"
  unfolding get_application_def by (erule read_op_inv) (auto split: option.splits)

lemma delete_application_inv [keeps_inv]:
  assumes "registry_inv s"
  shows "registry_inv (fst (delete_application i s))"
proof (cases "get_application i s")
  case (Pair s1 r)
  with get_application_fst [OF assms, of i] have s1: "registry_inv s1" by simp
  show ?thesis
  proof (cases r)
    case (Inr a)
    have "registry_inv (fst (db_step (\<lambda>s. if find_app i s = None then (s, Inl Application_not_found)
        else (s\<lparr>db_apps := filter (\<lambda>a. a_id a \<noteq> i) (db_apps s)\<rparr>, Inr a)) s1))"
      by (rule inv_step [OF s1]) (auto simp: registry_inv_def distinct_map_filter)
    with Pair Inr show ?thesis by (simp add: delete_application_def)
  qed (simp add: delete_application_def Pair s1)
qed

lemma limits_update:
  assumes "distinct (map k xs)" "\<And>x. P x \<Longrightarrow> k (f x) = k x"
  shows "distinct (map k (map (\<lambda>x. if P x then f x else x) xs))"
proof -
  have "map k (map (\<lambda>x. if P x then f x else x) xs) = map k xs"
    using assms(2) by (induction xs) auto
  with assms(1) show ?thesis by (simp del: map_map)
qed

lemma find_limit_None: "find_limit sc ref s = None \<longleftrightarrow> (sc, ref) \<notin> (\<lambda>r. (rl_scope r, rl_ref r)) ` set (db_limits s)"
  by (auto simp: find_limit_def find_None_iff same_limit_def)

lemma stored_limit_key [simp]: "rl_scope (stored_limit r) = rl_scope r" "rl_ref (stored_limit r) = rl_ref r"
  by (auto simp: stored_limit_def)

lemma set_rate_limit_inv [keeps_inv]: "registry_inv s \<Longrightarrow> registry_inv (fst (set_rate_limit r s))"
  unfolding set_rate_limit_def
proof (erule inv_step)
  fix s assume s: "registry_inv s"
  let ?k = "\<lambda>r. (rl_scope r, rl_ref r)"
  have "distinct (map ?k (map (\<lambda>x. if same_limit (rl_scope r) (rl_ref r) x then stored_limit r else x) (db_limits s)))"
    by (rule limits_update) (use s in \<open>auto simp: registry_inv_def same_limit_def\<close>)
  then show "registry_inv (fst (s\<lparr>db_limits :=
          (if find_limit (rl_scope r) (rl_ref r) s = None then db_limits s @ [stored_limit r]
           else map (\<lambda>x. if same_limit (rl_scope r) (rl_ref r) x then stored_limit r else x) (db_limits s))\<rparr>,
      Inr ()))"
    using s by (auto simp: registry_inv_def find_limit_None simp del: map_map)
qed

lemma delete_rate_limit_inv [keeps_inv]: "registry_inv s \<Longrightarrow> registry_inv (fst (delete_rate_limit sc ref s))"
  unfolding delete_rate_limit_def by (erule inv_step) (auto simp: registry_inv_def distinct_map_filter)

lemma delete_rate_limits_for_domain_inv [keeps_inv]:
  "registry_inv s \<Longrightarrow> registry_inv (fst (delete_rate_limits_for_domain i s))"
  unfolding delete_rate_limits_for_domain_def
  by (erule inv_step) (auto simp: registry_inv_def distinct_map_filter)

section \<open>The bindings of a checked registry\<close>

lemma set_bindings_of:
  "b \<in> set (bindings_of s) \<longleftrightarrow> (\<exists>a \<in> set (db_apps s). b \<in> set (app_bindings s a))"
  by (simp add: bindings_of_def)

lemma at_not_domain_char: "\<forall>c \<in> set d. domain_char c \<Longrightarrow> CHR ''@'' \<notin> set d"
  using domain_char_facts by blast

lemma domain_chars_lower: "\<forall>c \<in> set d. domain_char c \<Longrightarrow> ascii_lower d = d"
  by (auto simp: ascii_lower_def intro!: map_idI dest: domain_char_facts)

lemma local_chars_lower: "\<forall>c \<in> set d. local_char c \<Longrightarrow> ascii_lower d = d"
  by (auto simp: ascii_lower_def intro!: map_idI dest: local_char_facts)

lemma checked_login_safe:
  assumes "validate_login l = None"
  shows "l \<noteq> []" "set l \<inter> set sender_map_login_forbidden = {}" "is_ascii l"
  using assms login_char_facts
  by (fastforce simp: validate_login_None sender_map_login_forbidden_def is_ascii_def list_all_iff)+

lemma plain_address_binding:
  assumes "validate_login l = None" "\<forall>c \<in> set p. local_char c" "\<forall>c \<in> set d. domain_char c"
    "p = [] \<or> hd p \<noteq> CHR ''#''"
  shows "plain_binding \<lparr>b_address = p @ CHR ''@'' # d, b_login = l\<rparr>"
proof -
  have "is_ascii (p @ CHR ''@'' # d)"
    using assms(2,3) domain_char_facts local_char_facts
    by (auto simp: is_ascii_def list_all_iff is_ascii_char_def [of "CHR ''@''"])
  moreover have "set (p @ CHR ''@'' # d) \<inter> set sender_map_address_forbidden = {}"
    using assms(2,3) domain_char_facts local_char_facts
    by (fastforce simp: sender_map_address_forbidden_def)
  moreover have "CHR 0x22 \<notin> set (p @ CHR ''@'' # d)"
    using assms(2,3) domain_char_facts local_char_facts by fastforce
  moreover have "hd (p @ CHR ''@'' # d) \<noteq> CHR ''#''"
    using assms(4) by (cases p) auto
  ultimately show ?thesis
    using checked_login_safe [OF assms(1)] by (simp add: plain_binding_def assert_map_safe_None)
qed

lemma checked_address:
  assumes "validate_sender_address ad d = None" "domain_check d = None"
  shows "\<exists>p. ad = p @ CHR ''@'' # d \<and> p \<noteq> [] \<and> (\<forall>c \<in> set p. local_char c) \<and> ascii_lower ad = ad"
proof -
  from validate_sender_address_None [OF assms(1)] obtain p where
    p: "ad = p @ CHR ''@'' # d" "p \<noteq> []" "\<forall>c \<in> set p. local_char c"
    by (auto simp: validate_local_part_None)
  have "lower_char CHR ''@'' = CHR ''@''" by (simp add: lower_char_def is_upper_def)
  with p local_chars_lower domain_chars_lower domain_check_None(3) [OF assms(2)]
  have "ascii_lower ad = ad" by (simp add: ascii_lower_def)
  with p show ?thesis by blast
qed

lemma app_binding_facts:
  assumes "registry_inv s" "registry_checked s" "a \<in> set (db_apps s)" "b \<in> set (app_bindings s a)"
  shows "plain_binding b \<and> b_login b = a_login a \<and>
    (\<exists>d. find_domain (a_domain_id a) s = Some d \<and> domain_part (ascii_lower (b_address b)) = d_name d)"
proof -
  from assms(1,3) obtain d where d: "find_domain (a_domain_id a) s = Some d"
    by (cases "find_domain (a_domain_id a) s") (auto simp: registry_inv_def find_domain_None_iff)
  then have dd: "d \<in> set (db_domains s)" "d_id d = a_domain_id a" by (auto dest: find_domain_Some)
  with assms(2,3) have chk: "domain_check (d_name d) = None" "validate_login (a_login a) = None"
    "\<And>ad. ad \<in> set (a_addresses a) \<Longrightarrow> validate_sender_address ad (d_name d) = None"
    by (auto simp: registry_checked_def)
  note dc = domain_check_None(3) [OF chk(1)]
  have at: "ascii_lower (CHR ''@'' # d_name d) = CHR ''@'' # d_name d"
    using domain_chars_lower [OF dc] by (simp add: ascii_lower_def lower_char_def is_upper_def)
  have part: "domain_part (p @ CHR ''@'' # d_name d) = d_name d" for p
    by (rule domain_part_at) (rule at_not_domain_char [OF dc])
  show ?thesis
  proof (cases "a_mode a")
    case Wildcard
    with assms(4) d have b: "b = \<lparr>b_address = CHR ''@'' # d_name d, b_login = a_login a\<rparr>"
      by (simp add: app_bindings_def)
    have "plain_binding b"
      using plain_address_binding [OF chk(2) _ dc, of "[]"] by (simp add: b)
    with d show ?thesis using part [of "[]"] at by (simp add: b)
  next
    case Address_list
    with assms(4) obtain ad where ad: "ad \<in> set (a_addresses a)"
      and b: "b = \<lparr>b_address = ad, b_login = a_login a\<rparr>"
      by (auto simp: app_bindings_def)
    from checked_address [OF chk(3) [OF ad] chk(1)] obtain p where
      p: "ad = p @ CHR ''@'' # d_name d" "p \<noteq> []" "\<forall>c \<in> set p. local_char c" "ascii_lower ad = ad" by blast
    then have "hd p \<noteq> CHR ''#''" using local_char_facts hd_in_set by fastforce
    then have "plain_binding b"
      using plain_address_binding [OF chk(2) p(3) dc] p(1) by (simp add: b)
    with d show ?thesis using part [of p] p(1,4) by (simp add: b)
  qed
qed

lemma bindings_plain:
  "registry_inv s \<Longrightarrow> registry_checked s \<Longrightarrow> \<forall>b \<in> set (bindings_of s). plain_binding b"
  using app_binding_facts by (auto simp: set_bindings_of)

text \<open>Whoever is allowed is an application, and the address is in its own domain.\<close>

lemma allowed_own_domain:
  assumes "registry_inv s" "registry_checked s" "spec_allowed (bindings_of s) login addr"
  shows "\<exists>a \<in> set (db_apps s). ascii_lower (a_login a) = ascii_lower login \<and>
    (\<exists>d. find_domain (a_domain_id a) s = Some d \<and> domain_part (ascii_lower addr) = d_name d)"
proof -
  from spec_allowed_binding [OF assms(3)] obtain b where
    "b \<in> set (bindings_of s)" "ascii_lower (b_login b) = ascii_lower login"
    "domain_part (ascii_lower (b_address b)) = domain_part (ascii_lower addr)" by blast
  with app_binding_facts [OF assms(1,2)] show ?thesis
    unfolding set_bindings_of by metis
qed

lemma same_login_same_app:
  assumes "registry_inv s" "a \<in> set (db_apps s)" "a' \<in> set (db_apps s)"
    "ascii_lower (a_login a) = ascii_lower (a_login a')"
  shows "a = a'"
  using assms by (auto simp: registry_inv_def distinct_map inj_on_def)

text \<open>A listed address may be sent as; so may any address of the domain nobody else holds.\<close>

lemma owners_of_app:
  assumes "registry_inv s" "registry_checked s" "a \<in> set (db_apps s)" "b \<in> set (app_bindings s a)"
  shows "a_login a \<in> owners_of (bindings_of s) (ascii_lower (b_address b))"
  using app_binding_facts [OF assms] assms(3,4)
  by (force simp: owners_of_def set_bindings_of)

lemma listed_address_allowed:
  assumes "registry_inv s" "registry_checked s" "a \<in> set (db_apps s)" "a_mode a = Address_list"
    "ad \<in> set (a_addresses a)"
  shows "spec_allowed (bindings_of s) (a_login a) ad"
proof -
  have "\<lparr>b_address = ad, b_login = a_login a\<rparr> \<in> set (app_bindings s a)"
    using assms(4,5) by (simp add: app_bindings_def)
  from owners_of_app [OF assms(1-3) this]
  have "a_login a \<in> owners_of (bindings_of s) (ascii_lower ad)" by simp
  moreover then have "find (\<lambda>k. owners_of (bindings_of s) k \<noteq> {}) (candidate_keys (ascii_lower ad)) = Some (ascii_lower ad)"
    by (auto simp: candidate_keys_def)
  ultimately show ?thesis by (simp add: spec_allowed_def)
qed

lemma domain_of_part: "domain_of ul k = to_lower ul (domain_part k)"
  by (simp add: domain_of_def domain_part_def to_lower_ascii is_ascii_def ascii_lower_def split: option.split)

lemma checked_name_lower:
  assumes "domain_check n = None"
  shows "to_lower ul n = n"
proof -
  note dc = domain_check_None(3) [OF assms]
  have "is_ascii n" using dc domain_char_facts by (auto simp: is_ascii_def list_all_iff)
  then show ?thesis using domain_chars_lower [OF dc] by (simp add: to_lower_ascii ascii_lower_def)
qed

end
