(* ===== verification/App_Service.thy ===== *)
theory App_Service
  imports Registry
begin

text \<open>
  \<open>internal/app/service.go\<close> with the parts of \<open>sasl.go\<close> and of \<open>internal/postfix\<close> it drives:
  an application lives in three places, the registry (\<open>w_db\<close>), the SASL accounts of sasldb2
  (\<open>w_sasl\<close>) and the sender map on disk (\<open>w_map\<close>), which Postfix takes up at a reload
  (\<open>w_live\<close>). Every operation is written with its early returns and its rollback.

  The programs run from here (saslpasswd2, the supervised reload) and the file write succeed
  or fail as \<open>w_faults\<close> says, one entry for each, and nothing fails once it is used up; a
  failed change of sasldb2 leaves it as it was, since \<open>replaceSASLDB\<close> works on a copy it
  renames into place. Generated passwords (\<open>crypto/rand\<close>) are the argument \<open>pw\<close>.
\<close>

record world =
  w_db :: db
  w_sasl :: "string \<rightharpoonup> string"
  w_map :: "string option"
  w_live :: "string option"
  w_faults :: "bool list"

datatype app_error =
    Invalid verror
  | Store store_error
  | Map_unsafe token_error
  | Command_failed

type_synonym 'a op = "world \<Rightarrow> world \<times> (app_error + 'a)"

definition on_db :: "'a db_op \<Rightarrow> 'a op" where
  "on_db f w =
     (case f (w_db w) of
        (s, Inl e) \<Rightarrow> (w\<lparr>w_db := s\<rparr>, Inl (Store e))
      | (s, Inr x) \<Rightarrow> (w\<lparr>w_db := s\<rparr>, Inr x))"

definition command :: "(world \<Rightarrow> world) \<Rightarrow> unit op" where
  "command f w =
     (case w_faults w of
        [] \<Rightarrow> (f w, Inr ())
      | True # fs \<Rightarrow> (w\<lparr>w_faults := fs\<rparr>, Inl Command_failed)
      | False # fs \<Rightarrow> (f (w\<lparr>w_faults := fs\<rparr>), Inr ()))"

text \<open>An operation followed by another with its result; an error ends both.\<close>

definition andthen ::
  "('w \<Rightarrow> 'w \<times> ('e + 'a)) \<Rightarrow> ('a \<Rightarrow> 'w \<Rightarrow> 'w \<times> ('e + 'b)) \<Rightarrow> 'w \<Rightarrow> 'w \<times> ('e + 'b)" where
  "andthen f g w = (case f w of (w', Inl e) \<Rightarrow> (w', Inl e) | (w', Inr x) \<Rightarrow> g x w')"

text \<open>\<open>_ = f()\<close>: the operation's error is dropped.\<close>

definition quietly :: "('w \<Rightarrow> 'w \<times> ('e + 'a)) \<Rightarrow> 'w \<Rightarrow> 'w" where
  "quietly f w = fst (f w)"

section \<open>SASL accounts and the sender map\<close>

definition sasl_set :: "string \<Rightarrow> string \<Rightarrow> unit op" where
  "sasl_set login pw w =
     (case validate_login login of
        Some e \<Rightarrow> (w, Inl (Invalid e))
      | None \<Rightarrow> command (\<lambda>w. w\<lparr>w_sasl := (w_sasl w)(login \<mapsto> pw)\<rparr>) w)"

definition sasl_delete :: "string \<Rightarrow> unit op" where
  "sasl_delete login w =
     (case validate_login login of
        Some e \<Rightarrow> (w, Inl (Invalid e))
      | None \<Rightarrow> command (\<lambda>w. w\<lparr>w_sasl := (w_sasl w)(login := None)\<rparr>) w)"

definition reload :: "unit op" where
  "reload = command (\<lambda>w. w\<lparr>w_live := w_map w\<rparr>)"

text \<open>\<open>writeChanged\<close> on one file: nothing is written, and no reload asked, when it holds this already.\<close>

definition rebuild_sender_login_maps :: "(string \<Rightarrow> string) \<Rightarrow> binding list \<Rightarrow> unit op" where
  "rebuild_sender_login_maps ul bs w =
     (case render_sender_login_maps ul bs of
        Inl e \<Rightarrow> (w, Inl (Map_unsafe e))
      | Inr content \<Rightarrow>
          (if w_map w = Some content then (w, Inr ())
           else andthen (command (\<lambda>w. w\<lparr>w_map := Some content\<rparr>)) (\<lambda>_. reload) w))"

definition resync :: "(string \<Rightarrow> string) \<Rightarrow> unit op" where
  "resync ul = andthen (on_db list_bindings) (\<lambda>bs. rebuild_sender_login_maps ul bs)"

section \<open>Creating, importing and deleting an application\<close>

definition validate_for_domain ::
  "(string \<Rightarrow> string) \<Rightarrow> nat \<Rightarrow> string \<Rightarrow> string \<Rightarrow> string list \<Rightarrow> (address_mode \<times> string list) op" where
  "validate_for_domain ul did login mode raw =
     andthen (on_db (get_domain did)) (\<lambda>d w.
       case validate_login login of
         Some e \<Rightarrow> (w, Inl (Invalid e))
       | None \<Rightarrow>
           (case mode_of mode of
              None \<Rightarrow> (w, Inl (Invalid (Msg ''invalid address mode'')))
            | Some Wildcard \<Rightarrow> (w, Inr (Wildcard, []))
            | Some Address_list \<Rightarrow>
                (case parse_addresses ul raw (d_name d) of
                   Inl e \<Rightarrow> (w, Inl (Invalid e))
                 | Inr addrs \<Rightarrow> (w, Inr (Address_list, addrs)))))"

definition rollback_create :: "nat \<Rightarrow> string \<Rightarrow> world \<Rightarrow> world" where
  "rollback_create i login w =
     quietly (on_db (delete_application i)) (if login \<noteq> [] then quietly (sasl_delete login) w else w)"

definition create ::
  "(string \<Rightarrow> string) \<Rightarrow> int \<Rightarrow> string \<Rightarrow> nat \<Rightarrow> string \<Rightarrow> string \<Rightarrow> string list \<Rightarrow> (app_row \<times> string) op" where
  "create ul now pw did login0 mode raw =
     (let login = fold_login ul login0
      in andthen (validate_for_domain ul did login mode raw) (\<lambda>(m, addrs).
           andthen (on_db (add_application now did login m addrs)) (\<lambda>a w.
             case sasl_set login pw w of
               (w1, Inl e) \<Rightarrow> (rollback_create (a_id a) [] w1, Inl e)
             | (w1, Inr _) \<Rightarrow>
                 (case resync ul w1 of
                    (w2, Inl e) \<Rightarrow> (rollback_create (a_id a) login w2, Inl e)
                  | (w2, Inr _) \<Rightarrow> (w2, Inr (a, pw))))))"

definition import_application ::
  "(string \<Rightarrow> string) \<Rightarrow> int \<Rightarrow> nat \<Rightarrow> string \<Rightarrow> string \<Rightarrow> string list \<Rightarrow> string \<Rightarrow> unit op" where
  "import_application ul now did login mode raw password =
     andthen (validate_for_domain ul did login mode raw) (\<lambda>(m, addrs) w.
       case validate_imported_password password of
         Some e \<Rightarrow> (w, Inl (Invalid e))
       | None \<Rightarrow>
           andthen (on_db (add_application now did login m addrs)) (\<lambda>a w.
             case sasl_set login password w of
               (w1, Inl e) \<Rightarrow> (quietly (on_db (delete_application (a_id a))) w1, Inl e)
             | (w1, Inr _) \<Rightarrow> (w1, Inr ())) w)"

definition regenerate_password :: "string \<Rightarrow> nat \<Rightarrow> string op" where
  "regenerate_password pw i =
     andthen (on_db (get_application i)) (\<lambda>a.
       andthen (sasl_set (ap_login a) pw) (\<lambda>_ w. (w, Inr pw)))"

definition delete_app :: "(string \<Rightarrow> string) \<Rightarrow> nat \<Rightarrow> unit op" where
  "delete_app ul i =
     andthen (on_db (get_application i)) (\<lambda>a.
       andthen (sasl_delete (ap_login a)) (\<lambda>_.
         andthen (on_db (delete_application i)) (\<lambda>_.
           andthen (on_db (delete_rate_limit Scope_app i)) (\<lambda>_.
             resync ul))))"

fun delete_each_sasl :: "string list \<Rightarrow> unit op" where
  "delete_each_sasl [] w = (w, Inr ())"
| "delete_each_sasl (l # ls) w = andthen (sasl_delete l) (\<lambda>_. delete_each_sasl ls) w"

definition purge_domain_sasl :: "nat \<Rightarrow> unit op" where
  "purge_domain_sasl did = andthen (on_db (list_logins_by_domain did)) delete_each_sasl"

section \<open>The settings of one form\<close>

datatype limit_choice =
    Use_domain_limit
  | Manual_limit int int
  | Auto_limit rat int

record settings =
  st_mode :: string
  st_addresses :: "string list"
  st_restrict :: bool
  st_ips :: "string list"
  st_limit :: limit_choice

definition save_rate_limit :: "nat \<Rightarrow> rate_limit \<Rightarrow> unit op" where
  "save_rate_limit i r = on_db (set_rate_limit (r\<lparr>rl_scope := Scope_app, rl_ref := i\<rparr>))"

text \<open>\<open>recalc\<close> is the caller's function; it may be nil (\<open>None\<close>).\<close>

definition apply_access :: "(nat \<Rightarrow> unit op) option \<Rightarrow> nat \<Rightarrow> settings \<Rightarrow> unit op" where
  "apply_access recalc i cfg =
     andthen (on_db (update_application_auth_ips i (st_restrict cfg) (st_ips cfg))) (\<lambda>_.
       case st_limit cfg of
         Use_domain_limit \<Rightarrow> on_db (delete_rate_limit Scope_app i)
       | Auto_limit mult window \<Rightarrow>
           andthen (save_rate_limit i \<lparr>rl_scope = Scope_app, rl_ref = i, rl_max = 0, rl_window = window,
                                       rl_mode = Mode_auto, rl_multiplier = mult, rl_updated = None\<rparr>)
             (\<lambda>_. case recalc of None \<Rightarrow> (\<lambda>w. (w, Inr ())) | Some f \<Rightarrow> f i)
       | Manual_limit m window \<Rightarrow>
           save_rate_limit i \<lparr>rl_scope = Scope_app, rl_ref = i, rl_max = m, rl_window = window,
                              rl_mode = Mode_manual, rl_multiplier = 0, rl_updated = None\<rparr>)"

definition create_with_settings ::
  "(string \<Rightarrow> string) \<Rightarrow> int \<Rightarrow> string \<Rightarrow> (nat \<Rightarrow> unit op) option \<Rightarrow> nat \<Rightarrow> string \<Rightarrow> settings \<Rightarrow>
   (application \<times> string) op" where
  "create_with_settings ul now pw recalc did login cfg =
     andthen (create ul now pw did login (st_mode cfg) (st_addresses cfg)) (\<lambda>(a, password) w.
       case apply_access recalc (a_id a) cfg w of
         (w1, Inl e) \<Rightarrow>
           (quietly (resync ul) (rollback_create (a_id a) (a_login a)
              (quietly (on_db (delete_rate_limit Scope_app (a_id a))) w1)), Inl e)
       | (w1, Inr _) \<Rightarrow>
           andthen (on_db (get_application (a_id a))) (\<lambda>a w. (w, Inr (a, password))) w1)"

definition restore_settings ::
  "(string \<Rightarrow> string) \<Rightarrow> nat \<Rightarrow> application \<Rightarrow> rate_limit option \<Rightarrow> world \<Rightarrow> world" where
  "restore_settings ul i before limit_before w =
     (let w1 = quietly (on_db (update_application_mode i (ap_mode before) (ap_addresses before))) w;
          w2 = quietly (on_db (update_application_auth_ips i (ap_restrict before) (ap_ips before))) w1;
          w3 = (case limit_before of
                  Some r \<Rightarrow> quietly (save_rate_limit i r) w2
                | None \<Rightarrow> quietly (on_db (delete_rate_limit Scope_app i)) w2)
      in quietly (resync ul) w3)"

definition save_settings ::
  "(string \<Rightarrow> string) \<Rightarrow> (nat \<Rightarrow> unit op) option \<Rightarrow> nat \<Rightarrow> settings \<Rightarrow> unit op" where
  "save_settings ul recalc i cfg =
     andthen (on_db (get_application i)) (\<lambda>before.
       andthen (validate_for_domain ul (ap_domain_id before) (ap_login before) (st_mode cfg) (st_addresses cfg))
         (\<lambda>(m, addrs).
           andthen (on_db (get_rate_limit Scope_app i)) (\<lambda>limit_before w.
             case on_db (update_application_mode i m addrs) w of
               (w1, Inl e) \<Rightarrow> (restore_settings ul i before limit_before w1, Inl e)
             | (w1, Inr _) \<Rightarrow>
                 (case apply_access recalc i cfg w1 of
                    (w2, Inl e) \<Rightarrow> (restore_settings ul i before limit_before w2, Inl e)
                  | (w2, Inr _) \<Rightarrow>
                      (case resync ul w2 of
                         (w3, Inl e) \<Rightarrow> (restore_settings ul i before limit_before w3, Inl e)
                       | (w3, Inr _) \<Rightarrow> (w3, Inr ()))))))"

section \<open>Reasoning about operations\<close>

text \<open>
  \<open>triple P f Q E\<close>: from a state with \<open>P\<close>, the operation ends in \<open>Q\<close> of its result or, with
  an error, in \<open>E\<close>.
\<close>

definition triple ::
  "('w \<Rightarrow> bool) \<Rightarrow> ('w \<Rightarrow> 'w \<times> ('e + 'a)) \<Rightarrow> ('a \<Rightarrow> 'w \<Rightarrow> bool) \<Rightarrow> ('w \<Rightarrow> bool) \<Rightarrow> bool" where
  "triple P f Q E \<longleftrightarrow>
     (\<forall>w. P w \<longrightarrow> (case f w of (w', Inr x) \<Rightarrow> Q x w' | (w', Inl e) \<Rightarrow> E w'))"

named_theorems triple_rules \<open>rules for the operations\<close>

lemma triple_andthen:
  "triple P f Q E \<Longrightarrow> (\<And>x. triple (Q x) (g x) R E) \<Longrightarrow> triple P (andthen f g) R E"
  by (fastforce simp: triple_def andthen_def split: prod.splits sum.splits)

lemma triple_weaken:
  "triple P f Q E \<Longrightarrow> (\<And>w. P' w \<Longrightarrow> P w) \<Longrightarrow> (\<And>x w. Q x w \<Longrightarrow> Q' x w) \<Longrightarrow> (\<And>w. E w \<Longrightarrow> E' w) \<Longrightarrow>
   triple P' f Q' E'"
  by (fastforce simp: triple_def split: prod.splits sum.splits)

lemma triple_command:
  "(\<And>w. P w \<Longrightarrow> P (f w)) \<Longrightarrow> (\<And>w fs. P w \<Longrightarrow> P (w\<lparr>w_faults := fs\<rparr>)) \<Longrightarrow>
   triple P (command f) (\<lambda>_. P) P"
  by (auto simp: triple_def command_def split: list.splits bool.splits)

lemma triple_on_db:
  assumes "\<And>s. P s \<Longrightarrow> (case f s of (s', Inr x) \<Rightarrow> Q x s' | (s', Inl e) \<Rightarrow> P s')"
  shows "triple (\<lambda>w. P (w_db w)) (on_db f) (\<lambda>x w. Q x (w_db w)) (\<lambda>w. P (w_db w))"
  using assms by (fastforce simp: triple_def on_db_def split: prod.splits sum.splits)

lemma triple_on_db_keeps:
  "(\<And>s. P s \<Longrightarrow> P (fst (f s))) \<Longrightarrow> triple (\<lambda>w. P (w_db w)) (on_db f) (\<lambda>_ w. P (w_db w)) (\<lambda>w. P (w_db w))"
  by (fastforce simp: triple_def on_db_def split: prod.splits sum.splits)

lemma quietly_keeps: "triple P f (\<lambda>_. P) P \<Longrightarrow> P w \<Longrightarrow> P (quietly f w)"
  by (cases "f w"; cases "snd (f w)") (fastforce simp: triple_def quietly_def)+

section \<open>Every operation keeps the registry well formed\<close>

definition wf_db :: "db \<Rightarrow> bool" where
  "wf_db s \<longleftrightarrow> registry_inv s \<and> registry_checked s"

abbreviation wf :: "world \<Rightarrow> bool" where
  "wf w \<equiv> wf_db (w_db w)"

lemma wf_db_faults [simp]: "wf_db (s\<lparr>db_faults := fs\<rparr>) = wf_db s"
  by (simp add: wf_db_def)

lemma wf_step: "wf_db s \<Longrightarrow> (\<And>s. wf_db s \<Longrightarrow> wf_db (fst (f s))) \<Longrightarrow> wf_db (fst (db_step f s))"
  by (rule db_step_keeps [where P = wf_db]) auto

lemma delete_domain_wf: "wf_db s \<Longrightarrow> wf_db (fst (delete_domain i s))"
  using delete_domain_inv [of s i]
  by (auto simp: wf_db_def registry_checked_def delete_domain_def db_step_def split: list.splits bool.splits)

lemma add_domain_wf:
  assumes "wf_db s" "domain_check n = None"
  shows "wf_db (fst (add_domain now n sel s))"
proof -
  have "registry_inv (fst (add_domain now n sel s)) \<and> registry_checked (fst (add_domain now n sel s))"
    unfolding add_domain_def
  proof (rule db_step_keeps [where P = "\<lambda>s. registry_inv s \<and> registry_checked s"], goal_cases)
    case (3 s)
    then have "\<forall>a \<in> set (db_apps s). a_domain_id a < db_next_domain s"
      by (force simp: registry_inv_def)
    with 3 assms(2) show ?case
      by (auto simp: registry_inv_def registry_checked_def Let_def list_ex_iff)
  qed (use assms(1) in \<open>auto simp: wf_db_def\<close>)
  then show ?thesis by (simp add: wf_db_def)
qed


lemma add_application_wf:
  assumes "wf_db s" "validate_login l = None"
    "\<And>d ad. find_domain did s = Some d \<Longrightarrow> ad \<in> set as \<Longrightarrow> validate_sender_address ad (d_name d) = None"
  shows "wf_db (fst (add_application now did l m as s))"
proof -
  let ?P = "\<lambda>t. wf_db t \<and> find_domain did t = find_domain did s"
  let ?f = "\<lambda>s. if list_ex (\<lambda>a. ascii_lower (a_login a) = ascii_lower l) (db_apps s) then (s, Inl Login_exists)
     else if find_domain did s = None then (s, Inl Foreign_key)
     else (let a = \<lparr>a_id = db_next_app s, a_domain_id = did, a_login = l, a_mode = m, a_created = now,
                    a_addresses = insert_addresses m as, a_restrict = False, a_ips = []\<rparr>
           in (s\<lparr>db_apps := db_apps s @ [a], db_next_app := db_next_app s + 1\<rparr>, Inr a))"
  have step: "registry_checked (fst (?f t))" if t: "?P t" for t
  proof (cases "find_domain did t")
    case (Some d)
    then have d: "find_domain (d_id e) t = Some e" if "e \<in> set (db_domains t)" for e
      using t that find_domain_unique by (auto simp: wf_db_def)
    have "e = d" if "e \<in> set (db_domains t)" "d_id e = did" for e
      using d [OF that(1)] Some that(2) by simp
    with Some t assms(2,3) insert_addresses_props(3) [of m as] show ?thesis
      by (auto simp: wf_db_def registry_checked_def Let_def)
  qed (use t in \<open>auto simp: wf_db_def\<close>)
  have "registry_checked (fst (add_application now did l m as s))"
    using assms(1) step [of s] step [of "s\<lparr>db_faults := tl (db_faults s)\<rparr>"]
    by (auto simp: add_application_def db_step_def wf_db_def simp del: fst_conv split: list.split bool.split)
       (simp_all add: wf_db_def)
  with assms(1) add_application_inv show ?thesis by (auto simp: wf_db_def)
qed


definition fits :: "nat \<Rightarrow> string list \<Rightarrow> db \<Rightarrow> bool" where
  "fits did addrs s \<longleftrightarrow>
     (\<forall>d. find_domain did s = Some d \<longrightarrow> list_all (\<lambda>ad. validate_sender_address ad (d_name d) = None) addrs)"

lemma fits_Nil [simp]: "fits did [] s"
  by (simp add: fits_def)

lemma fits_faults [simp]: "fits did addrs (s\<lparr>db_faults := fs\<rparr>) = fits did addrs s"
  by (simp add: fits_def)

lemma update_mode_wf:
  assumes "wf_db s" "\<And>a. find_app i s = Some a \<Longrightarrow> fits (a_domain_id a) as s"
  shows "wf_db (fst (update_application_mode i m as s))"
proof -
  let ?f = "\<lambda>a. a\<lparr>a_mode := m, a_addresses := insert_addresses m as\<rparr>"
  have new: "registry_checked (t\<lparr>db_apps := map (\<lambda>a. if a_id a = i then ?f a else a) (db_apps t)\<rparr>)"
    if t: "wf_db t" "\<And>a. find_app i t = Some a \<Longrightarrow> fits (a_domain_id a) as t" for t
  proof -
    have "validate_sender_address ad (d_name d) = None"
      if "a \<in> set (db_apps t)" "a_id a = i" "d \<in> set (db_domains t)" "d_id d = a_domain_id a" "ad \<in> set as"
      for a d ad
    proof -
      have "find_app i t = Some a"
        using that(1,2) t(1) find_unique [of a_id "db_apps t" a]
        by (auto simp: find_app_def wf_db_def registry_inv_def)
      moreover have "find_domain (a_domain_id a) t = Some d"
        using find_domain_unique [of t d] t(1) that(3,4) by (simp add: wf_db_def)
      ultimately show ?thesis using t(2) that(5) by (auto simp: fits_def list_all_iff)
    qed
    with t(1) insert_addresses_props(3) [of m as] show ?thesis
      by (fastforce simp: wf_db_def registry_checked_def)
  qed
  have "registry_checked (fst (update_application_mode i m as s))"
    using assms(1) new [of "s\<lparr>db_faults := tl (db_faults s)\<rparr>"] new [of s] assms(2)
    by (auto simp: update_application_mode_def update_app_def db_step_def wf_db_def split: list.split bool.split)
  with assms(1) update_application_mode_inv show ?thesis by (auto simp: wf_db_def)
qed

lemma update_ips_wf: "wf_db s \<Longrightarrow> wf_db (fst (update_application_auth_ips i r ips s))"
  using update_application_auth_ips_inv [of s i r ips]
  by (fastforce simp: wf_db_def registry_checked_def update_application_auth_ips_def update_app_def db_step_def
      split: list.splits bool.splits)

lemma delete_application_wf: "wf_db s \<Longrightarrow> wf_db (fst (delete_application i s))"
  using delete_application_inv [of s i]
  by (auto simp: wf_db_def registry_checked_def delete_application_def get_application_def db_step_def
      split: list.splits bool.splits option.splits)

lemma limits_wf:
  "wf_db s \<Longrightarrow> wf_db (fst (set_rate_limit r s))"
  "wf_db s \<Longrightarrow> wf_db (fst (delete_rate_limit sc i s))"
  "wf_db s \<Longrightarrow> wf_db (fst (delete_rate_limits_for_domain i s))"
  using set_rate_limit_inv [of s r] delete_rate_limit_inv [of s sc i] delete_rate_limits_for_domain_inv [of s i]
  by (auto simp: wf_db_def registry_checked_def set_rate_limit_def delete_rate_limit_def
      delete_rate_limits_for_domain_def db_step_def split: list.splits bool.splits)

lemma reads_wf:
  "wf_db s \<Longrightarrow> wf_db (fst (get_domain i s))"
  "wf_db s \<Longrightarrow> wf_db (fst (get_application i s))"
  "wf_db s \<Longrightarrow> wf_db (fst (list_bindings s))"
  "wf_db s \<Longrightarrow> wf_db (fst (list_logins_by_domain i s))"
  "wf_db s \<Longrightarrow> wf_db (fst (get_rate_limit sc i s))"
  by (auto simp: get_domain_def get_application_def list_bindings_def list_logins_by_domain_def
      get_rate_limit_def db_step_def split: list.splits bool.splits option.splits)


text \<open>The same facts as rules for the operations of the service.\<close>

abbreviation keeps_wf :: "'a op \<Rightarrow> bool" where
  "keeps_wf f \<equiv> triple wf f (\<lambda>_. wf) wf"

lemma on_db_wf: "(\<And>s. wf_db s \<Longrightarrow> wf_db (fst (f s))) \<Longrightarrow> keeps_wf (on_db f)"
  by (rule triple_on_db_keeps)

lemmas db_triples =
  reads_wf [THEN on_db_wf] limits_wf [THEN on_db_wf] update_ips_wf [THEN on_db_wf]
  delete_application_wf [THEN on_db_wf] delete_domain_wf [THEN on_db_wf]

lemma command_wf: "(\<And>w. w_db (f w) = w_db w) \<Longrightarrow> keeps_wf (command f)"
  by (rule triple_command) simp_all

lemma sasl_wf: "keeps_wf (sasl_set l pw)" "keeps_wf (sasl_delete l)"
  using command_wf [of "\<lambda>w. w\<lparr>w_sasl := (w_sasl w)(l \<mapsto> pw)\<rparr>"]
    command_wf [of "\<lambda>w. w\<lparr>w_sasl := (w_sasl w)(l := None)\<rparr>"]
  by (auto simp: triple_def sasl_set_def sasl_delete_def split: option.split)

lemma rebuild_wf: "keeps_wf (rebuild_sender_login_maps ul bs)"
proof -
  have "keeps_wf (andthen (command (\<lambda>w. w\<lparr>w_map := Some c\<rparr>)) (\<lambda>_. reload))" for c
    unfolding reload_def by (rule triple_andthen [OF command_wf command_wf]) simp_all
  then show ?thesis
    by (auto simp: triple_def rebuild_sender_login_maps_def split: sum.split)
qed

lemma resync_wf: "keeps_wf (resync ul)"
  unfolding resync_def by (rule triple_andthen [OF db_triples(3) rebuild_wf])

lemma validate_for_domain_inv:
  assumes "validate_for_domain ul did login mode raw w = (w', Inr (m, addrs))"
  shows "\<exists>fs d. w' = w\<lparr>w_db := (w_db w)\<lparr>db_faults := fs\<rparr>\<rparr> \<and> find_domain did (w_db w) = Some d \<and>
     validate_login login = None \<and> mode_of mode = Some m \<and> (m = Wildcard \<longrightarrow> addrs = []) \<and>
     (m = Address_list \<longrightarrow> parse_addresses ul raw (d_name d) = Inr addrs)"
proof -
  have "find_domain did s = Some d \<and> s' = s\<lparr>db_faults := db_faults s'\<rparr>" if "get_domain did s = (s', Inr d)" for s s' d
    using that by (auto simp: get_domain_def db_step_def split: list.splits bool.splits option.splits)
  then show ?thesis
    using assms
    by (auto simp: validate_for_domain_def andthen_def on_db_def
        split: prod.splits sum.splits option.splits address_mode.splits) metis+
qed

lemma validate_for_domain_db:
  "\<exists>fs. fst (validate_for_domain ul did login mode raw w) = w\<lparr>w_db := (w_db w)\<lparr>db_faults := fs\<rparr>\<rparr>"
proof -
  have "\<exists>fs. fst (get_domain did s) = s\<lparr>db_faults := fs\<rparr>" for s
    by (auto simp: get_domain_def db_step_def split: list.splits bool.splits option.splits
        intro: exI [of _ "db_faults s"] exI [of _ "[]"])
  then show ?thesis
    by (auto simp: validate_for_domain_def andthen_def on_db_def
        split: prod.splits sum.splits option.splits address_mode.splits) (metis fst_conv)+
qed

lemma validate_for_domain_triple:
  "triple wf (validate_for_domain ul did login mode raw)
     (\<lambda>(m, addrs) w. wf w \<and> validate_login login = None \<and> fits did addrs (w_db w)) wf"
proof -
  have "case validate_for_domain ul did login mode raw w of
      (w', Inl e) \<Rightarrow> wf w'
    | (w', Inr x) \<Rightarrow> (case x of (m, addrs) \<Rightarrow> wf w' \<and> validate_login login = None \<and> fits did addrs (w_db w'))"
    if "wf w" for w
  proof (cases "validate_for_domain ul did login mode raw w")
    case (Pair w' r)
    with validate_for_domain_db [of ul did login mode raw w] that have w': "wf w'" by auto
    show ?thesis
    proof (cases r)
      case (Inr x)
      obtain m addrs where x: "x = (m, addrs)" by (cases x)
      from validate_for_domain_inv [of ul did login mode raw w w' m addrs] Pair Inr x obtain fs d where
        f: "w' = w\<lparr>w_db := (w_db w)\<lparr>db_faults := fs\<rparr>\<rparr>" "find_domain did (w_db w) = Some d"
          "validate_login login = None" "m = Wildcard \<longrightarrow> addrs = []"
          "m = Address_list \<longrightarrow> parse_addresses ul raw (d_name d) = Inr addrs" by blast
      have "fits did addrs (w_db w)"
        using f(2,4,5) parse_addresses_Inr by (cases m) (fastforce simp: fits_def list_all_iff)+
      with f(1,3) Pair Inr x w' show ?thesis by simp
    qed (use Pair w' in simp)
  qed
  then show ?thesis by (fastforce simp: triple_def split: prod.splits sum.splits)
qed


lemma add_application_on_db:
  "triple (\<lambda>w. wf w \<and> validate_login l = None \<and> fits did as (w_db w)) (on_db (add_application now did l m as))
     (\<lambda>_. wf) wf"
  using add_application_wf [of _ l did as now m]
  by (fastforce simp: triple_def on_db_def fits_def list_all_iff split: prod.splits sum.splits)

lemma rollback_wf: "wf w \<Longrightarrow> wf (rollback_create i l w)"
  unfolding rollback_create_def
  by (cases "l = []") (auto intro!: quietly_keeps [of wf, OF db_triples(10)] quietly_keeps [of wf, OF sasl_wf(2)])

lemma wf_case:
  assumes "keeps_wf f" "wf w" "\<And>w' e. wf w' \<Longrightarrow> wf (fst (g w' e))" "\<And>w' x. wf w' \<Longrightarrow> wf (fst (h w' x))"
  shows "wf (fst (case f w of (w', Inl e) \<Rightarrow> g w' e | (w', Inr x) \<Rightarrow> h w' x))"
  using assms by (fastforce simp: triple_def split: prod.splits sum.splits)

lemma triple_wfI: "(\<And>w. P w \<Longrightarrow> wf (fst (f w))) \<Longrightarrow> triple P f (\<lambda>_. wf) wf"
  by (fastforce simp: triple_def split: prod.splits sum.splits)

lemma keeps_wfD: "keeps_wf f \<Longrightarrow> wf w \<Longrightarrow> wf (fst (f w))"
  by (cases "f w"; cases "snd (f w)") (auto simp: triple_def)

lemma create_wf: "keeps_wf (create ul now pw did login mode raw)"
proof -
  have tail: "keeps_wf (\<lambda>w. case sasl_set l pw w of
             (w1, Inl e) \<Rightarrow> (rollback_create i [] w1, Inl e)
           | (w1, Inr _) \<Rightarrow>
               (case resync ul w1 of
                  (w2, Inl e) \<Rightarrow> (rollback_create i l w2, Inl e)
                | (w2, Inr _) \<Rightarrow> (w2, Inr (a, pw))))" for l i and a :: app_row
    by (rule triple_wfI) (auto intro!: wf_case [OF sasl_wf(1)] wf_case [OF resync_wf] rollback_wf)
  show ?thesis
    unfolding create_def Let_def
    by (rule triple_andthen [OF validate_for_domain_triple])
       (auto intro!: triple_andthen [OF add_application_on_db tail])
qed

lemma import_wf: "keeps_wf (import_application ul now did login mode raw pw)"
proof -
  have tail: "keeps_wf (\<lambda>w. case sasl_set l pw w of
             (w1, Inl e) \<Rightarrow> (quietly (on_db (delete_application i)) w1, Inl e)
           | (w1, Inr _) \<Rightarrow> (w1, Inr ()))" for l i
    by (rule triple_wfI)
       (auto intro!: wf_case [OF sasl_wf(1)] quietly_keeps [of wf, OF db_triples(10)])
  have "triple (\<lambda>w. wf w \<and> validate_login login = None \<and> fits did as (w_db w))
      (andthen (on_db (add_application now did login m as)) (\<lambda>a w.
             case sasl_set login pw w of
               (w1, Inl e) \<Rightarrow> (quietly (on_db (delete_application (a_id a))) w1, Inl e)
             | (w1, Inr _) \<Rightarrow> (w1, Inr ()))) (\<lambda>_. wf) wf" for m as
    by (rule triple_andthen [OF add_application_on_db tail])
  then have "triple (case x of (m, as) \<Rightarrow> (\<lambda>w. wf w \<and> validate_login login = None \<and> fits did as (w_db w)))
     (case x of (m, addrs) \<Rightarrow> (\<lambda>w.
       case validate_imported_password pw of
         Some e \<Rightarrow> (w, Inl (Invalid e))
       | None \<Rightarrow>
           andthen (on_db (add_application now did login m addrs)) (\<lambda>a w.
             case sasl_set login pw w of
               (w1, Inl e) \<Rightarrow> (quietly (on_db (delete_application (a_id a))) w1, Inl e)
             | (w1, Inr _) \<Rightarrow> (w1, Inr ())) w)) (\<lambda>_. wf) wf" for x
    by (cases x; cases "validate_imported_password pw") (simp_all add: triple_def)
  then show ?thesis
    unfolding import_application_def
    by (intro triple_andthen [OF validate_for_domain_triple]) simp
qed

lemma return_wf: "keeps_wf (\<lambda>w. (w, Inr x))"
  by (simp add: triple_def)

lemma regenerate_wf: "keeps_wf (regenerate_password pw i)"
  unfolding regenerate_password_def
  by (intro triple_andthen [OF db_triples(2)] triple_andthen [OF sasl_wf(1)] return_wf)

lemma delete_app_wf: "keeps_wf (delete_app ul i)"
  unfolding delete_app_def
  by (intro triple_andthen [OF db_triples(2)] triple_andthen [OF sasl_wf(2)]
      triple_andthen [OF db_triples(10)] triple_andthen [OF db_triples(7)] resync_wf)

lemma delete_each_sasl_wf: "keeps_wf (delete_each_sasl ls)"
proof (induction ls)
  case (Cons l ls)
  have "delete_each_sasl (l # ls) = andthen (sasl_delete l) (\<lambda>_. delete_each_sasl ls)"
    by (rule ext) simp
  with triple_andthen [OF sasl_wf(2) Cons.IH] show ?case by simp
qed (simp add: triple_def)

lemma purge_wf: "keeps_wf (purge_domain_sasl i)"
  unfolding purge_domain_sasl_def
  by (rule triple_andthen [OF db_triples(4) delete_each_sasl_wf])


text \<open>
  The settings form moves no application between domains, so addresses that fitted an
  application's domain still do at any later point of it.
\<close>

definition same_ids :: "db \<Rightarrow> db \<Rightarrow> bool" where
  "same_ids s t \<longleftrightarrow> db_domains t = db_domains s \<and>
     map (\<lambda>a. (a_id a, a_domain_id a)) (db_apps t) = map (\<lambda>a. (a_id a, a_domain_id a)) (db_apps s)"

definition stays :: "db \<Rightarrow> world \<Rightarrow> bool" where
  "stays s w \<longleftrightarrow> wf_db (w_db w) \<and> same_ids s (w_db w)"

lemma stays_simps [simp]:
  "stays s (w\<lparr>w_sasl := m\<rparr>) = stays s w" "stays s (w\<lparr>w_map := f\<rparr>) = stays s w"
  "stays s (w\<lparr>w_live := f\<rparr>) = stays s w" "stays s (w\<lparr>w_faults := fs\<rparr>) = stays s w"
  by (simp_all add: stays_def)

lemma find_same_ids:
  assumes "same_ids s t"
  shows "map_option a_domain_id (find_app i t) = map_option a_domain_id (find_app i s)"
proof -
  have "map_option a_domain_id (find (\<lambda>a. a_id a = i) as) =
      map_option snd (find (\<lambda>p. fst p = i) (map (\<lambda>a. (a_id a, a_domain_id a)) as))" for as
    by (induction as) auto
  from this [of "db_apps s"] this [of "db_apps t"] assms show ?thesis
    unfolding find_app_def same_ids_def by argo
qed

lemma fits_same_ids: "same_ids s t \<Longrightarrow> fits did as t = fits did as s"
  by (simp add: fits_def find_domain_def same_ids_def)

lemma same_ids_refl [simp]: "same_ids s s" and same_ids_faults [simp]: "same_ids s (t\<lparr>db_faults := fs\<rparr>) = same_ids s t"
  by (auto simp: same_ids_def)

lemma update_app_ids:
  assumes "\<And>a. a_id (f a) = a_id a \<and> a_domain_id (f a) = a_domain_id a" "same_ids s t"
  shows "same_ids s (fst (update_app i f t))"
proof -
  have "map (\<lambda>a. (a_id a, a_domain_id a)) (map (\<lambda>a. if a_id a = i then f a else a) as) =
      map (\<lambda>a. (a_id a, a_domain_id a)) as" for as
    by (rule map_update) (simp add: assms(1))
  then show ?thesis
    using assms(2) by (auto simp: update_app_def db_step_def same_ids_def simp del: map_map split: list.split bool.split)
qed

lemma stays_ips: "stays s w \<Longrightarrow> stays s (w\<lparr>w_db := fst (update_application_auth_ips i r ips (w_db w))\<rparr>)"
  using update_ips_wf [of "w_db w" i r ips] update_app_ids [of _ s "w_db w" i]
  by (simp add: update_application_auth_ips_def stays_def)

lemma stays_mode:
  assumes "stays s w" "\<And>a. find_app i s = Some a \<Longrightarrow> fits (a_domain_id a) as s"
  shows "stays s (w\<lparr>w_db := fst (update_application_mode i m as (w_db w))\<rparr>)"
proof -
  have "fits (a_domain_id a) as (w_db w)" if "find_app i (w_db w) = Some a" for a
    using that find_same_ids [of s "w_db w" i] assms fits_same_ids [of s "w_db w"]
    unfolding stays_def by (cases "find_app i s") auto
  with assms(1) update_mode_wf [of "w_db w" i as m] update_app_ids [of _ s "w_db w" i] show ?thesis
    by (simp add: update_application_mode_def stays_def)
qed

lemma stays_limit:
  "stays s w \<Longrightarrow> stays s (w\<lparr>w_db := fst (set_rate_limit r (w_db w))\<rparr>)"
  "stays s w \<Longrightarrow> stays s (w\<lparr>w_db := fst (delete_rate_limit sc i (w_db w))\<rparr>)"
  "stays s w \<Longrightarrow> stays s (w\<lparr>w_db := fst (get_application i (w_db w))\<rparr>)"
  "stays s w \<Longrightarrow> stays s (w\<lparr>w_db := fst (get_rate_limit sc i (w_db w))\<rparr>)"
  "stays s w \<Longrightarrow> stays s (w\<lparr>w_db := fst (list_bindings (w_db w))\<rparr>)"
  using limits_wf(1) [of "w_db w" r] limits_wf(2) [of "w_db w" sc i]
  by (auto simp: set_rate_limit_def delete_rate_limit_def get_application_def get_rate_limit_def list_bindings_def
      db_step_def stays_def same_ids_def split: list.splits bool.splits option.splits)

abbreviation keeps_ids :: "db \<Rightarrow> 'a op \<Rightarrow> bool" where
  "keeps_ids s f \<equiv> triple (stays s) f (\<lambda>_. stays s) (stays s)"

lemma on_db_ids: "(\<And>w. stays s w \<Longrightarrow> stays s (w\<lparr>w_db := fst (f (w_db w))\<rparr>)) \<Longrightarrow> keeps_ids s (on_db f)"
  by (fastforce simp: triple_def on_db_def split: prod.splits sum.splits)

lemma resync_ids: "keeps_ids s (resync ul)"
proof -
  have c: "keeps_ids s (command f)" if "\<And>w. w_db (f w) = w_db w" for f
    by (rule triple_command) (simp_all add: stays_def that)
  have "keeps_ids s (andthen (command (\<lambda>w. w\<lparr>w_map := Some c\<rparr>)) (\<lambda>_. reload))" for c
    unfolding reload_def by (rule triple_andthen [OF c c]) simp_all
  then have "keeps_ids s (rebuild_sender_login_maps ul bs)" for bs
    by (auto simp: triple_def rebuild_sender_login_maps_def split: sum.split)
  with on_db_ids [OF stays_limit(5)] show ?thesis
    unfolding resync_def by (intro triple_andthen)
qed


lemma apply_access_ids:
  assumes "\<And>f. recalc = Some f \<Longrightarrow> keeps_ids s (f i)"
  shows "keeps_ids s (apply_access recalc i cfg)"
proof -
  have r: "keeps_ids s (case recalc of None \<Rightarrow> (\<lambda>w. (w, Inr ())) | Some f \<Rightarrow> f i)"
    using assms by (auto simp: triple_def split: option.split)
  have "keeps_ids s (case st_limit cfg of
         Use_domain_limit \<Rightarrow> on_db (delete_rate_limit Scope_app i)
       | Auto_limit mult window \<Rightarrow>
           andthen (save_rate_limit i \<lparr>rl_scope = Scope_app, rl_ref = i, rl_max = 0, rl_window = window,
                                       rl_mode = Mode_auto, rl_multiplier = mult, rl_updated = None\<rparr>)
             (\<lambda>_. case recalc of None \<Rightarrow> (\<lambda>w. (w, Inr ())) | Some f \<Rightarrow> f i)
       | Manual_limit m window \<Rightarrow>
           save_rate_limit i \<lparr>rl_scope = Scope_app, rl_ref = i, rl_max = m, rl_window = window,
                              rl_mode = Mode_manual, rl_multiplier = 0, rl_updated = None\<rparr>)"
    by (cases "st_limit cfg")
       (simp_all add: save_rate_limit_def on_db_ids stays_limit triple_andthen [OF on_db_ids r])
  then show ?thesis
    unfolding apply_access_def by (intro triple_andthen [OF on_db_ids [OF stays_ips]])
qed

lemma quietly_ids: "keeps_ids s f \<Longrightarrow> stays s w \<Longrightarrow> stays s (quietly f w)"
  by (rule quietly_keeps [of "stays s"])

lemma quietly_db_ids:
  "(\<And>w. stays s w \<Longrightarrow> stays s (w\<lparr>w_db := fst (f (w_db w))\<rparr>)) \<Longrightarrow> stays s w \<Longrightarrow> stays s (quietly (on_db f) w)"
  by (rule quietly_ids [OF on_db_ids])

lemma restore_ids:
  assumes "stays s w" "\<And>a. find_app i s = Some a \<Longrightarrow> fits (a_domain_id a) (ap_addresses before) s"
  shows "stays s (restore_settings ul i before l w)"
proof -
  let ?w1 = "quietly (on_db (update_application_mode i (ap_mode before) (ap_addresses before))) w"
  let ?w2 = "quietly (on_db (update_application_auth_ips i (ap_restrict before) (ap_ips before))) ?w1"
  let ?w3 = "case l of Some r \<Rightarrow> quietly (save_rate_limit i r) ?w2
     | None \<Rightarrow> quietly (on_db (delete_rate_limit Scope_app i)) ?w2"
  have "stays s ?w1"
    by (rule quietly_db_ids, erule stays_mode) (use assms in auto)
  then have "stays s ?w2" by - (rule quietly_db_ids, erule stays_ips)
  then have "stays s ?w3"
    by (cases l) (simp_all add: save_rate_limit_def quietly_db_ids stays_limit)
  then have "stays s (quietly (resync ul) ?w3)" by (rule quietly_ids [OF resync_ids])
  then show ?thesis by (simp add: restore_settings_def Let_def)
qed

lemma ids_case:
  assumes "keeps_ids s f" "stays s w" "\<And>w' e. stays s w' \<Longrightarrow> stays s (fst (g w' e))"
    "\<And>w' x. stays s w' \<Longrightarrow> stays s (fst (h w' x))"
  shows "stays s (fst (case f w of (w', Inl e) \<Rightarrow> g w' e | (w', Inr x) \<Rightarrow> h w' x))"
  using assms by (cases "f w"; cases "snd (f w)") (auto simp: triple_def)

lemma scan_addresses_fit:
  assumes "wf_db s" "find_app i s = Some a"
  shows "fits (a_domain_id a) (ap_addresses (scan_application a)) s"
  using assms find_app_Some [OF assms(2)]
  by (auto simp: fits_def wf_db_def registry_checked_def scan_application_def list_all_iff dest: find_domain_Some)

lemma create_with_settings_wf:
  assumes "\<And>s f i. recalc = Some f \<Longrightarrow> keeps_ids s (f i)"
  shows "keeps_wf (create_with_settings ul now pw recalc did login cfg)"
proof -
  have access: "keeps_wf (apply_access recalc i cfg)" for i
    unfolding triple_def
  proof (intro allI impI)
    fix w assume "wf w"
    then have "stays (w_db w) w" by (simp add: stays_def)
    then show "case apply_access recalc i cfg w of (w', Inl e) \<Rightarrow> wf w' | (w', Inr x) \<Rightarrow> wf w'"
      using apply_access_ids [of recalc "w_db w" i cfg] assms
      by (cases "apply_access recalc i cfg w"; cases "snd (apply_access recalc i cfg w)")
        (auto simp: triple_def stays_def)
  qed
  have "keeps_wf (\<lambda>w. case apply_access recalc i cfg w of
         (w1, Inl e) \<Rightarrow>
           (quietly (resync ul) (rollback_create i l
              (quietly (on_db (delete_rate_limit Scope_app i)) w1)), Inl e)
       | (w1, Inr _) \<Rightarrow>
           andthen (on_db (get_application i)) (\<lambda>a w. (w, Inr (a, password))) w1)" for i l password
    by (rule triple_wfI, rule wf_case [OF access])
       (auto intro!: quietly_keeps [of wf, OF resync_wf] rollback_wf quietly_keeps [of wf, OF db_triples(7)]
          keeps_wfD [OF triple_andthen [OF db_triples(2) return_wf]])
  then show ?thesis
    unfolding create_with_settings_def by (intro triple_andthen [OF create_wf]) (simp add: case_prod_beta)
qed


lemma get_application_Inr:
  "get_application i s = (s', Inr a) \<Longrightarrow>
   \<exists>fs row. s' = s\<lparr>db_faults := fs\<rparr> \<and> find_app i s = Some row \<and> a = scan_application row"
  by (cases "find_app i s"; cases "db_faults s"; cases "hd (db_faults s)")
     (auto simp: get_application_def db_step_def intro: exI [of _ "db_faults s"])

lemma get_application_Inl:
  "get_application i s = (s', Inl e) \<Longrightarrow> \<exists>fs. s' = s\<lparr>db_faults := fs\<rparr>"
  by (cases "find_app i s"; cases "db_faults s"; cases "hd (db_faults s)")
     (auto simp: get_application_def db_step_def intro: exI [of _ "db_faults s"])

lemma save_settings_wf:
  assumes "\<And>s f. recalc = Some f \<Longrightarrow> keeps_ids s (f i)"
  shows "keeps_wf (save_settings ul recalc i cfg)"
proof (rule triple_wfI)
  fix w assume w: "wf w"
  let ?s = "w_db w"
  have s0: "stays ?s (w\<lparr>w_db := ?s\<lparr>db_faults := fs\<rparr>\<rparr>)" for fs
    using w by (simp add: stays_def)
  have tail: "stays ?s (fst (andthen (on_db (get_rate_limit Scope_app i)) (\<lambda>limit_before w.
             case on_db (update_application_mode i m addrs) w of
               (w1, Inl e) \<Rightarrow> (restore_settings ul i before limit_before w1, Inl e)
             | (w1, Inr _) \<Rightarrow>
                 (case apply_access recalc i cfg w1 of
                    (w2, Inl e) \<Rightarrow> (restore_settings ul i before limit_before w2, Inl e)
                  | (w2, Inr _) \<Rightarrow>
                      (case resync ul w2 of
                         (w3, Inl e) \<Rightarrow> (restore_settings ul i before limit_before w3, Inl e)
                       | (w3, Inr _) \<Rightarrow> (w3, Inr ())))) w'))"
    if "stays ?s w'" "\<And>a. find_app i ?s = Some a \<Longrightarrow> fits (a_domain_id a) addrs ?s"
      "\<And>a. find_app i ?s = Some a \<Longrightarrow> fits (a_domain_id a) (ap_addresses before) ?s"
    for w' m addrs and before :: application
    unfolding andthen_def
    by (rule ids_case [OF on_db_ids [OF stays_limit(4)] that(1)], simp)
       (auto intro!: ids_case [OF on_db_ids [OF stays_mode]] ids_case [OF apply_access_ids] ids_case [OF resync_ids]
          restore_ids simp: assms that(2,3))
  show "wf (fst (save_settings ul recalc i cfg w))"
  proof (cases "get_application i ?s")
    case (Pair s' r)
    show ?thesis
    proof (cases r)
      case (Inl e)
      with Pair w get_application_Inl [of i ?s s' e] show ?thesis
        by (auto simp: save_settings_def andthen_def on_db_def)
    next
      case (Inr before)
      with Pair obtain fs row where row: "s' = ?s\<lparr>db_faults := fs\<rparr>" "find_app i ?s = Some row"
        "before = scan_application row" using get_application_Inr by blast
      have did: "ap_domain_id before = a_domain_id row" by (simp add: row(3) scan_application_def)
      define w1 where "w1 = w\<lparr>w_db := s'\<rparr>"
      define v where "v = validate_for_domain ul (ap_domain_id before) (ap_login before) (st_mode cfg) (st_addresses cfg) w1"
      from validate_for_domain_db [of ul "ap_domain_id before" "ap_login before" "st_mode cfg" "st_addresses cfg" w1]
      obtain gs where v1: "fst v = w\<lparr>w_db := ?s\<lparr>db_faults := gs\<rparr>\<rparr>" by (auto simp: v_def w1_def row(1))
      have wf1: "wf w1" using w by (simp add: w1_def row(1))
      show ?thesis
      proof (cases "snd v")
        case (Inl e)
        then have "v = (w\<lparr>w_db := ?s\<lparr>db_faults := gs\<rparr>\<rparr>, Inl e)" using v1 by (cases v) simp
        with Pair Inr w show ?thesis
          by (auto simp: save_settings_def andthen_def on_db_def v_def w1_def row(1))
      next
        case (Inr x)
        obtain m addrs where x: "x = (m, addrs)" by (cases x)
        with Inr v1 have v: "v = (w\<lparr>w_db := ?s\<lparr>db_faults := gs\<rparr>\<rparr>, Inr (m, addrs))" by (cases v) simp
        from validate_for_domain_triple [of ul "ap_domain_id before" "ap_login before" "st_mode cfg" "st_addresses cfg"]
          wf1 v have "fits (a_domain_id row) addrs ?s"
          by (auto simp: triple_def v_def did split: prod.splits)
        then have "stays ?s (fst (save_settings ul recalc i cfg w))"
          using tail [OF s0, of addrs before m gs] scan_addresses_fit [OF w row(2)] v \<open>r = Inr before\<close> Pair row
          by (simp add: save_settings_def andthen_def on_db_def v_def w1_def row(1) cong: if_cong)
        then show ?thesis by (simp add: stays_def)
      qed
    qed
  qed
qed


section \<open>No account without its application\<close>

definition no_orphans :: "world \<Rightarrow> bool" where
  "no_orphans w \<longleftrightarrow> (\<forall>l. w_sasl w l \<noteq> None \<longrightarrow> l \<in> a_login ` set (db_apps (w_db w)))"

lemma sasl_delete_cases:
  assumes "sasl_delete l w = (w', r)"
  shows "w_db w' = w_db w \<and> w_map w' = w_map w \<and>
    ((\<exists>e. r = Inl e) \<and> w_sasl w' = w_sasl w \<or> r = Inr () \<and> w_sasl w' = (w_sasl w)(l := None))"
  using assms by (auto simp: sasl_delete_def command_def split: option.splits list.splits bool.splits)

lemma sasl_set_cases:
  assumes "sasl_set l pw w = (w', r)"
  shows "w_db w' = w_db w \<and> w_map w' = w_map w \<and>
    ((\<exists>e. r = Inl e) \<and> w_sasl w' = w_sasl w \<or>
     r = Inr () \<and> w_sasl w' = (w_sasl w)(l \<mapsto> pw) \<and> validate_login l = None)"
  using assms by (auto simp: sasl_set_def command_def split: option.splits list.splits bool.splits)

lemma delete_application_cases:
  assumes "delete_application i s = (s', r)"
  shows "db_domains s' = db_domains s \<and> db_limits s' = db_limits s \<and> db_next_app s' = db_next_app s \<and>
    ((\<exists>e. r = Inl e) \<and> db_apps s' = db_apps s \<or>
     (\<exists>a. r = Inr a) \<and> db_apps s' = filter (\<lambda>a. a_id a \<noteq> i) (db_apps s))"
  using assms
  by (auto simp: delete_application_def get_application_def db_step_def
      split: list.splits bool.splits option.splits)

lemma delete_rate_limit_cases:
  assumes "delete_rate_limit sc i s = (s', r)"
  shows "db_domains s' = db_domains s \<and> db_apps s' = db_apps s \<and>
    ((\<exists>e. r = Inl e) \<and> db_limits s' = db_limits s \<or> r = Inr () \<and> find_limit sc i s' = None)"
  using assms
  by (auto simp: delete_rate_limit_def db_step_def find_limit_def find_None_iff split: list.splits bool.splits)

lemma list_bindings_cases:
  assumes "list_bindings s = (s', r)"
  shows "(\<exists>fs. s' = s\<lparr>db_faults := fs\<rparr>) \<and> (r = Inl Db_error \<and> True \<in> set (db_faults s) \<or> r = Inr (bindings_of s))"
  using assms by (auto simp: list_bindings_def db_step_def intro: exI [of _ "db_faults s"] split: list.splits bool.splits)

text \<open>What a rebuild of the map leaves alone, and the map it leaves.\<close>

definition in_step :: "(string \<Rightarrow> string) \<Rightarrow> world \<Rightarrow> bool" where
  "in_step ul w \<longleftrightarrow>
     (\<exists>content. render_sender_login_maps ul (bindings_of (w_db w)) = Inr content \<and> w_map w = Some content)"

lemma rebuild_cases:
  assumes "rebuild_sender_login_maps ul bs w = (w', r)"
  shows "w_db w' = w_db w \<and> w_sasl w' = w_sasl w \<and>
    ((\<exists>e. r = Inl e) \<and> (\<forall>c. render_sender_login_maps ul bs = Inr c \<longrightarrow> True \<in> set (w_faults w)) \<or>
     r = Inr () \<and> (\<exists>c. render_sender_login_maps ul bs = Inr c \<and> w_map w' = Some c))"
  using assms
  by (auto simp: rebuild_sender_login_maps_def andthen_def command_def reload_def
      split: sum.splits list.splits bool.splits if_splits)

lemma resync_cases:
  assumes "resync ul w = (w', r)"
  shows "(\<exists>fs. w_db w' = (w_db w)\<lparr>db_faults := fs\<rparr>) \<and> w_sasl w' = w_sasl w \<and>
    ((\<exists>e. r = Inl e) \<or> r = Inr () \<and> in_step ul w')"
proof (cases "list_bindings (w_db w)")
  case (Pair s b)
  from list_bindings_cases [OF Pair] obtain fs where s: "s = (w_db w)\<lparr>db_faults := fs\<rparr>"
    and b: "b = Inl Db_error \<or> b = Inr (bindings_of (w_db w))" by blast
  from b show ?thesis
  proof
    assume "b = Inl Db_error"
    with assms Pair s show ?thesis by (auto simp: resync_def andthen_def on_db_def)
  next
    assume "b = Inr (bindings_of (w_db w))"
    then have "rebuild_sender_login_maps ul (bindings_of (w_db w)) (w\<lparr>w_db := s\<rparr>) = (w', r)"
      using assms Pair by (simp add: resync_def andthen_def on_db_def)
    from rebuild_cases [OF this] s show ?thesis by (auto simp: in_step_def)
  qed
qed

lemma delete_app_steps:
  assumes "delete_app ul i w = (w', r)"
  shows "w_sasl w' = w_sasl w \<and> db_apps (w_db w') = db_apps (w_db w) \<and> r \<noteq> Inr () \<or>
    (\<exists>a. find_app i (w_db w) = Some a \<and> w_sasl w' = (w_sasl w)(a_login a := None) \<and>
       (db_apps (w_db w') = db_apps (w_db w) \<and> r \<noteq> Inr () \<or>
        db_apps (w_db w') = filter (\<lambda>a. a_id a \<noteq> i) (db_apps (w_db w)) \<and>
        (r = Inr () \<longrightarrow> find_limit Scope_app i (w_db w') = None \<and> in_step ul w')))"
proof -
  obtain s1 r1 where g: "get_application i (w_db w) = (s1, r1)" by (cases "get_application i (w_db w)")
  show ?thesis
  proof (cases r1)
    case (Inl e)
    with g assms get_application_Inl [of i "w_db w" s1 e] show ?thesis
      by (auto simp: delete_app_def andthen_def on_db_def)
  next
    case (Inr ap)
    with g get_application_Inr obtain fs a where a: "s1 = (w_db w)\<lparr>db_faults := fs\<rparr>"
      "find_app i (w_db w) = Some a" "ap = scan_application a" by blast
    then have l: "ap_login ap = a_login a" by (simp add: scan_application_def)
    obtain w2 r2 where d: "sasl_delete (a_login a) (w\<lparr>w_db := s1\<rparr>) = (w2, r2)"
      by (cases "sasl_delete (a_login a) (w\<lparr>w_db := s1\<rparr>)")
    obtain s3 r3 where d3: "delete_application i (w_db w2) = (s3, r3)" by (cases "delete_application i (w_db w2)")
    obtain s4 r4 where d4: "delete_rate_limit Scope_app i s3 = (s4, r4)" by (cases "delete_rate_limit Scope_app i s3")
    obtain w5 r5 where d5: "resync ul (w2\<lparr>w_db := s4\<rparr>) = (w5, r5)" by (cases "resync ul (w2\<lparr>w_db := s4\<rparr>)")
    note c2 = sasl_delete_cases [OF d] and c3 = delete_application_cases [OF d3]
      and c4 = delete_rate_limit_cases [OF d4] and c5 = resync_cases [OF d5]
    show ?thesis
    proof (cases r2)
      case Inl
      with assms g Inr d l c2 a(1) show ?thesis by (auto simp: delete_app_def andthen_def on_db_def)
    next
      case r2: (Inr u)
      show ?thesis
      proof (cases r3)
        case Inl
        with assms g Inr d l d3 r2 c2 c3 a show ?thesis by (auto simp: delete_app_def andthen_def on_db_def)
      next
        case r3: (Inr x)
        show ?thesis
        proof (cases r4)
          case Inl
          with assms g Inr d l d3 d4 r2 r3 c2 c3 c4 a show ?thesis
            by (auto simp: delete_app_def andthen_def on_db_def)
        next
          case r4: (Inr y)
          with assms g Inr d l d3 d4 d5 r2 r3 have w': "w' = w5" "r = r5"
            by (auto simp: delete_app_def andthen_def on_db_def)
          from c5 obtain gs where "w_db w5 = s4\<lparr>db_faults := gs\<rparr>" by auto
          with w' c2 c3 c4 c5 a r2 r3 r4 show ?thesis by auto
        qed
      qed
    qed
  qed
qed


lemma delete_app_no_orphans:
  assumes "registry_inv (w_db w)" "no_orphans w"
  shows "no_orphans (fst (delete_app ul i w))"
proof (cases "delete_app ul i w")
  case (Pair w' r)
  from delete_app_steps [OF Pair] show ?thesis
  proof
    assume "\<exists>a. find_app i (w_db w) = Some a \<and> w_sasl w' = (w_sasl w)(a_login a := None) \<and>
       (db_apps (w_db w') = db_apps (w_db w) \<and> r \<noteq> Inr () \<or>
        db_apps (w_db w') = filter (\<lambda>a. a_id a \<noteq> i) (db_apps (w_db w)) \<and>
        (r = Inr () \<longrightarrow> find_limit Scope_app i (w_db w') = None \<and> in_step ul w'))"
    then obtain a where a: "find_app i (w_db w) = Some a" "w_sasl w' = (w_sasl w)(a_login a := None)"
      and rows: "db_apps (w_db w') = db_apps (w_db w) \<or>
        db_apps (w_db w') = filter (\<lambda>a. a_id a \<noteq> i) (db_apps (w_db w))" by blast
    have "b = a" if "b \<in> set (db_apps (w_db w))" "a_id b = i" for b
      using that a(1) assms(1) find_unique [of a_id "db_apps (w_db w)" b]
      by (auto simp: find_app_def registry_inv_def)
    with rows a(2) assms(2) show ?thesis
      unfolding no_orphans_def Pair fst_conv by (fastforce split: if_splits)
  qed (use assms(2) Pair in \<open>auto simp: no_orphans_def\<close>)
qed

lemma delete_app_done:
  assumes "delete_app ul i w = (w', Inr ())"
  shows "\<exists>a. find_app i (w_db w) = Some a \<and> w_sasl w' = (w_sasl w)(a_login a := None) \<and>
    db_apps (w_db w') = filter (\<lambda>a. a_id a \<noteq> i) (db_apps (w_db w)) \<and>
    find_limit Scope_app i (w_db w') = None \<and> in_step ul w'"
  using delete_app_steps [OF assms] by auto

section \<open>Creation: all or nothing under one failure\<close>

definition failures :: "world \<Rightarrow> nat" where
  "failures w = count_list (db_faults (w_db w)) True + count_list (w_faults w) True"

lemma quiet_faults: "count_list fs True = 0 \<longleftrightarrow> (\<forall>f \<in> set fs. \<not> f)"
  by (induction fs) auto

lemma failures_0: "failures w = 0 \<longleftrightarrow> (\<forall>f \<in> set (db_faults (w_db w)) \<union> set (w_faults w). \<not> f)"
  by (auto simp: failures_def quiet_faults)

lemma db_step_quiet:
  assumes "\<forall>f \<in> set (db_faults s). \<not> f"
  shows "db_step f s = f (s\<lparr>db_faults := tl (db_faults s)\<rparr>)"
proof (cases "db_faults s")
  case Nil
  then have e: "s\<lparr>db_faults := []\<rparr> = s" by (cases s) simp
  show ?thesis by (simp add: db_step_def Nil e del: db.update_convs)
qed (use assms in \<open>simp add: db_step_def\<close>)

lemma command_quiet:
  assumes "\<forall>f \<in> set (w_faults w). \<not> f"
  shows "command g w = (g (w\<lparr>w_faults := tl (w_faults w)\<rparr>), Inr ())"
proof (cases "w_faults w")
  case Nil
  then have e: "w\<lparr>w_faults := []\<rparr> = w" by (cases w) simp
  show ?thesis by (simp add: command_def Nil e)
qed (use assms in \<open>simp add: command_def\<close>)

lemma set_tl: "\<forall>f \<in> set fs. \<not> f \<Longrightarrow> \<forall>f \<in> set (tl fs). \<not> f"
  by (cases fs) auto

lemma delete_application_quiet:
  assumes "\<forall>f \<in> set (db_faults s). \<not> f"
  shows "db_apps (fst (delete_application i s)) = filter (\<lambda>a. a_id a \<noteq> i) (db_apps s) \<and>
    db_domains (fst (delete_application i s)) = db_domains s \<and>
    db_limits (fst (delete_application i s)) = db_limits s"
proof (cases "find_app i s")
  case None
  then have "filter (\<lambda>a. a_id a \<noteq> i) (db_apps s) = db_apps s"
    by (auto simp: find_app_def find_None_iff intro: filter_True)
  with None assms show ?thesis
    by (simp add: delete_application_def get_application_def db_step_quiet)
qed (use assms set_tl [OF assms] in \<open>simp add: delete_application_def get_application_def db_step_quiet\<close>)

lemma rollback_quiet:
  assumes "failures w = 0" "l \<noteq> [] \<Longrightarrow> validate_login l = None"
  shows "db_apps (w_db (rollback_create i l w)) = filter (\<lambda>a. a_id a \<noteq> i) (db_apps (w_db w)) \<and>
    db_domains (w_db (rollback_create i l w)) = db_domains (w_db w) \<and>
    db_limits (w_db (rollback_create i l w)) = db_limits (w_db w) \<and>
    w_sasl (rollback_create i l w) = (if l = [] then w_sasl w else (w_sasl w)(l := None))"
proof -
  have q: "\<forall>f \<in> set (db_faults (w_db w)). \<not> f" "\<forall>f \<in> set (w_faults w). \<not> f"
    using assms(1) by (auto simp: failures_0)
  have db: "w_db (quietly (on_db (delete_application i)) v) = fst (delete_application i (w_db v)) \<and>
      w_sasl (quietly (on_db (delete_application i)) v) = w_sasl v" for v
    by (cases "delete_application i (w_db v)"; cases "snd (delete_application i (w_db v))")
       (auto simp: quietly_def on_db_def)
  have sd: "quietly (sasl_delete l) w = w\<lparr>w_faults := tl (w_faults w), w_sasl := (w_sasl w)(l := None)\<rparr>" if "l \<noteq> []"
    using assms(2) [OF that] q by (simp add: quietly_def sasl_delete_def command_quiet)
  show ?thesis
    using delete_application_quiet [OF q(1), of i] sd db by (auto simp: rollback_create_def)
qed


lemma command_failures:
  assumes "\<And>w. w_db (f w) = w_db w \<and> w_faults (f w) = w_faults w" "command f w = (w', r)"
  shows "w_db w' = w_db w \<and> count_list (w_faults w') True \<le> count_list (w_faults w) True \<and>
    ((\<exists>e. r = Inl e) \<longrightarrow> count_list (w_faults w') True < count_list (w_faults w) True)"
  using assms by (auto simp: command_def split: list.splits bool.splits)

lemma db_faults_less:
  assumes "list_bindings s = (s', r)"
  shows "count_list (db_faults s') True \<le> count_list (db_faults s) True \<and>
    ((\<exists>e. r = Inl e) \<longrightarrow> count_list (db_faults s') True < count_list (db_faults s) True)"
  using assms by (auto simp: list_bindings_def db_step_def split: list.splits bool.splits)

lemma renders:
  assumes "wf_db s"
  shows "\<exists>c. render_sender_login_maps ul (bindings_of s) = Inr c"
  using render_parse [of "bindings_of s" ul] bindings_plain [of s] assms by (auto simp: wf_db_def)

lemma resync_failures:
  assumes "wf w" "resync ul w = (w', Inl e)"
  shows "failures w' < failures w"
proof (cases "list_bindings (w_db w)")
  case (Pair s b)
  note l = list_bindings_cases [OF Pair] db_faults_less [OF Pair]
  from renders [OF assms(1)] obtain c where c: "render_sender_login_maps ul (bindings_of (w_db w)) = Inr c" by blast
  show ?thesis
  proof (cases b)
    case Inl
    with assms(2) Pair l(2) show ?thesis by (auto simp: resync_def andthen_def on_db_def failures_def)
  next
    case (Inr bs)
    with l(1) have bs: "bs = bindings_of (w_db w)" by auto
    have r: "rebuild_sender_login_maps ul bs (w\<lparr>w_db := s\<rparr>) = (w', Inl e)"
      using assms(2) Pair Inr by (simp add: resync_def andthen_def on_db_def)
    obtain w1 r1 where c1: "command (\<lambda>w. w\<lparr>w_map := Some c\<rparr>) (w\<lparr>w_db := s\<rparr>) = (w1, r1)"
      by (cases "command (\<lambda>w. w\<lparr>w_map := Some c\<rparr>) (w\<lparr>w_db := s\<rparr>)")
    note f1 = command_failures [OF _ c1]
    have ne: "w_map w \<noteq> Some c" using r c bs by (auto simp: rebuild_sender_login_maps_def split: if_splits)
    show ?thesis
    proof (cases r1)
      case Inl
      with r c bs c1 ne f1 l(2) show ?thesis
        by (auto simp: rebuild_sender_login_maps_def andthen_def failures_def)
    next
      case (Inr u)
      with r c bs c1 ne have "reload w1 = (w', Inl e)"
        by (simp add: rebuild_sender_login_maps_def andthen_def)
      with command_failures [of "\<lambda>w. w\<lparr>w_live := w_map w\<rparr>" w1 w' "Inl e"] f1 l(2) show ?thesis
        by (auto simp: reload_def failures_def)
    qed
  qed
qed

lemma sasl_set_failures:
  assumes "sasl_set l pw w = (w', Inl e)" "validate_login l = None"
  shows "failures w' < failures w"
  using assms command_failures [of "\<lambda>w. w\<lparr>w_sasl := (w_sasl w)(l \<mapsto> pw)\<rparr>" w w' "Inl e"]
  by (auto simp: sasl_set_def failures_def)

lemma sasl_set_failures_le:
  assumes "sasl_set l pw w = (w', r)"
  shows "failures w' \<le> failures w"
  using assms command_failures [of "\<lambda>w. w\<lparr>w_sasl := (w_sasl w)(l \<mapsto> pw)\<rparr>" w w' r]
  by (auto simp: sasl_set_def failures_def split: option.splits)

lemma validate_failures:
  assumes "validate_for_domain ul did login mode raw w = (w', r)"
  shows "failures w' \<le> failures w"
proof -
  have "count_list (db_faults (fst (get_domain did s))) True \<le> count_list (db_faults s) True" for s
    by (auto simp: get_domain_def db_step_def split: list.splits bool.splits option.splits)
  then have "failures (fst (validate_for_domain ul did login mode raw w)) \<le> failures w"
    by (auto simp: validate_for_domain_def andthen_def on_db_def failures_def
        split: prod.splits sum.splits option.splits address_mode.splits) (metis fst_conv)+
  with assms show ?thesis by simp
qed

lemma add_application_Inr:
  assumes "add_application now did l m as s = (s', Inr a)"
  shows "\<exists>d. find_domain did s = Some d \<and> a = \<lparr>a_id = db_next_app s, a_domain_id = did, a_login = l, a_mode = m,
      a_created = now, a_addresses = insert_addresses m as, a_restrict = False, a_ips = []\<rparr> \<and>
    ascii_lower l \<notin> (\<lambda>a. ascii_lower (a_login a)) ` set (db_apps s) \<and>
    db_apps s' = db_apps s @ [a] \<and> db_domains s' = db_domains s \<and> db_limits s' = db_limits s \<and>
    count_list (db_faults s') True \<le> count_list (db_faults s) True"
  using assms
  by (auto simp: add_application_def db_step_def list_ex_iff Let_def image_iff
      split: list.splits bool.splits if_splits)

lemma add_application_Inl:
  assumes "add_application now did l m as s = (s', Inl e)"
  shows "\<exists>fs. s' = s\<lparr>db_faults := fs\<rparr>"
  using assms
  by (auto simp: add_application_def db_step_def Let_def intro: exI [of _ "db_faults s"]
      split: list.splits bool.splits if_splits)


lemma create_steps:
  assumes "create ul now pw did login0 mode raw w = (w', r)"
  shows "(\<exists>fs e. w' = w\<lparr>w_db := (w_db w)\<lparr>db_faults := fs\<rparr>\<rparr> \<and> r = Inl e) \<or>
    (\<exists>m addrs w1 s a. validate_for_domain ul did (fold_login ul login0) mode raw w = (w1, Inr (m, addrs)) \<and>
       add_application now did (fold_login ul login0) m addrs (w_db w1) = (s, Inr a) \<and>
       (\<exists>w2 r2. sasl_set (fold_login ul login0) pw (w1\<lparr>w_db := s\<rparr>) = (w2, r2) \<and>
         ((\<exists>e. r2 = Inl e \<and> r = Inl e \<and> w' = rollback_create (a_id a) [] w2) \<or>
          (\<exists>w3 r3. resync ul w2 = (w3, r3) \<and> r2 = Inr () \<and>
             ((\<exists>e. r3 = Inl e \<and> r = Inl e \<and> w' = rollback_create (a_id a) (fold_login ul login0) w3) \<or>
              r3 = Inr () \<and> r = Inr (a, pw) \<and> w' = w3)))))"
proof -
  let ?l = "fold_login ul login0"
  obtain w1 v where v: "validate_for_domain ul did ?l mode raw w = (w1, v)"
    by (cases "validate_for_domain ul did ?l mode raw w")
  with validate_for_domain_db [of ul did ?l mode raw w] obtain fs where
    w1: "w1 = w\<lparr>w_db := (w_db w)\<lparr>db_faults := fs\<rparr>\<rparr>" by auto
  show ?thesis
  proof (cases v)
    case Inl
    with assms v w1 show ?thesis by (auto simp: create_def Let_def andthen_def)
  next
    case (Inr x)
    then obtain m addrs where x: "v = Inr (m, addrs)" by (cases x) auto
    obtain s b where b: "add_application now did ?l m addrs (w_db w1) = (s, b)"
      by (cases "add_application now did ?l m addrs (w_db w1)")
    show ?thesis
    proof (cases b)
      case (Inl e)
      with add_application_Inl b obtain gs where "s = (w_db w1)\<lparr>db_faults := gs\<rparr>" by blast
      with assms v x b Inl w1 show ?thesis by (auto simp: create_def Let_def andthen_def on_db_def)
    next
      case (Inr a)
      with assms v x b show ?thesis
        by (auto simp: create_def Let_def andthen_def on_db_def split: prod.splits sum.splits)
    qed
  qed
qed

lemma fresh_app_filtered:
  assumes "registry_inv s" "a_id a = db_next_app s"
  shows "filter (\<lambda>x. a_id x \<noteq> a_id a) (db_apps s @ [a]) = db_apps s"
  using assms by (auto simp: registry_inv_def intro!: filter_True)

lemma create_failed:
  assumes w: "wf w" "no_orphans w" "failures w \<le> 1"
    and c: "create ul now pw did login0 mode raw w = (w', Inl e)"
  shows "db_apps (w_db w') = db_apps (w_db w) \<and> db_domains (w_db w') = db_domains (w_db w) \<and>
    db_limits (w_db w') = db_limits (w_db w) \<and> w_sasl w' = w_sasl w"
proof (cases "\<exists>fs e. w' = w\<lparr>w_db := (w_db w)\<lparr>db_faults := fs\<rparr>\<rparr>")
  case False
  let ?l = "fold_login ul login0"
  from create_steps [OF c] False obtain m addrs w1 s a w2 r2 where
    v: "validate_for_domain ul did ?l mode raw w = (w1, Inr (m, addrs))"
    and add: "add_application now did ?l m addrs (w_db w1) = (s, Inr a)"
    and set: "sasl_set ?l pw (w1\<lparr>w_db := s\<rparr>) = (w2, r2)"
    and rest: "(\<exists>e. r2 = Inl e \<and> w' = rollback_create (a_id a) [] w2) \<or>
      (\<exists>w3 e. resync ul w2 = (w3, Inl e) \<and> r2 = Inr () \<and> w' = rollback_create (a_id a) ?l w3)"
    by blast
  from validate_for_domain_inv [OF v] obtain fs where w1: "w1 = w\<lparr>w_db := (w_db w)\<lparr>db_faults := fs\<rparr>\<rparr>"
    and l: "validate_login ?l = None" by blast
  from add_application_Inr [OF add] have a: "a_id a = db_next_app (w_db w)"
    and new: "ascii_lower ?l \<notin> (\<lambda>a. ascii_lower (a_login a)) ` set (db_apps (w_db w))"
    and s: "db_apps s = db_apps (w_db w) @ [a]" "db_domains s = db_domains (w_db w)" "db_limits s = db_limits (w_db w)"
      "count_list (db_faults s) True \<le> count_list (db_faults (w_db w1)) True"
    by (auto simp: w1)
  have flt: "filter (\<lambda>x. a_id x \<noteq> a_id a) (db_apps s) = db_apps (w_db w)"
    using fresh_app_filtered [of "w_db w" a] w(1) a s(1) by (simp add: wf_db_def)
  have none: "w_sasl w ?l = None" using w(2) new by (auto simp: no_orphans_def)
  have f1: "failures (w1\<lparr>w_db := s\<rparr>) \<le> 1"
    using validate_failures [OF v] s(4) w(3) by (simp add: failures_def)
  have wf1: "wf (w1\<lparr>w_db := s\<rparr>)"
  proof -
    have "wf w1" using w(1) by (simp add: w1)
    moreover have "fits did addrs (w_db w1)"
      using validate_for_domain_triple [of ul did ?l mode raw] w(1) v by (auto simp: triple_def)
    ultimately show ?thesis
      using add_application_wf [of "w_db w1" ?l did addrs now m] l add by (auto simp: fits_def list_all_iff)
  qed
  note c2 = sasl_set_cases [OF set]
  have f2: "failures w2 \<le> 1" using sasl_set_failures_le [OF set] f1 by simp
  from rest show ?thesis
  proof
    assume "\<exists>e. r2 = Inl e \<and> w' = rollback_create (a_id a) [] w2"
    then obtain e where e: "r2 = Inl e" "w' = rollback_create (a_id a) [] w2" by blast
    have "failures w2 = 0" using sasl_set_failures [of ?l pw "w1\<lparr>w_db := s\<rparr>" w2 e] set e(1) l f1 by simp
    from rollback_quiet [OF this, of "[]" "a_id a"] show ?thesis
      using e c2 s flt by (simp add: w1)
  next
    assume "\<exists>w3 e. resync ul w2 = (w3, Inl e) \<and> r2 = Inr () \<and> w' = rollback_create (a_id a) ?l w3"
    then obtain w3 e where r: "resync ul w2 = (w3, Inl e)" "r2 = Inr ()" "w' = rollback_create (a_id a) ?l w3" by blast
    have "wf w2" using c2 wf1 by simp
    with resync_failures [OF this r(1)] f2 have f3: "failures w3 = 0" by simp
    from resync_cases [OF r(1)] obtain gs where "w_db w3 = (w_db w2)\<lparr>db_faults := gs\<rparr>" "w_sasl w3 = w_sasl w2" by blast
    with rollback_quiet [OF f3, of ?l "a_id a"] l checked_login_safe(1) [OF l] show ?thesis
      using r c2 s flt none by (auto simp: w1 fun_upd_idem)
  qed
qed auto

lemma create_done:
  assumes "create ul now pw did login0 mode raw w = (w', Inr (a, p))"
  shows "p = pw \<and> a_login a = fold_login ul login0 \<and> a_domain_id a = did \<and>
    db_apps (w_db w') = db_apps (w_db w) @ [a] \<and> w_sasl w' = (w_sasl w)(fold_login ul login0 \<mapsto> pw) \<and>
    ascii_lower (fold_login ul login0) \<notin> (\<lambda>a. ascii_lower (a_login a)) ` set (db_apps (w_db w)) \<and> in_step ul w'"
proof -
  let ?l = "fold_login ul login0"
  from create_steps [OF assms] obtain m addrs w1 s w2 r2 w3 where
    v: "validate_for_domain ul did ?l mode raw w = (w1, Inr (m, addrs))"
    and add: "add_application now did ?l m addrs (w_db w1) = (s, Inr a)"
    and set: "sasl_set ?l pw (w1\<lparr>w_db := s\<rparr>) = (w2, r2)" "r2 = Inr ()"
    and res: "resync ul w2 = (w3, Inr ())" "w' = w3" "p = pw"
    by auto
  from validate_for_domain_inv [OF v] obtain fs where w1: "w1 = w\<lparr>w_db := (w_db w)\<lparr>db_faults := fs\<rparr>\<rparr>" by blast
  from resync_cases [OF res(1)] obtain gs where "w_db w3 = (w_db w2)\<lparr>db_faults := gs\<rparr>" by blast
  with add_application_Inr [OF add] sasl_set_cases [OF set(1)] set(2) resync_cases [OF res(1)] res w1
  show ?thesis by auto
qed

end
