(* ===== verification/Mail_Header.thy ===== *)
theory Mail_Header
  imports Prelude
begin

text \<open>
  \<open>internal/mailhdr/subject.go\<close>: the display form of a Subject header. The decoder of
  RFC 2047 encoded-words (\<open>mime.WordDecoder\<close>) is the parameter \<open>wd\<close>; \<open>None\<close> is its error,
  which leaves the raw header. The lemmas show the cut at \<open>SubjectMaxRunes\<close> and that a
  second pass changes nothing.
\<close>

definition subject_max_runes :: nat where "subject_max_runes = 200"

definition ellipsis :: string where "ellipsis = [CHR 0xE2, CHR 0x80, CHR 0xA6]"

definition cut_runes :: "string \<Rightarrow> string" where
  "cut_runes v =
     (let r = runes v
      in if length r > subject_max_runes
           then concat (map rune_bytes (take subject_max_runes r)) @ ellipsis
         else v)"

definition decode_subject :: "(string \<Rightarrow> string option) \<Rightarrow> string \<Rightarrow> string" where
  "decode_subject wd v =
     cut_runes (trim_space (case wd v of Some dec \<Rightarrow> dec | None \<Rightarrow> v))"

text \<open>Decoding what was written rune by rune gives the runes back, a bad byte as U+FFFD.\<close>

fun norm_rune :: "rune \<Rightarrow> rune" where
  "norm_rune (Rune bs) = Rune bs"
| "norm_rune (Bad c) = Rune [CHR 0xEF, CHR 0xBF, CHR 0xBD]"

definition good_rune :: "rune \<Rightarrow> bool" where
  "good_rune r \<longleftrightarrow> rune_len (rune_bytes r) = Some (length (rune_bytes r))"

lemma rune_len_take:
  "rune_len s = Some n \<Longrightarrow> rune_len (take n s) = Some n \<and> 0 < n \<and> n \<le> length s"
  by (cases s rule: rune_len.cases)
     (auto simp: Let_def split: list.splits if_splits prod.splits)

lemma rune_len_append: "rune_len s = Some n \<Longrightarrow> rune_len (s @ t) = Some n"
  by (cases s rule: rune_len.cases)
     (auto simp: Let_def split: list.splits if_splits prod.splits)

lemma good_rune_runes: "r \<in> set (runes s) \<Longrightarrow> good_rune r"
proof (induction s arbitrary: r rule: runes.induct)
  case (2 c cs)
  show ?case
  proof (cases "rune_len (c # cs)")
    case None
    have "good_rune (Bad c)" for c
      by (simp add: good_rune_def Let_def second_range_def cont_between_def)
    with None 2 show ?thesis by (auto simp del: rune_len.simps)
  next
    case (Some n)
    note t = rune_len_take [OF Some]
    then have "take n (c # cs) = c # take (n - 1) cs" "length (take n (c # cs)) = n"
      by (auto simp: take_Cons')
    with t have "good_rune (Rune (c # take (n - 1) cs))"
      by (simp add: good_rune_def del: rune_len.simps)
    with Some 2 show ?thesis by (auto simp del: rune_len.simps)
  qed
qed simp

lemma runes_rune_bytes_append:
  assumes "good_rune r"
  shows "runes (rune_bytes r @ s) = norm_rune r # runes s"
proof -
  from assms obtain c cs where r: "rune_bytes r = c # cs"
    by (cases "rune_bytes r") (auto simp: good_rune_def)
  then have "rune_len (c # cs @ s) = Some (Suc (length cs))"
    using assms rune_len_append [of "c # cs" "Suc (length cs)" s] by (simp add: good_rune_def del: rune_len.simps)
  then show ?thesis using r by (cases r) (auto simp del: rune_len.simps)
qed

lemma runes_concat:
  "\<forall>r \<in> set rs. good_rune r \<Longrightarrow>
   runes (concat (map rune_bytes rs) @ s) = map norm_rune rs @ runes s"
  by (induction rs) (auto simp: runes_rune_bytes_append)

lemma rune_bytes_norm [simp]: "rune_bytes (norm_rune r) = rune_bytes r"
  by (cases r) auto

lemma runes_ellipsis: "runes ellipsis = [Rune ellipsis]"
  by (simp add: ellipsis_def Let_def second_range_def cont_between_def)

lemma cut_runes_count: "rune_count (cut_runes v) \<le> subject_max_runes + 1"
proof (cases "length (runes v) > subject_max_runes")
  case True
  have "\<forall>r \<in> set (take subject_max_runes (runes v)). good_rune r"
    using good_rune_runes in_set_takeD by metis
  with True show ?thesis
    by (simp add: cut_runes_def Let_def rune_count_def runes_concat runes_ellipsis)
qed (simp add: cut_runes_def Let_def rune_count_def)

lemma cut_runes_idem: "cut_runes (cut_runes v) = cut_runes v"
proof (cases "length (runes v) > subject_max_runes")
  case True
  let ?rs = "take subject_max_runes (runes v)"
  have g: "\<forall>r \<in> set ?rs. good_rune r"
    using good_rune_runes in_set_takeD by metis
  have "runes (concat (map rune_bytes ?rs) @ ellipsis) = map norm_rune ?rs @ [Rune ellipsis]"
    by (simp add: runes_concat [OF g] runes_ellipsis)
  then show ?thesis
    using True by (simp add: cut_runes_def Let_def o_def)
qed (simp add: cut_runes_def Let_def)

lemma drop_runes_fixed:
  "find (\<lambda>r. r \<noteq> [] \<and> take (length r) (drop_runes rs s) = r) rs = None"
proof (induction rs s rule: drop_runes.induct)
  case (1 rs s)
  show ?case
    by (cases "find (\<lambda>r. r \<noteq> [] \<and> take (length r) s = r) rs")
       (use 1 in \<open>simp_all add: drop_runes.simps [of rs s]\<close>)
qed

lemma drop_runes_idem: "drop_runes rs (drop_runes rs s) = drop_runes rs s"
  by (subst drop_runes.simps) (simp add: drop_runes_fixed)

text \<open>
  A subject kept for the log is at most one character over its bound - the ellipsis - and
  cutting one that was cut changes nothing.
\<close>

theorem subject_kept:
  "rune_count (cut_runes v) \<le> subject_max_runes + 1 \<and> cut_runes (cut_runes v) = cut_runes v"
  using cut_runes_count cut_runes_idem by blast

end
