(* ===== verification/Sender_Check.thy ===== *)
theory Sender_Check
  imports Sender_Map Mail_Header "HOL-Library.Sublist"
begin

text \<open>
  The sender check of \<open>internal/milter/sender.go\<close>: a session's callbacks
  (\<open>sc_mail_from\<close>, \<open>sc_rcpt_to\<close>, \<open>sc_header\<close>, \<open>sc_headers\<close>, \<open>sc_abort\<close>), the judgement of a
  message by its From: and Sender: lines (\<open>judge\<close>, \<open>judge_line\<close>), what is said back
  (\<open>printable\<close>) and the row left for the log (\<open>sc_record\<close>).

  Parameters: \<open>ul\<close> the Unicode tables of \<open>strings.ToLower\<close>, \<open>wd\<close> the encoded-word decoder,
  \<open>parse_list\<close> the RFC 5322 address list parser of \<open>net/mail\<close> (the address of each entry,
  \<open>None\<close> for its error). Every look-up of the bindings sees the file as it is then, a
  \<^typ>\<open>file_view\<close> of its own.
\<close>

section \<open>Replies and log rows\<close>

type_synonym macros = "string \<rightharpoonup> string"

text \<open>\<open>macro\<close> of \<open>milter.go\<close>: a bare name first, then the name in braces, "" for neither.\<close>

definition macro :: "macros \<Rightarrow> string \<Rightarrow> string" where
  "macro m name =
     (case m name of
        Some v \<Rightarrow> v
      | None \<Rightarrow> (case m (''{'' @ name @ ''}'') of Some v \<Rightarrow> v | None \<Rightarrow> []))"

text \<open>\<open>cleanAddress\<close>: the white space around it, then every angle bracket at its ends.\<close>

definition clean_address :: "string \<Rightarrow> string" where
  "clean_address a = trim ''<>'' (trim_space a)"

datatype response = Continue | Temp_fail | Reply string

datatype reason =
    Reason_from | Reason_sender | Reason_limit | Reason_client
  | Reason_reconcile | Reason_contradicted

record log_entry =
  le_queue_id :: string
  le_domain :: string
  le_app_login :: string
  le_from :: string
  le_to :: string
  le_subject :: string
  le_reason :: "reason option"
  le_header_from :: string
  le_client_ip :: string

text \<open>The byte \<open>printable\<close> writes for a rune, and its loop, which stops at 120 bytes.\<close>

fun print_rune :: "rune \<Rightarrow> char" where
  "print_rune (Rune [c]) =
     (if c = CHR ''%'' \<or> byte_code c < 0x20 \<or> byte_code c > 0x7E then CHR ''?''
      else if c = CHR '';'' then CHR '','' else c)"
| "print_rune _ = CHR ''?''"

fun print_runes :: "nat \<Rightarrow> rune list \<Rightarrow> string" where
  "print_runes n [] = []"
| "print_runes n (r # rs) =
     (if n \<ge> 120 then ''...'' else print_rune r # print_runes (n + 1) rs)"

definition printable :: "string \<Rightarrow> string" where
  "printable v = trim_space (print_runes 0 (runes v))"

text \<open>\<open>unfold\<close>: CR LF, LF and CR are dropped (the pairs first, as \<open>strings.Replacer\<close> tries them).\<close>

definition unfold_header :: "string \<Rightarrow> string" where
  "unfold_header v = filter (\<lambda>c. c \<noteq> CHR 0x0A \<and> c \<noteq> CHR 0x0D) v"

section \<open>The session\<close>

record sender_session =
  sc_login :: string
  sc_from :: string
  sc_rcpts :: "string list"
  sc_subject :: string
  sc_froms :: "string list"
  sc_senders :: "string list"

definition new_sender_session :: sender_session where
  "new_sender_session =
     \<lparr>sc_login = [], sc_from = [], sc_rcpts = [], sc_subject = [], sc_froms = [], sc_senders = []\<rparr>"

definition sc_mail_from :: "string \<Rightarrow> macros \<Rightarrow> sender_session \<Rightarrow> sender_session \<times> response" where
  "sc_mail_from from m s =
     (s\<lparr>sc_from := clean_address from, sc_login := macro m ''auth_authen'',
        sc_rcpts := [], sc_subject := [], sc_froms := [], sc_senders := []\<rparr>, Continue)"

definition sc_rcpt_to :: "string \<Rightarrow> sender_session \<Rightarrow> sender_session \<times> response" where
  "sc_rcpt_to rcpt s = (s\<lparr>sc_rcpts := sc_rcpts s @ [clean_address rcpt]\<rparr>, Continue)"

definition keep_two :: "string list \<Rightarrow> string \<Rightarrow> string list" where
  "keep_two xs v = (if length xs < 2 then xs @ [v] else xs)"

definition sc_header ::
  "(string \<Rightarrow> string option) \<Rightarrow> string \<Rightarrow> string \<Rightarrow> sender_session \<Rightarrow> sender_session \<times> response" where
  "sc_header wd name val s =
     (let key = canonical_key (trim_space name)
      in (if key = ''From'' then s\<lparr>sc_froms := keep_two (sc_froms s) val\<rparr>
          else if key = ''Sender'' then s\<lparr>sc_senders := keep_two (sc_senders s) val\<rparr>
          else if key = ''Subject'' then
            (if sc_subject s = [] then s\<lparr>sc_subject := decode_subject wd val\<rparr> else s)
          else s,
          Continue))"

definition sc_abort :: "sender_session \<Rightarrow> sender_session" where
  "sc_abort s = s\<lparr>sc_rcpts := [], sc_subject := [], sc_froms := [], sc_senders := []\<rparr>"

section \<open>The judgement\<close>

text \<open>\<open>why = ""\<close> with no error is \<open>Fine\<close>; an error is \<open>Deferred\<close>; else the header line is refused.\<close>

datatype line_verdict =
    Line_fine string
  | Line_refused string string
  | Line_error string bind_error

definition judge_line ::
  "(string \<Rightarrow> string) \<Rightarrow> (string \<Rightarrow> string list option) \<Rightarrow> file_view \<Rightarrow> string \<Rightarrow> string \<Rightarrow> bindings \<Rightarrow>
   bindings \<times> line_verdict" where
  "judge_line ul parse_list v login raw b =
     (case parse_list (unfold_header raw) of
        Some [addr] \<Rightarrow>
          (let seen = ascii_lower addr; shown = printable seen
           in case allowed ul v login seen b of
                (b', Inl e) \<Rightarrow> (b', Line_error shown e)
              | (b', Inr ok) \<Rightarrow>
                  (b', if ok then Line_fine shown
                       else Line_refused shown ''not an address this application sends as''))
      | _ \<Rightarrow> (b, Line_refused (printable raw) ''it must be one address, as a mail program reads it''))"

datatype verdict =
    Pass
  | Refused string string string
  | Deferred bind_error

fun line_result :: "string \<Rightarrow> line_verdict \<Rightarrow> verdict" where
  "line_result field (Line_fine shown) = Pass"
| "line_result field (Line_refused shown why) = Refused field shown why"
| "line_result field (Line_error shown e) = Deferred e"

text \<open>\<open>vf\<close> and \<open>vs\<close> are the file at the look-up of the From: line and of the Sender: line.\<close>

definition judge ::
  "(string \<Rightarrow> string) \<Rightarrow> (string \<Rightarrow> string list option) \<Rightarrow> file_view \<Rightarrow> file_view \<Rightarrow>
   sender_session \<Rightarrow> bindings \<Rightarrow> bindings \<times> verdict" where
  "judge ul parse_list vf vs s b =
     (if sc_login s = [] then (b, Refused ''From'' ''(none)'' ''no authenticated application'')
      else (case sc_froms s of
         [] \<Rightarrow> (b, Refused ''From'' ''(none)'' ''the message has no From: line'')
       | [from] \<Rightarrow>
           (case judge_line ul parse_list vf (sc_login s) from b of
              (b1, Line_fine shown) \<Rightarrow>
                (case sc_senders s of
                   [] \<Rightarrow> (b1, Pass)
                 | [sender] \<Rightarrow>
                     (case judge_line ul parse_list vs (sc_login s) sender b1 of
                        (b2, r) \<Rightarrow> (b2, line_result ''Sender'' r))
                 | _ \<Rightarrow> (b1, Refused ''Sender'' (printable (join '' | '' (sc_senders s)))
                              ''the message has more than one Sender: line''))
            | (b1, r) \<Rightarrow> (b1, line_result ''From'' r))
       | _ \<Rightarrow> (b, Refused ''From'' (printable (join '' | '' (sc_froms s)))
                   ''the message has more than one From: line'')))"

section \<open>The end of the headers\<close>

text \<open>\<open>domain\<close>: the envelope sender's domain, or the one the login is bound to.\<close>

definition sc_domain ::
  "(string \<Rightarrow> string) \<Rightarrow> file_view \<Rightarrow> sender_session \<Rightarrow> bindings \<Rightarrow> bindings \<times> string" where
  "sc_domain ul v s b =
     (let d = domain_of ul (sc_from s)
      in if d \<noteq> [] then (b, d) else domain_of_login ul v (sc_login s) b)"

text \<open>\<open>"to"\<close> of a refused message: its first recipient, and how many more there are.\<close>

definition shown_recipients :: "string list \<Rightarrow> string" where
  "shown_recipients rs =
     (case rs of [] \<Rightarrow> [] | r # _ \<Rightarrow> r) @
     (if length rs > 1 then '' and '' @ show_nat (length rs - 1) @ '' more'' else [])"

text \<open>
  \<open>record\<close> puts the row into a channel of 256 and never waits; \<open>None\<close> is the nil channel of a
  check that keeps no log.
\<close>

definition refused_capacity :: nat where "refused_capacity = 256"

definition sc_record ::
  "(string \<Rightarrow> string) \<Rightarrow> file_view \<Rightarrow> reason \<Rightarrow> string \<Rightarrow> string \<Rightarrow> sender_session \<Rightarrow> bindings \<Rightarrow>
   log_entry list option \<Rightarrow> bindings \<times> log_entry list option" where
  "sc_record ul v reason shown queue_id s b queue =
     (case queue of
        None \<Rightarrow> (b, None)
      | Some q \<Rightarrow>
          (case sc_domain ul v s b of
             (b', d) \<Rightarrow>
               (b', Some (if length q < refused_capacity then
                  q @ [\<lparr>le_queue_id = queue_id, le_domain = d, le_app_login = sc_login s,
                        le_from = sc_from s, le_to = shown_recipients (sc_rcpts s),
                        le_subject = sc_subject s, le_reason = Some reason,
                        le_header_from = shown, le_client_ip = []\<rparr>]
                  else q))))"

definition sc_headers ::
  "(string \<Rightarrow> string) \<Rightarrow> (string \<Rightarrow> string list option) \<Rightarrow> file_view \<Rightarrow> file_view \<Rightarrow> file_view \<Rightarrow> macros \<Rightarrow>
   sender_session \<Rightarrow> bindings \<Rightarrow> log_entry list option \<Rightarrow>
   bindings \<times> log_entry list option \<times> response" where
  "sc_headers ul parse_list vf vs vd m s b queue =
     (case judge ul parse_list vf vs s b of
        (b1, Deferred e) \<Rightarrow> (b1, queue, Temp_fail)
      | (b1, Pass) \<Rightarrow> (b1, queue, Continue)
      | (b1, Refused field shown why) \<Rightarrow>
          (let reason = (if field = ''Sender'' then Reason_sender else Reason_from);
               (b2, queue') = sc_record ul vd reason shown (macro m ''i'') s b1 queue
           in (b2, queue', Reply (''550 5.7.1 '' @ field @ '': '' @ shown @ '' - '' @ why))))"

section \<open>What a verdict means\<close>

definition line_ok ::
  "(string \<Rightarrow> string) \<Rightarrow> (string \<Rightarrow> string list option) \<Rightarrow> file_view \<Rightarrow> string \<Rightarrow> string \<Rightarrow> bindings \<Rightarrow> bool" where
  "line_ok ul parse_list v login raw b \<longleftrightarrow>
     (case parse_list (unfold_header raw) of
        Some [addr] \<Rightarrow> snd (allowed ul v login (ascii_lower addr) b) = Inr True
      | _ \<Rightarrow> False)"

lemma judge_line_fine:
  "(\<exists>shown. snd (judge_line ul pl v login raw b) = Line_fine shown) \<longleftrightarrow> line_ok ul pl v login raw b"
  by (auto simp: judge_line_def line_ok_def Let_def split: option.splits list.splits prod.splits sum.splits)

lemma line_result_Pass [simp]: "line_result f r = Pass \<longleftrightarrow> (\<exists>shown. r = Line_fine shown)"
  by (cases r) auto

lemma judge_Pass:
  "snd (judge ul pl vf vs s b) = Pass \<longleftrightarrow>
     sc_login s \<noteq> [] \<and>
     (\<exists>from. sc_froms s = [from] \<and> line_ok ul pl vf (sc_login s) from b \<and>
        (sc_senders s = [] \<or>
         (\<exists>sender. sc_senders s = [sender] \<and>
            line_ok ul pl vs (sc_login s) sender (fst (judge_line ul pl vf (sc_login s) from b)))))"
  unfolding judge_line_fine [symmetric]
  by (auto simp: judge_def split: list.splits prod.splits line_verdict.splits)

lemma sc_headers_Continue:
  "snd (snd (sc_headers ul pl vf vs vd m s b q)) = Continue \<longleftrightarrow> snd (judge ul pl vf vs s b) = Pass"
  by (auto simp: sc_headers_def Let_def split: prod.splits verdict.splits)

text \<open>The header callbacks of one message keep the first two values of a field.\<close>

fun run_headers ::
  "(string \<Rightarrow> string option) \<Rightarrow> (string \<times> string) list \<Rightarrow> sender_session \<Rightarrow> sender_session" where
  "run_headers wd [] s = s"
| "run_headers wd ((name, val) # hs) s = run_headers wd hs (fst (sc_header wd name val s))"

definition field_values :: "string \<Rightarrow> (string \<times> string) list \<Rightarrow> string list" where
  "field_values key hs = map snd (filter (\<lambda>(n, v). canonical_key (trim_space n) = key) hs)"

lemma field_values_simps [simp]:
  "field_values key [] = []"
  "field_values key ((n, v) # hs) =
     (if canonical_key (trim_space n) = key then v # field_values key hs else field_values key hs)"
  by (auto simp: field_values_def)

lemma keep_two_take: "length xs \<le> 2 \<Longrightarrow> take 2 (keep_two xs v @ ys) = take 2 (xs @ v # ys)"
  by (cases xs; cases "tl xs") (auto simp: keep_two_def)

lemma keep_two_length [simp]: "length xs \<le> 2 \<Longrightarrow> length (keep_two xs v) \<le> 2"
  by (auto simp: keep_two_def)

lemma run_headers_fields:
  assumes "length (sc_froms s) \<le> 2" "length (sc_senders s) \<le> 2"
  shows "sc_froms (run_headers wd hs s) = take 2 (sc_froms s @ field_values ''From'' hs) \<and>
         sc_senders (run_headers wd hs s) = take 2 (sc_senders s @ field_values ''Sender'' hs) \<and>
         sc_login (run_headers wd hs s) = sc_login s"
  using assms
proof (induction hs arbitrary: s)
  case (Cons h hs)
  obtain n v where h: "h = (n, v)" by (cases h)
  let ?s = "fst (sc_header wd n v s)"
  have "length (sc_froms ?s) \<le> 2" "length (sc_senders ?s) \<le> 2"
    using Cons.prems by (auto simp: sc_header_def Let_def)
  from Cons.IH [OF this] show ?case
    using Cons.prems by (auto simp: h sc_header_def Let_def keep_two_take simp del: take_append)
qed simp

text \<open>A message's callbacks from MAIL FROM to the end of its headers.\<close>

definition message_session ::
  "(string \<Rightarrow> string option) \<Rightarrow> string \<Rightarrow> macros \<Rightarrow> string list \<Rightarrow> (string \<times> string) list \<Rightarrow>
   sender_session \<Rightarrow> sender_session" where
  "message_session wd from m rcpts hs s =
     run_headers wd hs (foldl (\<lambda>s r. fst (sc_rcpt_to r s)) (fst (sc_mail_from from m s)) rcpts)"

lemma foldl_rcpt_to:
  "foldl (\<lambda>s r. fst (sc_rcpt_to r s)) s rcpts = s\<lparr>sc_rcpts := sc_rcpts s @ map clean_address rcpts\<rparr>"
  by (induction rcpts arbitrary: s) (auto simp: sc_rcpt_to_def)

lemma message_session_fields:
  "sc_login (message_session wd from m rcpts hs s) = macro m ''auth_authen''"
  "sc_froms (message_session wd from m rcpts hs s) = take 2 (field_values ''From'' hs)"
  "sc_senders (message_session wd from m rcpts hs s) = take 2 (field_values ''Sender'' hs)"
  using run_headers_fields
    [of "foldl (\<lambda>s r. fst (sc_rcpt_to r s)) (fst (sc_mail_from from m s)) rcpts" wd hs]
  by (auto simp: message_session_def foldl_rcpt_to sc_mail_from_def)

lemma take2_single: "take 2 xs = [x] \<longleftrightarrow> xs = [x]"
  by (cases xs; cases "tl xs") auto

lemma take2_Nil: "take 2 xs = [] \<longleftrightarrow> xs = []"
  by (cases xs) auto

lemma message_passes:
  assumes "snd (snd (sc_headers ul pl vf vs vd m' (message_session wd from m rcpts hs s) b q)) = Continue"
  shows "macro m ''auth_authen'' \<noteq> [] \<and>
         (\<exists>f. field_values ''From'' hs = [f] \<and> line_ok ul pl vf (macro m ''auth_authen'') f b) \<and>
         length (field_values ''Sender'' hs) \<le> 1"
  using assms
  by (auto simp: sc_headers_Continue judge_Pass message_session_fields take2_single take2_Nil)

section \<open>What is said back\<close>

definition reply_char :: "char \<Rightarrow> bool" where
  "reply_char c \<longleftrightarrow> 0x20 \<le> byte_code c \<and> byte_code c \<le> 0x7E \<and> c \<noteq> CHR ''%'' \<and> c \<noteq> CHR '';''"

lemma reply_char_print_rune [simp]: "reply_char (print_rune r)"
  by (cases r rule: print_rune.cases) (auto simp: reply_char_def)

lemma print_runes_chars: "c \<in> set (print_runes n rs) \<Longrightarrow> reply_char c"
  by (induction n rs rule: print_runes.induct) (auto simp: reply_char_def [of "CHR ''.''"] split: if_splits)

lemma print_runes_length: "length (print_runes n rs) \<le> (if n \<ge> 120 then 3 else 123 - n)"
  by (induction n rs rule: print_runes.induct) (auto split: if_splits)

lemma set_drop_runes: "set (drop_runes rs s) \<subseteq> set s \<and> length (drop_runes rs s) \<le> length s"
proof (induction rs s rule: drop_runes.induct)
  case (1 rs s)
  show ?case
  proof (cases "find (\<lambda>r. r \<noteq> [] \<and> take (length r) s = r) rs")
    case None
    then show ?thesis by (simp add: drop_runes.simps [of rs s])
  next
    case (Some r)
    with 1 have "set (drop_runes rs (drop (length r) s)) \<subseteq> set (drop (length r) s)"
      "length (drop_runes rs (drop (length r) s)) \<le> length (drop (length r) s)" by auto
    with Some show ?thesis
      using set_drop_subset [of "length r" s] by (auto simp: drop_runes.simps [of rs s])
  qed
qed

lemma trim_space_sub: "set (trim_space s) \<subseteq> set s" "length (trim_space s) \<le> length s"
  using set_drop_runes [of space_runes s]
    set_drop_runes [of "map rev space_runes" "rev (drop_runes space_runes s)"]
  by (auto simp: trim_space_def)

lemma printable_chars: "c \<in> set (printable v) \<Longrightarrow> reply_char c"
  using trim_space_sub(1) print_runes_chars by (fastforce simp: printable_def)

lemma printable_length: "length (printable v) \<le> 123"
  using trim_space_sub(2) [of "print_runes 0 (runes v)"] print_runes_length [of 0 "runes v"]
  by (simp add: printable_def)

text \<open>The words the check itself puts into a refusal are plain too.\<close>

lemma judge_Refused_shown:
  assumes "snd (judge ul pl vf vs s b) = Refused field shown why"
  shows "list_all reply_char shown \<and> length shown \<le> 123 \<and> list_all reply_char field \<and> list_all reply_char why"
proof -
  have p: "list_all reply_char (printable v) \<and> length (printable v) \<le> 123" for v
    by (simp add: list_all_iff printable_chars printable_length)
  have l: "list_all reply_char shown \<and> length shown \<le> 123 \<and> list_all reply_char why"
    if "judge_line ul pl v login raw b = (b', Line_refused shown why)" for v login raw b b' shown why
    using that p by (auto simp: judge_line_def Let_def reply_char_def
        split: option.splits list.splits prod.splits sum.splits if_splits)
  show ?thesis
    using assms p by (auto simp: judge_def reply_char_def dest: l
        split: list.splits prod.splits line_verdict.splits if_splits elim!: line_result.elims)
qed

section \<open>The rows waiting to be written\<close>

lemma sc_record_bounded:
  "length q \<le> refused_capacity \<Longrightarrow>
   sc_record ul v r shown qid s b (Some q) = (b', Some q') \<Longrightarrow> length q' \<le> refused_capacity \<and> prefix q q'"
  by (auto simp: sc_record_def split: prod.splits if_splits)

text \<open>
  What a refused message's reply shows of its header is printable, at most 123 characters and
  has none of the characters the reply's format would read.
\<close>

theorem refusal_printable:
  assumes "snd (judge ul pl vf vs s b) = Refused field shown why"
  shows "list_all reply_char shown \<and> length shown \<le> 123 \<and> list_all reply_char field \<and> list_all reply_char why"
  using judge_Refused_shown [OF assms] .

lemma refusal_printable_witness:
  "list_all reply_char (printable (CHR ''%'' # replicate 200 CHR 0x0A)) \<and> length (printable (CHR ''%'' # replicate 200 CHR 0x0A)) \<le> 123"
proof -
  let ?s = "new_sender_session\<lparr>sc_login := ''app'', sc_froms := [CHR ''%'' # replicate 200 CHR 0x0A]\<rparr>"
  let ?v = "\<lparr>fv_stat = None, fv_read = None\<rparr>"
  have "snd (judge id (\<lambda>_. None) ?v ?v ?s new_bindings) =
      Refused ''From'' (printable (CHR ''%'' # replicate 200 CHR 0x0A)) ''it must be one address, as a mail program reads it''"
    by (simp add: judge_def judge_line_def new_sender_session_def)
  from refusal_printable [OF this] show ?thesis by blast
qed

text \<open>
  The refusals waiting to be written are bounded, and recording one never drops or reorders
  those already waiting.
\<close>

theorem refusals_bounded:
  assumes "length q \<le> refused_capacity" "sc_record ul v r shown qid s b (Some q) = (b', Some q')"
  shows "length q' \<le> refused_capacity \<and> prefix q q'"
  using sc_record_bounded [OF assms] .

lemma refusals_bounded_witness:
  "\<exists>b' q'. sc_record id \<lparr>fv_stat = None, fv_read = None\<rparr> Reason_from ''x'' ''Q'' new_sender_session new_bindings (Some []) = (b', Some q') \<and>
     length q' \<le> refused_capacity"
proof -
  let ?r = "sc_record id \<lparr>fv_stat = None, fv_read = None\<rparr> Reason_from ''x'' ''Q'' new_sender_session new_bindings (Some [])"
  have "case snd ?r of Some _ \<Rightarrow> True | None \<Rightarrow> False" by code_simp
  then obtain q' where "snd ?r = Some q'" by (auto split: option.splits)
  then have r: "?r = (fst ?r, Some q')" by (rule call_result)
  from refusals_bounded [OF _ r] show ?thesis by (subst r) simp
qed

end
