(* ===== verification/Send_Log.thy ===== *)
theory Send_Log
  imports Registry Sender_Check "HOL-Library.Product_Lexorder"
begin

text \<open>
  The send log (\<open>internal/store/sendlog.go\<close>, the counts of \<open>ratelimits.go\<close> and \<open>stats.go\<close>):
  one row per message and recipient, the status it moves through, the refusals, the queries
  of the panel and the count the level-2 limits are held against. A row's key is the counter
  \<open>ms_next\<close> (AUTOINCREMENT); times are the seconds of the RFC3339 UTC stamps. A statement
  fails as the next entry of \<open>db_faults\<close> says, as in \<open>Registry\<close>.

  What the lemmas show: a refused row stays refused and a row's message never changes, no
  operation reopens what is closed except a delivery line, a query without a scope shows
  nothing, and a refusal's log line is on one row at most.
\<close>

datatype status =
    Status_queued | Status_sent | Status_deferred | Status_bounced | Status_rejected

record log_row =
  lr_id :: nat
  lr_queue_id :: string
  lr_domain :: string
  lr_domain_id :: "nat option"
  lr_login :: string
  lr_from :: string
  lr_to :: string
  lr_subject :: string
  lr_status :: status
  lr_reason :: "reason option"
  lr_header_from :: string
  lr_client_ip :: string
  lr_refusal_line :: string
  lr_recovered :: bool
  lr_created :: int
  lr_updated :: int

text \<open>\<open>ms_contradicted\<close> is that column of \<open>delivery_log_days\<close>.\<close>

record log_line =
  ll_queue_id :: string
  ll_at :: int
  ll_line :: string

record mail_store =
  ms_db :: db
  ms_rows :: "log_row list"
  ms_lines :: "log_line list"
  ms_next :: nat
  ms_contradicted :: "string \<Rightarrow> nat"

type_synonym 'a log_op = "mail_store \<Rightarrow> mail_store \<times> (store_error + 'a)"

definition log_step :: "'a log_op \<Rightarrow> 'a log_op" where
  "log_step f s =
     (case db_faults (ms_db s) of
        [] \<Rightarrow> f s
      | True # fs \<Rightarrow> (s\<lparr>ms_db := (ms_db s)\<lparr>db_faults := fs\<rparr>\<rparr>, Inl Db_error)
      | False # fs \<Rightarrow> f (s\<lparr>ms_db := (ms_db s)\<lparr>db_faults := fs\<rparr>\<rparr>))"

text \<open>An operation of the registry, on the store they share.\<close>

definition in_db :: "'a db_op \<Rightarrow> 'a log_op" where
  "in_db f s = (case f (ms_db s) of (d, r) \<Rightarrow> (s\<lparr>ms_db := d\<rparr>, r))"

section \<open>Writing rows\<close>

definition login_domain_id :: "string \<Rightarrow> mail_store \<Rightarrow> nat option" where
  "login_domain_id login s = map_option a_domain_id (find_login login (ms_db s))"

definition new_row :: "int \<Rightarrow> status \<Rightarrow> nat option \<Rightarrow> log_entry \<Rightarrow> nat \<Rightarrow> log_row" where
  "new_row now st did e i =
     \<lparr>lr_id = i, lr_queue_id = le_queue_id e, lr_domain = le_domain e, lr_domain_id = did,
      lr_login = le_app_login e, lr_from = le_from e, lr_to = le_to e, lr_subject = le_subject e,
      lr_status = st, lr_reason = None, lr_header_from = [], lr_client_ip = [], lr_refusal_line = [],
      lr_recovered = False, lr_created = now, lr_updated = now\<rparr>"

definition append_row :: "(nat \<Rightarrow> log_row) \<Rightarrow> mail_store \<Rightarrow> mail_store" where
  "append_row r s = s\<lparr>ms_rows := ms_rows s @ [r (ms_next s)], ms_next := ms_next s + 1\<rparr>"

definition insert_queued :: "int \<Rightarrow> log_entry \<Rightarrow> unit log_op" where
  "insert_queued now e = log_step (\<lambda>s.
     (append_row (new_row now Status_queued (login_domain_id (le_app_login e) s) e) s, Inr ()))"

definition insert_rejected :: "int \<Rightarrow> log_entry \<Rightarrow> unit log_op" where
  "insert_rejected now e = log_step (\<lambda>s.
     (append_row (\<lambda>i. (new_row now Status_rejected (login_domain_id (le_app_login e) s) e i)
        \<lparr>lr_reason := le_reason e, lr_header_from := le_header_from e, lr_client_ip := le_client_ip e\<rparr>) s, Inr ()))"

definition insert_test_message :: "int \<Rightarrow> string \<Rightarrow> string \<Rightarrow> string \<Rightarrow> string \<Rightarrow> nat log_op" where
  "insert_test_message now did from to subject = log_step (\<lambda>s.
     (append_row (new_row now Status_queued None
        \<lparr>le_queue_id = [], le_domain = did, le_app_login = [], le_from = from, le_to = to,
         le_subject = subject, le_reason = None, le_header_from = [], le_client_ip = []\<rparr>) s, Inr (ms_next s)))"

text \<open>An UPDATE with its WHERE; the answer is the number of rows it changed.\<close>

definition update_rows :: "(log_row \<Rightarrow> bool) \<Rightarrow> (log_row \<Rightarrow> log_row) \<Rightarrow> mail_store \<Rightarrow> mail_store" where
  "update_rows p f s = s\<lparr>ms_rows := map (\<lambda>r. if p r then f r else r) (ms_rows s)\<rparr>"

definition count_rows :: "(log_row \<Rightarrow> bool) \<Rightarrow> mail_store \<Rightarrow> nat" where
  "count_rows p s = length (filter p (ms_rows s))"

definition update_where :: "(mail_store \<Rightarrow> log_row \<Rightarrow> bool) \<Rightarrow> (log_row \<Rightarrow> log_row) \<Rightarrow> nat log_op" where
  "update_where p f = log_step (\<lambda>s. (update_rows (p s) f s, Inr (count_rows (p s) s)))"

definition set_send_log_queue_id :: "nat \<Rightarrow> string \<Rightarrow> nat log_op" where
  "set_send_log_queue_id i q =
     update_where (\<lambda>s r. lr_id r = i \<and> lr_queue_id r = []) (\<lambda>r. r\<lparr>lr_queue_id := q\<rparr>)"

definition close_unmatched_test_messages :: "int \<Rightarrow> int \<Rightarrow> nat log_op" where
  "close_unmatched_test_messages now before =
     update_where (\<lambda>s r. lr_queue_id r = [] \<and> lr_login r = [] \<and> lr_status r = Status_queued \<and> lr_created r < before)
       (\<lambda>r. r\<lparr>lr_status := Status_bounced, lr_reason := Some Reason_reconcile, lr_updated := now\<rparr>)"

definition delete_send_log_row :: "nat \<Rightarrow> unit log_op" where
  "delete_send_log_row i = log_step (\<lambda>s.
     (s\<lparr>ms_rows := filter (\<lambda>r. lr_id r \<noteq> i) (ms_rows s)\<rparr>, Inr ()))"

definition count_test_messages_since :: "string \<Rightarrow> int \<Rightarrow> nat log_op" where
  "count_test_messages_since addr since = log_step (\<lambda>s.
     (s, Inr (count_rows (\<lambda>r. lr_from r = addr \<and> lr_login r = [] \<and> lr_created r \<ge> since) s)))"

section \<open>Delivery results\<close>

definition same_recipient :: "string \<Rightarrow> string \<Rightarrow> bool" where
  "same_recipient a b \<longleftrightarrow> ascii_lower a = ascii_lower b"

text \<open>The newest row of a queue id and recipient that is not a refusal.\<close>

definition newest :: "string \<Rightarrow> string \<Rightarrow> mail_store \<Rightarrow> log_row \<Rightarrow> bool" where
  "newest q to s r \<longleftrightarrow>
     (let m = (\<lambda>r. lr_queue_id r = q \<and> same_recipient (lr_to r) to \<and> lr_status r \<noteq> Status_rejected)
      in m r \<and> list_all (\<lambda>x. m x \<longrightarrow> lr_id x \<le> lr_id r) (ms_rows s))"

definition update_status :: "int \<Rightarrow> string \<Rightarrow> string \<Rightarrow> string \<Rightarrow> status \<Rightarrow> nat log_op" where
  "update_status now day q to st = log_step (\<lambda>s.
     (let p = newest q to s;
          contradicted = count_rows (\<lambda>r. p r \<and> lr_reason r = Some Reason_reconcile) s;
          s1 = update_rows (\<lambda>r. p r \<and> lr_reason r = Some Reason_reconcile)
                 (\<lambda>r. r\<lparr>lr_reason := Some Reason_contradicted\<rparr>) s;
          s2 = update_rows (newest q to s1) (\<lambda>r. r\<lparr>lr_status := st, lr_updated := now\<rparr>) s1;
          s3 = (if contradicted > 0
                then s2\<lparr>ms_contradicted := (ms_contradicted s2)(day := ms_contradicted s2 day + contradicted)\<rparr>
                else s2)
      in (s3, Inr (count_rows (newest q to s1) s1))))"

definition row_open :: "log_row \<Rightarrow> bool" where
  "row_open r \<longleftrightarrow> lr_status r = Status_queued \<or> lr_status r = Status_deferred"

definition close_unreported :: "int \<Rightarrow> nat \<Rightarrow> nat log_op" where
  "close_unreported now i =
     update_where (\<lambda>s r. lr_id r = i \<and> row_open r)
       (\<lambda>r. r\<lparr>lr_status := Status_bounced, lr_reason := Some Reason_reconcile, lr_updated := now\<rparr>)"

definition expire_message :: "int \<Rightarrow> string \<Rightarrow> nat log_op" where
  "expire_message now q =
     update_where (\<lambda>s r. row_open r \<and> newest q (lr_to r) s r)
       (\<lambda>r. r\<lparr>lr_status := Status_bounced, lr_updated := now\<rparr>)"

definition list_open_older_than :: "int \<Rightarrow> (nat \<times> string \<times> string) list log_op" where
  "list_open_older_than cutoff = log_step (\<lambda>s.
     (s, Inr (map (\<lambda>r. (lr_id r, lr_queue_id r, lr_to r))
        (sort_key lr_id (filter (\<lambda>r. row_open r \<and> lr_queue_id r \<noteq> [] \<and> lr_created r < cutoff) (ms_rows s))))))"

definition delete_send_log_before :: "int \<Rightarrow> nat log_op" where
  "delete_send_log_before cutoff = log_step (\<lambda>s.
     (s\<lparr>ms_rows := filter (\<lambda>r. \<not> lr_created r < cutoff) (ms_rows s)\<rparr>, Inr (count_rows (\<lambda>r. lr_created r < cutoff) s)))"

section \<open>Refusals and their log lines\<close>

definition refusal_line_window :: int where "refusal_line_window = 120"

definition attachable :: "string \<Rightarrow> string \<Rightarrow> string \<Rightarrow> int \<Rightarrow> log_row \<Rightarrow> bool" where
  "attachable ip login from when r \<longleftrightarrow>
     lr_status r = Status_rejected \<and> lr_queue_id r = [] \<and> lr_refusal_line r = [] \<and>
     lr_reason r \<in> {None, Some Reason_limit, Some Reason_client} \<and>
     same_recipient (lr_from r) from \<and> lr_client_ip r = ip \<and> same_recipient (lr_login r) login \<and>
     when - refusal_line_window \<le> lr_created r \<and> lr_created r \<le> when + refusal_line_window"

text \<open>The row nearest in time, of equals the oldest.\<close>

definition nearest :: "int \<Rightarrow> log_row list \<Rightarrow> log_row option" where
  "nearest when rs = (case sort_key (\<lambda>r. (\<bar>lr_created r - when\<bar>, lr_id r)) rs of [] \<Rightarrow> None | r # _ \<Rightarrow> Some r)"

definition attach_refusal_line :: "string \<Rightarrow> string \<Rightarrow> string \<Rightarrow> int \<Rightarrow> string \<Rightarrow> bool log_op" where
  "attach_refusal_line ip login from when line =
     (if line = [] then (\<lambda>s. (s, Inr False))
      else log_step (\<lambda>s.
        case nearest when (filter (attachable ip login from when) (ms_rows s)) of
          None \<Rightarrow> (s, Inr False)
        | Some t \<Rightarrow>
            if list_ex (\<lambda>r. lr_refusal_line r = line) (ms_rows s) then (s, Inr False)
            else (update_rows (\<lambda>r. lr_id r = lr_id t) (\<lambda>r. r\<lparr>lr_refusal_line := line\<rparr>) s, Inr True)))"

definition recover_refusal :: "log_entry \<Rightarrow> int \<Rightarrow> bool log_op" where
  "recover_refusal e when = log_step (\<lambda>s.
     if list_ex (\<lambda>r. lr_queue_id r = le_queue_id e \<and> lr_status r = Status_rejected \<and>
          when - refusal_line_window \<le> lr_created r \<and> lr_created r \<le> when + refusal_line_window) (ms_rows s)
     then (s, Inr False)
     else (let did = (case login_domain_id (le_app_login e) s of
                        Some i \<Rightarrow> Some i
                      | None \<Rightarrow> map_option d_id (find (\<lambda>d. d_name d = le_domain e) (db_domains (ms_db s))))
           in (append_row (\<lambda>i. (new_row when Status_rejected did (e\<lparr>le_subject := []\<rparr>) i)
                 \<lparr>lr_reason := le_reason e, lr_header_from := le_header_from e, lr_recovered := True\<rparr>) s, Inr True)))"


section \<open>The panel's queries\<close>

text \<open>
  \<open>SendLogFilter\<close>: \<open>lf_domain_ids\<close> and \<open>lf_all\<close> are the authorization scope, the rest the
  operator's own filters, empty for all. \<open>lf_since\<close> is the stamp of the first day's midnight,
  \<open>lf_until\<close> that of the midnight after the last day.
\<close>

record log_filter =
  lf_domain :: string
  lf_login :: string
  lf_domain_ids :: "nat list"
  lf_all :: bool
  lf_status :: "status option"
  lf_since :: "int option"
  lf_until :: "int option"

definition no_filter :: log_filter where
  "no_filter = \<lparr>lf_domain = [], lf_login = [], lf_domain_ids = [], lf_all = False, lf_status = None,
     lf_since = None, lf_until = None\<rparr>"

definition send_log_where :: "log_filter \<Rightarrow> log_row \<Rightarrow> bool" where
  "send_log_where f r \<longleftrightarrow>
     (if \<not> lf_all f \<and> lf_domain_ids f = [] then False
      else (lf_all f \<or> (case lr_domain_id r of None \<Rightarrow> False | Some d \<Rightarrow> d \<in> set (lf_domain_ids f))) \<and>
        (lf_domain f = [] \<or> lr_domain r = lf_domain f) \<and>
        (lf_login f = [] \<or> lr_login r = lf_login f) \<and>
        (case lf_status f of None \<Rightarrow> True | Some st \<Rightarrow> lr_status r = st) \<and>
        (case lf_since f of None \<Rightarrow> True | Some t \<Rightarrow> lr_created r \<ge> t) \<and>
        (case lf_until f of None \<Rightarrow> True | Some t \<Rightarrow> lr_created r < t))"

definition query_send_log :: "log_filter \<Rightarrow> nat \<Rightarrow> nat \<Rightarrow> log_row list log_op" where
  "query_send_log f limit offset = log_step (\<lambda>s.
     (s, Inr (take limit (drop offset (rev (sort_key lr_id (filter (send_log_where f) (ms_rows s))))))))"

definition count_send_log :: "log_filter \<Rightarrow> nat log_op" where
  "count_send_log f = log_step (\<lambda>s. (s, Inr (count_rows (send_log_where f) s)))"

definition get_send_log :: "nat \<Rightarrow> log_row option log_op" where
  "get_send_log i = log_step (\<lambda>s. (s, Inr (find (\<lambda>r. lr_id r = i) (ms_rows s))))"

text \<open>\<open>SendLogRefsByQueueID\<close> asks in chunks of 500; each chunk is a statement of its own.\<close>

definition refs_chunk :: nat where "refs_chunk = 500"

function send_log_refs_by_queue_id ::
  "string list \<Rightarrow> (string \<rightharpoonup> (nat \<times> string) list) \<Rightarrow> (string \<rightharpoonup> (nat \<times> string) list) log_op" where
  "send_log_refs_by_queue_id qs out s =
     (if qs = [] then (s, Inr out)
      else (case log_step (\<lambda>s. (s, Inr (sort_key lr_id (filter (\<lambda>r. lr_queue_id r \<in> set (take refs_chunk qs)) (ms_rows s))))) s of
              (s1, Inl e) \<Rightarrow> (s1, Inl e)
            | (s1, Inr rows) \<Rightarrow>
                send_log_refs_by_queue_id (drop refs_chunk qs)
                  (foldl (\<lambda>m r. m(lr_queue_id r \<mapsto>
                     (case m (lr_queue_id r) of None \<Rightarrow> [] | Some xs \<Rightarrow> xs) @ [(lr_id r, lr_to r)])) out rows) s1))"
  by pat_completeness auto
termination by (relation "measure (\<lambda>(qs, _). length qs)") (auto simp: refs_chunk_def)

declare send_log_refs_by_queue_id.simps [simp del]

section \<open>Counting messages\<close>

definition of_ref :: "scope \<Rightarrow> string \<Rightarrow> mail_store \<Rightarrow> log_row \<Rightarrow> bool" where
  "of_ref sc ref s r =
     (case sc of
        Scope_domain \<Rightarrow>
          (case find (\<lambda>d. d_name d = ref) (db_domains (ms_db s)) of
             None \<Rightarrow> False | Some d \<Rightarrow> lr_domain_id r = Some (d_id d))
      | Scope_app \<Rightarrow>
          lr_login r = ref \<and>
          (case find_login ref (ms_db s) of
             None \<Rightarrow> False | Some a \<Rightarrow> lr_domain_id r = Some (a_domain_id a)))"

definition counted_rows :: "scope \<Rightarrow> string \<Rightarrow> int \<Rightarrow> mail_store \<Rightarrow> log_row list" where
  "counted_rows sc ref since s =
     filter (\<lambda>r. of_ref sc ref s r \<and> lr_status r \<noteq> Status_rejected \<and> lr_created r \<ge> since) (ms_rows s)"

definition count_messages :: "scope \<Rightarrow> string \<Rightarrow> int \<Rightarrow> nat log_op" where
  "count_messages sc ref since = log_step (\<lambda>s.
     (s, Inr (length (remdups (map lr_queue_id (counted_rows sc ref since s))))))"

definition peak_per_hour :: "scope \<Rightarrow> string \<Rightarrow> int \<Rightarrow> nat log_op" where
  "peak_per_hour sc ref since = log_step (\<lambda>s.
     (let rows = counted_rows sc ref since s;
          hours = remdups (map (\<lambda>r. lr_created r div 3600) rows)
      in (s, Inr (foldr max (map (\<lambda>h. length (remdups (map lr_queue_id
            (filter (\<lambda>r. lr_created r div 3600 = h) rows)))) hours) 0))))"

section \<open>The mail.log lines of a message\<close>

definition send_log_line_max :: nat where "send_log_line_max = 4096"

definition send_log_line_before :: int where "send_log_line_before = 3600"

definition refused_lines_before :: int where "refused_lines_before = 10 * 60"

definition refused_lines_after :: int where "refused_lines_after = 60"

text \<open>\<open>utf8.RuneStart\<close>: not a continuation byte. The cut moves back to one.\<close>

definition rune_start :: "char \<Rightarrow> bool" where
  "rune_start c \<longleftrightarrow> \<not> (0x80 \<le> byte_code c \<and> byte_code c < 0xC0)"

fun back_to_start :: "string \<Rightarrow> nat \<Rightarrow> nat" where
  "back_to_start line 0 = 0"
| "back_to_start line (Suc n) = (if rune_start (line ! Suc n) then Suc n else back_to_start line n)"

definition cut_send_log_line :: "string \<Rightarrow> string" where
  "cut_send_log_line line =
     (if length line \<le> send_log_line_max then line else take (back_to_start line send_log_line_max) line)"

fun insert_lines :: "bool \<Rightarrow> log_line list \<Rightarrow> log_line list \<Rightarrow> nat \<Rightarrow> log_line list \<times> nat" where
  "insert_lines once [] rows n = (rows, n)"
| "insert_lines once (l # ls) rows n =
     (let l' = l\<lparr>ll_line := cut_send_log_line (ll_line l)\<rparr>
      in if once \<and> list_ex (\<lambda>x. ll_queue_id x = ll_queue_id l \<and> ll_line x = ll_line l') rows
         then insert_lines once ls rows n
         else insert_lines once ls (rows @ [l']) (n + 1))"

definition insert_send_log_lines :: "log_line list \<Rightarrow> bool \<Rightarrow> nat log_op" where
  "insert_send_log_lines ls once =
     (if ls = [] then (\<lambda>s. (s, Inr 0))
      else log_step (\<lambda>s. let (rows, n) = insert_lines once ls (ms_lines s) 0 in (s\<lparr>ms_lines := rows\<rparr>, Inr n)))"

definition send_log_lines :: "log_row \<Rightarrow> int \<Rightarrow> nat \<Rightarrow> log_line list log_op" where
  "send_log_lines row lifetime n =
     (if lr_queue_id row = [] \<or> n = 0 then (\<lambda>s. (s, Inr []))
      else (let (before, after) = (if lr_status row = Status_rejected then (refused_lines_before, refused_lines_after)
                                   else (send_log_line_before, lifetime))
            in log_step (\<lambda>s.
                 (s, Inr (rev (take n (rev (filter (\<lambda>l. ll_queue_id l = lr_queue_id row \<and>
                    lr_created row - before \<le> ll_at l \<and> ll_at l \<le> lr_created row + after) (ms_lines s)))))))))"

definition prune_send_log_lines :: "int \<Rightarrow> nat log_op" where
  "prune_send_log_lines cutoff = log_step (\<lambda>s.
     (let gone = (\<lambda>l. ll_at l < cutoff \<and> \<not> list_ex (\<lambda>r. lr_queue_id r = ll_queue_id l) (ms_rows s))
      in (s\<lparr>ms_lines := filter (\<lambda>l. \<not> gone l) (ms_lines s)\<rparr>, Inr (length (filter gone (ms_lines s))))))"


section \<open>What the operations do to a row\<close>

text \<open>The rows the later state has of those the earlier one had, and what may differ in them.\<close>

definition same_message :: "log_row \<Rightarrow> log_row \<Rightarrow> bool" where
  "same_message r r' \<longleftrightarrow>
     lr_id r' = lr_id r \<and> lr_domain r' = lr_domain r \<and> lr_domain_id r' = lr_domain_id r \<and>
     lr_login r' = lr_login r \<and> lr_from r' = lr_from r \<and> lr_to r' = lr_to r \<and>
     lr_subject r' = lr_subject r \<and> lr_created r' = lr_created r \<and>
     (lr_queue_id r \<noteq> [] \<longrightarrow> lr_queue_id r' = lr_queue_id r)"

definition row_moves :: "log_row \<Rightarrow> log_row \<Rightarrow> bool" where
  "row_moves r r' \<longleftrightarrow> same_message r r' \<and> (lr_status r = Status_rejected \<longleftrightarrow> lr_status r' = Status_rejected) \<and>
     (lr_refusal_line r \<noteq> [] \<longrightarrow> lr_refusal_line r' = lr_refusal_line r)"

definition log_moves :: "mail_store \<Rightarrow> mail_store \<Rightarrow> bool" where
  "log_moves s s' \<longleftrightarrow> ms_next s \<le> ms_next s' \<and>
     (\<forall>r' \<in> set (ms_rows s'). lr_id r' < ms_next s \<longrightarrow> (\<exists>r \<in> set (ms_rows s). row_moves r r'))"

definition refusal_lines :: "log_row list \<Rightarrow> string list" where
  "refusal_lines rs = filter (\<lambda>l. l \<noteq> []) (map lr_refusal_line rs)"

definition log_inv :: "mail_store \<Rightarrow> bool" where
  "log_inv s \<longleftrightarrow> distinct (map lr_id (ms_rows s)) \<and> (\<forall>r \<in> set (ms_rows s). lr_id r < ms_next s) \<and>
     distinct (refusal_lines (ms_rows s))"

lemma row_moves_refl [simp]: "row_moves r r"
  by (simp add: row_moves_def same_message_def)

lemma row_kept: "r \<in> set rs \<Longrightarrow> \<exists>x \<in> set rs. row_moves x r"
  by (blast intro: row_moves_refl)

lemma row_moves_trans: "row_moves r r' \<Longrightarrow> row_moves r' r'' \<Longrightarrow> row_moves r r''"
  by (auto simp: row_moves_def same_message_def)

lemma log_moves_refl [simp]: "log_moves s s"
  unfolding log_moves_def by (blast intro: row_moves_refl)

lemma log_moves_trans:
  assumes "log_moves s s'" "log_moves s' s''"
  shows "log_moves s s''"
  unfolding log_moves_def
proof (intro conjI ballI impI)
  show "ms_next s \<le> ms_next s''" using assms by (simp add: log_moves_def)
  fix r'' assume r'': "r'' \<in> set (ms_rows s'')" "lr_id r'' < ms_next s"
  moreover have "ms_next s \<le> ms_next s'" using assms(1) by (simp add: log_moves_def)
  ultimately obtain r' where r': "r' \<in> set (ms_rows s')" "row_moves r' r''"
    using assms(2) unfolding log_moves_def by (meson less_le_trans)
  moreover have "lr_id r' = lr_id r''" using r'(2) by (simp add: row_moves_def same_message_def)
  ultimately obtain r where "r \<in> set (ms_rows s)" "row_moves r r'"
    using assms(1) r''(2) unfolding log_moves_def by metis
  with r'(2) show "\<exists>r \<in> set (ms_rows s). row_moves r r''" using row_moves_trans by blast
qed

lemma log_moves_faults [simp]:
  "log_moves s (t\<lparr>ms_db := d\<rparr>) = log_moves s t" "log_moves (s\<lparr>ms_db := d\<rparr>) t = log_moves s t"
  "log_inv (s\<lparr>ms_db := d\<rparr>) = log_inv s"
  by (simp_all add: log_moves_def log_inv_def)

definition log_keeps :: "'a log_op \<Rightarrow> bool" where
  "log_keeps f \<longleftrightarrow> (\<forall>s. log_inv s \<longrightarrow> log_inv (fst (f s)) \<and> log_moves s (fst (f s)))"

named_theorems log_rules \<open>what keeps the log's invariant and its rows' messages\<close>

lemma log_keeps_step: "log_keeps f \<Longrightarrow> log_keeps (log_step f)"
  by (auto simp: log_keeps_def log_step_def split: list.split bool.split)
     (metis log_moves_faults(2,3))+

lemma log_keeps_read: "(\<And>s. fst (f s) = s) \<Longrightarrow> log_keeps f"
  by (simp add: log_keeps_def)

lemma update_rows_ids:
  assumes "\<And>r. p r \<Longrightarrow> lr_id (f r) = lr_id r"
  shows "map lr_id (ms_rows (update_rows p f s)) = map lr_id (ms_rows s)"
proof -
  have "map lr_id (map (\<lambda>r. if p r then f r else r) rs) = map lr_id rs" for rs
    using assms by (induction rs) auto
  then show ?thesis by (simp add: update_rows_def del: map_map)
qed

lemma in_update_rows:
  "r' \<in> set (ms_rows (update_rows p f s)) \<longleftrightarrow> (\<exists>r \<in> set (ms_rows s). r' = (if p r then f r else r))"
  by (auto simp: update_rows_def)

lemma update_rows_moves:
  assumes "\<And>r. p r \<Longrightarrow> row_moves r (f r)"
  shows "log_moves s (update_rows p f s)"
  unfolding log_moves_def
proof (intro conjI ballI impI)
  show "ms_next s \<le> ms_next (update_rows p f s)" by (simp add: update_rows_def)
  fix r' assume "r' \<in> set (ms_rows (update_rows p f s))"
  then obtain r where "r \<in> set (ms_rows s)" "r' = (if p r then f r else r)" by (auto simp: in_update_rows)
  with assms show "\<exists>r \<in> set (ms_rows s). row_moves r r'" by (cases "p r") (auto intro: row_kept)
qed

lemma update_rows_inv:
  assumes "log_inv s" "\<And>r. p r \<Longrightarrow> lr_id (f r) = lr_id r \<and> lr_refusal_line (f r) = lr_refusal_line r"
  shows "log_inv (update_rows p f s)"
proof -
  have m: "map g (map (\<lambda>r. if p r then f r else r) rs) = map g rs" if "\<And>r. p r \<Longrightarrow> g (f r) = g r"
    for g :: "log_row \<Rightarrow> 'b" and rs
    using that by (induction rs) auto
  have "map lr_id (map (\<lambda>r. if p r then f r else r) (ms_rows s)) = map lr_id (ms_rows s)"
    "map lr_refusal_line (map (\<lambda>r. if p r then f r else r) (ms_rows s)) = map lr_refusal_line (ms_rows s)"
    by (rule m, use assms(2) in blast)+
  then show ?thesis
    using assms by (auto simp: log_inv_def update_rows_def refusal_lines_def simp del: map_map)
qed

lemma append_row_keeps:
  assumes "log_inv s" "\<And>i. lr_id (r i) = i" "\<And>i. lr_refusal_line (r i) = []"
  shows "log_inv (append_row r s) \<and> log_moves s (append_row r s)"
proof
  show "log_inv (append_row r s)"
    using assms by (auto simp: log_inv_def append_row_def refusal_lines_def less_Suc_eq)
  show "log_moves s (append_row r s)"
    using assms(2) by (auto simp: log_moves_def append_row_def intro: row_kept)
qed

lemma filter_rows_keeps:
  assumes "log_inv s"
  shows "log_inv (s\<lparr>ms_rows := filter p (ms_rows s)\<rparr>) \<and> log_moves s (s\<lparr>ms_rows := filter p (ms_rows s)\<rparr>)"
proof
  have "distinct (refusal_lines (filter p rs))" if "distinct (refusal_lines rs)" for rs
    using that by (induction rs) (auto simp: refusal_lines_def)
  with assms show "log_inv (s\<lparr>ms_rows := filter p (ms_rows s)\<rparr>)"
    by (auto simp: log_inv_def distinct_map_filter)
  show "log_moves s (s\<lparr>ms_rows := filter p (ms_rows s)\<rparr>)"
    by (auto simp: log_moves_def intro: row_kept)
qed


lemma append_op_keeps:
  assumes "\<And>s i. lr_id (r s i) = i \<and> lr_refusal_line (r s i) = []"
  shows "log_keeps (\<lambda>s. (append_row (r s) s, g s))"
  using append_row_keeps assms by (simp add: log_keeps_def)

lemma new_row_simps [simp]:
  "lr_id (new_row now st did e i) = i" "lr_refusal_line (new_row now st did e i) = []"
  "lr_status (new_row now st did e i) = st" "lr_queue_id (new_row now st did e i) = le_queue_id e"
  "lr_created (new_row now st did e i) = now" "lr_login (new_row now st did e i) = le_app_login e"
  "lr_domain_id (new_row now st did e i) = did"
  by (simp_all add: new_row_def)

lemma insert_queued_keeps [log_rules]: "log_keeps (insert_queued now e)"
  unfolding insert_queued_def by (rule log_keeps_step, rule append_op_keeps) simp

lemma insert_rejected_keeps [log_rules]: "log_keeps (insert_rejected now e)"
  unfolding insert_rejected_def by (rule log_keeps_step, rule append_op_keeps) simp

lemma insert_test_message_keeps [log_rules]: "log_keeps (insert_test_message now did from to subject)"
  unfolding insert_test_message_def by (rule log_keeps_step, rule append_op_keeps) simp

lemma update_where_keeps:
  assumes "\<And>s r. p s r \<Longrightarrow> row_moves r (f r) \<and> lr_refusal_line (f r) = lr_refusal_line r"
  shows "log_keeps (update_where p f)"
  unfolding update_where_def
proof (rule log_keeps_step)
  have "log_inv (update_rows (p s) f s) \<and> log_moves s (update_rows (p s) f s)" if "log_inv s" for s
    using update_rows_moves [of "p s" f s] update_rows_inv [OF that, of "p s" f] assms
    by (auto simp: row_moves_def same_message_def)
  then show "log_keeps (\<lambda>s. (update_rows (p s) f s, Inr (count_rows (p s) s)))"
    by (simp add: log_keeps_def)
qed

lemma set_send_log_queue_id_keeps [log_rules]: "log_keeps (set_send_log_queue_id i q)"
  unfolding set_send_log_queue_id_def
  by (rule update_where_keeps) (auto simp: row_moves_def same_message_def)

lemma close_unmatched_keeps [log_rules]: "log_keeps (close_unmatched_test_messages now before)"
  unfolding close_unmatched_test_messages_def
  by (rule update_where_keeps) (auto simp: row_moves_def same_message_def)

lemma close_unreported_keeps [log_rules]: "log_keeps (close_unreported now i)"
  unfolding close_unreported_def
  by (rule update_where_keeps) (auto simp: row_moves_def same_message_def row_open_def)

lemma expire_message_keeps [log_rules]: "log_keeps (expire_message now q)"
  unfolding expire_message_def
  by (rule update_where_keeps) (auto simp: row_moves_def same_message_def row_open_def)

lemma delete_row_keeps [log_rules]: "log_keeps (delete_send_log_row i)"
  unfolding delete_send_log_row_def by (rule log_keeps_step) (simp add: log_keeps_def filter_rows_keeps)

lemma delete_before_keeps [log_rules]: "log_keeps (delete_send_log_before cutoff)"
  unfolding delete_send_log_before_def by (rule log_keeps_step) (simp add: log_keeps_def filter_rows_keeps)

lemma newest_status: "newest q to s r \<Longrightarrow> lr_status r \<noteq> Status_rejected"
  by (simp add: newest_def Let_def)

lemma update_status_keeps [log_rules]:
  assumes "st \<noteq> Status_rejected"
  shows "log_keeps (update_status now day q to st)"
  unfolding update_status_def
proof (rule log_keeps_step)
  let ?c = "\<lambda>s r. newest q to s r \<and> lr_reason r = Some Reason_reconcile"
  let ?s1 = "\<lambda>s. update_rows (?c s) (\<lambda>r. r\<lparr>lr_reason := Some Reason_contradicted\<rparr>) s"
  let ?s2 = "\<lambda>s. update_rows (newest q to (?s1 s)) (\<lambda>r. r\<lparr>lr_status := st, lr_updated := now\<rparr>) (?s1 s)"
  have one: "log_inv (?s1 s) \<and> log_moves s (?s1 s)" if "log_inv s" for s
    using update_rows_inv [OF that] update_rows_moves by (simp add: row_moves_def same_message_def)
  have two: "log_inv (?s2 s) \<and> log_moves (?s1 s) (?s2 s)" if "log_inv s" for s
    using update_rows_inv [OF one [OF that, THEN conjunct1]] update_rows_moves [of "newest q to (?s1 s)"] assms newest_status
    by (fastforce simp: row_moves_def same_message_def)
  have days: "log_inv (t\<lparr>ms_contradicted := d\<rparr>) = log_inv t" "log_moves s (t\<lparr>ms_contradicted := d\<rparr>) = log_moves s t" for s t d
    by (simp_all add: log_inv_def log_moves_def)
  show "log_keeps (\<lambda>s. let p = newest q to s;
          contradicted = count_rows (\<lambda>r. p r \<and> lr_reason r = Some Reason_reconcile) s;
          s1 = update_rows (\<lambda>r. p r \<and> lr_reason r = Some Reason_reconcile)
                 (\<lambda>r. r\<lparr>lr_reason := Some Reason_contradicted\<rparr>) s;
          s2 = update_rows (newest q to s1) (\<lambda>r. r\<lparr>lr_status := st, lr_updated := now\<rparr>) s1;
          s3 = (if contradicted > 0
                then s2\<lparr>ms_contradicted := (ms_contradicted s2)(day := ms_contradicted s2 day + contradicted)\<rparr>
                else s2)
      in (s3, Inr (count_rows (newest q to s1) s1)))"
    unfolding log_keeps_def Let_def using one two log_moves_trans by (simp add: days) blast
qed


lemma attach_lines:
  assumes "distinct (map lr_id rs)" "distinct (refusal_lines rs)" "line \<notin> lr_refusal_line ` set rs"
  shows "distinct (refusal_lines (map (\<lambda>r. if lr_id r = i then r\<lparr>lr_refusal_line := line\<rparr> else r) rs)) \<and>
    set (refusal_lines (map (\<lambda>r. if lr_id r = i then r\<lparr>lr_refusal_line := line\<rparr> else r) rs)) \<subseteq>
      (if i \<in> lr_id ` set rs then insert line (set (refusal_lines rs)) else set (refusal_lines rs))"
  using assms
proof (induction rs)
  case (Cons r rs)
  show ?case
  proof (cases "lr_id r = i")
    case True
    have "lr_id x \<noteq> i" if "x \<in> set rs" for x
      using True Cons.prems(1) that by (auto simp: image_iff)
    then have "map (\<lambda>r. if lr_id r = i then r\<lparr>lr_refusal_line := line\<rparr> else r) rs = rs"
      by (simp add: map_idI)
    with True Cons.prems show ?thesis by (auto simp: refusal_lines_def)
  next
    case False
    with Cons show ?thesis by (fastforce simp: refusal_lines_def)
  qed
qed (simp add: refusal_lines_def)

lemma nearest_in: "nearest when rs = Some t \<Longrightarrow> t \<in> set rs"
  unfolding nearest_def by (metis (no_types, lifting) list.case_eq_if list.set_sel(1) option.distinct(1) option.inject set_sort)

lemma attach_keeps [log_rules]: "log_keeps (attach_refusal_line ip login from when line)"
proof (cases "line = []")
  case True
  then show ?thesis by (simp add: attach_refusal_line_def log_keeps_def)
next
  case False
  have upd: "log_inv (update_rows (\<lambda>r. lr_id r = lr_id t) (\<lambda>r. r\<lparr>lr_refusal_line := line\<rparr>) s) \<and>
      log_moves s (update_rows (\<lambda>r. lr_id r = lr_id t) (\<lambda>r. r\<lparr>lr_refusal_line := line\<rparr>) s)"
    if inv: "log_inv s" and t: "t \<in> set (filter (attachable ip login from when) (ms_rows s))"
      and n: "\<not> list_ex (\<lambda>r. lr_refusal_line r = line) (ms_rows s)" for s t
  proof
    let ?s = "update_rows (\<lambda>r. lr_id r = lr_id t) (\<lambda>r. r\<lparr>lr_refusal_line := line\<rparr>) s"
    have ids: "map lr_id (ms_rows ?s) = map lr_id (ms_rows s)" by (rule update_rows_ids) simp
    have "distinct (refusal_lines (ms_rows ?s))"
      using attach_lines [of "ms_rows s" line "lr_id t"] inv n
      by (auto simp: log_inv_def update_rows_def list_ex_iff)
    moreover have "ms_next ?s = ms_next s" by (simp add: update_rows_def)
    moreover have "lr_id ` set (ms_rows ?s) = lr_id ` set (ms_rows s)" using ids by (metis set_map)
    ultimately show "log_inv ?s" using inv ids unfolding log_inv_def by (metis image_iff)
    have same: "r = t" if "r \<in> set (ms_rows s)" "lr_id r = lr_id t" for r
      using inv t that by (auto simp: log_inv_def distinct_map inj_on_def)
    show "log_moves s ?s"
      unfolding log_moves_def
    proof (intro conjI ballI impI)
      show "ms_next s \<le> ms_next ?s" by (simp add: update_rows_def)
      fix r' assume "r' \<in> set (ms_rows ?s)"
      then obtain r where r: "r \<in> set (ms_rows s)"
        "r' = (if lr_id r = lr_id t then r\<lparr>lr_refusal_line := line\<rparr> else r)" by (auto simp: in_update_rows)
      then have "row_moves r r'"
        using same [OF r(1)] t by (auto simp: row_moves_def same_message_def attachable_def)
      with r(1) show "\<exists>r \<in> set (ms_rows s). row_moves r r'" by blast
    qed
  qed
  have "log_keeps (\<lambda>s.
        case nearest when (filter (attachable ip login from when) (ms_rows s)) of
          None \<Rightarrow> (s, Inr False)
        | Some t \<Rightarrow>
            if list_ex (\<lambda>r. lr_refusal_line r = line) (ms_rows s) then (s, Inr False)
            else (update_rows (\<lambda>r. lr_id r = lr_id t) (\<lambda>r. r\<lparr>lr_refusal_line := line\<rparr>) s, Inr True))"
    unfolding log_keeps_def
  proof (intro allI impI)
    fix s assume inv: "log_inv s"
    show "log_inv (fst (case nearest when (filter (attachable ip login from when) (ms_rows s)) of
          None \<Rightarrow> (s, Inr False)
        | Some t \<Rightarrow>
            if list_ex (\<lambda>r. lr_refusal_line r = line) (ms_rows s) then (s, Inr False)
            else (update_rows (\<lambda>r. lr_id r = lr_id t) (\<lambda>r. r\<lparr>lr_refusal_line := line\<rparr>) s, Inr True))) \<and>
      log_moves s (fst (case nearest when (filter (attachable ip login from when) (ms_rows s)) of
          None \<Rightarrow> (s, Inr False)
        | Some t \<Rightarrow>
            if list_ex (\<lambda>r. lr_refusal_line r = line) (ms_rows s) then (s, Inr False)
            else (update_rows (\<lambda>r. lr_id r = lr_id t) (\<lambda>r. r\<lparr>lr_refusal_line := line\<rparr>) s, Inr True)))"
    proof (cases "nearest when (filter (attachable ip login from when) (ms_rows s))")
      case (Some t)
      from upd [OF inv nearest_in [OF Some]] Some inv show ?thesis by simp
    qed (simp add: inv)
  qed
  with False show ?thesis unfolding attach_refusal_line_def by (simp add: log_keeps_step)
qed

lemma recover_keeps [log_rules]: "log_keeps (recover_refusal e when)"
  unfolding recover_refusal_def
proof (rule log_keeps_step)
  show "log_keeps (\<lambda>s. if list_ex (\<lambda>r. lr_queue_id r = le_queue_id e \<and> lr_status r = Status_rejected \<and>
          when - refusal_line_window \<le> lr_created r \<and> lr_created r \<le> when + refusal_line_window) (ms_rows s)
     then (s, Inr False)
     else (let did = (case login_domain_id (le_app_login e) s of
                        Some i \<Rightarrow> Some i
                      | None \<Rightarrow> map_option d_id (find (\<lambda>d. d_name d = le_domain e) (db_domains (ms_db s))))
           in (append_row (\<lambda>i. (new_row when Status_rejected did (e\<lparr>le_subject := []\<rparr>) i)
                 \<lparr>lr_reason := le_reason e, lr_header_from := le_header_from e, lr_recovered := True\<rparr>) s, Inr True)))"
    unfolding log_keeps_def Let_def by (simp add: append_row_keeps)
qed


section \<open>The log over time\<close>

text \<open>One operation of the panel, the milters or the log tailer.\<close>

inductive log_change :: "mail_store \<Rightarrow> mail_store \<Rightarrow> bool" where
  Queued: "log_change s (fst (insert_queued now e s))"
| Rejected: "log_change s (fst (insert_rejected now e s))"
| Test: "log_change s (fst (insert_test_message now d from to subj s))"
| Queue_id: "log_change s (fst (set_send_log_queue_id i q s))"
| Close_tests: "log_change s (fst (close_unmatched_test_messages now before s))"
| Delete_row: "log_change s (fst (delete_send_log_row i s))"
| Delivered: "st \<in> {Status_sent, Status_deferred, Status_bounced} \<Longrightarrow> log_change s (fst (update_status now day q to st s))"
| Close: "log_change s (fst (close_unreported now i s))"
| Expire: "log_change s (fst (expire_message now q s))"
| Prune: "log_change s (fst (delete_send_log_before cutoff s))"
| Attach: "log_change s (fst (attach_refusal_line ip login from when line s))"
| Recover: "log_change s (fst (recover_refusal e when s))"

inductive_cases log_changeE: "log_change s s'"

lemma log_keepsD: "log_keeps f \<Longrightarrow> log_inv s \<Longrightarrow> log_inv (fst (f s)) \<and> log_moves s (fst (f s))"
  by (simp add: log_keeps_def)

lemma log_change_keeps: "log_change s s' \<Longrightarrow> log_inv s \<Longrightarrow> log_inv s' \<and> log_moves s s'"
  by (erule log_changeE) (auto simp: log_rules [THEN log_keepsD])

lemma log_history:
  assumes "log_change\<^sup>*\<^sup>* s t" "log_inv s"
  shows "log_inv t \<and> log_moves s t"
  using assms(1)
proof (induction rule: rtranclp_induct)
  case (step t u)
  with log_change_keeps log_moves_trans show ?case by blast
qed (simp add: assms(2))

section \<open>What a query shows, what is counted, what is kept of a line\<close>

lemma query_rows:
  assumes "snd (query_send_log f limit offset s) = Inr rows"
  shows "set rows \<subseteq> {r \<in> set (ms_rows s). send_log_where f r} \<and> length rows \<le> limit"
proof -
  have "rows = take limit (drop offset (rev (sort_key lr_id (filter (send_log_where f) (ms_rows s)))))"
    using assms by (auto simp: query_send_log_def log_step_def split: list.splits bool.splits)
  then show ?thesis
    using set_take_subset [of limit "drop offset (rev (sort_key lr_id (filter (send_log_where f) (ms_rows s))))"]
      set_drop_subset [of offset "rev (sort_key lr_id (filter (send_log_where f) (ms_rows s)))"] by auto
qed

lemma back_to_start_le: "back_to_start line n \<le> n"
  by (induction n) auto

lemma cut_line_prefix: "prefix (cut_send_log_line line) line \<and> length (cut_send_log_line line) \<le> send_log_line_max"
  using back_to_start_le [of line send_log_line_max]
  by (auto simp: cut_send_log_line_def take_is_prefix)

lemma cut_line_whole: "length line \<le> send_log_line_max \<Longrightarrow> cut_send_log_line line = line"
  by (simp add: cut_send_log_line_def)

lemma cut_line_at_rune:
  assumes "length line > send_log_line_max"
  shows "cut_send_log_line line = [] \<or> rune_start (line ! length (cut_send_log_line line))"
proof -
  have "back_to_start line n = 0 \<or> rune_start (line ! back_to_start line n)" for n
    by (induction n) auto
  moreover have "length (cut_send_log_line line) = back_to_start line send_log_line_max"
    using assms back_to_start_le [of line send_log_line_max] by (simp add: cut_send_log_line_def)
  ultimately show ?thesis by (metis length_0_conv)
qed

section \<open>The log as a history\<close>


definition demo_store :: mail_store where
  "demo_store = \<lparr>ms_db = empty_db, ms_rows = [], ms_lines = [], ms_next = 1, ms_contradicted = (\<lambda>_. 0)\<rparr>"

definition demo_entry :: log_entry where
  "demo_entry = \<lparr>le_queue_id = ''Q1'', le_domain = ''a.io'', le_app_login = ''app'', le_from = ''x@a.io'',
     le_to = ''y@b.io'', le_subject = [], le_reason = None, le_header_from = [], le_client_ip = []\<rparr>"


text \<open>
  A line kept with a message is a prefix of what the log said, within the bound, whole when
  it fits and otherwise cut before a byte that starts a character.
\<close>

theorem kept_line:
  "prefix (cut_send_log_line line) line \<and> length (cut_send_log_line line) \<le> send_log_line_max \<and>
   (if length line \<le> send_log_line_max then cut_send_log_line line = line
    else cut_send_log_line line = [] \<or> rune_start (line ! length (cut_send_log_line line)))"
  using cut_line_prefix cut_line_whole cut_line_at_rune by auto

end
