(* ===== verification/Inflight.thy ===== *)
theory Inflight
  imports Prelude
begin

text \<open>
  The registry of messages between the limit check and the send log
  (\<open>internal/milter/inflight.go\<close>), and what it promises: \<open>try_admit\<close> counts and reserves in one
  step, \<open>release\<close> gives a slot back, a reservation older than \<open>reservation_ttl\<close> is dropped.
  The contract is the locale \<open>slot_registry\<close>; the relation \<open>traffic\<close> is a ceiling at work,
  messages of one key admitted, delivered to the log and given up in any order.

  A time is the int of its nanoseconds. A reservation is a pointer in the code: \<open>r_id\<close> is
  its identity. Go's map iterates in any order, which no operation's result depends on.
\<close>

section \<open>The registry\<close>

record reservation =
  r_id :: nat
  r_key :: string
  r_at :: int

record inflight =
  fl_m :: "string \<rightharpoonup> reservation list"
  fl_next :: nat

definition empty_inflight :: inflight where
  "empty_inflight = \<lparr>fl_m = Map.empty, fl_next = 0\<rparr>"

definition reservation_ttl :: int where "reservation_ttl = 10 * 60 * second"

definition flight_set :: "inflight \<Rightarrow> string \<Rightarrow> reservation list" where
  "flight_set f key = (case fl_m f key of None \<Rightarrow> [] | Some rs \<Rightarrow> rs)"

definition put_set :: "string \<Rightarrow> reservation list \<Rightarrow> inflight \<Rightarrow> inflight" where
  "put_set key rs f = f\<lparr>fl_m := (fl_m f)(key := if rs = [] then None else Some rs)\<rparr>"

definition count_locked :: "string \<Rightarrow> int \<Rightarrow> int \<Rightarrow> inflight \<Rightarrow> inflight \<times> int" where
  "count_locked key since now f =
     (let kept = filter (\<lambda>r. \<not> r_at r < now - reservation_ttl) (flight_set f key)
      in (put_set key kept f, int (length (filter (\<lambda>r. \<not> r_at r < since) kept))))"

definition reserve_locked :: "string \<Rightarrow> int \<Rightarrow> inflight \<Rightarrow> inflight \<times> reservation" where
  "reserve_locked key now f =
     (let r = \<lparr>r_id = fl_next f, r_key = key, r_at = now\<rparr>
      in ((put_set key (flight_set f key @ [r]) f)\<lparr>fl_next := fl_next f + 1\<rparr>, r))"

text \<open>The receiver may be nil (\<open>None\<close>): then nothing is in flight and nothing is reserved.\<close>

definition try_admit ::
  "string \<Rightarrow> int \<Rightarrow> int \<Rightarrow> int \<Rightarrow> int \<Rightarrow> inflight option \<Rightarrow> inflight option \<times> reservation option \<times> int \<times> bool" where
  "try_admit key since now stored cap fo =
     (case fo of
        None \<Rightarrow> (None, None, stored, stored < cap)
      | Some f \<Rightarrow>
          (let (f1, n) = count_locked key since now f; amount = stored + n
           in if amount \<ge> cap then (Some f1, None, amount, False)
              else (let (f2, r) = reserve_locked key now f1 in (Some f2, Some r, amount, True))))"

definition count_flight :: "string \<Rightarrow> int \<Rightarrow> int \<Rightarrow> inflight option \<Rightarrow> inflight option \<times> int" where
  "count_flight key since now fo =
     (case fo of
        None \<Rightarrow> (None, 0)
      | Some f \<Rightarrow> (let (f1, n) = count_locked key since now f in (Some f1, n)))"

definition release :: "reservation option \<Rightarrow> inflight option \<Rightarrow> inflight option" where
  "release ro fo =
     (case (fo, ro) of
        (Some f, Some r) \<Rightarrow>
          Some (put_set (r_key r) (filter (\<lambda>x. r_id x \<noteq> r_id r) (flight_set f (r_key r))) f)
      | _ \<Rightarrow> fo)"

lemma flight_put [simp]: "flight_set (put_set key rs f) k = (if k = key then rs else flight_set f k)"
  by (simp add: flight_set_def put_set_def)

lemma fl_next_put [simp]: "fl_next (put_set key rs f) = fl_next f"
  by (simp add: put_set_def)

lemma flight_next [simp]: "flight_set (f\<lparr>fl_next := n\<rparr>) k = flight_set f k"
  by (simp add: flight_set_def)

section \<open>What the session relies on\<close>

text \<open>Reservations are known by their identity and filed under their key.\<close>

definition flight_ok :: "inflight \<Rightarrow> bool" where
  "flight_ok f \<longleftrightarrow>
     (\<forall>k. \<forall>r \<in> set (flight_set f k). r_key r = k \<and> r_id r < fl_next f) \<and>
     (\<forall>k. distinct (map r_id (flight_set f k)))"

locale slot_registry =
  fixes inv :: "'r \<Rightarrow> bool"
    and slots :: "'r \<Rightarrow> string \<Rightarrow> reservation list"
    and used :: "'r \<Rightarrow> nat"
    and admit :: "string \<Rightarrow> int \<Rightarrow> int \<Rightarrow> int \<Rightarrow> int \<Rightarrow> 'r \<Rightarrow> 'r \<times> reservation option \<times> int \<times> bool"
    and give_back :: "reservation \<Rightarrow> 'r \<Rightarrow> 'r"
  assumes admits: "inv f \<Longrightarrow> admit key since now stored cap f = (f', ro, amount, ok) \<Longrightarrow>
      inv f' \<and> used f \<le> used f' \<and>
      amount = stored + int (length (filter (\<lambda>r. r_at r \<ge> since \<and> r_at r \<ge> now - reservation_ttl) (slots f key))) \<and>
      ok = (amount < cap) \<and>
      (\<forall>k. k \<noteq> key \<longrightarrow> slots f' k = slots f k) \<and>
      (ok \<longrightarrow> (\<exists>r. ro = Some r \<and> r_id r = used f \<and> used f < used f' \<and> r_key r = key \<and> r_at r = now \<and>
         slots f' key = filter (\<lambda>r. r_at r \<ge> now - reservation_ttl) (slots f key) @ [r])) \<and>
      (\<not> ok \<longrightarrow> ro = None \<and> slots f' key = filter (\<lambda>r. r_at r \<ge> now - reservation_ttl) (slots f key))"
    and gives_back: "inv f \<Longrightarrow> inv (give_back r f) \<and> used (give_back r f) = used f \<and>
      slots (give_back r f) k =
        (if k = r_key r then filter (\<lambda>x. r_id x \<noteq> r_id r) (slots f k) else slots f k)"
    and filed: "inv f \<Longrightarrow> r \<in> set (slots f k) \<Longrightarrow> r_key r = k \<and> r_id r < used f"
    and ids: "inv f \<Longrightarrow> distinct (map r_id (slots f k))"
begin

text \<open>A slot taken is under the ceiling with the slots that are counted, itself among them.\<close>

lemma admitted_under_ceiling:
  assumes "inv f" "admit key since now stored cap f = (f', ro, amount, True)" "since \<le> now"
  shows "stored + int (length (filter (\<lambda>r. r_at r \<ge> since \<and> r_at r \<ge> now - reservation_ttl) (slots f' key))) \<le> cap"
proof -
  from admits [OF assms(1,2)] obtain r where r: "r_at r = now"
    "slots f' key = filter (\<lambda>r. r_at r \<ge> now - reservation_ttl) (slots f key) @ [r]"
    and t: "amount = stored + int (length (filter (\<lambda>r. r_at r \<ge> since \<and> r_at r \<ge> now - reservation_ttl) (slots f key)))"
      "amount < cap" by auto
  have "now - reservation_ttl \<le> now" by (simp add: reservation_ttl_def second_def)
  have e: "filter (\<lambda>x. now - reservation_ttl \<le> r_at x \<and> since \<le> r_at x \<and> now - reservation_ttl \<le> r_at x) xs =
      filter (\<lambda>x. since \<le> r_at x \<and> now - reservation_ttl \<le> r_at x) xs" for xs
    by (rule filter_cong) auto
  have "length (filter (\<lambda>r. r_at r \<ge> since \<and> r_at r \<ge> now - reservation_ttl) (slots f' key)) =
      Suc (length (filter (\<lambda>r. r_at r \<ge> since \<and> r_at r \<ge> now - reservation_ttl) (slots f key)))"
    using \<open>now - reservation_ttl \<le> now\<close> assms(3) r by (simp add: e)
  with t show ?thesis by simp
qed

text \<open>Admitting and giving back leaves the other slots as they were.\<close>

lemma admit_then_give_back:
  assumes "inv f" "admit key since now stored cap f = (f', Some r, amount, True)"
  shows "slots (give_back r f') key = filter (\<lambda>r. r_at r \<ge> now - reservation_ttl) (slots f key)"
proof -
  from admits [OF assms] have f': "inv f'" "r_id r = used f" "r_key r = key"
    "slots f' key = filter (\<lambda>r. r_at r \<ge> now - reservation_ttl) (slots f key) @ [r]" by auto
  have "r_id x \<noteq> r_id r" if "x \<in> set (slots f key)" for x
    using filed [OF assms(1) that] f'(2) by simp
  then show ?thesis using gives_back [OF f'(1), of r key] f' by (auto intro!: filter_cong)
qed

end

lemma flight_okD:
  assumes "flight_ok f" "r \<in> set (flight_set f k)"
  shows "r_key r = k" "r_id r < fl_next f"
  using assms by (auto simp: flight_ok_def)

lemma count_locked_ok:
  assumes "flight_ok f"
  shows "flight_ok (fst (count_locked key since now f)) \<and> fl_next (fst (count_locked key since now f)) = fl_next f"
  using assms by (auto simp: count_locked_def Let_def flight_ok_def distinct_map_filter)

lemma reserve_locked_ok:
  assumes "flight_ok f \<and> P"
  shows "flight_ok (fst (reserve_locked key now f)) \<and> fl_next f \<le> fl_next (fst (reserve_locked key now f))"
proof -
  from assms have "r_id x \<noteq> fl_next f" if "x \<in> set (flight_set f k)" for x k
    using that flight_okD(2) by fastforce
  with assms show ?thesis
    by (auto simp: reserve_locked_def Let_def flight_ok_def less_Suc_eq) blast+
qed

interpretation fl: slot_registry flight_ok flight_set fl_next
  "\<lambda>key since now stored cap f.
     (case try_admit key since now stored cap (Some f) of (fo, ro, amount, ok) \<Rightarrow> (the fo, ro, amount, ok))"
  "\<lambda>r f. the (release (Some r) (Some f))"
proof
  fix f key since now stored cap f' ro amount ok
  assume ok: "flight_ok f"
    and a: "(case try_admit key since now stored cap (Some f) of (fo, ro, amount, ok) \<Rightarrow> (the fo, ro, amount, ok)) =
      (f', ro, amount, ok)"
  have "flight_ok f' \<and> fl_next f \<le> fl_next f'"
    using a count_locked_ok [OF ok, of key since now] reserve_locked_ok [OF count_locked_ok [OF ok], of key now key since now]
    by (auto simp: try_admit_def Let_def split: if_splits prod.splits)
  moreover have "(\<forall>k. k \<noteq> key \<longrightarrow> flight_set f' k = flight_set f k)"
    using a by (auto simp: try_admit_def count_locked_def reserve_locked_def Let_def split: if_splits)
  moreover have "amount = stored + int (length (filter (\<lambda>r. r_at r \<ge> since \<and> r_at r \<ge> now - reservation_ttl) (flight_set f key))) \<and>
      ok = (amount < cap)"
    using a by (auto simp: try_admit_def count_locked_def reserve_locked_def Let_def not_less conj_commute split: if_splits)
  moreover have "(ok \<longrightarrow> (\<exists>r. ro = Some r \<and> r_id r = fl_next f \<and> fl_next f < fl_next f' \<and> r_key r = key \<and> r_at r = now \<and>
         flight_set f' key = filter (\<lambda>r. r_at r \<ge> now - reservation_ttl) (flight_set f key) @ [r])) \<and>
      (\<not> ok \<longrightarrow> ro = None \<and> flight_set f' key = filter (\<lambda>r. r_at r \<ge> now - reservation_ttl) (flight_set f key))"
    using a by (auto simp: try_admit_def count_locked_def reserve_locked_def Let_def not_less split: if_splits)
  ultimately show "flight_ok f' \<and> fl_next f \<le> fl_next f' \<and>
      amount = stored + int (length (filter (\<lambda>r. r_at r \<ge> since \<and> r_at r \<ge> now - reservation_ttl) (flight_set f key))) \<and>
      ok = (amount < cap) \<and>
      (\<forall>k. k \<noteq> key \<longrightarrow> flight_set f' k = flight_set f k) \<and>
      (ok \<longrightarrow> (\<exists>r. ro = Some r \<and> r_id r = fl_next f \<and> fl_next f < fl_next f' \<and> r_key r = key \<and> r_at r = now \<and>
         flight_set f' key = filter (\<lambda>r. r_at r \<ge> now - reservation_ttl) (flight_set f key) @ [r])) \<and>
      (\<not> ok \<longrightarrow> ro = None \<and> flight_set f' key = filter (\<lambda>r. r_at r \<ge> now - reservation_ttl) (flight_set f key))"
    by blast
next
  fix f r k
  assume "flight_ok f"
  then show "flight_ok (the (release (Some r) (Some f))) \<and> fl_next (the (release (Some r) (Some f))) = fl_next f \<and>
      flight_set (the (release (Some r) (Some f))) k =
        (if k = r_key r then filter (\<lambda>x. r_id x \<noteq> r_id r) (flight_set f k) else flight_set f k)"
    by (auto simp: release_def flight_ok_def distinct_map_filter)
qed (auto simp: flight_ok_def)


section \<open>A ceiling at work\<close>

text \<open>
  The messages of one key: \<open>tr_held\<close> have passed the check and hold a slot, \<open>tr_done\<close> are in
  the send log, each with the time it was admitted and the time it was logged, which is the
  one \<open>CountMessages\<close> sees. Here the count is read and the slot taken at one instant.
\<close>

record traffic =
  tr_now :: int
  tr_flight :: inflight
  tr_held :: "reservation list"
  tr_done :: "(int \<times> int) list"

definition stored_count :: "int \<Rightarrow> traffic \<Rightarrow> int" where
  "stored_count since t = int (length (filter (\<lambda>(admitted, logged). logged \<ge> since) (tr_done t)))"

inductive traffic_step :: "string \<Rightarrow> int \<Rightarrow> int \<Rightarrow> traffic \<Rightarrow> traffic \<Rightarrow> bool"
  for key :: string and window :: int and cap :: int where
  Admit: "try_admit key (tr_now t - window) (tr_now t) (stored_count (tr_now t - window) t) cap (Some (tr_flight t))
      = (Some f, Some r, n, True) \<Longrightarrow>
    traffic_step key window cap t (t\<lparr>tr_flight := f, tr_held := r # tr_held t\<rparr>)"
| Refuse: "try_admit key (tr_now t - window) (tr_now t) (stored_count (tr_now t - window) t) cap (Some (tr_flight t))
      = (Some f, None, n, False) \<Longrightarrow>
    traffic_step key window cap t (t\<lparr>tr_flight := f\<rparr>)"
| Deliver: "r \<in> set (tr_held t) \<Longrightarrow> r_at r \<ge> tr_now t - reservation_ttl \<Longrightarrow>
    traffic_step key window cap t
      (t\<lparr>tr_flight := the (release (Some r) (Some (tr_flight t))), tr_held := remove1 r (tr_held t),
         tr_done := (r_at r, tr_now t) # tr_done t\<rparr>)"
| Give_up: "r \<in> set (tr_held t) \<Longrightarrow>
    traffic_step key window cap t
      (t\<lparr>tr_flight := the (release (Some r) (Some (tr_flight t))), tr_held := remove1 r (tr_held t)\<rparr>)"
| Wait: "d \<ge> 0 \<Longrightarrow> traffic_step key window cap t (t\<lparr>tr_now := tr_now t + d\<rparr>)"

inductive_cases traffic_stepE: "traffic_step key window cap t t'"

definition traffic_start :: "int \<Rightarrow> traffic" where
  "traffic_start now = \<lparr>tr_now = now, tr_flight = empty_inflight, tr_held = [], tr_done = []\<rparr>"

text \<open>Messages admitted within the window and delivered, or still being received.\<close>

definition live_slot :: "traffic \<Rightarrow> int \<Rightarrow> reservation \<Rightarrow> bool" where
  "live_slot t window r \<longleftrightarrow> r_at r \<ge> tr_now t - window \<and> r_at r \<ge> tr_now t - reservation_ttl"

definition admitted_in_window :: "int \<Rightarrow> traffic \<Rightarrow> nat" where
  "admitted_in_window window t =
     length (filter (\<lambda>(admitted, logged). admitted \<ge> tr_now t - window) (tr_done t)) +
     length (filter (live_slot t window) (tr_held t))"

definition traffic_inv :: "string \<Rightarrow> int \<Rightarrow> int \<Rightarrow> traffic \<Rightarrow> bool" where
  "traffic_inv key window cap t \<longleftrightarrow>
     flight_ok (tr_flight t) \<and> distinct (map r_id (tr_held t)) \<and>
     (\<forall>r \<in> set (tr_held t). r_key r = key \<and> r_at r \<le> tr_now t \<and> r_id r < fl_next (tr_flight t) \<and>
        (r_at r \<ge> tr_now t - reservation_ttl \<longrightarrow> r \<in> set (flight_set (tr_flight t) key))) \<and>
     (\<forall>(a, l) \<in> set (tr_done t). a \<le> l \<and> l \<le> tr_now t) \<and>
     int (admitted_in_window window t) \<le> cap"

lemma traffic_inv_start: "0 \<le> cap \<Longrightarrow> traffic_inv key window cap (traffic_start now)"
  by (simp add: traffic_inv_def traffic_start_def empty_inflight_def flight_ok_def flight_set_def
      admitted_in_window_def)

lemma length_filter_subset:
  assumes "distinct xs" "\<And>x. x \<in> set xs \<Longrightarrow> P x \<Longrightarrow> x \<in> set ys \<and> Q x"
  shows "length (filter P xs) \<le> length (filter Q ys)"
proof -
  have "length (filter P xs) = card (set (filter P xs))"
    using distinct_card [of "filter P xs"] assms(1) by simp
  also have "\<dots> \<le> card (set (filter Q ys))" by (rule card_mono) (use assms(2) in auto)
  also have "\<dots> \<le> length (filter Q ys)" by (rule card_length)
  finally show ?thesis .
qed

lemma admit_triple:
  "try_admit key since now stored cap (Some f) = (Some f', ro, n, ok) \<Longrightarrow>
   (case try_admit key since now stored cap (Some f) of (fo, ro, amount, ok) \<Rightarrow> (the fo, ro, amount, ok)) =
   (f', ro, n, ok)"
  by simp

lemma traffic_admit:
  assumes inv: "traffic_inv key window cap t" and w: "0 \<le> window"
    and a: "try_admit key (tr_now t - window) (tr_now t) (stored_count (tr_now t - window) t) cap (Some (tr_flight t))
      = (Some f, Some r, n, True)"
  shows "traffic_inv key window cap (t\<lparr>tr_flight := f, tr_held := r # tr_held t\<rparr>)"
proof -
  let ?t = "t\<lparr>tr_flight := f, tr_held := r # tr_held t\<rparr>"
  from inv have ok: "flight_ok (tr_flight t)" by (simp add: traffic_inv_def)
  from fl.admits [OF ok admit_triple [OF a]] have f: "flight_ok f" "r_id r = fl_next (tr_flight t)" "r_key r = key"
    "r_at r = tr_now t" "fl_next (tr_flight t) < fl_next f"
    "flight_set f key = filter (\<lambda>r. r_at r \<ge> tr_now t - reservation_ttl) (flight_set (tr_flight t) key) @ [r]"
    and n: "n = stored_count (tr_now t - window) t + int (length (filter (live_slot t window) (flight_set (tr_flight t) key)))"
      "n < cap"
    by (auto simp: live_slot_def [abs_def])
  have "length (filter (\<lambda>(a, l). a \<ge> tr_now t - window) (tr_done t)) \<le>
      length (filter (\<lambda>(a, l). l \<ge> tr_now t - window) (tr_done t))"
    by (rule length_filter_mono) (use inv in \<open>fastforce simp: traffic_inv_def\<close>)
  moreover have "length (filter (live_slot t window) (tr_held t)) \<le>
      length (filter (live_slot t window) (flight_set (tr_flight t) key))"
    by (rule length_filter_subset) (use inv in \<open>auto simp: traffic_inv_def live_slot_def distinct_map\<close>)
  ultimately have "int (admitted_in_window window t) < cap"
    using n by (simp add: admitted_in_window_def stored_count_def)
  moreover have "live_slot ?t window r" using w f(4) by (simp add: live_slot_def reservation_ttl_def second_def)
  moreover have "live_slot ?t window = live_slot t window" by (simp add: live_slot_def [abs_def])
  ultimately have "int (admitted_in_window window ?t) \<le> cap" by (simp add: admitted_in_window_def)
  with inv f show ?thesis by (fastforce simp: traffic_inv_def)
qed

lemma traffic_refuse:
  assumes inv: "traffic_inv key window cap t"
    and a: "try_admit key (tr_now t - window) (tr_now t) (stored_count (tr_now t - window) t) cap (Some (tr_flight t))
      = (Some f, None, n, False)"
  shows "traffic_inv key window cap (t\<lparr>tr_flight := f\<rparr>)"
proof -
  from inv have ok: "flight_ok (tr_flight t)" by (simp add: traffic_inv_def)
  from fl.admits [OF ok admit_triple [OF a]] have f: "flight_ok f" "fl_next (tr_flight t) \<le> fl_next f"
    "flight_set f key = filter (\<lambda>r. r_at r \<ge> tr_now t - reservation_ttl) (flight_set (tr_flight t) key)"
    by auto
  have "admitted_in_window window (t\<lparr>tr_flight := f\<rparr>) = admitted_in_window window t"
    by (simp add: admitted_in_window_def live_slot_def [abs_def])
  with inv f show ?thesis by (fastforce simp: traffic_inv_def)
qed


lemma length_filter_remove1:
  "r \<in> set xs \<Longrightarrow> length (filter P xs) = length (filter P (remove1 r xs)) + (if P r then 1 else 0)"
  by (induction xs) auto

lemma held_after_release:
  assumes inv: "traffic_inv key window cap t" and r: "r \<in> set (tr_held t)"
  shows "flight_ok (the (release (Some r) (Some (tr_flight t))))"
    "\<forall>x \<in> set (remove1 r (tr_held t)). r_key x = key \<and> r_at x \<le> tr_now t \<and>
       r_id x < fl_next (the (release (Some r) (Some (tr_flight t)))) \<and>
       (r_at x \<ge> tr_now t - reservation_ttl \<longrightarrow> x \<in> set (flight_set (the (release (Some r) (Some (tr_flight t)))) key))"
    "distinct (map r_id (remove1 r (tr_held t)))"
proof -
  from inv have ok: "flight_ok (tr_flight t)" and d: "distinct (map r_id (tr_held t))"
    by (auto simp: traffic_inv_def)
  note g = fl.gives_back [OF ok, of r key]
  from g show "flight_ok (the (release (Some r) (Some (tr_flight t))))" by simp
  have ne: "r_id x \<noteq> r_id r" if "x \<in> set (remove1 r (tr_held t))" for x
    using that d r by (auto simp: distinct_map inj_on_def)
  show "\<forall>x \<in> set (remove1 r (tr_held t)). r_key x = key \<and> r_at x \<le> tr_now t \<and>
       r_id x < fl_next (the (release (Some r) (Some (tr_flight t)))) \<and>
       (r_at x \<ge> tr_now t - reservation_ttl \<longrightarrow> x \<in> set (flight_set (the (release (Some r) (Some (tr_flight t)))) key))"
    using inv g ne set_remove1_subset [of r "tr_held t"] by (auto simp: traffic_inv_def)
  show "distinct (map r_id (remove1 r (tr_held t)))"
    using d by (auto simp: distinct_map distinct_remove1 intro: inj_on_diff)
qed

lemma traffic_give_up:
  assumes inv: "traffic_inv key window cap t" and r: "r \<in> set (tr_held t)"
  shows "traffic_inv key window cap
    (t\<lparr>tr_flight := the (release (Some r) (Some (tr_flight t))), tr_held := remove1 r (tr_held t)\<rparr>)"
    (is "traffic_inv key window cap ?t")
proof -
  have "live_slot ?t window = live_slot t window" by (simp add: live_slot_def [abs_def])
  then have "admitted_in_window window ?t \<le> admitted_in_window window t"
    using length_filter_remove1 [OF r, of "live_slot t window"] by (simp add: admitted_in_window_def)
  with inv held_after_release [OF assms] show ?thesis by (simp add: traffic_inv_def)
qed

lemma traffic_deliver:
  assumes inv: "traffic_inv key window cap t" and r: "r \<in> set (tr_held t)"
    and prompt: "r_at r \<ge> tr_now t - reservation_ttl"
  shows "traffic_inv key window cap
      (t\<lparr>tr_flight := the (release (Some r) (Some (tr_flight t))), tr_held := remove1 r (tr_held t),
         tr_done := (r_at r, tr_now t) # tr_done t\<rparr>)"
    (is "traffic_inv key window cap ?t")
proof -
  have "live_slot ?t window = live_slot t window" by (simp add: live_slot_def [abs_def])
  then have "admitted_in_window window ?t = admitted_in_window window t"
    using length_filter_remove1 [OF r, of "live_slot t window"] prompt
    by (simp add: admitted_in_window_def live_slot_def)
  moreover have "r_at r \<le> tr_now t" using inv r by (auto simp: traffic_inv_def)
  ultimately show ?thesis using inv held_after_release [OF inv r] by (simp add: traffic_inv_def)
qed

lemma traffic_wait:
  assumes inv: "traffic_inv key window cap t" and d: "0 \<le> d"
  shows "traffic_inv key window cap (t\<lparr>tr_now := tr_now t + d\<rparr>)"
    (is "traffic_inv key window cap ?t")
proof -
  have "length (filter (\<lambda>(a, l). a \<ge> tr_now t + d - window) (tr_done t)) \<le>
      length (filter (\<lambda>(a, l). a \<ge> tr_now t - window) (tr_done t))"
    by (rule length_filter_mono) (use d in auto)
  moreover have "length (filter (live_slot ?t window) (tr_held t)) \<le> length (filter (live_slot t window) (tr_held t))"
    by (rule length_filter_mono) (use d in \<open>auto simp: live_slot_def\<close>)
  ultimately have "admitted_in_window window ?t \<le> admitted_in_window window t"
    by (simp add: admitted_in_window_def)
  with inv d show ?thesis by (force simp: traffic_inv_def)
qed

lemma traffic_inv_step:
  "traffic_step key window cap t t' \<Longrightarrow> 0 \<le> window \<Longrightarrow> traffic_inv key window cap t \<Longrightarrow> traffic_inv key window cap t'"
  by (erule traffic_stepE)
     (simp_all add: traffic_admit traffic_refuse traffic_deliver traffic_give_up traffic_wait)

lemma traffic_reachable:
  assumes "(traffic_step key window cap)\<^sup>*\<^sup>* (traffic_start now) t" "0 \<le> window" "0 \<le> cap"
  shows "traffic_inv key window cap t"
  using assms(1)
  by (induction rule: rtranclp_induct) (auto intro: traffic_inv_start traffic_inv_step assms)



end
