(* ===== verification/Journal.thy ===== *)
theory Journal
  imports Send_Log Inflight
begin

text \<open>
  The journal milter's session (\<open>internal/milter/milter.go\<close>, \<open>ratelimit.go\<close>, \<open>authip.go\<close>):
  the callbacks of one connection over the send log and the registry of messages in flight.
  The session's fields are the record \<open>session\<close>; what it shares with every other session is
  \<open>mail_world\<close>. A callback runs at one time \<open>now\<close>, in nanoseconds; a stamp in the log is its
  whole seconds. \<open>ul\<close> is \<open>strings.ToLower\<close> past ASCII, \<open>ef\<close> is \<open>strings.EqualFold\<close> (Unicode
  tables both), \<open>wd\<close> the decoder of encoded-words. Log output is left out.
\<close>

record session =
  js_client_ip :: string
  js_login :: string
  js_from :: string
  js_rcpts :: "string list"
  js_subject :: string
  js_reserved :: "reservation option list"

record mail_world =
  mw_store :: mail_store
  mw_flight :: "inflight option"

definition new_session :: session where
  "new_session = \<lparr>js_client_ip = [], js_login = [], js_from = [], js_rcpts = [], js_subject = [], js_reserved = []\<rparr>"

definition ask :: "'a log_op \<Rightarrow> mail_world \<Rightarrow> mail_world \<times> (store_error + 'a)" where
  "ask f w = (case f (mw_store w) of (s, r) \<Rightarrow> (w\<lparr>mw_store := s\<rparr>, r))"

section \<open>The limits\<close>

definition scope_name :: "scope \<Rightarrow> string" where
  "scope_name sc = (case sc of Scope_domain \<Rightarrow> ''domain'' | Scope_app \<Rightarrow> ''application'')"

definition login_domain :: "(string \<Rightarrow> string) \<Rightarrow> session \<Rightarrow> mail_world \<Rightarrow> mail_world \<times> string" where
  "login_domain ul s w =
     (if js_login s = [] then (w, [])
      else (case ask (in_db (application_by_login (js_login s))) w of
              (w', Inl e) \<Rightarrow> (w', [])
            | (w', Inr a) \<Rightarrow> (w', to_lower ul (ap_domain_name a))))"

definition enforce_limit ::
  "int \<Rightarrow> scope \<Rightarrow> string \<Rightarrow> rate_limit \<Rightarrow> session \<Rightarrow> mail_world \<Rightarrow> session \<times> mail_world \<times> bool" where
  "enforce_limit now sc ref rl s w =
     (let since = now - rl_window rl * second
      in case ask (count_messages sc ref (stamp since)) w of
           (w1, Inl e) \<Rightarrow> (s, w1, False)
         | (w1, Inr stored) \<Rightarrow>
             (case try_admit (scope_name sc @ ''|'' @ ref) since now (int stored) (rl_max rl) (mw_flight w1) of
                (fl, r, n, ok) \<Rightarrow>
                  if \<not> ok then (s, w1\<lparr>mw_flight := fl\<rparr>, True)
                  else (s\<lparr>js_reserved := js_reserved s @ [r]\<rparr>, w1\<lparr>mw_flight := fl\<rparr>, False)))"

definition domain_limit ::
  "(string \<Rightarrow> string) \<Rightarrow> int \<Rightarrow> session \<Rightarrow> mail_world \<Rightarrow> session \<times> mail_world \<times> bool" where
  "domain_limit ul now s w =
     (if js_login s = [] then (s, w, False)
      else (case login_domain ul s w of
         (w1, domain) \<Rightarrow>
           if domain = [] then (s, w1, False)
           else (case ask (in_db (rate_limit_of Scope_domain domain)) w1 of
                   (w2, Inl e) \<Rightarrow> (s, w2, False)
                 | (w2, Inr None) \<Rightarrow> (s, w2, False)
                 | (w2, Inr (Some rl)) \<Rightarrow>
                     if active rl then enforce_limit now Scope_domain domain rl s w2 else (s, w2, False))))"

definition over_limit ::
  "(string \<Rightarrow> string) \<Rightarrow> int \<Rightarrow> session \<Rightarrow> mail_world \<Rightarrow> session \<times> mail_world \<times> bool" where
  "over_limit ul now s w =
     (if js_login s = [] then domain_limit ul now s w
      else (case ask (in_db (rate_limit_of Scope_app (js_login s))) w of
              (w1, Inr (Some rl)) \<Rightarrow>
                if active rl then enforce_limit now Scope_app (js_login s) rl s w1
                else domain_limit ul now s w1
            | (w1, _) \<Rightarrow> domain_limit ul now s w1))"

definition auth_ip_allowed :: "session \<Rightarrow> mail_world \<Rightarrow> mail_world \<times> bool" where
  "auth_ip_allowed s w =
     (if js_login s = [] then (w, True)
      else (case ask (in_db (application_by_login (js_login s))) w of
              (w', Inl e) \<Rightarrow> (w', True)
            | (w', Inr a) \<Rightarrow> (w', allows_auth_from_ip a (js_client_ip s))))"

definition release_reservations :: "session \<Rightarrow> mail_world \<Rightarrow> session \<times> mail_world" where
  "release_reservations s w =
     (s\<lparr>js_reserved := []\<rparr>, w\<lparr>mw_flight := foldl (\<lambda>f r. release r f) (mw_flight w) (js_reserved s)\<rparr>)"

definition record_rejected ::
  "(string \<Rightarrow> string) \<Rightarrow> int \<Rightarrow> reason \<Rightarrow> session \<Rightarrow> mail_world \<Rightarrow> mail_world" where
  "record_rejected ul now why s w =
     (case login_domain ul s w of
        (w1, d) \<Rightarrow>
          fst (ask (insert_rejected (stamp now)
            \<lparr>le_queue_id = [], le_domain = d, le_app_login = js_login s, le_from = js_from s, le_to = [],
             le_subject = [], le_reason = Some why, le_header_from = [], le_client_ip = js_client_ip s\<rparr>) w1))"

section \<open>Addresses\<close>

definition client_addr :: "macros \<Rightarrow> string" where
  "client_addr m =
     (let raw0 = trim_space (macro m ''client_addr'');
          raw = (if length raw0 > 5 \<and> ascii_lower (take 5 raw0) = ''ipv6:'' then drop 5 raw0 else raw0)
      in case parse_ip raw of None \<Rightarrow> [] | Some a \<Rightarrow> ip_string a)"

definition special_char :: "char \<Rightarrow> bool" where
  "special_char c \<longleftrightarrow> c = CHR '' '' \<or> byte_code c < 32 \<or> byte_code c = 127 \<or>
     c \<in> set ([CHR ''('', CHR '')'', CHR ''<'', CHR ''>'', CHR ''@'', CHR '','', CHR '';'', CHR '':'',
               CHR 0x5C, CHR 0x22, CHR ''['', CHR '']''])"

fun has_dots :: "string \<Rightarrow> bool" where
  "has_dots (a # b # s) = ((a = CHR ''.'' \<and> b = CHR ''.'') \<or> has_dots (b # s))"
| "has_dots _ = False"

definition is_dot_string :: "string \<Rightarrow> bool" where
  "is_dot_string s \<longleftrightarrow>
     s \<noteq> [] \<and> hd s \<noteq> CHR ''.'' \<and> last s \<noteq> CHR ''.'' \<and> \<not> has_dots s \<and> list_all (\<lambda>c. \<not> special_char c) s"

definition quote_char :: "char \<Rightarrow> string" where
  "quote_char c = (if c = CHR 0x22 \<or> c = CHR 0x5C \<or> c = CHR 0x0D then [CHR 0x5C, c] else [c])"

definition quote_local_part :: "string \<Rightarrow> string" where
  "quote_local_part l =
     (if is_dot_string l then l else CHR 0x22 # concat (map quote_char l) @ [CHR 0x22])"

definition plain_blank :: "char \<Rightarrow> char" where
  "plain_blank c = (if c \<in> {CHR '' '', CHR 0x09, CHR 0x0D, CHR 0x0A} then CHR '' '' else c)"

text \<open>The loop over what is between the quotes; a backslash before the closing quote is kept.\<close>

fun unquote_local :: "string \<Rightarrow> string" where
  "unquote_local [] = []"
| "unquote_local [c] = [plain_blank c]"
| "unquote_local (c # d # s) =
     (if c = CHR 0x5C then plain_blank d # unquote_local s else plain_blank c # unquote_local (d # s))"

definition recipient_as_logged :: "string \<Rightarrow> string" where
  "recipient_as_logged a0 =
     (let a = clean_address a0;
          (l, d) = (case last_index CHR ''@'' a of Some i \<Rightarrow> (take i a, drop i a) | None \<Rightarrow> (a, []));
          l' = (if length l \<ge> 2 \<and> hd l = CHR 0x22 \<and> last l = CHR 0x22 then unquote_local (butlast (tl l)) else l)
      in quote_local_part l' @ d)"

section \<open>The callbacks\<close>

definition j_connect :: "ip option \<Rightarrow> session \<Rightarrow> session \<times> response" where
  "j_connect addr s =
     (case addr of None \<Rightarrow> (s, Continue) | Some a \<Rightarrow> (s\<lparr>js_client_ip := ip_string a\<rparr>, Continue))"

definition j_mail_from ::
  "(string \<Rightarrow> string) \<Rightarrow> int \<Rightarrow> string \<Rightarrow> macros \<Rightarrow> session \<Rightarrow> mail_world \<Rightarrow> session \<times> mail_world \<times> response" where
  "j_mail_from ul now from m s0 w0 =
     (let (s1, w1) = release_reservations s0 w0;
          s2 = (if client_addr m \<noteq> [] then s1\<lparr>js_client_ip := client_addr m\<rparr> else s1);
          s3 = s2\<lparr>js_from := clean_address from, js_login := macro m ''auth_authen'', js_rcpts := [], js_subject := []\<rparr>;
          (w2, ok) = auth_ip_allowed s3 w1
      in if \<not> ok then (s3, record_rejected ul now Reason_client s3 w2, Temp_fail)
         else (case over_limit ul now s3 w2 of
                 (s4, w3, True) \<Rightarrow> (s4, record_rejected ul now Reason_limit s4 w3, Temp_fail)
               | (s4, w3, False) \<Rightarrow> (s4, w3, Continue)))"

definition j_rcpt_to :: "(string \<Rightarrow> string \<Rightarrow> bool) \<Rightarrow> string \<Rightarrow> session \<Rightarrow> session \<times> response" where
  "j_rcpt_to ef rcpt s =
     (let to = recipient_as_logged rcpt
      in if list_ex (\<lambda>have. ef have to) (js_rcpts s) then (s, Continue)
         else (s\<lparr>js_rcpts := js_rcpts s @ [to]\<rparr>, Continue))"

definition j_header :: "(string \<Rightarrow> string option) \<Rightarrow> string \<Rightarrow> string \<Rightarrow> session \<Rightarrow> session \<times> response" where
  "j_header wd name val s =
     (if js_subject s = [] \<and> canonical_key name = ''Subject''
      then (s\<lparr>js_subject := decode_subject wd val\<rparr>, Continue) else (s, Continue))"

definition queued_entry :: "(string \<Rightarrow> string) \<Rightarrow> string \<Rightarrow> session \<Rightarrow> string \<Rightarrow> log_entry" where
  "queued_entry ul queue_id s to =
     \<lparr>le_queue_id = queue_id, le_domain = domain_of ul (js_from s), le_app_login = js_login s, le_from = js_from s,
      le_to = to, le_subject = js_subject s, le_reason = None, le_header_from = [], le_client_ip = []\<rparr>"

definition j_record :: "(string \<Rightarrow> string) \<Rightarrow> int \<Rightarrow> string \<Rightarrow> session \<Rightarrow> mail_world \<Rightarrow> mail_world" where
  "j_record ul now queue_id s w =
     foldl (\<lambda>w to. fst (ask (insert_queued (stamp now) (queued_entry ul queue_id s to)) w)) w
       (if js_rcpts s = [] then [[]] else js_rcpts s)"

definition j_body ::
  "(string \<Rightarrow> string) \<Rightarrow> int \<Rightarrow> macros \<Rightarrow> session \<Rightarrow> mail_world \<Rightarrow> session \<times> mail_world \<times> response" where
  "j_body ul now m s w =
     (let (s', w') = release_reservations s (j_record ul now (macro m ''i'') s w) in (s', w', Continue))"

definition j_abort :: "session \<Rightarrow> mail_world \<Rightarrow> session \<times> mail_world" where
  "j_abort s w = (let (s', w') = release_reservations s w in (s'\<lparr>js_rcpts := [], js_subject := []\<rparr>, w'))"


section \<open>Slots are taken and given back\<close>

lemma enforce_limit_slots:
  assumes "enforce_limit now sc ref rl s w = (s', w', over)"
  shows "js_login s' = js_login s \<and> js_client_ip s' = js_client_ip s \<and>
    (over \<and> s' = s \<or> \<not> over \<and> (s' = s \<or> (\<exists>r. js_reserved s' = js_reserved s @ [r])))"
  using assms by (auto simp: enforce_limit_def Let_def split: prod.splits sum.splits if_splits)

lemma domain_limit_slots:
  assumes "domain_limit ul now s w = (s', w', over)"
  shows "over \<and> s' = s \<or> \<not> over \<and> (s' = s \<or> (\<exists>r. js_reserved s' = js_reserved s @ [r]))"
  using assms
  by (auto simp: domain_limit_def split: prod.splits sum.splits if_splits option.splits dest!: enforce_limit_slots)

lemma over_limit_slots:
  assumes "over_limit ul now s w = (s', w', over)"
  shows "over \<and> s' = s \<or> \<not> over \<and> (s' = s \<or> (\<exists>r. js_reserved s' = js_reserved s @ [r]))"
  using assms domain_limit_slots
  by (fastforce simp: over_limit_def split: prod.splits sum.splits if_splits option.splits dest!: enforce_limit_slots)

lemma release_reservations_fields [simp]:
  "js_reserved (fst (release_reservations s w)) = []"
  "js_login (fst (release_reservations s w)) = js_login s"
  "mw_store (snd (release_reservations s w)) = mw_store w"
  by (simp_all add: release_reservations_def)

lemma mail_from_slots:
  assumes "j_mail_from ul now from m s w = (s', w', resp)"
  shows "resp = Temp_fail \<and> js_reserved s' = [] \<or> resp = Continue \<and> length (js_reserved s') \<le> 1"
  using assms
  by (auto simp: j_mail_from_def release_reservations_def Let_def split: prod.splits if_splits bool.splits
      dest!: over_limit_slots)

text \<open>A connection without a login is neither counted nor refused.\<close>

lemma no_login_free:
  assumes "macro m ''auth_authen'' = []"
  shows "\<exists>s'. j_mail_from ul now from m s w = (s', snd (release_reservations s w), Continue) \<and> js_reserved s' = []"
  using assms
  by (auto simp: j_mail_from_def release_reservations_def Let_def auth_ip_allowed_def over_limit_def domain_limit_def)

text \<open>A database that fails every statement refuses nothing.\<close>

lemma ask_in_db_fault:
  assumes "db_faults (ms_db (mw_store w)) = True # fs"
  shows "ask (in_db (db_step f)) w = (w\<lparr>mw_store := (mw_store w)\<lparr>ms_db := (ms_db (mw_store w))\<lparr>db_faults := fs\<rparr>\<rparr>\<rparr>, Inl Db_error)"
  using assms by (simp add: ask_def in_db_def db_step_def)

lemma fails_open:
  assumes "db_faults (ms_db (mw_store w)) = True # True # True # fs"
  shows "\<exists>s' w'. j_mail_from ul now from m s w = (s', w', Continue) \<and> js_reserved s' = []"
proof (cases "macro m ''auth_authen'' = []")
  case True
  then show ?thesis using no_login_free by blast
next
  case False
  then show ?thesis
    using assms
    by (auto simp: j_mail_from_def release_reservations_def Let_def auth_ip_allowed_def over_limit_def domain_limit_def
        login_domain_def application_by_login_def rate_limit_of_def ask_in_db_fault)
qed

text \<open>What is released is no longer in flight.\<close>

lemma release_some: "release r (Some f) = Some (the (release r (Some f)))"
  by (cases r) (simp_all add: release_def)

lemma release_gone:
  "x \<in> set (flight_set (the (release (Some r) (Some f))) k) \<Longrightarrow> x \<in> set (flight_set f k) \<and> (k = r_key r \<longrightarrow> r_id x \<noteq> r_id r)"
  by (auto simp: release_def split: if_splits)

lemma release_all_gone:
  assumes "foldl (\<lambda>f r. release r f) (Some f) rs = Some f'"
  shows "\<forall>k. \<forall>x \<in> set (flight_set f' k). x \<in> set (flight_set f k) \<and> (\<forall>r. Some r \<in> set rs \<longrightarrow> k = r_key r \<longrightarrow> r_id x \<noteq> r_id r)"
  using assms
proof (induction rs arbitrary: f)
  case (Cons r rs)
  obtain f1 where f1: "release r (Some f) = Some f1" using release_some by blast
  with Cons have IH: "\<forall>k. \<forall>x \<in> set (flight_set f' k). x \<in> set (flight_set f1 k) \<and>
      (\<forall>r. Some r \<in> set rs \<longrightarrow> k = r_key r \<longrightarrow> r_id x \<noteq> r_id r)" by simp
  show ?case
  proof (cases r)
    case None
    with f1 have "f1 = f" by (simp add: release_def)
    with IH None show ?thesis by auto
  next
    case (Some r0)
    with IH f1 release_gone [of _ r0 f] show ?thesis by fastforce
  qed
qed simp

section \<open>The ceiling\<close>

lemma over_limit_app:
  assumes "js_login s \<noteq> []" and "db_faults (ms_db (mw_store w)) = []"
    and "find_login (js_login s) (ms_db (mw_store w)) = Some a"
    and "find_limit Scope_app (a_id a) (ms_db (mw_store w)) = Some rl" "active rl"
    and "mw_flight w = Some f" "flight_ok f"
  shows "snd (snd (over_limit ul now s w)) \<longleftrightarrow>
    int (length (remdups (map lr_queue_id (counted_rows Scope_app (js_login s) (stamp (now - rl_window rl * second)) (mw_store w))))) +
    int (length (filter (\<lambda>r. r_at r \<ge> now - rl_window rl * second \<and> r_at r \<ge> now - reservation_ttl)
      (flight_set f (''application|'' @ js_login s)))) \<ge> rl_max rl"
proof -
  have lim: "ask (in_db (rate_limit_of Scope_app (js_login s))) w = (w, Inr (Some rl))"
    using assms(2-4) by (simp add: ask_def in_db_def rate_limit_of_def db_step_def)
  let ?n = "length (remdups (map lr_queue_id (counted_rows Scope_app (js_login s) (stamp (now - rl_window rl * second)) (mw_store w))))"
  have cnt: "ask (count_messages Scope_app (js_login s) (stamp (now - rl_window rl * second))) w = (w, Inr ?n)"
    using assms(2) by (simp add: ask_def count_messages_def log_step_def)
  obtain f' ro n ok where t: "try_admit (''application|'' @ js_login s) (now - rl_window rl * second) now (int ?n) (rl_max rl) (Some f) =
      (Some f', ro, n, ok)"
    by (cases "try_admit (''application|'' @ js_login s) (now - rl_window rl * second) now (int ?n) (rl_max rl) (Some f)")
       (auto simp: try_admit_def Let_def split: prod.splits if_splits)
  from fl.admits [OF assms(7) admit_triple [OF t]] have "ok = (n < rl_max rl)"
    "n = int ?n + int (length (filter (\<lambda>r. r_at r \<ge> now - rl_window rl * second \<and> r_at r \<ge> now - reservation_ttl)
      (flight_set f (''application|'' @ js_login s))))" by auto
  moreover have "snd (snd (over_limit ul now s w)) = (\<not> ok)"
    using assms(1,5,6) lim cnt t by (simp add: over_limit_def enforce_limit_def Let_def scope_name_def)
  ultimately show ?thesis by (simp add: not_less)
qed

section \<open>The recipients\<close>

lemma rcpts_distinct:
  assumes "sorted_wrt (\<lambda>a b. \<not> ef a b) (js_rcpts s)"
  shows "sorted_wrt (\<lambda>a b. \<not> ef a b) (js_rcpts (fst (j_rcpt_to ef r s)))"
  using assms by (auto simp: j_rcpt_to_def Let_def list_ex_iff sorted_wrt_append)

lemma unquote_quote:
  assumes "\<forall>c \<in> set l. c \<noteq> CHR 0x09 \<and> c \<noteq> CHR 0x0D \<and> c \<noteq> CHR 0x0A"
  shows "unquote_local (concat (map quote_char l)) = l"
  using assms
proof (induction l)
  case (Cons c l)
  have p: "plain_blank c = c" using Cons.prems by (auto simp: plain_blank_def)
  show ?case
  proof (cases "c = CHR 0x22 \<or> c = CHR 0x5C")
    case True
    with Cons p show ?thesis by (auto simp: quote_char_def)
  next
    case False
    with Cons.prems have q: "quote_char c = [c]" by (auto simp: quote_char_def)
    show ?thesis
    proof (cases "concat (map quote_char l)")
      case Nil
      then have "l = []" by (cases l) (auto simp: quote_char_def split: if_splits)
      with q p show ?thesis by simp
    next
      case (Cons d s)
      with q p False Cons.IH Cons.prems show ?thesis by simp
    qed
  qed
qed simp

section \<open>The session's promises\<close>

lemma record_keeps_flight: "mw_flight (j_record ul now q s w) = mw_flight w"
proof -
  have "mw_flight (foldl (\<lambda>w to. fst (ask (insert_queued (stamp now) (queued_entry ul q s to)) w)) w rs) = mw_flight w" for rs
    by (induction rs arbitrary: w) (auto simp: ask_def split: prod.splits)
  then show ?thesis by (simp add: j_record_def)
qed

definition slots_gone :: "session \<Rightarrow> mail_world \<Rightarrow> bool" where
  "slots_gone s w \<longleftrightarrow>
     (\<forall>f r. mw_flight w = Some f \<longrightarrow> Some r \<in> set (js_reserved s) \<longrightarrow>
        (\<forall>x \<in> set (flight_set f (r_key r)). r_id x \<noteq> r_id r))"

lemma release_reservations_gone: "slots_gone s (snd (release_reservations s w))"
proof (cases "mw_flight w")
  case None
  have "foldl (\<lambda>f r. release r f) None rs = None" for rs by (induction rs) (auto simp: release_def)
  with None show ?thesis by (simp add: slots_gone_def release_reservations_def)
next
  case (Some f)
  then show ?thesis
    unfolding slots_gone_def release_reservations_def by (auto dest!: release_all_gone)
qed

text \<open>
  C16. After MAIL FROM a session that is told to try later holds no slot and one that is let on
  at most one. At the end of the message and when it is abandoned every slot the session held is
  gone from the register and from the session.
\<close>

theorem session_slots:
  "(case j_mail_from ul now from m s w of
      (s', w', resp) \<Rightarrow> resp = Temp_fail \<and> js_reserved s' = [] \<or> resp = Continue \<and> length (js_reserved s') \<le> 1) \<and>
   (case j_body ul now m s w of (s', w', resp) \<Rightarrow> js_reserved s' = [] \<and> slots_gone s w' \<and> resp = Continue) \<and>
   (case j_abort s w of (s', w') \<Rightarrow> js_reserved s' = [] \<and> slots_gone s w')"
proof (intro conjI)
  show "case j_mail_from ul now from m s w of
      (s', w', resp) \<Rightarrow> resp = Temp_fail \<and> js_reserved s' = [] \<or> resp = Continue \<and> length (js_reserved s') \<le> 1"
    using mail_from_slots by (auto split: prod.split)
  show "case j_body ul now m s w of (s', w', resp) \<Rightarrow> js_reserved s' = [] \<and> slots_gone s w' \<and> resp = Continue"
    using release_reservations_gone [of s "j_record ul now (macro m ''i'') s w"]
    by (simp add: j_body_def case_prod_beta Let_def)
  show "case j_abort s w of (s', w') \<Rightarrow> js_reserved s' = [] \<and> slots_gone s w'"
    using release_reservations_gone [of s w] by (simp add: j_abort_def case_prod_beta Let_def)
qed

text \<open>
  The level-2 limiter fails open: when the database fails the statements of MAIL FROM, or
  the connection has no login, the message is neither refused nor counted.
\<close>

theorem limiter_fails_open:
  assumes "macro m ''auth_authen'' = [] \<or> (\<exists>fs. db_faults (ms_db (mw_store w)) = True # True # True # fs)"
  shows "\<exists>s' w'. j_mail_from ul now from m s w = (s', w', Continue) \<and> js_reserved s' = []"
  using assms no_login_free fails_open by blast

definition demo_app_db :: db where
  "demo_app_db =
     \<lparr>db_domains = [\<lparr>d_id = 1, d_name = ''a.io'', d_selector = ''s'', d_rua = [], d_created = 0\<rparr>],
      db_apps =
        [\<lparr>a_id = 1, a_domain_id = 1, a_login = ''app'', a_mode = Wildcard, a_created = 0,
          a_addresses = [], a_restrict = False, a_ips = []\<rparr>],
      db_limits = [\<lparr>rl_scope = Scope_app, rl_ref = 1, rl_max = 1, rl_window = 3600, rl_mode = Mode_manual,
        rl_multiplier = 0, rl_updated = None\<rparr>],
      db_next_domain = 2, db_next_app = 2, db_faults = []\<rparr>"

definition demo_mail :: mail_world where
  "demo_mail = \<lparr>mw_store = demo_store\<lparr>ms_db := demo_app_db\<rparr>, mw_flight = Some empty_inflight\<rparr>"

definition demo_login :: macros where
  "demo_login = [''auth_authen'' \<mapsto> ''app'', ''i'' \<mapsto> ''Q1'']"

lemma limiter_fails_open_witness:
  "\<exists>s' w'. j_mail_from id 0 ''x@a.io'' demo_login new_session
     (demo_mail\<lparr>mw_store := demo_store\<lparr>ms_db := demo_app_db\<lparr>db_faults := [True, True, True]\<rparr>\<rparr>\<rparr>) = (s', w', Continue) \<and>
     js_reserved s' = []"
  by (rule limiter_fails_open) simp

text \<open>
  With a working database an application with a limit of its own is refused exactly when
  the distinct messages of its own in the log within the window, with those in flight, are at
  the ceiling.
\<close>

theorem application_ceiling:
  assumes "js_login s \<noteq> []" and "db_faults (ms_db (mw_store w)) = []"
    and "find_login (js_login s) (ms_db (mw_store w)) = Some a"
    and "find_limit Scope_app (a_id a) (ms_db (mw_store w)) = Some rl" "active rl"
    and "mw_flight w = Some f" "flight_ok f"
  shows "snd (snd (over_limit ul now s w)) \<longleftrightarrow>
    int (length (remdups (map lr_queue_id (counted_rows Scope_app (js_login s) (stamp (now - rl_window rl * second)) (mw_store w))))) +
    int (length (filter (\<lambda>r. r_at r \<ge> now - rl_window rl * second \<and> r_at r \<ge> now - reservation_ttl)
      (flight_set f (''application|'' @ js_login s)))) \<ge> rl_max rl"
  using over_limit_app [OF assms] .

lemma application_ceiling_witness:
  "\<not> snd (snd (over_limit id 0 (new_session\<lparr>js_login := ''app''\<rparr>) demo_mail))"
proof -
  have e: "js_login (new_session\<lparr>js_login := ''app''\<rparr>) \<noteq> []" "db_faults (ms_db (mw_store demo_mail)) = []"
    "find_login (js_login (new_session\<lparr>js_login := ''app''\<rparr>)) (ms_db (mw_store demo_mail)) = Some (hd (db_apps demo_app_db))"
    "find_limit Scope_app (a_id (hd (db_apps demo_app_db))) (ms_db (mw_store demo_mail)) = Some (hd (db_limits demo_app_db))"
    "active (hd (db_limits demo_app_db))" "mw_flight demo_mail = Some empty_inflight"
    by (simp_all add: demo_mail_def demo_store_def demo_app_db_def find_login_def find_limit_def same_limit_def active_def)
  have "flight_ok empty_inflight" by (simp add: flight_ok_def empty_inflight_def flight_set_def)
  from application_ceiling [OF e this, of id 0] show ?thesis
    by (simp add: demo_mail_def demo_store_def demo_app_db_def counted_rows_def empty_inflight_def flight_set_def)
qed


text \<open>
  What the log shows as a recipient: quoting the local part as Postfix does and reading it
  back gives the local part, for one without the blanks Postfix itself turns into spaces.
\<close>

theorem quoted_local_part:
  assumes "\<forall>c \<in> set l. c \<noteq> CHR 0x09 \<and> c \<noteq> CHR 0x0D \<and> c \<noteq> CHR 0x0A"
  shows "unquote_local (concat (map quote_char l)) = l"
  using unquote_quote [OF assms] .

lemma quoted_local_part_witness:
  "unquote_local (concat (map quote_char [CHR ''a'', CHR 0x22, CHR 0x5C, CHR '' ''])) = [CHR ''a'', CHR 0x22, CHR 0x5C, CHR '' '']"
  by (rule quoted_local_part) simp

text \<open>A recipient named twice in any letter case is one row of the log.\<close>

lemma recipients_distinct:
  "sorted_wrt (\<lambda>a b. \<not> ef a b) (js_rcpts s) \<Longrightarrow>
   sorted_wrt (\<lambda>a b. \<not> ef a b) (js_rcpts (foldl (\<lambda>s r. fst (j_rcpt_to ef r s)) s rs))"
  by (induction rs arbitrary: s) (auto intro: rcpts_distinct)

end
