(* ===== verification/Auth_Limiter.thy ===== *)
theory Auth_Limiter
  imports Net_Addr
begin

text \<open>
  The sign-in limiter (\<open>internal/web/auth/ratelimit.go\<close>) and the keys it is asked with
  (\<open>clientIP\<close> of \<open>auth.go\<close>, \<open>limitAddr\<close> of \<open>limitkeys.go\<close>). The buckets are the entries of
  Go's map, each key once. A Go map is walked in any order, a different one each time: the
  order of a walk is \<open>ord\<close>, a function of the entries, and the theorems hold for every \<open>ord\<close>
  that walks them all. Times are nanoseconds; \<open>lastOverflow\<close>, which only spaces log lines, is
  left out with them.
\<close>

record bucket =
  rb_count :: int
  rb_ends :: int

record limiter =
  lm_limit :: int
  lm_span :: int
  lm_cap :: int
  lm_buckets :: "(string \<times> bucket) list"

definition default_max_buckets :: int where "default_max_buckets = 4096"

definition blocked_bucket_ceiling :: int where "blocked_bucket_ceiling = 4"

definition new_rate_limiter :: "int \<Rightarrow> int \<Rightarrow> limiter" where
  "new_rate_limiter limit period =
     \<lparr>lm_limit = limit, lm_span = period, lm_cap = default_max_buckets, lm_buckets = []\<rparr>"

definition sweep :: "int \<Rightarrow> limiter \<Rightarrow> limiter" where
  "sweep now r = r\<lparr>lm_buckets := filter (\<lambda>(k, b). \<not> now > rb_ends b) (lm_buckets r)\<rparr>"

text \<open>The walk of \<open>evictNearest\<close>: the best key so far, "" before any, and when its window ends.\<close>

fun nearest_bucket ::
  "bool \<Rightarrow> int \<Rightarrow> (string \<times> bucket) list \<Rightarrow> (string \<times> int) option \<Rightarrow> (string \<times> int) option" where
  "nearest_bucket evict_blocked limit [] best = best"
| "nearest_bucket evict_blocked limit ((k, b) # bs) best =
     (if \<not> evict_blocked \<and> rb_count b \<ge> limit then nearest_bucket evict_blocked limit bs best
      else nearest_bucket evict_blocked limit bs
        (case best of
           None \<Rightarrow> Some (k, rb_ends b)
         | Some (k0, e0) \<Rightarrow> if rb_ends b < e0 then Some (k, rb_ends b) else best))"

definition drop_key :: "string \<Rightarrow> (string \<times> 'a) list \<Rightarrow> (string \<times> 'a) list" where
  "drop_key k bs = filter (\<lambda>(k', b). k' \<noteq> k) bs"

type_synonym walk = "(string \<times> bucket) list \<Rightarrow> (string \<times> bucket) list"

definition evict_nearest :: "walk \<Rightarrow> bool \<Rightarrow> limiter \<Rightarrow> limiter \<times> bool" where
  "evict_nearest ord evict_blocked r =
     (case nearest_bucket evict_blocked (lm_limit r) (ord (lm_buckets r)) None of
        None \<Rightarrow> (r, False)
      | Some (k, e) \<Rightarrow>
          if k = [] then (r, False) else (r\<lparr>lm_buckets := drop_key k (lm_buckets r)\<rparr>, True))"

text \<open>
  The loop of \<open>makeRoom\<close>. Every round but the last removes a bucket, so one more round than
  there are buckets is all it can do: \<open>fuel\<close> is that number.
\<close>

fun room_loop :: "walk \<Rightarrow> nat \<Rightarrow> limiter \<Rightarrow> limiter" where
  "room_loop ord 0 r = r"
| "room_loop ord (Suc fuel) r =
     (if int (length (lm_buckets r)) \<ge> lm_cap r then
        (case evict_nearest ord False r of
           (r1, True) \<Rightarrow> room_loop ord fuel r1
         | (_, False) \<Rightarrow>
             if int (length (lm_buckets r)) < lm_cap r * blocked_bucket_ceiling then r
             else (case evict_nearest ord True r of
                     (r2, True) \<Rightarrow> room_loop ord fuel r2
                   | (_, False) \<Rightarrow> r))
      else r)"

definition make_room :: "walk \<Rightarrow> int \<Rightarrow> limiter \<Rightarrow> limiter" where
  "make_room ord now r =
     (if lm_cap r \<le> 0 \<or> int (length (lm_buckets r)) < lm_cap r then r
      else (let r1 = sweep now r in room_loop ord (Suc (length (lm_buckets r1))) r1))"

definition put_bucket :: "string \<Rightarrow> bucket \<Rightarrow> limiter \<Rightarrow> limiter" where
  "put_bucket k b r =
     r\<lparr>lm_buckets := (if k \<in> fst ` set (lm_buckets r)
        then map (\<lambda>(k', b'). if k' = k then (k, b) else (k', b')) (lm_buckets r)
        else lm_buckets r @ [(k, b)])\<rparr>"

definition allow :: "walk \<Rightarrow> int \<Rightarrow> string \<Rightarrow> limiter \<Rightarrow> limiter \<times> bool" where
  "allow ord now key r =
     (let fresh = (let r1 = put_bucket key \<lparr>rb_count = 1, rb_ends = now + lm_span r\<rparr> (make_room ord now r)
                   in (sweep now r1, True))
      in case map_of (lm_buckets r) key of
           None \<Rightarrow> fresh
         | Some b \<Rightarrow>
             if now > rb_ends b then fresh
             else if rb_count b \<ge> lm_limit r then (r, False)
             else (put_bucket key (b\<lparr>rb_count := rb_count b + 1\<rparr>) r, True))"

definition refund :: "string \<Rightarrow> limiter \<Rightarrow> limiter" where
  "refund key r =
     (case map_of (lm_buckets r) key of
        None \<Rightarrow> r
      | Some b \<Rightarrow> if rb_count b > 0 then put_bucket key (b\<lparr>rb_count := rb_count b - 1\<rparr>) r else r)"

section \<open>The key: a client's address\<close>

text \<open>\<open>net.SplitHostPort\<close>: the host, \<open>None\<close> for its error.\<close>

definition split_host_port :: "string \<Rightarrow> string option" where
  "split_host_port hp =
     (case last_index CHR '':'' hp of
        None \<Rightarrow> None
      | Some i \<Rightarrow>
          (if hd hp = CHR ''['' then
             (case index_of CHR '']'' hp of
                None \<Rightarrow> None
              | Some e \<Rightarrow>
                  if e + 1 = i \<and> CHR ''['' \<notin> set (drop 1 hp) \<and> CHR '']'' \<notin> set (drop (e + 1) hp)
                  then Some (drop 1 (take e hp)) else None)
           else (let host = take i hp
                 in if CHR '':'' \<in> set host \<or> CHR ''['' \<in> set hp \<or> CHR '']'' \<in> set hp then None else Some host)))"

definition request_host :: "string \<Rightarrow> string" where
  "request_host remote = (case split_host_port remote of Some h \<Rightarrow> h | None \<Rightarrow> remote)"

text \<open>\<open>remote\<close> is the transport peer, \<open>xff\<close> the X-Forwarded-For header ("" for none).\<close>

definition client_ip :: "(ip \<times> bool \<times> nat) list \<Rightarrow> string \<Rightarrow> string \<Rightarrow> string" where
  "client_ip trusted remote xff =
     (let host = request_host remote
      in if trusted \<noteq> [] then
           (case parse_ip host of
              Some peer \<Rightarrow>
                if list_ex (\<lambda>n. cidr_contains n peer) trusted \<and> xff \<noteq> [] then
                  (case parse_ip (trim_space (last (split_on CHR '','' xff))) of
                     Some a \<Rightarrow> ip_string a
                   | None \<Rightarrow> host)
                else host
            | None \<Rightarrow> host)
         else host)"

definition limit_addr :: "(ip \<times> bool \<times> nat) list \<Rightarrow> string \<Rightarrow> string \<Rightarrow> string" where
  "limit_addr trusted remote xff =
     (let host = client_ip trusted remote xff
      in case parse_ip host of
           None \<Rightarrow> host
         | Some a \<Rightarrow> if is_v4 a then host else ip_string (take 8 a @ replicate 8 0) @ ''/64'')"


section \<open>One key\<close>

lemma map_of_put: "map_of (lm_buckets (put_bucket k b r)) k' = (if k' = k then Some b else map_of (lm_buckets r) k')"
proof (cases "k \<in> fst ` set (lm_buckets r)")
  case True
  have "map_of (map (\<lambda>(k', b'). if k' = k then (k, b) else (k', b')) bs) k' =
      (if k' = k then (if k \<in> fst ` set bs then Some b else None) else map_of bs k')" for bs
    by (induction bs) (auto, force)
  from this [of "lm_buckets r"] True show ?thesis by (simp add: put_bucket_def)
next
  case False
  then have "map_of (lm_buckets r) k = None" by (simp add: map_of_eq_None_iff)
  with False show ?thesis by (auto simp: put_bucket_def map_add_def split: option.split)
qed

lemma put_bucket_fields [simp]:
  "lm_limit (put_bucket k b r) = lm_limit r" "lm_span (put_bucket k b r) = lm_span r" "lm_cap (put_bucket k b r) = lm_cap r"
  by (simp_all add: put_bucket_def)

lemma put_bucket_keys: "fst ` set (lm_buckets (put_bucket k b r)) = insert k (fst ` set (lm_buckets r))"
proof (cases "k \<in> fst ` set (lm_buckets r)")
  case True
  have "fst ` (\<lambda>(k', b'). if k' = k then (k, b) else (k', b')) ` A = fst ` A" for A :: "(string \<times> bucket) set"
    by (force simp: image_iff split: if_splits prod.splits)
  with True show ?thesis by (auto simp: put_bucket_def)
qed (auto simp: put_bucket_def)

lemma put_bucket_distinct:
  assumes "distinct (map fst (lm_buckets r))"
  shows "distinct (map fst (lm_buckets (put_bucket k b r)))"
proof -
  have "map fst (map (\<lambda>(k', b'). if k' = k then (k, b) else (k', b')) bs) = map fst bs" for bs
    by (induction bs) auto
  with assms show ?thesis by (auto simp: put_bucket_def simp del: map_map)
qed

lemma put_bucket_length:
  "length (lm_buckets (put_bucket k b r)) =
     (if k \<in> fst ` set (lm_buckets r) then length (lm_buckets r) else Suc (length (lm_buckets r)))"
  by (simp add: put_bucket_def)

text \<open>A blocked key is refused and nothing is changed; a right password gives the attempt back.\<close>

lemma blocked_refused:
  assumes "map_of (lm_buckets r) key = Some b" "now \<le> rb_ends b" "rb_count b \<ge> lm_limit r"
  shows "allow ord now key r = (r, False)"
  using assms by (simp add: allow_def)

lemma refund_allow:
  assumes "map_of (lm_buckets r) key = Some b" "now \<le> rb_ends b" "rb_count b < lm_limit r" "rb_count b \<ge> 0"
  shows "\<exists>r'. allow ord now key r = (r', True) \<and> map_of (lm_buckets (refund key r')) = map_of (lm_buckets r)"
  using assms by (auto simp: allow_def refund_def map_of_put)

section \<open>Room for one more\<close>

definition walks_all :: "walk \<Rightarrow> bool" where
  "walks_all ord \<longleftrightarrow> (\<forall>bs. set (ord bs) = set bs)"

lemma nearest_bucket_Some:
  "nearest_bucket e limit bs best = Some (k, t) \<Longrightarrow>
   best = Some (k, t) \<or> (\<exists>b. (k, b) \<in> set bs \<and> (e \<or> rb_count b < limit))"
proof (induction bs arbitrary: best)
  case (Cons x bs)
  obtain k0 b0 where x: "x = (k0, b0)" by (cases x)
  from Cons show ?case
    by (cases best) (fastforce simp: x split: if_splits)+
qed simp

lemma nearest_bucket_mono: "best \<noteq> None \<Longrightarrow> nearest_bucket e limit bs best \<noteq> None"
  by (induction e limit bs best rule: nearest_bucket.induct) (auto split: option.split)

lemma nearest_bucket_None:
  "nearest_bucket e limit bs None = None \<Longrightarrow> (k, b) \<in> set bs \<Longrightarrow> \<not> e \<and> rb_count b \<ge> limit"
proof (induction bs)
  case (Cons x bs)
  obtain k0 b0 where x: "x = (k0, b0)" by (cases x)
  have "\<not> e \<and> rb_count b0 \<ge> limit"
    using Cons.prems(1) nearest_bucket_mono [of "Some (k0, rb_ends b0)" e limit bs]
    by (auto simp: x split: if_splits)
  with Cons show ?case by (auto simp: x)
qed simp

lemma evict_nearest_True:
  assumes "evict_nearest ord e r = (r', True)" "walks_all ord"
  shows "\<exists>k b. (k, b) \<in> set (lm_buckets r) \<and> (e \<or> rb_count b < lm_limit r) \<and> r' = r\<lparr>lm_buckets := drop_key k (lm_buckets r)\<rparr>"
proof -
  from assms(1) obtain k t where kt: "nearest_bucket e (lm_limit r) (ord (lm_buckets r)) None = Some (k, t)"
    "r' = r\<lparr>lm_buckets := drop_key k (lm_buckets r)\<rparr>"
    by (auto simp: evict_nearest_def split: option.splits if_splits)
  from nearest_bucket_Some [OF kt(1)] kt(2) assms(2) show ?thesis by (auto simp: walks_all_def)
qed

lemma evict_nearest_False:
  assumes "evict_nearest ord e r = (r', False)" "walks_all ord" "[] \<notin> fst ` set (lm_buckets r)"
  shows "r' = r \<and> (\<forall>(k, b) \<in> set (lm_buckets r). \<not> e \<and> rb_count b \<ge> lm_limit r)"
proof -
  have ne: "k \<noteq> []" if "nearest_bucket e (lm_limit r) (ord (lm_buckets r)) None = Some (k, t)" for k t
    using nearest_bucket_Some [OF that] assms(2,3) by (force simp: walks_all_def)
  with assms(1) have "nearest_bucket e (lm_limit r) (ord (lm_buckets r)) None = None" "r' = r"
    by (auto simp: evict_nearest_def split: option.splits if_splits)
  with nearest_bucket_None [OF this(1)] assms(2) show ?thesis by (auto simp: walks_all_def)
qed

lemma drop_key_length: "(k, b) \<in> set bs \<Longrightarrow> length (drop_key k bs) < length bs"
  unfolding drop_key_def by (rule length_filter_less) auto

text \<open>What every eviction keeps, the loop keeps; a blocked bucket goes only past the ceiling.\<close>

lemma room_loop_keeps:
  assumes "P r"
    and "\<And>r r' e. P r \<Longrightarrow> evict_nearest ord e r = (r', True) \<Longrightarrow>
      (e \<Longrightarrow> \<not> int (length (lm_buckets r)) < lm_cap r * blocked_bucket_ceiling) \<Longrightarrow> P r'"
  shows "P (room_loop ord n r)"
  using assms(1)
proof (induction n arbitrary: r)
  case (Suc n)
  obtain r1 b1 where e1: "evict_nearest ord False r = (r1, b1)" by (cases "evict_nearest ord False r")
  obtain r2 b2 where e2: "evict_nearest ord True r = (r2, b2)" by (cases "evict_nearest ord True r")
  have "b1 \<Longrightarrow> P r1" using assms(2) [OF Suc.prems, of False r1] e1 by simp
  moreover have "b2 \<Longrightarrow> \<not> int (length (lm_buckets r)) < lm_cap r * blocked_bucket_ceiling \<Longrightarrow> P r2"
    using assms(2) [OF Suc.prems, of True r2] e2 by simp
  ultimately show ?case using Suc e1 e2 by (auto split: bool.split)
qed simp

lemma evict_nearest_sub:
  "evict_nearest ord e r = (r', b) \<Longrightarrow>
   set (lm_buckets r') \<subseteq> set (lm_buckets r) \<and> lm_limit r' = lm_limit r \<and> lm_cap r' = lm_cap r \<and> lm_span r' = lm_span r \<and>
   (distinct (map fst (lm_buckets r)) \<longrightarrow> distinct (map fst (lm_buckets r')))"
  by (auto simp: evict_nearest_def drop_key_def distinct_map_filter split: option.splits if_splits)

lemma room_loop_sub:
  "set (lm_buckets (room_loop ord n r)) \<subseteq> set (lm_buckets r) \<and> lm_limit (room_loop ord n r) = lm_limit r \<and>
   lm_cap (room_loop ord n r) = lm_cap r \<and> lm_span (room_loop ord n r) = lm_span r \<and>
   (distinct (map fst (lm_buckets r)) \<longrightarrow> distinct (map fst (lm_buckets (room_loop ord n r))))"
  by (rule room_loop_keeps [where P = "\<lambda>x. set (lm_buckets x) \<subseteq> set (lm_buckets r) \<and> lm_limit x = lm_limit r \<and>
        lm_cap x = lm_cap r \<and> lm_span x = lm_span r \<and>
        (distinct (map fst (lm_buckets r)) \<longrightarrow> distinct (map fst (lm_buckets x)))"])
     (auto dest!: evict_nearest_sub)

text \<open>The loop ends with room for one more bucket, below the hard ceiling.\<close>

lemma room_loop_room:
  assumes "walks_all ord" "[] \<notin> fst ` set (lm_buckets r)" "lm_cap r > 0" "length (lm_buckets r) < n"
  shows "int (length (lm_buckets (room_loop ord n r))) < lm_cap r * blocked_bucket_ceiling"
  using assms(2-)
proof (induction n arbitrary: r)
  case (Suc n)
  obtain r1 b1 where e1: "evict_nearest ord False r = (r1, b1)" by (cases "evict_nearest ord False r")
  obtain r2 b2 where e2: "evict_nearest ord True r = (r2, b2)" by (cases "evict_nearest ord True r")
  have step: "int (length (lm_buckets (room_loop ord n r'))) < lm_cap r * blocked_bucket_ceiling"
    if "evict_nearest ord e r = (r', True)" for e r'
  proof -
    from evict_nearest_True [OF that assms(1)] have "length (lm_buckets r') < length (lm_buckets r)"
      using drop_key_length by auto
    moreover have "lm_cap r' = lm_cap r" "[] \<notin> fst ` set (lm_buckets r')"
      using evict_nearest_sub [OF that] Suc.prems(1) by auto
    ultimately show ?thesis using Suc.IH [of r'] Suc.prems by simp
  qed
  have small: "int (length (lm_buckets r)) < lm_cap r * blocked_bucket_ceiling" if "int (length (lm_buckets r)) < lm_cap r"
    using that Suc.prems(2) by (simp add: blocked_bucket_ceiling_def)
  show ?case
  proof (cases "int (length (lm_buckets r)) < lm_cap r")
    case True
    then show ?thesis using small by simp
  next
    case big: False
    show ?thesis
    proof (cases b1)
      case True
      with step e1 big show ?thesis by simp
    next
      case b1: False
      show ?thesis
      proof (cases b2)
        case True
        with b1 step e1 e2 big show ?thesis by simp
      next
        case False
        with evict_nearest_False [of ord True r r2] e2 assms(1) Suc.prems(1) have "lm_buckets r = []"
          by (cases "lm_buckets r") auto
        with b1 False e1 e2 big Suc.prems(2) show ?thesis by (simp add: blocked_bucket_ceiling_def)
      qed
    qed
  qed
qed simp


section \<open>The table of buckets\<close>

definition limiter_ok :: "limiter \<Rightarrow> bool" where
  "limiter_ok r \<longleftrightarrow> lm_cap r > 0 \<and> lm_limit r > 0 \<and> lm_span r > 0 \<and> distinct (map fst (lm_buckets r)) \<and>
     [] \<notin> fst ` set (lm_buckets r) \<and> int (length (lm_buckets r)) \<le> lm_cap r * blocked_bucket_ceiling \<and>
     (\<forall>(k, b) \<in> set (lm_buckets r). 0 \<le> rb_count b \<and> rb_count b \<le> lm_limit r)"

lemma sweep_sub:
  "set (lm_buckets (sweep now r)) \<subseteq> set (lm_buckets r)" "length (lm_buckets (sweep now r)) \<le> length (lm_buckets r)"
  "lm_limit (sweep now r) = lm_limit r" "lm_cap (sweep now r) = lm_cap r" "lm_span (sweep now r) = lm_span r"
  "distinct (map fst (lm_buckets r)) \<Longrightarrow> distinct (map fst (lm_buckets (sweep now r)))"
  by (auto simp: sweep_def distinct_map_filter)

lemma make_room_sub:
  "set (lm_buckets (make_room ord now r)) \<subseteq> set (lm_buckets r)" "lm_limit (make_room ord now r) = lm_limit r"
  "lm_cap (make_room ord now r) = lm_cap r" "lm_span (make_room ord now r) = lm_span r"
  "distinct (map fst (lm_buckets r)) \<Longrightarrow> distinct (map fst (lm_buckets (make_room ord now r)))"
  using sweep_sub [where now = now and r = "r"] room_loop_sub [of ord "Suc (length (lm_buckets (sweep now r)))" "sweep now r"]
  by (auto simp: make_room_def Let_def simp del: room_loop.simps)

lemma make_room_room:
  assumes "walks_all ord" "limiter_ok r"
  shows "int (length (lm_buckets (make_room ord now r))) < lm_cap r * blocked_bucket_ceiling"
proof (cases "int (length (lm_buckets r)) < lm_cap r")
  case True
  with assms(2) show ?thesis by (simp add: make_room_def limiter_ok_def blocked_bucket_ceiling_def)
next
  case False
  have "[] \<notin> fst ` set (lm_buckets (sweep now r))" "lm_cap (sweep now r) > 0"
    using assms(2) sweep_sub [where now = now and r = "r"] by (auto simp: limiter_ok_def)
  from room_loop_room [OF assms(1) this, of "Suc (length (lm_buckets (sweep now r)))"] False assms(2)
  show ?thesis by (simp add: make_room_def limiter_ok_def Let_def sweep_sub del: room_loop.simps)
qed

lemma put_ok:
  assumes "limiter_ok r" "k \<noteq> []" "0 \<le> rb_count b" "rb_count b \<le> lm_limit r"
    "k \<in> fst ` set (lm_buckets r) \<or> int (length (lm_buckets r)) < lm_cap r * blocked_bucket_ceiling"
  shows "limiter_ok (put_bucket k b r)"
proof -
  have "\<forall>(k', b') \<in> set (lm_buckets (put_bucket k b r)). 0 \<le> rb_count b' \<and> rb_count b' \<le> lm_limit r"
    using assms(1,3,4) by (auto simp: put_bucket_def limiter_ok_def split: if_splits)
  moreover have "int (length (lm_buckets (put_bucket k b r))) \<le> lm_cap r * blocked_bucket_ceiling"
    using assms(1,5) by (auto simp: put_bucket_length limiter_ok_def)
  ultimately show ?thesis
    using assms(1,2) put_bucket_keys [of k b r] put_bucket_distinct [of r k b] by (auto simp: limiter_ok_def)
qed

lemma sub_ok:
  assumes "limiter_ok r" "set (lm_buckets r') \<subseteq> set (lm_buckets r)" "lm_limit r' = lm_limit r" "lm_cap r' = lm_cap r"
    "lm_span r' = lm_span r" "distinct (map fst (lm_buckets r'))"
  shows "limiter_ok r'"
proof -
  have d: "distinct (lm_buckets r)" "distinct (lm_buckets r')" using assms(1,6) by (auto simp: limiter_ok_def distinct_map)
  have "length (lm_buckets r') \<le> length (lm_buckets r)"
    using card_mono [OF _ assms(2)] distinct_card [OF d(1)] distinct_card [OF d(2)] by simp
  with assms show ?thesis by (auto simp: limiter_ok_def)
qed

lemma allow_ok:
  assumes "limiter_ok r" "walks_all ord" "key \<noteq> []"
  shows "limiter_ok (fst (allow ord now key r))"
proof -
  let ?m = "make_room ord now r"
  let ?p = "put_bucket key \<lparr>rb_count = 1, rb_ends = now + lm_span r\<rparr> ?m"
  have m: "limiter_ok ?m"
    by (rule sub_ok [OF assms(1)]) (use make_room_sub [where ord = ord and now = now and r = r] assms(1) in \<open>auto simp: limiter_ok_def\<close>)
  have "limiter_ok ?p"
    by (rule put_ok [OF m assms(3)])
       (use make_room_room [OF assms(2,1), of now] make_room_sub [where ord = ord and now = now and r = r] assms(1) in \<open>auto simp: limiter_ok_def\<close>)
  then have s: "limiter_ok (sweep now ?p)"
    by (rule sub_ok) (use sweep_sub [where now = now and r = "?p"] \<open>limiter_ok ?p\<close> in \<open>auto simp: limiter_ok_def\<close>)
  have "limiter_ok (put_bucket key (b\<lparr>rb_count := rb_count b + 1\<rparr>) r)"
    if "map_of (lm_buckets r) key = Some b" "rb_count b < lm_limit r" for b
  proof -
    from map_of_SomeD [OF that(1)] have b: "(key, b) \<in> set (lm_buckets r)" .
    then have "key \<in> fst ` set (lm_buckets r)" by force
    moreover have "0 \<le> rb_count b" using b assms(1) by (auto simp: limiter_ok_def)
    ultimately show ?thesis using assms(1,3) that(2) by (intro put_ok) auto
  qed
  with s assms(1) show ?thesis by (auto simp: allow_def Let_def split: option.split)
qed

lemma refund_ok:
  assumes "limiter_ok r" "key \<noteq> []"
  shows "limiter_ok (refund key r)"
proof (cases "map_of (lm_buckets r) key")
  case (Some b)
  from map_of_SomeD [OF Some] have b: "(key, b) \<in> set (lm_buckets r)" .
  then have "key \<in> fst ` set (lm_buckets r)" by force
  moreover have "rb_count b \<le> lm_limit r" using b assms(1) by (auto simp: limiter_ok_def)
  ultimately have "rb_count b > 0 \<Longrightarrow> limiter_ok (put_bucket key (b\<lparr>rb_count := rb_count b - 1\<rparr>) r)"
    using assms by (intro put_ok) auto
  then show ?thesis using Some assms(1) by (simp add: refund_def)
qed (simp add: refund_def assms(1))

text \<open>Until the table is at the hard ceiling a blocked address stays blocked, whoever else comes.\<close>

lemma make_room_keeps_blocked:
  assumes "limiter_ok r" "walks_all ord" "map_of (lm_buckets r) k = Some b" "rb_count b \<ge> lm_limit r" "now \<le> rb_ends b"
    "int (length (lm_buckets r)) < lm_cap r * blocked_bucket_ceiling"
  shows "map_of (lm_buckets (make_room ord now r)) k = Some b"
proof (cases "int (length (lm_buckets r)) < lm_cap r")
  case True
  with assms show ?thesis by (simp add: make_room_def)
next
  case False
  let ?P = "\<lambda>x. distinct (map fst (lm_buckets x)) \<and> (k, b) \<in> set (lm_buckets x) \<and> lm_limit x = lm_limit r \<and> lm_cap x = lm_cap r \<and>
      int (length (lm_buckets x)) < lm_cap r * blocked_bucket_ceiling"
  have "(k, b) \<in> set (lm_buckets (sweep now r))"
    using map_of_SomeD [OF assms(3)] assms(5) by (simp add: sweep_def)
  then have "?P (sweep now r)"
    using assms(1,6) sweep_sub [where now = now and r = r] by (auto simp: limiter_ok_def)
  then have "?P (room_loop ord (Suc (length (lm_buckets (sweep now r)))) (sweep now r))"
  proof (rule room_loop_keeps)
    fix x x' e assume P: "?P x" and ev: "evict_nearest ord e x = (x', True)"
      and c: "e \<Longrightarrow> \<not> int (length (lm_buckets x)) < lm_cap x * blocked_bucket_ceiling"
    have "\<not> e" using c P by metis
    with evict_nearest_True [OF ev assms(2)] obtain k' b' where
      k': "(k', b') \<in> set (lm_buckets x)" "rb_count b' < lm_limit x" "x' = x\<lparr>lm_buckets := drop_key k' (lm_buckets x)\<rparr>" by blast
    have "k' \<noteq> k"
    proof
      assume "k' = k"
      with k'(1) P have "b' = b" using eq_key_imp_eq_value [of "lm_buckets x" k b' b] by simp
      then show False using k'(2) P assms(4) by simp
    qed
    then have "(k, b) \<in> set (drop_key k' (lm_buckets x))" using P by (simp add: drop_key_def)
    moreover have "distinct (map fst (drop_key k' (lm_buckets x)))"
      using P by (simp add: drop_key_def distinct_map_filter)
    moreover have "int (length (drop_key k' (lm_buckets x))) < lm_cap r * blocked_bucket_ceiling"
      using P drop_key_length [OF k'(1)] by linarith
    ultimately show "?P x'" unfolding k'(3) using P by simp
  qed
  with False assms(1) show ?thesis by (simp add: make_room_def limiter_ok_def Let_def del: room_loop.simps)
qed

lemma allow_keeps_blocked:
  assumes "limiter_ok r" "walks_all ord" "map_of (lm_buckets r) k = Some b" "rb_count b \<ge> lm_limit r" "now \<le> rb_ends b"
    "int (length (lm_buckets r)) < lm_cap r * blocked_bucket_ceiling"
  shows "map_of (lm_buckets (fst (allow ord now k' r))) k = Some b"
proof (cases "k' = k")
  case True
  with blocked_refused [OF assms(3,5,4)] assms(3) show ?thesis by simp
next
  case False
  let ?p = "put_bucket k' \<lparr>rb_count = 1, rb_ends = now + lm_span r\<rparr> (make_room ord now r)"
  have p: "map_of (lm_buckets ?p) k = Some b"
    using False make_room_keeps_blocked [OF assms] by (simp add: map_of_put)
  have "map_of (filter (\<lambda>(k, b). \<not> now > rb_ends b) bs) k = Some b" if "map_of bs k = Some b" for bs
    using that assms(5) by (induction bs) (auto split: if_splits)
  with p have "map_of (lm_buckets (sweep now ?p)) k = Some b" by (simp add: sweep_def)
  with False assms(3) show ?thesis by (auto simp: allow_def Let_def map_of_put split: option.split)
qed

section \<open>A limiter at work\<close>

text \<open>What a limiter is asked over time: an attempt, or a refund of one that succeeded.\<close>

datatype limiter_call = Try int string | Give_back string

fun call_key :: "limiter_call \<Rightarrow> string" where
  "call_key (Try now k) = k"
| "call_key (Give_back k) = k"

fun limiter_after :: "walk \<Rightarrow> limiter_call list \<Rightarrow> limiter \<Rightarrow> limiter" where
  "limiter_after ord [] r = r"
| "limiter_after ord (Try now k # cs) r = limiter_after ord cs (fst (allow ord now k r))"
| "limiter_after ord (Give_back k # cs) r = limiter_after ord cs (refund k r)"

lemma limiter_after_ok:
  "limiter_ok r \<Longrightarrow> walks_all ord \<Longrightarrow> list_all (\<lambda>c. call_key c \<noteq> []) cs \<Longrightarrow> limiter_ok (limiter_after ord cs r)"
  by (induction ord cs r rule: limiter_after.induct) (auto intro: allow_ok refund_ok)

lemma new_rate_limiter_ok: "n > 0 \<Longrightarrow> p > 0 \<Longrightarrow> limiter_ok (new_rate_limiter n p)"
  by (simp add: limiter_ok_def new_rate_limiter_def default_max_buckets_def blocked_bucket_ceiling_def)

text \<open>
  However many clients ask, and however often, a login limiter's table stays within its
  ceiling, with one bucket a key and no bucket above the limit - in whatever order Go walks the
  map when it looks for a bucket to drop.
\<close>

theorem limiter_table_bounded:
  assumes "n > 0" "p > 0" "walks_all ord" "list_all (\<lambda>c. call_key c \<noteq> []) cs"
  shows "let bs = lm_buckets (limiter_after ord cs (new_rate_limiter n p)) in
    int (length bs) \<le> default_max_buckets * blocked_bucket_ceiling \<and> distinct (map fst bs) \<and>
    (\<forall>(k, b) \<in> set bs. 0 \<le> rb_count b \<and> rb_count b \<le> n)"
proof -
  have keeps: "lm_cap (limiter_after ord cs r) = lm_cap r \<and> lm_limit (limiter_after ord cs r) = lm_limit r" for r
    by (induction ord cs r rule: limiter_after.induct)
      (auto simp: allow_def refund_def Let_def make_room_sub sweep_sub split: option.splits)
  have "limiter_ok (limiter_after ord cs (new_rate_limiter n p))"
    by (rule limiter_after_ok [OF new_rate_limiter_ok [OF assms(1,2)] assms(3,4)])
  moreover have "lm_cap (limiter_after ord cs (new_rate_limiter n p)) = default_max_buckets"
    "lm_limit (limiter_after ord cs (new_rate_limiter n p)) = n"
    using keeps by (simp_all add: new_rate_limiter_def)
  ultimately show ?thesis by (simp add: limiter_ok_def Let_def)
qed

lemma limiter_table_bounded_witness:
  "let bs = lm_buckets (limiter_after id [Try 0 ''a'', Try 1 ''a'', Give_back ''a'', Try 2 ''b''] (new_rate_limiter 2 60)) in
    int (length bs) \<le> default_max_buckets * blocked_bucket_ceiling \<and> distinct (map fst bs) \<and> length bs = 2"
proof -
  let ?cs = "[Try 0 ''a'', Try 1 ''a'', Give_back ''a'', Try 2 ''b'']"
  have "walks_all id" "list_all (\<lambda>c. call_key c \<noteq> []) ?cs" by (auto simp: walks_all_def)
  moreover have "length (lm_buckets (limiter_after id ?cs (new_rate_limiter 2 60))) = 2" by code_simp
  ultimately show ?thesis using limiter_table_bounded [of 2 60 id ?cs] by (simp add: Let_def)
qed



text \<open>A refunded attempt leaves the client's bucket as it was before the attempt.\<close>

theorem refund_undoes_attempt:
  assumes "map_of (lm_buckets r) key = Some b" "now \<le> rb_ends b" "rb_count b < lm_limit r" "rb_count b \<ge> 0"
  shows "\<exists>r'. allow ord now key r = (r', True) \<and> map_of (lm_buckets (refund key r')) = map_of (lm_buckets r)"
  using refund_allow [OF assms] .

lemma refund_undoes_attempt_witness:
  "\<exists>r'. allow id 1 ''a'' (limiter_after id [Try 0 ''a''] (new_rate_limiter 2 60)) = (r', True) \<and>
     map_of (lm_buckets (refund ''a'' r')) = map_of (lm_buckets (limiter_after id [Try 0 ''a''] (new_rate_limiter 2 60)))"
proof (rule refund_undoes_attempt)
  show "map_of (lm_buckets (limiter_after id [Try 0 ''a''] (new_rate_limiter 2 60))) ''a'' = Some \<lparr>rb_count = 1, rb_ends = 60\<rparr>"
    by code_simp
  show "rb_count \<lparr>rb_count = 1, rb_ends = 60\<rparr> < lm_limit (limiter_after id [Try 0 ''a''] (new_rate_limiter 2 60))"
    by code_simp
qed simp_all

end
