(* ===== verification/Postfix_Time.thy ===== *)
theory Postfix_Time
  imports Prelude
begin

text \<open>
  Postfix's time values (\<open>internal/postfix/duration.go\<close>) and the retry policy read from
  \<open>postconf\<close> (\<open>retry.go\<close>). A duration is its whole seconds. The lemmas bound what is read, give
  the value of a number written with its unit back, and show that what \<open>FormatDuration\<close>
  prints is at most half a minute off, and marked when it is off at all.
\<close>

datatype time_error = Time_empty | Time_range | Time_negative | Time_unit

definition max_int32 :: nat where "max_int32 = 2147483647"

definition is_c_space :: "char \<Rightarrow> bool" where
  "is_c_space c \<longleftrightarrow> c \<in> {CHR '' '', CHR 0x09, CHR 0x0A, CHR 0x0B, CHR 0x0C, CHR 0x0D}"

text \<open>The digits in front; \<open>None\<close> once the number is past an int.\<close>

fun read_digits :: "nat \<Rightarrow> string \<Rightarrow> (nat \<times> string) option" where
  "read_digits n [] = Some (n, [])"
| "read_digits n (c # cs) =
     (if is_digit c then
        (let n' = 10 * n + (byte_code c - 48) in if n' > max_int32 then None else read_digits n' cs)
      else Some (n, c # cs))"

definition unit_seconds :: "char \<Rightarrow> nat option" where
  "unit_seconds c =
     (if c = CHR ''w'' then Some (7 * 24 * 3600)
      else if c = CHR ''d'' then Some (24 * 3600)
      else if c = CHR ''h'' then Some 3600
      else if c = CHR ''m'' then Some 60
      else if c = CHR ''s'' then Some 1
      else None)"

text \<open>\<open>strtol\<close>: the number, whether it is negative, and what follows; without a digit nothing is read.\<close>

definition scan_number :: "string \<Rightarrow> (nat \<times> bool \<times> string) option" where
  "scan_number s =
     (let s1 = dropWhile is_c_space s;
          neg = (s1 \<noteq> [] \<and> hd s1 = CHR ''-'');
          s2 = (if s1 \<noteq> [] \<and> (hd s1 = CHR ''+'' \<or> hd s1 = CHR ''-'') then tl s1 else s1)
      in case read_digits 0 s2 of
           None \<Rightarrow> None
         | Some (n, rest) \<Rightarrow> if length rest = length s2 then Some (0, False, s) else Some (n, neg, rest))"

definition scale :: "nat \<Rightarrow> char \<Rightarrow> time_error + nat" where
  "scale n u =
     (case unit_seconds u of
        None \<Rightarrow> Inl Time_unit
      | Some per \<Rightarrow> if per > 1 \<and> n \<ge> max_int32 div per then Inl Time_range else Inr (n * per))"

definition parse_time :: "string \<Rightarrow> char \<Rightarrow> time_error + nat" where
  "parse_time s def_unit =
     (if s = [] then Inl Time_empty
      else (case scan_number s of
              None \<Rightarrow> Inl Time_range
            | Some (n, neg, rest) \<Rightarrow>
                if neg \<and> n > 0 then Inl Time_negative
                else scale n (if rest \<noteq> [] then hd rest else def_unit)))"

section \<open>FormatDuration\<close>

definition counted :: "nat \<Rightarrow> string \<Rightarrow> string" where
  "counted n u = (if n = 1 then ''1 '' @ u else show_nat n @ '' '' @ u @ ''s'')"

text \<open>Days, hours, minutes and seconds shown, and whether they are rounded.\<close>

definition round_parts :: "nat \<Rightarrow> nat \<times> nat \<times> nat \<times> nat \<times> bool" where
  "round_parts sec =
     (let days = sec div 86400; rem = sec mod 86400; hours = rem div 3600; rem2 = rem mod 3600;
          minutes = rem2 div 60; seconds = rem2 mod 60
      in if days > 0 \<or> hours > 0 then
           (let (minutes1, about) = (if seconds \<ge> 30 then (minutes + 1, True) else (minutes, seconds > 0));
                (hours1, minutes2) = (if minutes1 \<ge> 60 then (hours + 1, 0) else (hours, minutes1));
                (days1, hours2) = (if hours1 \<ge> 24 then (days + 1, 0) else (days, hours1))
            in (days1, hours2, minutes2, 0, about))
         else (days, hours, minutes, seconds, False))"

definition format_duration :: "int \<Rightarrow> string" where
  "format_duration d =
     (let sec = nat \<bar>d\<bar>
      in if sec = 0 then ''0 seconds''
         else (case round_parts sec of
                 (days, hours, minutes, seconds, about) \<Rightarrow>
                   (let s = join '' '' ((if days > 0 then [counted days ''day''] else []) @
                                        (if hours > 0 then [counted hours ''hour''] else []) @
                                        (if minutes > 0 then [counted minutes ''minute''] else []) @
                                        (if seconds > 0 then [counted seconds ''second''] else []))
                    in if about then ''about '' @ s else s)))"

section \<open>The retry policy\<close>

record retry_policy =
  rp_queue_run_delay :: nat
  rp_minimal_backoff :: nat
  rp_maximal_backoff :: nat
  rp_maximal_lifetime :: nat
  rp_bounce_lifetime :: nat
  rp_delay_warning :: nat
  rp_from_defaults :: bool

definition default_retry_policy :: retry_policy where
  "default_retry_policy =
     \<lparr>rp_queue_run_delay = 300, rp_minimal_backoff = 300, rp_maximal_backoff = 4000,
      rp_maximal_lifetime = 5 * 24 * 3600, rp_bounce_lifetime = 5 * 24 * 3600, rp_delay_warning = 0,
      rp_from_defaults = True\<rparr>"

definition retry_conf_units :: string where "retry_conf_units = ''sssddh''"

definition parse_retry_policy :: "string list \<Rightarrow> retry_policy option" where
  "parse_retry_policy ls =
     (if length ls \<noteq> 6 then None
      else (case map (\<lambda>(l, u). parse_time l u) (zip ls retry_conf_units) of
              [Inr a, Inr b, Inr c, Inr d, Inr e, Inr f] \<Rightarrow>
                Some \<lparr>rp_queue_run_delay = a, rp_minimal_backoff = b, rp_maximal_backoff = c,
                      rp_maximal_lifetime = d, rp_bounce_lifetime = (if e > d then d else e),
                      rp_delay_warning = f, rp_from_defaults = False\<rparr>
            | _ \<Rightarrow> None))"

text \<open>\<open>conf\<close> is what \<open>postconf\<close> printed, \<open>None\<close> for its failure.\<close>

definition load_retry_policy :: "string list option \<Rightarrow> retry_policy" where
  "load_retry_policy conf =
     (case conf of
        None \<Rightarrow> default_retry_policy
      | Some ls \<Rightarrow> (case parse_retry_policy ls of None \<Rightarrow> default_retry_policy | Some p \<Rightarrow> p))"

definition longest_lifetime :: "retry_policy \<Rightarrow> nat" where
  "longest_lifetime p = rp_maximal_lifetime p"

section \<open>Bounds\<close>

lemma read_digits_bound: "read_digits n s = Some (m, rest) \<Longrightarrow> n \<le> max_int32 \<Longrightarrow> m \<le> max_int32"
  by (induction n s rule: read_digits.induct) (auto simp: Let_def split: if_splits)

lemma scan_number_bound: "scan_number s = Some (n, neg, rest) \<Longrightarrow> n \<le> max_int32"
  by (auto simp: scan_number_def Let_def split: option.splits prod.splits if_splits dest!: read_digits_bound [OF _ le0])

lemma scale_bound:
  assumes "scale n u = Inr m" "n \<le> max_int32"
  shows "m \<le> max_int32"
proof -
  from assms obtain per where per: "m = n * per" "\<not> (per > 1 \<and> n \<ge> max_int32 div per)"
    by (auto simp: scale_def split: option.splits if_splits)
  show ?thesis
  proof (cases "per > 1")
    case True
    with per have "n * per \<le> max_int32 div per * per" by simp
    with per(1) show ?thesis by (metis div_times_less_eq_dividend le_trans)
  next
    case False
    with per assms(2) show ?thesis by (cases per) auto
  qed
qed

lemma parse_time_bound: "parse_time s u = Inr n \<Longrightarrow> n \<le> max_int32"
  using scan_number_bound scale_bound
  by (auto simp: parse_time_def split: if_splits option.splits prod.splits)

text \<open>A number written in decimal with its unit is read as that many units.\<close>

lemma digit_char: "n < 10 \<Longrightarrow> byte_code (char_of (48 + n)) = 48 + n \<and> is_digit (char_of (48 + n))"
  by (simp add: is_digit_def)

lemma read_digits_append:
  assumes "read_digits n s = Some (m, [])"
  shows "read_digits n (s @ t) = read_digits m t"
  using assms by (induction n s rule: read_digits.induct) (auto simp: Let_def split: if_splits)

lemma read_digits_show:
  assumes "n \<le> max_int32"
  shows "read_digits 0 (show_nat n) = Some (n, [])"
  using assms
proof (induction n rule: show_nat.induct)
  case (1 n)
  show ?case
  proof (cases "n < 10")
    case True
    then show ?thesis using 1(2) digit_char [of n] by (simp add: show_nat.simps [of n])
  next
    case False
    have m: "n mod 10 < 10" by simp
    have "10 * (n div 10) + n mod 10 = n" by simp
    moreover have "n div 10 \<le> max_int32" using 1(2) by simp
    ultimately show ?thesis
      using False 1 digit_char [OF m] read_digits_append [of 0 "show_nat (n div 10)" "n div 10" "[char_of (48 + n mod 10)]"]
      by (simp add: show_nat.simps [of n] Let_def)
  qed
qed

lemma show_nat_digits: "c \<in> set (show_nat n) \<Longrightarrow> is_digit c"
proof (induction n rule: show_nat.induct)
  case (1 n)
  then show ?case
    using digit_char [of n] digit_char [of "n mod 10"] by (cases "n < 10") (auto simp: show_nat.simps [of n])
qed

lemma show_nat_neq_Nil [simp]: "show_nat n \<noteq> []"
  by (subst show_nat.simps) simp

lemma digit_facts: "is_digit c \<Longrightarrow> \<not> is_c_space c \<and> c \<noteq> CHR ''+'' \<and> c \<noteq> CHR ''-''"
  by (auto simp: is_digit_def is_c_space_def)

lemma scan_number_show:
  assumes "n \<le> max_int32" "rest = [] \<or> \<not> is_digit (hd rest)"
  shows "scan_number (show_nat n @ rest) = Some (n, False, rest)"
proof -
  obtain c cs where c: "show_nat n = c # cs" by (cases "show_nat n") auto
  then have "is_digit c" using show_nat_digits [of c n] by simp
  note f = digit_facts [OF this]
  have "read_digits n rest = Some (n, rest)" using assms(2) by (cases rest) auto
  then have "read_digits 0 (show_nat n @ rest) = Some (n, rest)"
    using read_digits_append [OF read_digits_show [OF assms(1)], of rest] by simp
  then show ?thesis using f by (simp add: scan_number_def c)
qed

lemma parse_time_show:
  assumes "n \<le> max_int32" "unit_seconds u = Some per" "per = 1 \<or> n < max_int32 div per"
  shows "parse_time (show_nat n @ u # junk) d = Inr (n * per)"
proof -
  have "\<not> is_digit u" using assms(2) by (auto simp: unit_seconds_def is_digit_def split: if_splits)
  then have "scan_number (show_nat n @ u # junk) = Some (n, False, u # junk)"
    by (intro scan_number_show [OF assms(1)]) simp
  with assms(2,3) show ?thesis by (auto simp: parse_time_def scale_def)
qed

section \<open>What is printed\<close>

definition parts_seconds :: "nat \<times> nat \<times> nat \<times> nat \<times> bool \<Rightarrow> nat" where
  "parts_seconds p = (case p of (d, h, m, s, about) \<Rightarrow> 86400 * d + 3600 * h + 60 * m + s)"

lemma round_parts_close:
  "\<bar>int (parts_seconds (round_parts sec)) - int sec\<bar> \<le> 30 \<and>
   (snd (snd (snd (snd (round_parts sec)))) \<longleftrightarrow> parts_seconds (round_parts sec) \<noteq> sec)"
proof -
  define d h m s where "d = sec div 86400" "h = sec mod 86400 div 3600" "m = sec mod 86400 mod 3600 div 60"
    "s = sec mod 86400 mod 3600 mod 60"
  have sec: "sec = 86400 * d + 3600 * h + 60 * m + s"
    unfolding d_h_m_s_def by presburger
  have b: "h < 24" "m < 60" "s < 60" unfolding d_h_m_s_def by (simp_all add: less_mult_imp_div_less)
  show ?thesis
    unfolding round_parts_def parts_seconds_def Let_def d_h_m_s_def [symmetric]
    using sec b by auto
qed

lemma round_parts_ranges:
  "case round_parts sec of (d, h, m, s, about) \<Rightarrow> h < 24 \<and> m < 60 \<and> s < 60"
proof -
  have "sec mod 86400 div 3600 < 24" "sec mod 86400 mod 3600 div 60 < 60"
    by (simp_all add: less_mult_imp_div_less)
  then show ?thesis by (auto simp: round_parts_def Let_def)
qed

lemma bounce_capped:
  "parse_retry_policy ls = Some p \<Longrightarrow> rp_bounce_lifetime p \<le> rp_maximal_lifetime p"
  by (auto simp: parse_retry_policy_def split: if_splits list.splits sum.splits)

section \<open>What the panel shows\<close>

text \<open>
  A time Postfix prints with its unit is read as that many seconds, and no time read is
  beyond the 32-bit bound Postfix has.
\<close>

theorem time_read_back:
  assumes "n \<le> max_int32" "unit_seconds u = Some per" "per = 1 \<or> n < max_int32 div per"
  shows "parse_time (show_nat n @ [u]) d = Inr (n * per) \<and> n * per \<le> max_int32"
  using parse_time_show [OF assms, of "[]" d] parse_time_bound by auto

lemma time_read_back_witness: "parse_time (show_nat 5 @ [CHR ''d'']) CHR ''s'' = Inr (5 * 86400) \<and> (5::nat) * 86400 \<le> max_int32"
  by (rule time_read_back) (simp_all add: max_int32_def unit_seconds_def)

text \<open>
  A duration is shown to within half a minute, "about" exactly when what is shown is not the
  duration, with fewer than 24 hours, 60 minutes and 60 seconds beside the larger units.
\<close>

theorem shown_duration_close:
  "case round_parts sec of (d, h, m, s, about) \<Rightarrow>
     \<bar>int (86400 * d + 3600 * h + 60 * m + s) - int sec\<bar> \<le> 30 \<and>
     (about \<longleftrightarrow> 86400 * d + 3600 * h + 60 * m + s \<noteq> sec) \<and> h < 24 \<and> m < 60 \<and> s < 60"
  using round_parts_close [of sec] round_parts_ranges [of sec] by (auto simp: parts_seconds_def split: prod.splits)

text \<open>
  The lifetime of a bounce never exceeds that of a message, whatever Postfix's configuration
  prints or when it cannot be read; so the longest lifetime is the message's.
\<close>

theorem longest_lifetime_is_longest:
  "rp_bounce_lifetime (load_retry_policy conf) \<le> longest_lifetime (load_retry_policy conf)"
  using bounce_capped
  by (auto simp: load_retry_policy_def longest_lifetime_def default_retry_policy_def split: option.splits)

end
