(* ===== verification/Health_Status.thy ===== *)
theory Health_Status
  imports Main
begin

text \<open>
  The outcome of a check and the worst of several (\<open>internal/health/health.go\<close>). The order
  of \<open>severity\<close> makes the outcomes a linear order, and \<open>Worst\<close> is the greatest of them.
\<close>

datatype health = Unknown | Fine | Warn | Failing

fun severity :: "health \<Rightarrow> nat" where
  "severity Failing = 3"
| "severity Warn = 2"
| "severity Fine = 1"
| "severity Unknown = 0"

definition worst :: "health list \<Rightarrow> health" where
  "worst hs = foldl (\<lambda>w h. if severity h > severity w then h else w) Unknown hs"

lemma severity_inj: "severity a = severity b \<longleftrightarrow> a = b"
  by (cases a; cases b) auto

instantiation health :: linorder
begin

definition less_eq_health :: "health \<Rightarrow> health \<Rightarrow> bool" where
  "less_eq_health a b \<longleftrightarrow> severity a \<le> severity b"

definition less_health :: "health \<Rightarrow> health \<Rightarrow> bool" where
  "less_health a b \<longleftrightarrow> severity a < severity b"

instance
  by standard (auto simp: less_eq_health_def less_health_def severity_inj)

end

instantiation health :: order_bot
begin

definition bot_health :: health where
  "bot_health = Unknown"

instance
  by standard (simp add: less_eq_health_def bot_health_def)

end

lemma worst_foldl: "foldl (\<lambda>w h. if severity h > severity w then h else w) a hs = Max (set (a # hs))"
proof (induction hs arbitrary: a)
  case (Cons h hs)
  have "(if severity h > severity a then h else a) = max a h"
    by (auto simp: max_def less_eq_health_def not_less_iff_gr_or_eq severity_inj)
  with Cons [of "max a h"] show ?case
    by (cases hs) (simp_all add: max.commute max.assoc max.left_commute)
qed simp

lemma worst_max: "worst hs = Max (set (Unknown # hs))"
  by (simp add: worst_def worst_foldl)

text \<open>
  The overall health is the worst of the parts: the greatest in the order of severity,
  unknown when there is nothing to look at.
\<close>

theorem worst_is_greatest:
  "worst hs = Max (set (Unknown # hs))"
  by (rule worst_max)

end
