(* ===== verification/Notify.thy ===== *)
theory Notify
  imports Health_Status Prelude "HOL-Library.AList"
begin

text \<open>
  The notifier (\<open>internal/notify/notify.go\<close>) over its state in the database
  (\<open>internal/store/notify.go\<close>): who is owed which message, when a subject is opened, followed
  up and closed, the hourly ceiling. A pass runs at one time \<open>now\<close>, in nanoseconds; the times
  kept in the database are whole seconds. The texts of \<open>text.go\<close> are left out: a message is
  the constructor that says which text it is. A database call fails as the next entry of
  \<open>nt_faults\<close> says, handing a copy to the mail system as that of \<open>nt_send_faults\<close>.
\<close>

record notify_state =
  ns_phase :: string
  ns_count :: int
  ns_mark :: "int option"
  ns_since :: int
  ns_sent :: "int option"

datatype message =
    Dns_problem string "(string \<times> string) list" int
  | Dns_cleared string int
  | Cert_expiring int int
  | Queue_stuck "string list" int
  | Queue_cleared int
  | Limit_refused string

text \<open>\<open>nt_owed\<close> is the table \<open>notify_addressees\<close>, \<open>nt_out\<close> what was handed to the mail system.\<close>

record notifier =
  nt_enabled :: bool
  nt_states :: "(string \<times> notify_state) list"
  nt_owed :: "string \<Rightarrow> (string \<times> bool) list"
  nt_recipients :: "string \<Rightarrow> string list"
  nt_sent_at :: "int list"
  nt_out :: "(string \<times> message \<times> int) list"
  nt_faults :: "bool list"
  nt_send_faults :: "bool list"

definition day :: int where "day = 24 * hour"

definition dns_checks :: int where "dns_checks = 2"
definition dns_apart :: int where "dns_apart = 45 * minute"
definition queue_age :: int where "queue_age = 3 * day"
definition cert_first_days :: int where "cert_first_days = 14"
definition cert_last_days :: int where "cert_last_days = 3"
definition limit_repeat :: int where "limit_repeat = 24 * hour"
definition hourly_ceiling :: nat where "hourly_ceiling = 60"

definition phase_pending :: string where "phase_pending = ''pending''"
definition phase_open :: string where "phase_open = ''open''"

section \<open>The database\<close>

definition n_step :: "(notifier \<Rightarrow> notifier \<times> 'a) \<Rightarrow> notifier \<Rightarrow> notifier \<times> 'a option" where
  "n_step f s =
     (case nt_faults s of
        [] \<Rightarrow> map_prod id Some (f s)
      | True # fs \<Rightarrow> (s\<lparr>nt_faults := fs\<rparr>, None)
      | False # fs \<Rightarrow> map_prod id Some (f (s\<lparr>nt_faults := fs\<rparr>)))"

definition notifications_enabled :: "notifier \<Rightarrow> notifier \<times> bool option" where
  "notifications_enabled = n_step (\<lambda>s. (s, nt_enabled s))"

definition get_notify_state :: "string \<Rightarrow> notifier \<Rightarrow> notifier \<times> notify_state option option" where
  "get_notify_state key = n_step (\<lambda>s. (s, map_of (nt_states s) key))"

definition set_notify_state :: "string \<Rightarrow> notify_state \<Rightarrow> notifier \<Rightarrow> notifier \<times> unit option" where
  "set_notify_state key st = n_step (\<lambda>s. (s\<lparr>nt_states := AList.update key st (nt_states s)\<rparr>, ()))"

definition delete_notify_state :: "string \<Rightarrow> notifier \<Rightarrow> notifier \<times> unit option" where
  "delete_notify_state key = n_step (\<lambda>s.
     (s\<lparr>nt_owed := (nt_owed s)(key := []), nt_states := AList.delete key (nt_states s)\<rparr>, ()))"

definition notify_addressees :: "string \<Rightarrow> notifier \<Rightarrow> notifier \<times> (string \<times> bool) list option" where
  "notify_addressees key = n_step (\<lambda>s. (s, nt_owed s key))"

definition set_notify_addressees :: "string \<Rightarrow> (string \<times> bool) list \<Rightarrow> notifier \<Rightarrow> notifier \<times> unit option" where
  "set_notify_addressees key owed = n_step (\<lambda>s. (s\<lparr>nt_owed := (nt_owed s)(key := owed)\<rparr>, ()))"

definition list_notify_state_keys :: "string \<Rightarrow> notifier \<Rightarrow> notifier \<times> string list option" where
  "list_notify_state_keys pre = n_step (\<lambda>s.
     (s, sort (filter (\<lambda>k. take (length pre) k = pre) (map fst (nt_states s)))))"

definition recipients :: "string \<Rightarrow> notifier \<Rightarrow> notifier \<times> string list option" where
  "recipients dom_name = n_step (\<lambda>s. (s, nt_recipients s dom_name))"

definition save :: "string \<Rightarrow> notify_state \<Rightarrow> notifier \<Rightarrow> notifier" where
  "save key st s = fst (set_notify_state key st s)"

definition forget :: "string \<Rightarrow> notifier \<Rightarrow> notifier" where
  "forget key s = fst (delete_notify_state key s)"

section \<open>Handing messages over\<close>

definition under_ceiling :: "int \<Rightarrow> notifier \<Rightarrow> notifier \<times> bool" where
  "under_ceiling now s =
     (let keep = filter (\<lambda>t. t > now - hour) (nt_sent_at s)
      in (s\<lparr>nt_sent_at := keep\<rparr>, length keep < hourly_ceiling))"

definition send :: "int \<Rightarrow> string \<Rightarrow> message \<Rightarrow> notifier \<Rightarrow> notifier \<times> bool" where
  "send now addr m s =
     (case nt_send_faults s of
        [] \<Rightarrow> (s\<lparr>nt_out := nt_out s @ [(addr, m, now)]\<rparr>, True)
      | True # fs \<Rightarrow> (s\<lparr>nt_send_faults := fs\<rparr>, False)
      | False # fs \<Rightarrow> (s\<lparr>nt_send_faults := fs, nt_out := nt_out s @ [(addr, m, now)]\<rparr>, True))"

fun deliver :: "int \<Rightarrow> string list \<Rightarrow> message \<Rightarrow> notifier \<Rightarrow> notifier \<times> string list" where
  "deliver now [] m s = (s, [])"
| "deliver now (addr # as) m s =
     (case under_ceiling now s of
        (s1, False) \<Rightarrow> deliver now as m s1
      | (s1, True) \<Rightarrow>
          (case send now addr m s1 of
             (s2, False) \<Rightarrow> deliver now as m s2
           | (s2, True) \<Rightarrow>
               (case deliver now as m (s2\<lparr>nt_sent_at := nt_sent_at s2 @ [now]\<rparr>) of
                  (s3, handed) \<Rightarrow> (s3, addr # handed))))"

datatype outcome = Sent | Nobody | Failed

definition open_subject :: "int \<Rightarrow> string \<Rightarrow> string \<Rightarrow> message \<Rightarrow> notifier \<Rightarrow> notifier \<times> outcome" where
  "open_subject now key dom_name m s =
     (case recipients dom_name s of
        (s1, None) \<Rightarrow> (s1, Failed)
      | (s1, Some to) \<Rightarrow>
          if to = [] then (s1, Nobody)
          else (case deliver now to m s1 of
                  (s2, handed) \<Rightarrow>
                    if handed = [] then (s2, Failed)
                    else (fst (set_notify_addressees key (map (\<lambda>a. (a, a \<in> set handed)) to) s2), Sent)))"

text \<open>The addresses of \<open>a\<close> that are in \<open>b\<close>, in \<open>b\<close>'s order.\<close>

definition intersect :: "string list \<Rightarrow> string list \<Rightarrow> string list" where
  "intersect a b = filter (\<lambda>x. x \<in> set a) b"

definition follow_up :: "int \<Rightarrow> string \<Rightarrow> string \<Rightarrow> message \<Rightarrow> notifier \<Rightarrow> notifier" where
  "follow_up now key dom_name m s =
     (case notify_addressees key s of
        (s1, None) \<Rightarrow> s1
      | (s1, Some owed) \<Rightarrow>
          (let due = map fst (filter (\<lambda>(a, told). \<not> told) owed)
           in if due = [] then s1
              else (case recipients dom_name s1 of
                      (s2, None) \<Rightarrow> s2
                    | (s2, Some now_to) \<Rightarrow>
                        (case deliver now (intersect due now_to) m s2 of
                           (s3, handed) \<Rightarrow>
                             if handed = [] then s3
                             else fst (set_notify_addressees key
                                    (map (\<lambda>(a, told). (a, told \<or> a \<in> set handed)) owed) s3)))))"

definition closed :: "int \<Rightarrow> string \<Rightarrow> string \<Rightarrow> message \<Rightarrow> notifier \<Rightarrow> notifier \<times> outcome" where
  "closed now key dom_name m s =
     (case notify_addressees key s of
        (s1, None) \<Rightarrow> (s1, Failed)
      | (s1, Some owed) \<Rightarrow>
          (case recipients dom_name s1 of
             (s2, None) \<Rightarrow> (s2, Failed)
           | (s2, Some to0) \<Rightarrow>
               (let to = (if owed \<noteq> [] then intersect (map fst (filter snd owed)) to0 else to0)
                in if to = [] then (s2, Nobody)
                   else (case deliver now to m s2 of
                           (s3, handed) \<Rightarrow> (s3, if handed = [] then Failed else Sent)))))"

section \<open>DNS\<close>

record dns_result =
  dr_status :: health
  dr_detail :: string

record dns_domain =
  dd_dkim :: dns_result
  dd_spf :: dns_result
  dd_dmarc :: dns_result

definition dns_reading :: "dns_domain \<Rightarrow> (string \<times> string) list \<times> bool" where
  "dns_reading d =
     (let rs = [(''DKIM'', dd_dkim d), (''SPF'', dd_spf d), (''DMARC'', dd_dmarc d)];
          faults = map (\<lambda>(n, r). (n, dr_detail r)) (filter (\<lambda>(n, r). dr_status r = Failing) rs);
          known = \<not> list_ex (\<lambda>(n, r). dr_status r = Unknown) rs
      in (faults, known \<or> faults \<noteq> []))"

definition dns_key :: "string \<Rightarrow> string" where "dns_key n = ''dns:'' @ n"

text \<open>\<open>now.Sub(t)\<close> of a stamp; without one the zero time, further off than any span asked for.\<close>

definition apart :: "int \<Rightarrow> int option \<Rightarrow> int \<Rightarrow> bool" where
  "apart now t d \<longleftrightarrow> (case t of None \<Rightarrow> True | Some x \<Rightarrow> now - x * second \<ge> d)"

definition dns_step :: "int \<Rightarrow> string \<Rightarrow> dns_domain \<Rightarrow> notifier \<Rightarrow> notifier" where
  "dns_step now name res s =
     (case dns_reading res of
        (faults, known) \<Rightarrow>
          if \<not> known then s
          else (let bad = (faults \<noteq> []); key = dns_key name in
            case get_notify_state key s of
              (s1, None) \<Rightarrow> s1
            | (s1, Some None) \<Rightarrow>
                if bad then save key \<lparr>ns_phase = phase_pending, ns_count = 1, ns_mark = None,
                                      ns_since = stamp now, ns_sent = None\<rparr> s1
                else s1
            | (s1, Some (Some st)) \<Rightarrow>
                if ns_phase st = phase_pending \<and> \<not> bad then forget key s1
                else if ns_phase st = phase_pending then
                  (let st1 = st\<lparr>ns_count := ns_count st + 1\<rparr>
                   in if ns_count st1 \<ge> dns_checks \<and> apart now (Some (ns_since st1)) dns_apart then
                        (case open_subject now key name (Dns_problem name faults (ns_since st1)) s1 of
                           (s2, Sent) \<Rightarrow>
                             save key (st1\<lparr>ns_phase := phase_open, ns_count := 0, ns_mark := None,
                                           ns_sent := Some (stamp now)\<rparr>) s2
                         | (s2, _) \<Rightarrow> save key st1 s2)
                      else save key st1 s1)
                else if ns_phase st = phase_open \<and> bad then
                  (let (st1, s2) = (if ns_count st \<noteq> 0
                                    then (let st1 = st\<lparr>ns_count := 0, ns_mark := None\<rparr> in (st1, save key st1 s1))
                                    else (st, s1))
                   in follow_up now key name (Dns_problem name faults (ns_since st1)) s2)
                else if ns_phase st = phase_open then
                  (let st1 = st\<lparr>ns_count := ns_count st + 1\<rparr>;
                       st2 = (if ns_count st1 = 1 then st1\<lparr>ns_mark := Some (stamp now)\<rparr> else st1)
                   in if ns_count st2 \<ge> dns_checks \<and> apart now (ns_mark st2) dns_apart then
                        (case closed now key name (Dns_cleared name (ns_since st2)) s1 of
                           (s2, Failed) \<Rightarrow> save key st2 s2
                         | (s2, _) \<Rightarrow> forget key s2)
                      else save key st2 s1)
                else s1))"

text \<open>\<open>domains\<close> is the list of the registry with each one's check, \<open>None\<close> for a check that failed.\<close>

fun dns_steps :: "int \<Rightarrow> (string \<times> dns_domain option) list \<Rightarrow> notifier \<Rightarrow> notifier" where
  "dns_steps now [] s = s"
| "dns_steps now ((n, None) # ds) s = dns_steps now ds s"
| "dns_steps now ((n, Some r) # ds) s = dns_steps now ds (dns_step now n r s)"

definition check_dns :: "int \<Rightarrow> (string \<times> dns_domain option) list option \<Rightarrow> notifier \<Rightarrow> notifier" where
  "check_dns now domains s =
     (case domains of
        None \<Rightarrow> s
      | Some ds \<Rightarrow>
          (case list_notify_state_keys ''dns:'' (dns_steps now ds s) of
             (s1, None) \<Rightarrow> s1
           | (s1, Some keys) \<Rightarrow>
               foldl (\<lambda>s k. if drop 4 k \<in> fst ` set ds then s else forget k s) s1 keys))"


section \<open>The certificate\<close>

text \<open>\<open>ce_late\<close>: the mounted renewal, if there is one, and whether it is late.\<close>

record certificate =
  ce_not_after :: "int option"
  ce_late :: "bool option"

definition check_certificate :: "int \<Rightarrow> certificate \<Rightarrow> notifier \<Rightarrow> notifier" where
  "check_certificate now c s =
     (case ce_not_after c of
        None \<Rightarrow> s
      | Some not_after \<Rightarrow>
          if ce_late c = Some False then s
          else (let key = ''cert''; mark = Some (stamp not_after) in
            case get_notify_state key s of
              (s1, None) \<Rightarrow> s1
            | (s1, Some have0) \<Rightarrow>
                (let (s2, have) = (case have0 of
                       Some st \<Rightarrow> if ns_mark st \<noteq> mark then (forget key s1, None) else (s1, Some st)
                     | None \<Rightarrow> (s1, None));
                     left = not_after - now;
                     level = (if left \<le> cert_last_days * 24 * hour then ''last''
                              else if left \<le> cert_first_days * 24 * hour then ''first'' else [])
                 in if level = [] then s2
                    else if (case have of None \<Rightarrow> False | Some st \<Rightarrow> ns_phase st = level \<or> ns_phase st = ''last'') then
                      follow_up now key [] (Cert_expiring not_after left) s2
                    else (case open_subject now key [] (Cert_expiring not_after left) s2 of
                            (s3, Sent) \<Rightarrow>
                              save key \<lparr>ns_phase = level, ns_count = 0, ns_mark = mark, ns_since = stamp now,
                                        ns_sent = Some (stamp now)\<rparr> s3
                          | (s3, _) \<Rightarrow> s3))))"

section \<open>The queue\<close>

record queued_message =
  qm_id :: string
  qm_sender :: string
  qm_rcpts :: "string list"
  qm_arrival :: int

definition own_mail :: "(string \<Rightarrow> string \<Rightarrow> bool) \<Rightarrow> string \<Rightarrow> queued_message \<Rightarrow> bool" where
  "own_mail ef hostname m =
     (let own = ''postmaster@'' @ hostname in ef (qm_sender m) own \<or> list_ex (\<lambda>r. ef r own) (qm_rcpts m))"

definition check_queue ::
  "(string \<Rightarrow> string \<Rightarrow> bool) \<Rightarrow> string \<Rightarrow> int \<Rightarrow> queued_message list option \<Rightarrow> notifier \<Rightarrow> notifier" where
  "check_queue ef hostname now msgs s =
     (case msgs of
        None \<Rightarrow> s
      | Some ms \<Rightarrow>
          (let old = sort_key qm_arrival (filter (\<lambda>m. now - qm_arrival m > queue_age \<and> \<not> own_mail ef hostname m) ms);
               key = ''queue'' in
           case get_notify_state key s of
             (s1, None) \<Rightarrow> s1
           | (s1, Some None) \<Rightarrow>
               if old \<noteq> [] then
                 (case open_subject now key [] (Queue_stuck (map qm_id old) now) s1 of
                    (s2, Sent) \<Rightarrow>
                      save key \<lparr>ns_phase = phase_open, ns_count = 0, ns_mark = None, ns_since = stamp now,
                                ns_sent = Some (stamp now)\<rparr> s2
                  | (s2, _) \<Rightarrow> s2)
               else s1
           | (s1, Some (Some st)) \<Rightarrow>
               if old \<noteq> [] then follow_up now key [] (Queue_stuck (map qm_id old) now) s1
               else (case closed now key [] (Queue_cleared (ns_since st)) s1 of
                       (s2, Failed) \<Rightarrow> s2
                     | (s2, _) \<Rightarrow> forget key s2)))"

section \<open>The passes\<close>

definition enabled :: "notifier \<Rightarrow> notifier \<times> bool" where
  "enabled s = (case notifications_enabled s of (s1, None) \<Rightarrow> (s1, False) | (s1, Some on) \<Rightarrow> (s1, on))"

definition check ::
  "(string \<Rightarrow> string \<Rightarrow> bool) \<Rightarrow> string \<Rightarrow> int \<Rightarrow> (string \<times> dns_domain option) list option \<Rightarrow> certificate \<Rightarrow>
   queued_message list option \<Rightarrow> notifier \<Rightarrow> notifier" where
  "check ef hostname now domains cert msgs s =
     (case enabled s of
        (s1, False) \<Rightarrow> s1
      | (s1, True) \<Rightarrow> check_queue ef hostname now msgs (check_certificate now cert (check_dns now domains s1)))"

text \<open>A refusal is its domain and the stamp of the first of them (\<open>LimitRefusalsSince\<close>).\<close>

definition limit_step :: "int \<Rightarrow> string \<times> int \<Rightarrow> notifier \<Rightarrow> notifier" where
  "limit_step now r s =
     (case r of (dom_name, first) \<Rightarrow>
        (let key = ''limit:'' @ dom_name in
         case get_notify_state key s of
           (s1, None) \<Rightarrow> s1
         | (s1, Some have) \<Rightarrow>
             if (case have of None \<Rightarrow> False | Some st \<Rightarrow> \<not> apart now (ns_sent st) limit_repeat)
             then follow_up now key dom_name (Limit_refused dom_name) s1
             else (case open_subject now key dom_name (Limit_refused dom_name) s1 of
                     (s2, Sent) \<Rightarrow>
                       save key \<lparr>ns_phase = phase_open, ns_count = 0, ns_mark = None, ns_since = first,
                                 ns_sent = Some (stamp now)\<rparr> s2
                   | (s2, _) \<Rightarrow> s2)))"

definition expire_limit :: "int \<Rightarrow> string \<Rightarrow> notifier \<Rightarrow> notifier" where
  "expire_limit now key s =
     (case get_notify_state key s of
        (s1, Some (Some st)) \<Rightarrow>
          if (case ns_sent st of None \<Rightarrow> True | Some x \<Rightarrow> now - x * second > 2 * limit_repeat)
          then forget key s1 else s1
      | (s1, _) \<Rightarrow> s1)"

definition check_limits :: "int \<Rightarrow> (string \<times> int) list option \<Rightarrow> notifier \<Rightarrow> notifier" where
  "check_limits now refusals s =
     (case enabled s of
        (s1, False) \<Rightarrow> s1
      | (s1, True) \<Rightarrow>
          (case refusals of
             None \<Rightarrow> s1
           | Some rs \<Rightarrow>
               (case list_notify_state_keys ''limit:'' (foldl (\<lambda>s r. limit_step now r s) s1 rs) of
                  (s2, None) \<Rightarrow> s2
                | (s2, Some keys) \<Rightarrow> foldl (\<lambda>s k. expire_limit now k s) s2 keys)))"

section \<open>The hourly ceiling\<close>

text \<open>
  What was handed over within the hour before a time that is not before any hand-over is among
  \<open>nt_sent_at\<close>, and no hour, ending when it may, holds more than the ceiling.
\<close>

definition out_since :: "int \<Rightarrow> notifier \<Rightarrow> nat" where
  "out_since t s = length (filter (\<lambda>(a, m, x). x > t) (nt_out s))"

definition out_between :: "int \<Rightarrow> int \<Rightarrow> notifier \<Rightarrow> nat" where
  "out_between t t' s = length (filter (\<lambda>(a, m, x). t < x \<and> x \<le> t') (nt_out s))"

definition sent_since :: "int \<Rightarrow> notifier \<Rightarrow> nat" where
  "sent_since t s = length (filter (\<lambda>x. x > t) (nt_sent_at s))"

definition ceiling_inv :: "int \<Rightarrow> notifier \<Rightarrow> bool" where
  "ceiling_inv now s \<longleftrightarrow>
     (\<forall>(a, m, x) \<in> set (nt_out s). x \<le> now) \<and> (\<forall>x \<in> set (nt_sent_at s). x \<le> now) \<and>
     (\<forall>t \<ge> now - hour. out_since t s = sent_since t s) \<and> sent_since (now - hour) s \<le> hourly_ceiling \<and>
     (\<forall>t. out_between (t - hour) t s \<le> hourly_ceiling)"

lemmas window_defs = ceiling_inv_def out_since_def sent_since_def out_between_def

named_theorems ceiling_rules \<open>steps that keep the ceiling\<close>

lemma ceiling_inv_other [simp]:
  "ceiling_inv now (s\<lparr>nt_faults := fs\<rparr>) = ceiling_inv now s"
  "ceiling_inv now (s\<lparr>nt_states := ss\<rparr>) = ceiling_inv now s"
  "ceiling_inv now (s\<lparr>nt_owed := ow\<rparr>) = ceiling_inv now s"
  "ceiling_inv now (s\<lparr>nt_owed := ow, nt_states := ss\<rparr>) = ceiling_inv now s"
  "ceiling_inv now (s\<lparr>nt_send_faults := fs\<rparr>) = ceiling_inv now s"
  by (simp_all add: window_defs)

lemma ceiling_step:
  assumes "ceiling_inv now s" "\<And>s. ceiling_inv now s \<Longrightarrow> ceiling_inv now (fst (f s))"
  shows "ceiling_inv now (fst (n_step f s))"
  using assms by (auto simp: n_step_def split: list.splits bool.splits)

lemma ceiling_calls [ceiling_rules]:
  "ceiling_inv now s \<Longrightarrow> ceiling_inv now (fst (get_notify_state k s))"
  "ceiling_inv now s \<Longrightarrow> ceiling_inv now (fst (notifications_enabled s))"
  "ceiling_inv now s \<Longrightarrow> ceiling_inv now (fst (notify_addressees k s))"
  "ceiling_inv now s \<Longrightarrow> ceiling_inv now (fst (set_notify_addressees k ow s))"
  "ceiling_inv now s \<Longrightarrow> ceiling_inv now (fst (recipients d s))"
  "ceiling_inv now s \<Longrightarrow> ceiling_inv now (fst (list_notify_state_keys k s))"
  "ceiling_inv now s \<Longrightarrow> ceiling_inv now (save k st s)"
  "ceiling_inv now s \<Longrightarrow> ceiling_inv now (forget k s)"
  unfolding get_notify_state_def notifications_enabled_def notify_addressees_def set_notify_addressees_def
    recipients_def list_notify_state_keys_def save_def forget_def set_notify_state_def delete_notify_state_def
  by (erule ceiling_step; simp)+

lemma ceiling_later: "ceiling_inv now s \<Longrightarrow> now \<le> now' \<Longrightarrow> ceiling_inv now' s"
proof -
  assume a: "ceiling_inv now s" "now \<le> now'"
  have "sent_since (now' - hour) s \<le> sent_since (now - hour) s"
    unfolding sent_since_def by (rule length_filter_mono) (use a(2) in auto)
  with a show ?thesis by (fastforce simp: ceiling_inv_def)
qed

lemma ceiling_under: "ceiling_inv now s \<Longrightarrow> ceiling_inv now (fst (under_ceiling now s))"
proof -
  assume a: "ceiling_inv now s"
  have "sent_since t (fst (under_ceiling now s)) = sent_since t s" if "t \<ge> now - hour" for t
    using that by (auto simp: sent_since_def under_ceiling_def Let_def intro!: arg_cong [of _ _ length] filter_cong)
  moreover have "nt_out (fst (under_ceiling now s)) = nt_out s"
    by (simp add: under_ceiling_def Let_def)
  ultimately show ?thesis using a
    by (auto simp: ceiling_inv_def out_since_def out_between_def) (auto simp: under_ceiling_def Let_def)
qed

lemma ceiling_send:
  assumes "ceiling_inv now s" "snd (under_ceiling now s)" "send now addr m (fst (under_ceiling now s)) = (s', True)"
  shows "ceiling_inv now (s'\<lparr>nt_sent_at := nt_sent_at s' @ [now]\<rparr>)" (is "ceiling_inv now ?s")
proof -
  let ?u = "fst (under_ceiling now s)"
  have u: "ceiling_inv now ?u" by (rule ceiling_under [OF assms(1)])
  have s': "nt_sent_at s' = nt_sent_at ?u" "nt_out s' = nt_out ?u @ [(addr, m, now)]"
    using assms(3) by (auto simp: send_def split: list.splits bool.splits)
  have "sent_since (now - hour) ?u < hourly_ceiling"
    using assms(2) by (simp add: sent_since_def under_ceiling_def Let_def)
  with u s' have hour_ok: "sent_since (now - hour) ?s \<le> hourly_ceiling"
    and same: "\<forall>t \<ge> now - hour. out_since t ?s = sent_since t ?s"
    by (auto simp: ceiling_inv_def out_since_def sent_since_def)
  have "out_between (t - hour) t ?s \<le> hourly_ceiling" for t
  proof (cases "t < now")
    case True
    then have "out_between (t - hour) t ?s = out_between (t - hour) t ?u" by (simp add: out_between_def s')
    with u show ?thesis by (simp add: ceiling_inv_def)
  next
    case False
    then have "out_between (t - hour) t ?s \<le> out_since (now - hour) ?s"
      unfolding out_between_def out_since_def by (intro length_filter_mono) auto
    with same hour_ok show ?thesis by (smt (verit) le_trans order_refl)
  qed
  with u s' hour_ok same show ?thesis by (auto simp: ceiling_inv_def)
qed

lemma ceiling_deliver [ceiling_rules]: "ceiling_inv now s \<Longrightarrow> ceiling_inv now (fst (deliver now to m s))"
proof (induction to arbitrary: s)
  case (Cons addr as)
  obtain s1 ok where u: "under_ceiling now s = (s1, ok)" by (cases "under_ceiling now s")
  with ceiling_under [OF Cons.prems] have s1: "ceiling_inv now s1" by simp
  obtain s2 took where d: "send now addr m s1 = (s2, took)" by (cases "send now addr m s1")
  have s2: "\<not> took \<Longrightarrow> ceiling_inv now s2"
    using d s1 by (auto simp: send_def split: list.splits bool.splits)
  have s3: "ok \<Longrightarrow> took \<Longrightarrow> ceiling_inv now (s2\<lparr>nt_sent_at := nt_sent_at s2 @ [now]\<rparr>)"
    using ceiling_send [OF Cons.prems, of addr m s2] u d by simp
  show ?case
    using Cons.IH [OF s1] Cons.IH [OF s2] Cons.IH [OF s3] u d by (auto split: prod.split bool.split)
qed simp

text \<open>The same facts for a call whose result is bound by a \<open>case\<close>.\<close>

lemma ceiling_bound:
  "get_notify_state k s = (s', r1) \<Longrightarrow> ceiling_inv now s \<Longrightarrow> ceiling_inv now s'"
  "notifications_enabled s = (s', r2) \<Longrightarrow> ceiling_inv now s \<Longrightarrow> ceiling_inv now s'"
  "notify_addressees k s = (s', r3) \<Longrightarrow> ceiling_inv now s \<Longrightarrow> ceiling_inv now s'"
  "recipients d s = (s', r4) \<Longrightarrow> ceiling_inv now s \<Longrightarrow> ceiling_inv now s'"
  "list_notify_state_keys k s = (s', r5) \<Longrightarrow> ceiling_inv now s \<Longrightarrow> ceiling_inv now s'"
  "deliver now to m s = (s', r6) \<Longrightarrow> ceiling_inv now s \<Longrightarrow> ceiling_inv now s'"
  by (metis ceiling_rules fst_conv)+

lemma ceiling_subjects [ceiling_rules]:
  assumes "ceiling_inv now s"
  shows "ceiling_inv now (fst (open_subject now k d m s))"
    and "ceiling_inv now (follow_up now k d m s)"
    and "ceiling_inv now (fst (closed now k d m s))"
  using assms unfolding open_subject_def follow_up_def closed_def
  by (auto split: prod.split option.split simp: Let_def dest: ceiling_bound intro!: ceiling_rules)

lemma ceiling_subject_bound:
  "open_subject now k d m s = (s', r) \<Longrightarrow> ceiling_inv now s \<Longrightarrow> ceiling_inv now s'"
  "closed now k d m s = (s', r) \<Longrightarrow> ceiling_inv now s \<Longrightarrow> ceiling_inv now s'"
  by (metis ceiling_rules fst_conv)+


lemma ceiling_dns_step [ceiling_rules]: "ceiling_inv now s \<Longrightarrow> ceiling_inv now (dns_step now n r s)"
  unfolding dns_step_def
  by (auto split: prod.split option.split outcome.split simp: Let_def
      dest: ceiling_bound ceiling_subject_bound intro!: ceiling_rules)

lemma ceiling_dns_steps [ceiling_rules]: "ceiling_inv now s \<Longrightarrow> ceiling_inv now (dns_steps now ds s)"
  by (induction now ds s rule: dns_steps.induct) (auto intro: ceiling_dns_step)

lemma ceiling_fold:
  assumes "\<And>x s. ceiling_inv now s \<Longrightarrow> ceiling_inv now (f s x)" "ceiling_inv now s"
  shows "ceiling_inv now (foldl f s xs)"
  using assms(2) by (induction xs arbitrary: s) (auto intro: assms(1))

lemma ceiling_check_dns [ceiling_rules]: "ceiling_inv now s \<Longrightarrow> ceiling_inv now (check_dns now ds s)"
  unfolding check_dns_def
  by (auto split: prod.split option.split intro!: ceiling_fold intro: ceiling_rules
      dest!: ceiling_bound(5) [OF _ ceiling_dns_steps])

lemma ceiling_check_certificate [ceiling_rules]:
  "ceiling_inv now s \<Longrightarrow> ceiling_inv now (check_certificate now c s)"
  unfolding check_certificate_def
  by (auto split: prod.split option.split outcome.split simp: Let_def
      dest: ceiling_bound ceiling_subject_bound intro!: ceiling_rules)

lemma ceiling_check_queue [ceiling_rules]:
  "ceiling_inv now s \<Longrightarrow> ceiling_inv now (check_queue ef h now ms s)"
  unfolding check_queue_def
  by (auto split: prod.split option.split outcome.split simp: Let_def
      dest: ceiling_bound ceiling_subject_bound intro!: ceiling_rules)

lemma ceiling_limit_step [ceiling_rules]:
  "ceiling_inv now s \<Longrightarrow> ceiling_inv now (limit_step now r s)"
  "ceiling_inv now s \<Longrightarrow> ceiling_inv now (expire_limit now k s)"
  unfolding limit_step_def expire_limit_def
  by (auto split: prod.split option.split outcome.split simp: Let_def
      dest: ceiling_bound ceiling_subject_bound intro!: ceiling_rules)

lemma ceiling_passes:
  assumes "ceiling_inv now s"
  shows "ceiling_inv now (check ef h now ds c ms s)" and "ceiling_inv now (check_limits now rs s)"
  using assms unfolding check_def check_limits_def enabled_def
  by (auto split: prod.split option.split bool.split intro!: ceiling_rules ceiling_fold
      dest: ceiling_bound dest!: ceiling_bound(5) [OF _ ceiling_fold [OF ceiling_limit_step(1)]])

text \<open>
  Passes follow one another, the clock never going back: the daily pass, the pass over the
  refusals, and whatever else changes the settings, the mailboxes or the faults in between.
\<close>

inductive notify_run :: "(string \<Rightarrow> string \<Rightarrow> bool) \<Rightarrow> string \<Rightarrow> int \<Rightarrow> notifier \<Rightarrow> bool" for ef h where
  Begin: "nt_sent_at s = [] \<Longrightarrow> nt_out s = [] \<Longrightarrow> notify_run ef h now s"
| Check: "notify_run ef h now s \<Longrightarrow> notify_run ef h now (check ef h now ds c ms s)"
| Limits: "notify_run ef h now s \<Longrightarrow> notify_run ef h now (check_limits now rs s)"
| Later: "notify_run ef h now s \<Longrightarrow> now \<le> now' \<Longrightarrow> notify_run ef h now' s"
| Other: "notify_run ef h now s \<Longrightarrow>
    notify_run ef h now (s\<lparr>nt_enabled := on, nt_recipients := to, nt_faults := fs, nt_send_faults := sfs\<rparr>)"

lemma notify_run_ceiling: "notify_run ef h now s \<Longrightarrow> ceiling_inv now s"
proof (induction rule: notify_run.induct)
  case (Begin s now)
  then show ?case by (simp add: window_defs hourly_ceiling_def)
next
  case (Other now s on to fs sfs)
  then show ?case by (simp add: window_defs)
qed (auto intro: ceiling_passes ceiling_later)

section \<open>Who is told, and when\<close>

lemma send_out:
  "send now a m s = (s', True) \<Longrightarrow> nt_out s' = nt_out s @ [(a, m, now)]"
  "send now a m s = (s', False) \<Longrightarrow> nt_out s' = nt_out s"
  "send now a m s = (s', ok) \<Longrightarrow> nt_states s' = nt_states s \<and> nt_owed s' = nt_owed s \<and>
     nt_recipients s' = nt_recipients s \<and> nt_faults s' = nt_faults s \<and> nt_sent_at s' = nt_sent_at s"
  by (auto simp: send_def split: list.splits bool.splits)

lemma deliver_out:
  "deliver now to m s = (s', handed) \<Longrightarrow>
     nt_out s' = nt_out s @ map (\<lambda>a. (a, m, now)) handed \<and> set handed \<subseteq> set to \<and>
     nt_states s' = nt_states s \<and> nt_owed s' = nt_owed s \<and> nt_recipients s' = nt_recipients s \<and>
     nt_faults s' = nt_faults s"
proof (induction to arbitrary: s s' handed)
  case (Cons addr as)
  obtain s1 ok where u: "under_ceiling now s = (s1, ok)" by (cases "under_ceiling now s")
  then have s1: "nt_out s1 = nt_out s" "nt_states s1 = nt_states s" "nt_owed s1 = nt_owed s"
    "nt_recipients s1 = nt_recipients s" "nt_faults s1 = nt_faults s"
    by (auto simp: under_ceiling_def Let_def)
  obtain s2 took where d: "send now addr m s1 = (s2, took)" by (cases "send now addr m s1")
  show ?case
  proof (cases "ok \<and> took")
    case True
    then obtain h where h: "deliver now as m (s2\<lparr>nt_sent_at := nt_sent_at s2 @ [now]\<rparr>) = (s', h)" "handed = addr # h"
      using Cons.prems u d by (auto split: prod.splits)
    from Cons.IH [OF h(1)] h(2) True send_out [of now addr m s1 s2] d s1 show ?thesis by auto
  next
    case False
    have "deliver now as m (if ok then s2 else s1) = (s', handed)"
      using Cons.prems u d False by (auto split: bool.splits)
    from Cons.IH [OF this] False send_out [of now addr m s1 s2] d s1 show ?thesis by (auto split: if_splits)
  qed
qed simp

lemma deliver_all:
  "nt_send_faults s = [] \<Longrightarrow> length (nt_sent_at s) + length to \<le> hourly_ceiling \<Longrightarrow> snd (deliver now to m s) = to"
proof (induction to arbitrary: s)
  case (Cons a as)
  have l: "length (filter (\<lambda>t. now - hour < t) (nt_sent_at s)) \<le> length (nt_sent_at s)"
    by (rule length_filter_le)
  have "length (filter (\<lambda>t. now - hour < t) (nt_sent_at s)) < hourly_ceiling"
    using le_less_trans [OF l] Cons.prems(2) by simp
  then obtain s1 where u: "under_ceiling now s = (s1, True)" "s1 = s\<lparr>nt_sent_at := filter (\<lambda>t. now - hour < t) (nt_sent_at s)\<rparr>"
    by (auto simp: under_ceiling_def Let_def)
  let ?s2 = "s1\<lparr>nt_out := nt_out s1 @ [(a, m, now)]\<rparr>"
  have d: "send now a m s1 = (?s2, True)" using Cons.prems(1) u by (simp add: send_def)
  have "snd (deliver now as m (?s2\<lparr>nt_sent_at := nt_sent_at ?s2 @ [now]\<rparr>)) = as"
  proof (rule Cons.IH)
    show "length (nt_sent_at (?s2\<lparr>nt_sent_at := nt_sent_at ?s2 @ [now]\<rparr>)) + length as \<le> hourly_ceiling"
      by (rule order_trans [OF _ Cons.prems(2)]) (simp add: u)
  qed (use Cons.prems u in simp)
  then show ?case using u(1) d by (auto split: prod.split)
qed simp

text \<open>A call that no database fault meets.\<close>

lemma n_step_sound [simp]: "nt_faults s = [] \<Longrightarrow> n_step f s = (fst (f s), Some (snd (f s)))"
  by (cases "f s") (simp add: n_step_def)

lemma n_step_out:
  assumes "n_step f s = (s', r)" "\<And>s. nt_out (fst (f s)) = nt_out s"
  shows "nt_out s' = nt_out s"
  using assms(1) assms(2) [of s] assms(2) [of "s\<lparr>nt_faults := tl (nt_faults s)\<rparr>"]
  by (cases "f s"; cases "f (s\<lparr>nt_faults := tl (nt_faults s)\<rparr>)") (auto simp: n_step_def split: list.splits bool.splits)

lemma calls_out [simp]:
  "nt_out (save k st s) = nt_out s" "nt_out (forget k s) = nt_out s"
  "nt_out (fst (set_notify_addressees k ow s)) = nt_out s"
  by (auto simp: save_def forget_def set_notify_state_def delete_notify_state_def set_notify_addressees_def
      intro: n_step_out [OF prod.collapse [symmetric]])

lemma calls_keep:
  "get_notify_state k s = (s', r1) \<Longrightarrow> nt_out s' = nt_out s \<and> nt_recipients s' = nt_recipients s \<and> nt_owed s' = nt_owed s"
  "notify_addressees k s = (s', r2) \<Longrightarrow>
     nt_out s' = nt_out s \<and> nt_recipients s' = nt_recipients s \<and> (\<forall>ow. r2 = Some ow \<longrightarrow> ow = nt_owed s k)"
  "recipients d s = (s', r3) \<Longrightarrow>
     nt_out s' = nt_out s \<and> nt_owed s' = nt_owed s \<and> (\<forall>to. r3 = Some to \<longrightarrow> to = nt_recipients s d)"
  by (auto simp: get_notify_state_def notify_addressees_def recipients_def n_step_def
      split: list.splits bool.splits)

text \<open>
  A subject is opened to the recipients of its domain, followed up to the recipients still owed
  the message and closed to the ones that were told (when the table says who was).
\<close>

definition told :: "int \<Rightarrow> message \<Rightarrow> string set \<Rightarrow> notifier \<Rightarrow> notifier \<Rightarrow> bool" where
  "told now m as s s' \<longleftrightarrow> (\<exists>to. nt_out s' = nt_out s @ map (\<lambda>a. (a, m, now)) to \<and> set to \<subseteq> as)"

lemma told_none [intro]: "nt_out s' = nt_out s \<Longrightarrow> told now m as s s'"
  by (auto simp: told_def intro: exI [of _ "[]"])

lemma told_deliver:
  "deliver now to m s1 = (s2, h) \<Longrightarrow> nt_out s1 = nt_out s \<Longrightarrow> set to \<subseteq> as \<Longrightarrow> nt_out s' = nt_out s2 \<Longrightarrow> told now m as s s'"
  by (drule deliver_out) (auto simp: told_def)

lemma open_subject_told: "told now m (set (nt_recipients s d)) s (fst (open_subject now k d m s))"
proof -
  obtain s1 r1 where 1: "recipients d s = (s1, r1)" by (cases "recipients d s")
  note keep = calls_keep(3) [OF 1]
  show ?thesis
  proof (cases "\<exists>to. r1 = Some to \<and> to \<noteq> []")
    case True
    then obtain to where r: "r1 = Some to" "to \<noteq> []" by blast
    obtain s2 h where 2: "deliver now to m s1 = (s2, h)" by (cases "deliver now to m s1")
    have "nt_out (fst (open_subject now k d m s)) = nt_out s2"
      using 1 2 r by (simp add: open_subject_def)
    with keep r show ?thesis by (intro told_deliver [OF 2]) auto
  next
    case False
    then have "nt_out (fst (open_subject now k d m s)) = nt_out s"
      using 1 keep by (auto simp: open_subject_def split: option.splits)
    then show ?thesis ..
  qed
qed

lemma follow_up_told:
  "told now m {a \<in> set (nt_recipients s d). (a, False) \<in> set (nt_owed s k)} s (follow_up now k d m s)"
proof -
  obtain s1 r1 where 1: "notify_addressees k s = (s1, r1)" by (cases "notify_addressees k s")
  obtain s2 r2 where 2: "recipients d s1 = (s2, r2)" by (cases "recipients d s1")
  note keep = calls_keep(2) [OF 1] calls_keep(3) [OF 2]
  show ?thesis
  proof (cases "\<exists>owed to. r1 = Some owed \<and> r2 = Some to \<and> map fst (filter (\<lambda>(a, told). \<not> told) owed) \<noteq> []")
    case True
    then obtain owed to where r: "r1 = Some owed" "r2 = Some to"
      and due: "map fst (filter (\<lambda>(a, told). \<not> told) owed) \<noteq> []" by blast
    let ?to = "intersect (map fst (filter (\<lambda>(a, told). \<not> told) owed)) to"
    obtain s3 h where 3: "deliver now ?to m s2 = (s3, h)" by (cases "deliver now ?to m s2")
    have "nt_out (follow_up now k d m s) = nt_out s3"
      using 1 2 3 r due by (simp add: follow_up_def Let_def del: map_is_Nil_conv)
    moreover have "set ?to \<subseteq> {a \<in> set (nt_recipients s d). (a, False) \<in> set (nt_owed s k)}"
      using keep r by (auto simp: intersect_def)
    ultimately show ?thesis using keep by (intro told_deliver [OF 3]) auto
  next
    case False
    then have "nt_out (follow_up now k d m s) = nt_out s"
      using 1 2 keep by (cases r1; cases r2) (simp_all add: follow_up_def Let_def)
    then show ?thesis ..
  qed
qed

lemma closed_told:
  "told now m {a \<in> set (nt_recipients s d). nt_owed s k = [] \<or> (a, True) \<in> set (nt_owed s k)} s
     (fst (closed now k d m s))"
proof -
  obtain s1 r1 where 1: "notify_addressees k s = (s1, r1)" by (cases "notify_addressees k s")
  obtain s2 r2 where 2: "recipients d s1 = (s2, r2)" by (cases "recipients d s1")
  note keep = calls_keep(2) [OF 1] calls_keep(3) [OF 2]
  show ?thesis
  proof (cases "r1 = None \<or> r2 = None")
    case True
    then have "nt_out (fst (closed now k d m s)) = nt_out s"
      using 1 2 keep by (auto simp: closed_def split: option.splits)
    then show ?thesis ..
  next
    case False
    then obtain owed to0 where r: "r1 = Some owed" "r2 = Some to0" by auto
    define to where "to = (if owed \<noteq> [] then intersect (map fst (filter snd owed)) to0 else to0)"
    obtain s3 h where 3: "deliver now to m s2 = (s3, h)" by (cases "deliver now to m s2")
    have "nt_out (fst (closed now k d m s)) = (if to = [] then nt_out s2 else nt_out s3)"
      using 1 2 3 r by (simp add: closed_def Let_def to_def)
    moreover have "set to \<subseteq> {a \<in> set (nt_recipients s d). nt_owed s k = [] \<or> (a, True) \<in> set (nt_owed s k)}"
      using keep r by (auto simp: intersect_def to_def)
    ultimately show ?thesis using keep by (cases "to = []") (auto intro: told_deliver [OF 3])
  qed
qed


text \<open>One bad check tells nobody; nor does a second one too soon, nor a first good one.\<close>

lemma dns_step_quiet:
  assumes "case map_of (nt_states s) (dns_key n) of
       None \<Rightarrow> True
     | Some st \<Rightarrow>
         if ns_phase st = phase_pending
         then fst (dns_reading r) = [] \<or> ns_count st + 1 < dns_checks \<or> now - ns_since st * second < dns_apart
         else fst (dns_reading r) = [] \<and>
              (ns_count st + 1 < dns_checks \<or>
               (ns_count st \<noteq> 0 \<and> (\<exists>x. ns_mark st = Some x \<and> now - x * second < dns_apart)))"
  shows "nt_out (dns_step now n r s) = nt_out s"
proof -
  obtain s1 st where g: "get_notify_state (dns_key n) s = (s1, st)" by (cases "get_notify_state (dns_key n) s")
  have k: "nt_out s1 = nt_out s" "\<And>x. st = Some x \<Longrightarrow> x = map_of (nt_states s) (dns_key n)"
    using g by (auto simp: get_notify_state_def n_step_def split: list.splits bool.splits)
  obtain faults known where r: "dns_reading r = (faults, known)" by (cases "dns_reading r")
  show ?thesis
  proof (cases st)
    case None
    with g k r show ?thesis by (simp add: dns_step_def Let_def)
  next
    case (Some x)
    show ?thesis
    proof (cases x)
      case None
      with g k r Some show ?thesis by (simp add: dns_step_def Let_def)
    next
      case (Some y)
      have m: "map_of (nt_states s) (dns_key n) = Some y" using k(2) \<open>st = Some x\<close> Some by simp
      have p: "phase_pending \<noteq> phase_open" by (simp add: phase_pending_def phase_open_def)
      show ?thesis
        using assms g k(1) r Some \<open>st = Some x\<close> p unfolding m
        by (cases "ns_phase y = phase_pending"; cases "ns_phase y = phase_open"; cases "faults = []")
          (auto simp: dns_step_def Let_def apart_def split: if_splits)
    qed
  qed
qed


text \<open>
  The life of a problem, with no fault on the way: two bad checks far enough apart open it to every
  recipient, further bad checks say nothing more to those told.
\<close>

lemma map_of_update: "map_of (AList.update k v al) k = Some v"
  by (simp add: update_conv')

lemma dns_first_bad:
  assumes "nt_faults s = []" "map_of (nt_states s) (dns_key n) = None" "fst (dns_reading r) \<noteq> []"
  shows "dns_step now n r s = s\<lparr>nt_states := AList.update (dns_key n)
           \<lparr>ns_phase = phase_pending, ns_count = 1, ns_mark = None, ns_since = stamp now, ns_sent = None\<rparr> (nt_states s)\<rparr>"
proof -
  have "snd (dns_reading r)" using assms(3) by (simp add: dns_reading_def Let_def)
  with assms show ?thesis
    by (cases "dns_reading r")
      (simp add: dns_step_def Let_def get_notify_state_def save_def set_notify_state_def)
qed

lemma dns_second_bad:
  assumes "nt_faults s = []" "nt_send_faults s = []" "fst (dns_reading r) \<noteq> []"
    and "map_of (nt_states s) (dns_key n) = Some st" "ns_phase st = phase_pending" "ns_count st + 1 \<ge> dns_checks"
    and "now - ns_since st * second \<ge> dns_apart"
    and "nt_recipients s n \<noteq> []" "length (nt_sent_at s) + length (nt_recipients s n) \<le> hourly_ceiling"
  shows "let s' = dns_step now n r s in
           nt_out s' = nt_out s @ map (\<lambda>a. (a, Dns_problem n (fst (dns_reading r)) (ns_since st), now)) (nt_recipients s n) \<and>
           nt_owed s' (dns_key n) = map (\<lambda>a. (a, True)) (nt_recipients s n) \<and> nt_faults s' = [] \<and>
           map_of (nt_states s') (dns_key n) =
             Some (st\<lparr>ns_count := 0, ns_phase := phase_open, ns_mark := None, ns_sent := Some (stamp now)\<rparr>)"
proof -
  obtain faults known where r: "dns_reading r = (faults, known)" by (cases "dns_reading r")
  have known: "known" using r assms(3) by (auto simp: dns_reading_def Let_def)
  let ?m = "Dns_problem n faults (ns_since st)"
  obtain s2 h where d: "deliver now (nt_recipients s n) ?m s = (s2, h)" by (cases "deliver now (nt_recipients s n) ?m s")
  have h: "h = nt_recipients s n"
    using deliver_all [OF assms(2,9), of now ?m] d by simp
  note out = deliver_out [OF d]
  have o: "open_subject now (dns_key n) n ?m s =
      (s2\<lparr>nt_owed := (nt_owed s2)(dns_key n := map (\<lambda>a. (a, True)) (nt_recipients s n))\<rparr>, Sent)"
    using assms(1,8) d h out
    by (simp add: open_subject_def recipients_def set_notify_addressees_def cong: map_cong)
  show ?thesis
    using assms r known o out h
    by (simp add: dns_step_def Let_def get_notify_state_def save_def set_notify_state_def apart_def map_of_update)
qed

lemma dns_bad_again:
  assumes "nt_faults s = []" "fst (dns_reading r) \<noteq> []" "map_of (nt_states s) (dns_key n) = Some st"
    and "ns_phase st = phase_open" "list_all snd (nt_owed s (dns_key n))"
  shows "nt_out (dns_step now n r s) = nt_out s"
proof -
  obtain faults known where r: "dns_reading r = (faults, known)" by (cases "dns_reading r")
  have known: "known" using r assms(2) by (auto simp: dns_reading_def Let_def)
  have due: "filter (\<lambda>(a, told). \<not> told) (nt_owed s (dns_key n)) = []"
    using assms(5) by (auto simp: filter_empty_conv list_all_iff)
  have p: "phase_open \<noteq> phase_pending" by (simp add: phase_pending_def phase_open_def)
  show ?thesis
    using assms r known due p
    by (auto simp: dns_step_def Let_def get_notify_state_def follow_up_def notify_addressees_def save_def
        set_notify_state_def)
qed

lemma dns_life:
  assumes "nt_faults s = []" "nt_send_faults s = []" "map_of (nt_states s) (dns_key n) = None"
    and "fst (dns_reading r1) \<noteq> []" "fst (dns_reading r2) \<noteq> []" "fst (dns_reading r3) \<noteq> []"
    and "now2 - stamp now1 * second \<ge> dns_apart"
    and "nt_recipients s n \<noteq> []" "length (nt_sent_at s) + length (nt_recipients s n) \<le> hourly_ceiling"
  shows "nt_out (dns_step now3 n r3 (dns_step now2 n r2 (dns_step now1 n r1 s))) =
           nt_out s @ map (\<lambda>a. (a, Dns_problem n (fst (dns_reading r2)) (stamp now1), now2)) (nt_recipients s n)"
proof -
  let ?s1 = "dns_step now1 n r1 s"
  note s1 = dns_first_bad [OF assms(1,3,4), of now1]
  have second_bad: "let s' = dns_step now2 n r2 ?s1 in
       nt_out s' = nt_out s @ map (\<lambda>a. (a, Dns_problem n (fst (dns_reading r2)) (stamp now1), now2)) (nt_recipients s n) \<and>
       list_all snd (nt_owed s' (dns_key n)) \<and> nt_faults s' = [] \<and>
       (\<exists>st. map_of (nt_states s') (dns_key n) = Some st \<and> ns_phase st = phase_open)"
    using dns_second_bad [of ?s1 r2 n _ now2] assms s1
    by (simp add: map_of_update dns_checks_def Let_def list_all_iff)
  then obtain st where "map_of (nt_states (dns_step now2 n r2 ?s1)) (dns_key n) = Some st" "ns_phase st = phase_open"
    by (auto simp: Let_def)
  with second_bad dns_bad_again [OF _ assms(6), of "dns_step now2 n r2 ?s1" n st now3] show ?thesis
    by (simp add: Let_def)
qed

section \<open>The notifier's promises\<close>

definition demo_notifier :: notifier where
  "demo_notifier = \<lparr>nt_enabled = True, nt_states = [], nt_owed = (\<lambda>_. []), nt_recipients = (\<lambda>_. [''u@x.io'', ''v@x.io'']),
     nt_sent_at = [], nt_out = [], nt_faults = [], nt_send_faults = []\<rparr>"

definition demo_dns :: dns_domain where
  "demo_dns = \<lparr>dd_dkim = \<lparr>dr_status = Failing, dr_detail = ''no record''\<rparr>,
     dd_spf = \<lparr>dr_status = Fine, dr_detail = []\<rparr>, dd_dmarc = \<lparr>dr_status = Unknown, dr_detail = []\<rparr>\<rparr>"

definition demo_cert :: certificate where
  "demo_cert = \<lparr>ce_not_after = None, ce_late = None\<rparr>"

text \<open>
  C14. Whatever the passes find and whatever fails, no hour - ending when it may - sees more than
  the ceiling of messages handed to the mail system.
\<close>

theorem hourly_ceiling_holds:
  assumes "notify_run ef h now s"
  shows "out_between (t - hour) t s \<le> hourly_ceiling"
  using notify_run_ceiling [OF assms] by (simp add: ceiling_inv_def)

lemma hourly_ceiling_holds_witness:
  "let s = check (=) ''h'' hour (Some [(''a.io'', Some demo_dns)]) demo_cert None
             (check (=) ''h'' 0 (Some [(''a.io'', Some demo_dns)]) demo_cert None demo_notifier)
   in out_between (hour - hour) hour s \<le> hourly_ceiling \<and> out_between (hour - hour) hour s = 2"
proof -
  let ?s = "check (=) ''h'' hour (Some [(''a.io'', Some demo_dns)]) demo_cert None
              (check (=) ''h'' 0 (Some [(''a.io'', Some demo_dns)]) demo_cert None demo_notifier)"
  have "notify_run (=) ''h'' 0 demo_notifier" by (rule notify_run.Begin) (simp_all add: demo_notifier_def)
  then have "notify_run (=) ''h'' 0 (check (=) ''h'' 0 (Some [(''a.io'', Some demo_dns)]) demo_cert None demo_notifier)"
    by (rule notify_run.Check)
  then have "notify_run (=) ''h'' hour (check (=) ''h'' 0 (Some [(''a.io'', Some demo_dns)]) demo_cert None demo_notifier)"
    by (rule notify_run.Later) (simp add: hour_def minute_def second_def)
  then have "notify_run (=) ''h'' hour ?s" by (rule notify_run.Check)
  from hourly_ceiling_holds [OF this, of hour]
  have "out_between (hour - hour) hour ?s \<le> hourly_ceiling" .
  moreover have "out_between (hour - hour) hour ?s = 2" by code_simp
  ultimately show ?thesis by (simp add: Let_def)
qed

text \<open>
  Two bad checks far enough apart report a DNS problem to every recipient of the domain, in
  the words of the second; a third bad check says nothing more.
\<close>

theorem dns_problem_told_once:
  assumes "nt_faults s = []" "nt_send_faults s = []" "map_of (nt_states s) (dns_key n) = None"
    and "fst (dns_reading r1) \<noteq> []" "fst (dns_reading r2) \<noteq> []" "fst (dns_reading r3) \<noteq> []"
    and "now2 - stamp now1 * second \<ge> dns_apart"
    and "nt_recipients s n \<noteq> []" "length (nt_sent_at s) + length (nt_recipients s n) \<le> hourly_ceiling"
  shows "nt_out (dns_step now3 n r3 (dns_step now2 n r2 (dns_step now1 n r1 s))) =
           nt_out s @ map (\<lambda>a. (a, Dns_problem n (fst (dns_reading r2)) (stamp now1), now2)) (nt_recipients s n)"
  using dns_life [OF assms] .

lemma dns_problem_told_once_witness:
  "nt_out (dns_step (2 * hour) ''a.io'' demo_dns (dns_step hour ''a.io'' demo_dns (dns_step 0 ''a.io'' demo_dns demo_notifier))) =
     nt_out demo_notifier @ map (\<lambda>a. (a, Dns_problem ''a.io'' (fst (dns_reading demo_dns)) (stamp 0), hour))
       (nt_recipients demo_notifier ''a.io'')"
proof -
  have bad: "fst (dns_reading demo_dns) \<noteq> []" by code_simp
  have apart: "hour - stamp 0 * second \<ge> dns_apart" by code_simp
  show ?thesis
    by (rule dns_problem_told_once [OF _ _ _ bad bad bad apart]) (simp_all add: demo_notifier_def hourly_ceiling_def)
qed

text \<open>
  One bad check tells nobody, nor does a second within the time the checks must be apart; and
  for an open problem, one good check tells nobody, nor does a second too soon after the first.
\<close>

theorem dns_quiet:
  assumes "case map_of (nt_states s) (dns_key n) of
       None \<Rightarrow> True
     | Some st \<Rightarrow>
         if ns_phase st = phase_pending
         then fst (dns_reading r) = [] \<or> ns_count st + 1 < dns_checks \<or> now - ns_since st * second < dns_apart
         else fst (dns_reading r) = [] \<and>
              (ns_count st + 1 < dns_checks \<or>
               (ns_count st \<noteq> 0 \<and> (\<exists>x. ns_mark st = Some x \<and> now - x * second < dns_apart)))"
  shows "nt_out (dns_step now n r s) = nt_out s"
  using dns_step_quiet [OF assms] .

lemma dns_quiet_witness:
  "nt_out (dns_step minute ''a.io'' demo_dns (dns_step 0 ''a.io'' demo_dns demo_notifier)) =
   nt_out (dns_step 0 ''a.io'' demo_dns demo_notifier)"
proof (rule dns_quiet)
  have "map_of (nt_states (dns_step 0 ''a.io'' demo_dns demo_notifier)) (dns_key ''a.io'') =
    Some \<lparr>ns_phase = phase_pending, ns_count = 1, ns_mark = None, ns_since = 0, ns_sent = None\<rparr>" by code_simp
  then show "case map_of (nt_states (dns_step 0 ''a.io'' demo_dns demo_notifier)) (dns_key ''a.io'') of
       None \<Rightarrow> True
     | Some st \<Rightarrow>
         if ns_phase st = phase_pending
         then fst (dns_reading demo_dns) = [] \<or> ns_count st + 1 < dns_checks \<or> minute - ns_since st * second < dns_apart
         else fst (dns_reading demo_dns) = [] \<and>
              (ns_count st + 1 < dns_checks \<or>
               (ns_count st \<noteq> 0 \<and> (\<exists>x. ns_mark st = Some x \<and> minute - x * second < dns_apart)))"
    by (simp add: dns_apart_def minute_def second_def)
qed

text \<open>
  Only recipients of a subject's domain are written to: an open subject's follow-up goes to
  those owed it and not yet told, its end to those who were told (to every recipient when who was
  told is not on record).
\<close>

theorem only_those_owed:
  "told now m (set (nt_recipients s d)) s (fst (open_subject now k d m s)) \<and>
   told now m {a \<in> set (nt_recipients s d). (a, False) \<in> set (nt_owed s k)} s (follow_up now k d m s) \<and>
   told now m {a \<in> set (nt_recipients s d). nt_owed s k = [] \<or> (a, True) \<in> set (nt_owed s k)} s
     (fst (closed now k d m s))"
  using open_subject_told follow_up_told closed_told by blast

end
