(* ===== verification/Signing_Keys.thy ===== *)
theory Signing_Keys
  imports Sender_Map "HOL-Library.AList"
begin

text \<open>
  The selector table between the panel and the DKIM signer: \<open>internal/domain/keys.go\<close> writes it
  (\<open>renderSelectors\<close>), \<open>SignKeys\<close> of \<open>internal/milter/sign.go\<close> reads it and finds the key of a
  name. The path of a key is the pair of its directory (a name) and its selector, under the one
  key tree. A key is its content; \<open>parse_key\<close>, an argument, is the PEM and x509 reader of the
  standard library (\<open>None\<close> for its errors). \<open>ul\<close> is \<open>strings.ToLower\<close> past ASCII.
\<close>

section \<open>Names that can be a path\<close>

definition key_forbidden :: string where
  "key_forbidden = [CHR '' '', CHR 0x09, CHR 0x0D, CHR 0x0A, CHR '':'', CHR ''/'', CHR 0x5C]"

datatype key_error = Key_token token_error | Key_dots string string

definition check_key_part :: "string \<Rightarrow> string \<Rightarrow> key_error option" where
  "check_key_part what v =
     (case config_token what v key_forbidden of
        Some e \<Rightarrow> Some (Key_token e)
      | None \<Rightarrow> if trim ''.'' v = [] then Some (Key_dots what v) else None)"

definition assert_config_safe :: "string \<Rightarrow> string \<Rightarrow> key_error option" where
  "assert_config_safe domain_name selector =
     (case check_key_part ''domain'' domain_name of
        Some e \<Rightarrow> Some e
      | None \<Rightarrow> check_key_part ''selector'' selector)"

definition path_token :: "string \<Rightarrow> bool" where
  "path_token v \<longleftrightarrow> v \<noteq> [] \<and> \<not> contains_any v key_forbidden \<and> trim ''.'' v \<noteq> []"

section \<open>The table\<close>

record signing_domain =
  sd_name :: string
  sd_selector :: string

definition selector_line :: "signing_domain \<Rightarrow> string" where
  "selector_line d = sd_name d @ CHR '' '' # sd_selector d @ [newline]"

fun render_sorted :: "signing_domain list \<Rightarrow> key_error + string" where
  "render_sorted [] = Inr []"
| "render_sorted (d # ds) =
     (case assert_config_safe (sd_name d) (sd_selector d) of
        Some e \<Rightarrow> Inl e
      | None \<Rightarrow> (case render_sorted ds of Inl e \<Rightarrow> Inl e | Inr out \<Rightarrow> Inr (selector_line d @ out)))"

definition render_selectors :: "signing_domain list \<Rightarrow> key_error + string" where
  "render_selectors ds = render_sorted (sort_key sd_name ds)"

type_synonym key_path = "string \<times> string"

record key_row =
  kr_selector :: string
  kr_path :: key_path

text \<open>\<open>strings.Cut\<close> at the first space.\<close>

definition cut_space :: "string \<Rightarrow> (string \<times> string) option" where
  "cut_space l = (if CHR '' '' \<in> set l then Some (takeWhile (\<lambda>c. c \<noteq> CHR '' '') l, tl (dropWhile (\<lambda>c. c \<noteq> CHR '' '') l)) else None)"

text \<open>\<open>readTable\<close>, the loop; the error is the number of the line.\<close>

fun read_selectors ::
  "(string \<Rightarrow> string) \<Rightarrow> nat \<Rightarrow> string list \<Rightarrow> (string \<rightharpoonup> key_row) \<Rightarrow> nat + (string \<rightharpoonup> key_row)" where
  "read_selectors ul n [] rows = Inr rows"
| "read_selectors ul n (l # ls) rows =
     (if trim_space l = [] then read_selectors ul (n + 1) ls rows
      else (case cut_space l of
              None \<Rightarrow> Inl n
            | Some (name, selector) \<Rightarrow>
                if \<not> path_token name \<or> \<not> path_token selector then Inl n
                else (let d = to_lower ul name
                      in read_selectors ul (n + 1) ls
                           (rows(d \<mapsto> \<lparr>kr_selector = selector, kr_path = (d, selector)\<rparr>)))))"

definition read_table :: "(string \<Rightarrow> string) \<Rightarrow> string \<Rightarrow> nat + (string \<rightharpoonup> key_row)" where
  "read_table ul content = read_selectors ul 1 (split_on newline content) Map.empty"

section \<open>The signer's keys\<close>

text \<open>
  What the signer sees on the disk at one moment: the table's content, a key file's stamp
  (modification time and size) and the key in it, each \<open>None\<close> when reading it fails.
\<close>

type_synonym file_stamp = "int \<times> nat"

record 'k key_view =
  kv_table :: "string option"
  kv_stat :: "key_path \<Rightarrow> file_stamp option"
  kv_key :: "key_path \<Rightarrow> 'k option"

record 'k sign_keys =
  sk_rows :: "string \<rightharpoonup> key_row"
  sk_keys :: "(key_path \<times> (file_stamp \<times> 'k)) list"

definition new_sign_keys :: "'k sign_keys" where
  "new_sign_keys = \<lparr>sk_rows = Map.empty, sk_keys = []\<rparr>"

datatype lookup_error = Table_unreadable | Table_malformed nat | No_key string | Key_unreadable string

definition named_path :: "(string \<rightharpoonup> key_row) \<Rightarrow> string list \<Rightarrow> key_path \<Rightarrow> bool" where
  "named_path rows names p \<longleftrightarrow> list_ex (\<lambda>n. case rows n of None \<Rightarrow> False | Some r \<Rightarrow> kr_path r = p) names"

text \<open>
  After \<open>readTable\<close> a key in memory is one a row names: the row's path is its name and selector, so
  the row to look at is the one of the path's name.
\<close>

definition sk_read :: "(string \<Rightarrow> string) \<Rightarrow> 'k key_view \<Rightarrow> 'k sign_keys \<Rightarrow> 'k sign_keys \<times> lookup_error option" where
  "sk_read ul v k =
     (case kv_table v of
        None \<Rightarrow> (k, Some Table_unreadable)
      | Some content \<Rightarrow>
          (case read_table ul content of
             Inl n \<Rightarrow> (k, Some (Table_malformed n))
           | Inr rows \<Rightarrow>
               (\<lparr>sk_rows = rows, sk_keys = filter (\<lambda>(p, e). named_path rows [fst p] p) (sk_keys k)\<rparr>, None)))"

definition sk_lookup ::
  "(string \<Rightarrow> string) \<Rightarrow> 'k key_view \<Rightarrow> string \<Rightarrow> 'k sign_keys \<Rightarrow> 'k sign_keys \<times> (lookup_error + string \<times> 'k)" where
  "sk_lookup ul v domain0 k0 =
     (let domain = to_lower ul domain0
      in case sk_read ul v k0 of
           (k, Some e) \<Rightarrow> (k, Inl e)
         | (k, None) \<Rightarrow>
             (case sk_rows k domain of
                None \<Rightarrow> (k, Inl (No_key domain))
              | Some row \<Rightarrow>
                  (case kv_stat v (kr_path row) of
                     None \<Rightarrow> (k, Inl (Key_unreadable domain))
                   | Some st \<Rightarrow>
                       (case map_of (sk_keys k) (kr_path row) of
                          Some (st', key) \<Rightarrow>
                            if st' = st then (k, Inr (kr_selector row, key))
                            else (case kv_key v (kr_path row) of
                                    None \<Rightarrow> (k, Inl (Key_unreadable domain))
                                  | Some key' \<Rightarrow>
                                      (k\<lparr>sk_keys := AList.update (kr_path row) (st, key') (sk_keys k)\<rparr>,
                                       Inr (kr_selector row, key')))
                        | None \<Rightarrow>
                            (case kv_key v (kr_path row) of
                               None \<Rightarrow> (k, Inl (Key_unreadable domain))
                             | Some key' \<Rightarrow>
                                 (k\<lparr>sk_keys := AList.update (kr_path row) (st, key') (sk_keys k)\<rparr>,
                                  Inr (kr_selector row, key')))))))"

section \<open>What one writes the other reads\<close>

lemma check_key_part_None: "check_key_part what v = None \<longleftrightarrow> path_token v"
  by (auto simp: check_key_part_def path_token_def config_token_def)

text \<open>The writer refuses exactly what the reader would not take.\<close>

lemma assert_config_safe_None: "assert_config_safe n s = None \<longleftrightarrow> path_token n \<and> path_token s"
  using check_key_part_None [of "''domain''" n] check_key_part_None [of "''selector''" s]
  by (cases "check_key_part ''domain'' n") (auto simp: assert_config_safe_def)

definition plain_signing :: "signing_domain \<Rightarrow> bool" where
  "plain_signing d \<longleftrightarrow> path_token (sd_name d) \<and> path_token (sd_selector d) \<and>
     list_all visible (sd_name d) \<and> list_all visible (sd_selector d) \<and> ascii_lower (sd_name d) = sd_name d"

lemma path_token_chars: "path_token v \<Longrightarrow> v \<noteq> [] \<and> CHR '' '' \<notin> set v \<and> newline \<notin> set v"
  by (auto simp: path_token_def contains_any_iff key_forbidden_def newline_def)

lemma cut_space_plain: "CHR '' '' \<notin> set n \<Longrightarrow> cut_space (n @ CHR '' '' # s) = Some (n, s)"
  by (induction n) (auto simp: cut_space_def)

lemma visible_ascii: "list_all visible s \<Longrightarrow> is_ascii s"
  by (auto simp: visible_def is_ascii_def is_ascii_char_def list_all_iff)

lemma render_sorted_lines:
  "list_all plain_signing ds \<Longrightarrow>
   render_sorted ds = Inr (concat (map (\<lambda>l. l @ [newline]) (map (\<lambda>d. sd_name d @ CHR '' '' # sd_selector d) ds)))"
proof (induction ds)
  case (Cons d ds)
  then have "assert_config_safe (sd_name d) (sd_selector d) = None"
    by (simp add: assert_config_safe_None plain_signing_def)
  with Cons show ?case by (simp add: selector_line_def)
qed simp

lemma read_selectors_plain:
  "list_all plain_signing ds \<Longrightarrow>
   read_selectors ul n (map (\<lambda>d. sd_name d @ CHR '' '' # sd_selector d) ds @ [[]]) rows =
     Inr (rows ++ map_of (rev (map (\<lambda>d. (sd_name d, \<lparr>kr_selector = sd_selector d, kr_path = (sd_name d, sd_selector d)\<rparr>)) ds)))"
proof (induction ds arbitrary: n rows)
  case Nil
  have "trim_space [] = []" by (simp add: trim_space_def drop_runes_keeps [OF space_runes_invisible(1)]
      drop_runes_keeps [OF space_runes_invisible(2)])
  then show ?case by simp
next
  case (Cons d ds)
  then have p: "plain_signing d" by simp
  let ?l = "sd_name d @ CHR '' '' # sd_selector d"
  have ne: "sd_name d \<noteq> []" "sd_selector d \<noteq> []" using p path_token_chars by (auto simp: plain_signing_def)
  with p have "trim_space ?l = ?l"
    by (intro trim_space_visible) (auto simp: plain_signing_def list_all_iff)
  moreover have "cut_space ?l = Some (sd_name d, sd_selector d)"
    using p path_token_chars by (intro cut_space_plain) (auto simp: plain_signing_def)
  moreover have "to_lower ul (sd_name d) = sd_name d"
    using p visible_ascii by (simp add: plain_signing_def)
  ultimately show ?case using Cons p ne by (simp add: plain_signing_def Let_def map_add_def fun_eq_iff split: option.split)
qed

lemma render_read:
  assumes "list_all plain_signing ds" "distinct (map sd_name ds)"
  shows "\<exists>out rows. render_selectors ds = Inr out \<and> read_table ul out = Inr rows \<and>
    (\<forall>n. rows n = map_option (\<lambda>d. \<lparr>kr_selector = sd_selector d, kr_path = (n, sd_selector d)\<rparr>) (find (\<lambda>d. sd_name d = n) ds))"
proof -
  let ?s = "sort_key sd_name ds"
  let ?ls = "map (\<lambda>d. sd_name d @ CHR '' '' # sd_selector d) ?s"
  let ?out = "concat (map (\<lambda>l. l @ [newline]) ?ls)"
  let ?row = "\<lambda>d. (sd_name d, \<lparr>kr_selector = sd_selector d, kr_path = (sd_name d, sd_selector d)\<rparr>)"
  have p: "list_all plain_signing ?s" using assms(1) by (simp add: list_all_iff)
  have dist: "distinct (map sd_name ?s)" using assms(2) by (simp add: distinct_map)
  have "\<forall>l \<in> set ?ls. newline \<notin> set l"
    using p path_token_chars by (fastforce simp: list_all_iff plain_signing_def newline_def)
  then have "split_on newline ?out = ?ls @ [[]]" by (rule split_on_lines)
  then have r: "read_table ul ?out = Inr (map_of (rev (map ?row ?s)))"
    using read_selectors_plain [OF p, of ul 1 Map.empty] by (simp add: read_table_def)
  have "map_of (rev (map ?row ?s)) = map_of (map ?row ds)"
  proof -
    have k: "map fst (map ?row xs) = map sd_name xs" for xs by simp
    have "map_of (rev (map ?row ?s)) = map_of (map ?row ?s)"
      by (rule map_of_inject_set [THEN iffD2]) (use dist in \<open>simp_all add: rev_map [symmetric] comp_def\<close>)
    also have "\<dots> = map_of (map ?row ds)"
      by (rule map_of_inject_set [THEN iffD2]) (use dist assms(2) in \<open>simp_all add: comp_def\<close>)
    finally show ?thesis .
  qed
  moreover have "map_of (map ?row ds) n =
      map_option (\<lambda>d. \<lparr>kr_selector = sd_selector d, kr_path = (n, sd_selector d)\<rparr>) (find (\<lambda>d. sd_name d = n) ds)" for n
    by (induction ds) auto
  ultimately show ?thesis
    using r render_sorted_lines [OF p] by (auto simp: render_selectors_def)
qed

section \<open>The keys in memory\<close>

text \<open>
  What the disk says of a name now, and the promise of the cache: a key in memory whose file still
  has the stamp it was read with is the key in that file.
\<close>

definition current_key :: "(string \<Rightarrow> string) \<Rightarrow> 'k key_view \<Rightarrow> string \<Rightarrow> (string \<times> 'k) option" where
  "current_key ul v d =
     (case kv_table v of
        None \<Rightarrow> None
      | Some content \<Rightarrow>
          (case read_table ul content of
             Inl n \<Rightarrow> None
           | Inr rows \<Rightarrow>
               (case rows (to_lower ul d) of
                  None \<Rightarrow> None
                | Some r \<Rightarrow> map_option (\<lambda>k. (kr_selector r, k)) (kv_key v (kr_path r)))))"

definition cache_ok :: "'k key_view \<Rightarrow> 'k sign_keys \<Rightarrow> bool" where
  "cache_ok v k \<longleftrightarrow>
     (\<forall>p st key. map_of (sk_keys k) p = Some (st, key) \<longrightarrow> kv_stat v p = Some st \<longrightarrow> kv_key v p = Some key)"

lemma cache_okD:
  "cache_ok v k \<Longrightarrow> map_of (sk_keys k) p = Some (st, key) \<Longrightarrow> kv_stat v p = Some st \<Longrightarrow> kv_key v p = Some key"
  unfolding cache_ok_def by blast

lemma cache_ok_new: "cache_ok v new_sign_keys"
  by (simp add: cache_ok_def new_sign_keys_def)

text \<open>A rewrite of the tree that gives every changed file a new stamp keeps the promise.\<close>

lemma cache_ok_rewrite:
  assumes "cache_ok v k" "\<And>p st. kv_stat v' p = Some st \<Longrightarrow> kv_stat v p = Some st \<Longrightarrow> kv_key v' p = kv_key v p"
    "\<And>p st key. map_of (sk_keys k) p = Some (st, key) \<Longrightarrow> kv_stat v' p = Some st \<Longrightarrow> kv_stat v p = Some st"
  shows "cache_ok v' k"
  using assms unfolding cache_ok_def by metis

lemma map_of_filter_key: "map_of (filter (\<lambda>(p, e). P p) xs) p = (if P p then map_of xs p else None)"
  by (induction xs) auto

lemma sk_read_cache: "cache_ok v k \<Longrightarrow> sk_read ul v k = (k', e) \<Longrightarrow> cache_ok v k'"
  by (auto simp: sk_read_def cache_ok_def map_of_filter_key split: option.splits sum.splits if_splits)

lemma cache_ok_update:
  "cache_ok v k \<Longrightarrow> kv_key v p = Some key \<Longrightarrow> cache_ok v (k\<lparr>sk_keys := AList.update p (st, key) (sk_keys k)\<rparr>)"
  by (auto simp: cache_ok_def update_conv')

lemma sk_read_rows:
  "sk_read ul v k = (k', None) \<Longrightarrow> \<exists>content. kv_table v = Some content \<and> read_table ul content = Inr (sk_rows k')"
  by (auto simp: sk_read_def split: option.splits sum.splits)

lemma sk_lookup_cache: "cache_ok v k \<Longrightarrow> cache_ok v (fst (sk_lookup ul v d k))"
  using sk_read_cache [of v k ul]
  by (auto simp: sk_lookup_def Let_def cache_ok_update split: prod.splits option.splits)

lemma sk_lookup_current:
  assumes "cache_ok v k" "sk_lookup ul v d k = (k', Inr x)"
  shows "current_key ul v d = Some x"
proof -
  obtain k1 where r: "sk_read ul v k = (k1, None)"
    using assms(2) by (cases "sk_read ul v k"; cases "snd (sk_read ul v k)") (auto simp: sk_lookup_def Let_def)
  note c = sk_read_cache [OF assms(1) r]
  from sk_read_rows [OF r] obtain content where t: "kv_table v = Some content" "read_table ul content = Inr (sk_rows k1)" by blast
  show ?thesis
    using assms(2) r t
    by (auto simp: sk_lookup_def current_key_def Let_def split: option.splits if_splits dest: cache_okD [OF c])
qed

text \<open>What the signer's session asks of its keys.\<close>

locale key_source =
  fixes sound :: "'s \<Rightarrow> bool"
    and current :: "string \<Rightarrow> (string \<times> 'k) option"
    and get :: "string \<Rightarrow> 's \<Rightarrow> 's \<times> ('e + string \<times> 'k)"
  assumes get_sound: "sound k \<Longrightarrow> sound (fst (get d k))"
    and get_current: "sound k \<Longrightarrow> get d k = (k', Inr x) \<Longrightarrow> current d = Some x"
begin

lemma gets_sound: "sound k \<Longrightarrow> sound (foldl (\<lambda>k d. fst (get d k)) k ds)"
  by (induction ds arbitrary: k) (auto intro: get_sound)

text \<open>Whatever was looked up before, an answer is the current key.\<close>

lemma later_current: "sound k \<Longrightarrow> get d (foldl (\<lambda>k d. fst (get d k)) k ds) = (k', Inr x) \<Longrightarrow> current d = Some x"
  using gets_sound get_current by blast

end

interpretation ks: key_source "cache_ok v" "current_key ul v" "sk_lookup ul v" for ul v
  by unfold_locales (auto intro: sk_lookup_cache sk_lookup_current)

text \<open>
  C10. The selector table the panel writes the signer reads back: each name with its selector and
  the key of that selector in its own directory, no other name.
\<close>

theorem selector_table_round_trip:
  assumes "list_all plain_signing ds" "distinct (map sd_name ds)"
  shows "\<exists>out rows. render_selectors ds = Inr out \<and> read_table ul out = Inr rows \<and>
    (\<forall>n. rows n = map_option (\<lambda>d. \<lparr>kr_selector = sd_selector d, kr_path = (n, sd_selector d)\<rparr>) (find (\<lambda>d. sd_name d = n) ds))"
  using render_read [OF assms] .

lemma selector_table_round_trip_witness:
  "\<exists>out rows. render_selectors [\<lparr>sd_name = ''b.io'', sd_selector = ''s1''\<rparr>, \<lparr>sd_name = ''a.io'', sd_selector = ''s2''\<rparr>] = Inr out \<and>
     read_table id out = Inr rows \<and>
     (\<forall>n. rows n = map_option (\<lambda>d. \<lparr>kr_selector = sd_selector d, kr_path = (n, sd_selector d)\<rparr>)
        (find (\<lambda>d. sd_name d = n) [\<lparr>sd_name = ''b.io'', sd_selector = ''s1''\<rparr>, \<lparr>sd_name = ''a.io'', sd_selector = ''s2''\<rparr>]))"
  by (rule selector_table_round_trip) code_simp+

text \<open>
  The writer of the table refuses exactly the names and selectors its reader would refuse; so
  a table the panel wrote never stops the signer.
\<close>

theorem table_guards_agree:
  "assert_config_safe n s = None \<longleftrightarrow> path_token n \<and> path_token s"
  by (rule assert_config_safe_None)



end
