(* ===== verification/Domain_Service.thy ===== *)
theory Domain_Service
  imports App_Service Signing_Keys
begin

text \<open>
  The domain service (\<open>internal/domain/service.go\<close>, \<open>transfer.go\<close>, \<open>keys.go\<close>): the sending domains
  in the registry together with the DKIM keys on disk, the selector table, and - through the
  application service - the SASL accounts and the sender map.

  \<open>site\<close> is the world of the application service with the key tree (\<open>st_keys\<close>: each directory with
  its files, by selector) and the selector table. A step on the disk, and the generation of a key,
  is a command that may fail, as the world's fault list says. Arguments: \<open>srv\<close> the server's own
  name ("" for none), \<open>dflt\<close> the default selector, \<open>gen\<close> the key a generation would give,
  \<open>rsa\<close> the PEM and PKCS#1 reader of the standard library (the key as it is written back, and its
  bits; \<open>None\<close> for its errors), \<open>pub\<close> the public key of a key file in base64.
\<close>

record site =
  st_world :: world
  st_keys :: "(string \<times> (string \<times> string) list) list"
  st_table :: "string option"

datatype site_error =
    App_failed app_error
  | Key_bad key_error
  | Disk_failed
  | Import_bad string
  | No_hostname
  | Incomplete string "site_error list"

type_synonym 'a site_op = "site \<Rightarrow> site \<times> (site_error + 'a)"

definition in_app :: "'a op \<Rightarrow> 'a site_op" where
  "in_app f s =
     (case f (st_world s) of
        (w, Inl e) \<Rightarrow> (s\<lparr>st_world := w\<rparr>, Inl (App_failed e))
      | (w, Inr x) \<Rightarrow> (s\<lparr>st_world := w\<rparr>, Inr x))"

definition disk :: "(site \<Rightarrow> site) \<Rightarrow> unit site_op" where
  "disk f s =
     (case w_faults (st_world s) of
        [] \<Rightarrow> (f s, Inr ())
      | True # fs \<Rightarrow> (s\<lparr>st_world := (st_world s)\<lparr>w_faults := fs\<rparr>\<rparr>, Inl Disk_failed)
      | False # fs \<Rightarrow> (f (s\<lparr>st_world := (st_world s)\<lparr>w_faults := fs\<rparr>\<rparr>), Inr ()))"

definition fails :: "site_error \<Rightarrow> 'a site_op" where
  "fails e s = (s, Inl e)"

definition returns :: "'a \<Rightarrow> 'a site_op" where
  "returns x s = (s, Inr x)"

section \<open>Keys on disk\<close>

definition key_dir :: "string \<Rightarrow> site \<Rightarrow> (string \<times> string) list" where
  "key_dir n s = (case map_of (st_keys s) n of None \<Rightarrow> [] | Some d \<Rightarrow> d)"

definition key_at :: "string \<Rightarrow> string \<Rightarrow> site \<Rightarrow> string option" where
  "key_at n sel s = map_of (key_dir n s) sel"

definition make_dir :: "string \<Rightarrow> site \<Rightarrow> site" where
  "make_dir n s = s\<lparr>st_keys := AList.update n (key_dir n s) (st_keys s)\<rparr>"

definition put_key :: "string \<Rightarrow> string \<Rightarrow> string \<Rightarrow> site \<Rightarrow> site" where
  "put_key n sel k s = s\<lparr>st_keys := AList.update n (AList.update sel k (key_dir n s)) (st_keys s)\<rparr>"

definition guarded :: "string \<Rightarrow> string \<Rightarrow> 'a site_op \<Rightarrow> 'a site_op" where
  "guarded n sel f = (case assert_config_safe n sel of Some e \<Rightarrow> fails (Key_bad e) | None \<Rightarrow> f)"

definition ensure_key :: "(string \<Rightarrow> string \<Rightarrow> string) \<Rightarrow> string \<Rightarrow> string \<Rightarrow> bool site_op" where
  "ensure_key gen n sel = guarded n sel
     (andthen (disk id) (\<lambda>_ s.
        if key_at n sel s \<noteq> None then (s, Inr False)
        else andthen (disk (make_dir n)) (\<lambda>_.
               andthen (disk id) (\<lambda>_.
                 andthen (disk (put_key n sel (gen n sel))) (\<lambda>_. returns True))) s))"

definition remove_key :: "string \<Rightarrow> unit site_op" where
  "remove_key n = guarded n ''x'' (disk (\<lambda>s. s\<lparr>st_keys := AList.delete n (st_keys s)\<rparr>))"

definition key_domains :: "(string list) site_op" where
  "key_domains = andthen (disk id) (\<lambda>_ s. (s, Inr (sort (map fst (st_keys s)))))"

definition load_key :: "(string \<Rightarrow> (string \<times> nat) option) \<Rightarrow> string \<Rightarrow> string \<Rightarrow> string site_op" where
  "load_key rsa n sel = andthen (disk id) (\<lambda>_ s.
     case key_at n sel s of
       None \<Rightarrow> (s, Inl Disk_failed)
     | Some k \<Rightarrow> (case rsa k of None \<Rightarrow> (s, Inl (Import_bad n)) | Some (k', bits) \<Rightarrow> (s, Inr k')))"

definition export_key :: "(string \<Rightarrow> (string \<times> nat) option) \<Rightarrow> string \<Rightarrow> string \<Rightarrow> string site_op" where
  "export_key rsa n sel = guarded n sel (load_key rsa n sel)"

definition min_import_key_bits :: nat where "min_import_key_bits = 1024"

definition max_import_key_bits :: nat where "max_import_key_bits = 4096"

definition import_key ::
  "(string \<Rightarrow> (string \<times> nat) option) \<Rightarrow> string \<Rightarrow> string \<Rightarrow> string \<Rightarrow> unit site_op" where
  "import_key rsa n sel pem = guarded n sel
     (case rsa pem of
        None \<Rightarrow> fails (Import_bad n)
      | Some (k, bits) \<Rightarrow>
          if bits < min_import_key_bits \<or> bits > max_import_key_bits then fails (Import_bad n)
          else andthen (disk (make_dir n)) (\<lambda>_. disk (put_key n sel k)))"

record dkim_record =
  dk_name :: string
  dk_value :: string

definition record_of :: "(string \<Rightarrow> string) \<Rightarrow> string \<Rightarrow> string \<Rightarrow> string \<Rightarrow> dkim_record" where
  "record_of pub sel n k =
     \<lparr>dk_name = sel @ ''._domainkey.'' @ n, dk_value = ''v=DKIM1; h=sha256; k=rsa; p='' @ pub k\<rparr>"

definition key_record ::
  "(string \<Rightarrow> (string \<times> nat) option) \<Rightarrow> (string \<Rightarrow> string) \<Rightarrow> string \<Rightarrow> string \<Rightarrow> dkim_record site_op" where
  "key_record rsa pub n sel = andthen (load_key rsa n sel) (\<lambda>k. returns (record_of pub sel n k))"

definition rebuild :: "signing_domain list \<Rightarrow> unit site_op" where
  "rebuild ds =
     (case render_selectors ds of
        Inl e \<Rightarrow> fails (Key_bad e)
      | Inr table \<Rightarrow> disk (\<lambda>s. s\<lparr>st_table := Some table\<rparr>))"

section \<open>The service\<close>

definition signing_of :: "domain_row list \<Rightarrow> signing_domain list" where
  "signing_of ds = map (\<lambda>d. \<lparr>sd_name = d_name d, sd_selector = d_selector d\<rparr>) ds"

text \<open>\<open>resync\<close>: the table from the registry, and the server's own name unless it is a domain.\<close>

definition resync_table :: "string \<Rightarrow> string \<Rightarrow> (string \<Rightarrow> string \<Rightarrow> string) \<Rightarrow> unit site_op" where
  "resync_table srv dflt gen =
     andthen (in_app (on_db list_domains)) (\<lambda>ds.
       if srv \<noteq> [] \<and> \<not> list_ex (\<lambda>d. d_name d = srv) ds then
         andthen (ensure_key gen srv dflt) (\<lambda>_.
           rebuild (signing_of ds @ [\<lparr>sd_name = srv, sd_selector = dflt\<rparr>]))
       else rebuild (signing_of ds))"

definition write_selectors :: "string \<Rightarrow> string \<Rightarrow> (string \<Rightarrow> string \<Rightarrow> string) \<Rightarrow> unit site_op" where
  "write_selectors = resync_table"

definition server_selector :: "string \<Rightarrow> string \<Rightarrow> string site_op" where
  "server_selector srv dflt =
     andthen (in_app (on_db list_domains)) (\<lambda>ds.
       returns (case find (\<lambda>d. d_name d = srv) ds of Some d \<Rightarrow> d_selector d | None \<Rightarrow> dflt))"

definition server_mail ::
  "(string \<Rightarrow> (string \<times> nat) option) \<Rightarrow> (string \<Rightarrow> string) \<Rightarrow> string \<Rightarrow> string \<Rightarrow> (string \<Rightarrow> string \<Rightarrow> string) \<Rightarrow>
   (string \<times> string \<times> dkim_record) site_op" where
  "server_mail rsa pub srv dflt gen =
     (if srv = [] then fails No_hostname
      else andthen (server_selector srv dflt) (\<lambda>sel.
             andthen (ensure_key gen srv sel) (\<lambda>_.
               andthen (key_record rsa pub srv sel) (\<lambda>r. returns (srv, sel, r)))))"

definition rollback_add :: "nat \<Rightarrow> site \<Rightarrow> site" where
  "rollback_add i s = quietly (in_app (on_db (delete_domain i))) s"

definition add_sending ::
  "string \<Rightarrow> string \<Rightarrow> (string \<Rightarrow> string \<Rightarrow> string) \<Rightarrow> int \<Rightarrow> string \<Rightarrow> domain_row site_op" where
  "add_sending srv dflt gen now name =
     andthen (in_app (on_db (add_domain now name dflt))) (\<lambda>d s.
       case ensure_key gen (d_name d) (d_selector d) s of
         (s1, Inl e) \<Rightarrow> (rollback_add (d_id d) s1, Inl e)
       | (s1, Inr _) \<Rightarrow>
           (case resync_table srv dflt gen s1 of
              (s2, Inl e) \<Rightarrow> (rollback_add (d_id d) s2, Inl e)
            | (s2, Inr _) \<Rightarrow> (s2, Inr d)))"

definition error_list :: "site_error + unit \<Rightarrow> site_error list" where
  "error_list r = (case r of Inl e \<Rightarrow> [e] | Inr _ \<Rightarrow> [])"

text \<open>What runs once the domain's row is gone, each whatever the others do.\<close>

definition after_delete ::
  "(string \<Rightarrow> string) \<Rightarrow> string \<Rightarrow> string \<Rightarrow> (string \<Rightarrow> string \<Rightarrow> string) \<Rightarrow> domain_row \<Rightarrow> unit site_op" where
  "after_delete ul srv dflt gen d s =
     (let (s1, r1) = resync_table srv dflt gen s;
          (s2, r2) = in_app (resync ul) s1;
          (s3, r3) = (if d_name d \<noteq> srv \<and> r1 = Inr () then remove_key (d_name d) s2 else (s2, Inr ()));
          errs = error_list r1 @ error_list r2 @ error_list r3
      in (s3, if errs = [] then Inr () else Inl (Incomplete (d_name d) errs)))"

definition delete_sending ::
  "(string \<Rightarrow> string) \<Rightarrow> string \<Rightarrow> string \<Rightarrow> (string \<Rightarrow> string \<Rightarrow> string) \<Rightarrow> nat \<Rightarrow> unit site_op" where
  "delete_sending ul srv dflt gen i =
     andthen (in_app (on_db (get_domain i))) (\<lambda>d.
       andthen (in_app (purge_domain_sasl i)) (\<lambda>_.
         andthen (in_app (on_db (delete_rate_limits_for_domain i))) (\<lambda>_.
           andthen (in_app (on_db (delete_domain i))) (\<lambda>_. after_delete ul srv dflt gen d))))"

fun remove_keys :: "string list \<Rightarrow> string list \<Rightarrow> unit site_op" where
  "remove_keys keep [] s = (s, Inr ())"
| "remove_keys keep (n # ns) s =
     (if n \<in> set keep then remove_keys keep ns s else andthen (remove_key n) (\<lambda>_. remove_keys keep ns) s)"

definition resync_domains :: "string \<Rightarrow> string \<Rightarrow> (string \<Rightarrow> string \<Rightarrow> string) \<Rightarrow> unit site_op" where
  "resync_domains srv dflt gen =
     andthen (resync_table srv dflt gen) (\<lambda>_.
       andthen (in_app (on_db list_domains)) (\<lambda>ds.
         andthen key_domains (\<lambda>names. remove_keys (srv # map d_name ds) names)))"

definition save_domain_limit :: "nat \<Rightarrow> rate_limit \<Rightarrow> unit site_op" where
  "save_domain_limit i r = in_app (on_db (set_rate_limit (r\<lparr>rl_scope := Scope_domain, rl_ref := i\<rparr>)))"

definition clear_domain_limit :: "nat \<Rightarrow> unit site_op" where
  "clear_domain_limit i = in_app (on_db (delete_rate_limit Scope_domain i))"

section \<open>Moving a domain between servers\<close>

text \<open>
  \<open>transfer.go\<close>: the file as a value (its JSON is the library's). A limit's mode of "" is
  \<open>None\<close>.
\<close>

definition format_domain_export :: string where "format_domain_export = ''selfpost-domain-export''"

record rate_limit_export =
  rx_mode :: "limit_mode option"
  rx_max :: int
  rx_window :: int
  rx_multiplier :: rat
  rx_allowed_ips :: "string list"

record app_export =
  ax_login :: string
  ax_mode :: string
  ax_addresses :: "string list"
  ax_password :: string
  ax_restrict :: bool
  ax_allowed_ips :: "string list"
  ax_limit :: "rate_limit_export option"

record domain_export =
  de_format :: string
  de_domain :: string
  de_selector :: string
  de_key :: string
  de_rua :: string
  de_limit :: "rate_limit_export option"
  de_apps :: "app_export list"

definition export_rate_limit :: "rate_limit \<Rightarrow> rate_limit_export" where
  "export_rate_limit r =
     \<lparr>rx_mode = Some (rl_mode r), rx_max = rl_max r, rx_window = rl_window r, rx_multiplier = rl_multiplier r,
      rx_allowed_ips = []\<rparr>"

definition mode_string :: "address_mode \<Rightarrow> string" where
  "mode_string m = (case m of Wildcard \<Rightarrow> ''wildcard'' | Address_list \<Rightarrow> ''list'')"

definition sasl_secret :: "string \<Rightarrow> string op" where
  "sasl_secret login w =
     (case validate_login login of
        Some e \<Rightarrow> (w, Inl (Invalid e))
      | None \<Rightarrow>
          andthen (command id) (\<lambda>_ w.
            case w_sasl w login of None \<Rightarrow> (w, Inl Command_failed) | Some p \<Rightarrow> (w, Inr p)) w)"

fun export_apps :: "application list \<Rightarrow> (app_export list) site_op" where
  "export_apps [] s = (s, Inr [])"
| "export_apps (a # as) s =
     andthen (in_app (sasl_secret (ap_login a))) (\<lambda>pw.
       andthen (in_app (on_db (get_rate_limit Scope_app (ap_id a)))) (\<lambda>rl.
         andthen (export_apps as) (\<lambda>xs. returns
           (\<lparr>ax_login = ap_login a, ax_mode = mode_string (ap_mode a), ax_addresses = ap_addresses a, ax_password = pw,
             ax_restrict = ap_restrict a, ax_allowed_ips = ap_ips a, ax_limit = map_option export_rate_limit rl\<rparr> # xs)))) s"

definition export_domain :: "(string \<Rightarrow> (string \<times> nat) option) \<Rightarrow> nat \<Rightarrow> domain_export site_op" where
  "export_domain rsa i =
     andthen (in_app (on_db (get_domain i))) (\<lambda>d.
       andthen (export_key rsa (d_name d) (d_selector d)) (\<lambda>pem.
         andthen (in_app (on_db (list_applications_by_domain i))) (\<lambda>apps.
           andthen (in_app (on_db (get_rate_limit Scope_domain i))) (\<lambda>rl.
             andthen (export_apps apps) (\<lambda>xs. returns
               \<lparr>de_format = format_domain_export, de_domain = d_name d, de_selector = d_selector d, de_key = pem,
                de_rua = d_rua d, de_limit = map_option export_rate_limit rl, de_apps = xs\<rparr>)))))"

definition import_rate_limit :: "scope \<Rightarrow> nat \<Rightarrow> rate_limit_export \<Rightarrow> unit site_op" where
  "import_rate_limit sc ref x =
     (let m = (case rx_mode x of None \<Rightarrow> Mode_manual | Some m \<Rightarrow> m);
          r = \<lparr>rl_scope = sc, rl_ref = ref, rl_max = rx_max x, rl_window = rx_window x, rl_mode = m,
               rl_multiplier = rx_multiplier x, rl_updated = None\<rparr>
      in if m = Mode_manual \<and> rl_max r \<le> 0 \<and> rl_window r \<le> 0 then returns ()
         else in_app (on_db (set_rate_limit r)))"

definition get_application_by_login :: "string \<Rightarrow> application db_op" where
  "get_application_by_login login = db_step (\<lambda>s.
     case find_login login s of None \<Rightarrow> (s, Inl Application_not_found) | Some a \<Rightarrow> (s, Inr (scan_application a)))"

text \<open>One application of the file; a legacy file has its addresses of clients with the limit.\<close>

definition import_app :: "(string \<Rightarrow> string) \<Rightarrow> int \<Rightarrow> nat \<Rightarrow> app_export \<Rightarrow> unit site_op" where
  "import_app ul now did a =
     andthen (in_app (import_application ul now did (ax_login a) (ax_mode a) (ax_addresses a) (ax_password a))) (\<lambda>_.
       (let (restrict, ips) =
              (case ax_limit a of
                 Some x \<Rightarrow> if rx_allowed_ips x \<noteq> [] then (True, rx_allowed_ips x) else (ax_restrict a, ax_allowed_ips a)
               | None \<Rightarrow> (ax_restrict a, ax_allowed_ips a));
            need_ips = (restrict \<or> ips \<noteq> [])
        in if \<not> need_ips \<and> ax_limit a = None then returns ()
           else andthen (in_app (on_db (get_application_by_login (ax_login a)))) (\<lambda>app.
                  andthen (if need_ips then in_app (on_db (update_application_auth_ips (ap_id app) restrict ips)) else returns ()) (\<lambda>_.
                    case ax_limit a of None \<Rightarrow> returns () | Some x \<Rightarrow> import_rate_limit Scope_app (ap_id app) x))))"

fun import_apps :: "(string \<Rightarrow> string) \<Rightarrow> int \<Rightarrow> nat \<Rightarrow> app_export list \<Rightarrow> unit site_op" where
  "import_apps ul now did [] s = (s, Inr ())"
| "import_apps ul now did (a # as) s = andthen (import_app ul now did a) (\<lambda>_. import_apps ul now did as) s"

text \<open>Everything after the domain's row; a failure anywhere in it is rolled back.\<close>

definition import_rest ::
  "(string \<Rightarrow> string) \<Rightarrow> (string \<Rightarrow> (string \<times> nat) option) \<Rightarrow> string \<Rightarrow> string \<Rightarrow> (string \<Rightarrow> string \<Rightarrow> string) \<Rightarrow>
   int \<Rightarrow> domain_export \<Rightarrow> domain_row \<Rightarrow> domain_row site_op" where
  "import_rest ul rsa srv dflt gen now x d =
     andthen (import_key rsa (d_name d) (d_selector d) (de_key x)) (\<lambda>_.
       andthen (resync_table srv dflt gen) (\<lambda>_.
         andthen (if de_rua x \<noteq> [] then in_app (on_db (set_domain_dmarc_address (d_id d) (de_rua x))) else returns ()) (\<lambda>_.
           andthen (case de_limit x of None \<Rightarrow> returns () | Some r \<Rightarrow> import_rate_limit Scope_domain (d_id d) r) (\<lambda>_.
             andthen (import_apps ul now (d_id d) (de_apps x)) (\<lambda>_.
               andthen (in_app (resync ul)) (\<lambda>_.
                 returns (if de_rua x \<noteq> [] then d\<lparr>d_rua := de_rua x\<rparr> else d)))))))"

definition import_domain ::
  "(string \<Rightarrow> string) \<Rightarrow> (string \<Rightarrow> (string \<times> nat) option) \<Rightarrow> string \<Rightarrow> string \<Rightarrow> (string \<Rightarrow> string \<Rightarrow> string) \<Rightarrow>
   int \<Rightarrow> domain_export \<Rightarrow> domain_row site_op" where
  "import_domain ul rsa srv dflt gen now x =
     (if de_format x \<noteq> format_domain_export then fails (Import_bad (de_format x))
      else guarded (de_domain x) (de_selector x)
        (andthen (in_app (on_db (add_domain now (de_domain x) (de_selector x)))) (\<lambda>d s.
           case import_rest ul rsa srv dflt gen now x d s of
             (s', Inl e) \<Rightarrow> (quietly (delete_sending ul srv dflt gen (d_id d)) s', Inl e)
           | (s', Inr d') \<Rightarrow> (s', Inr d'))))"

section \<open>Rules for the steps\<close>

lemma triple_disk:
  assumes "\<And>s. P s \<Longrightarrow> P (f s)" "\<And>s fs. P s \<Longrightarrow> P (s\<lparr>st_world := (st_world s)\<lparr>w_faults := fs\<rparr>\<rparr>)"
  shows "triple P (disk f) (\<lambda>_. P) P"
  using assms by (auto simp: triple_def disk_def split: list.splits bool.splits)

lemma triple_in_app:
  assumes "triple Q f (\<lambda>_. Q) Q" "\<And>s. P s \<Longrightarrow> Q (st_world s)" "\<And>s w. P s \<Longrightarrow> Q w \<Longrightarrow> P (s\<lparr>st_world := w\<rparr>)"
  shows "triple P (in_app f) (\<lambda>_. P) P"
  using assms by (fastforce simp: triple_def in_app_def split: prod.splits sum.splits)

lemma triple_true: "triple (\<lambda>_. True) f (\<lambda>_ _. True) (\<lambda>_. True)"
  by (auto simp: triple_def split: prod.splits sum.splits)

lemma triple_returns: "triple P (returns x) (\<lambda>_. P) P" and triple_fails: "triple P (fails e) (\<lambda>_. P) P"
  by (simp_all add: triple_def returns_def fails_def)

lemma triple_guarded: "triple P f (\<lambda>_. P) P \<Longrightarrow> triple P (guarded n sel f) (\<lambda>_. P) P"
  by (auto simp: guarded_def triple_fails split: option.split)

lemma triple_keeps_andthen: "triple P f (\<lambda>_. P) P \<Longrightarrow> (\<And>x. triple P (g x) (\<lambda>_. P) P) \<Longrightarrow> triple P (andthen f g) (\<lambda>_. P) P"
  by (rule triple_andthen)

lemma triple_keepsD: "triple P f (\<lambda>_. P) P \<Longrightarrow> P s \<Longrightarrow> P (fst (f s))"
  by (cases "f s"; cases "snd (f s)") (force simp: triple_def)+

lemma triple_keepsI: "(\<And>s. P s \<Longrightarrow> P (fst (f s))) \<Longrightarrow> triple P f (\<lambda>_. P) P"
  by (auto simp: triple_def split: prod.splits sum.splits) (metis fst_conv)+

section \<open>A key once made stays\<close>

text \<open>A key that is on disk is left as it is by everything but a deletion and an import.\<close>

abbreviation has_key :: "string \<Rightarrow> string \<Rightarrow> string \<Rightarrow> site \<Rightarrow> bool" where
  "has_key n sel k s \<equiv> key_at n sel s = Some k"

lemma key_at_world [simp]: "key_at n sel (s\<lparr>st_world := w\<rparr>) = key_at n sel s" "key_at n sel (s\<lparr>st_table := t\<rparr>) = key_at n sel s"
  by (simp_all add: key_at_def key_dir_def)

lemma key_at_make_dir [simp]: "key_at n sel (make_dir n' s) = key_at n sel s"
  by (simp add: key_at_def key_dir_def make_dir_def update_conv')

lemma key_at_put [simp]: "key_at n sel (put_key n' sel' k s) = (if n = n' \<and> sel = sel' then Some k else key_at n sel s)"
  by (simp add: key_at_def key_dir_def put_key_def update_conv')

lemma in_app_has_key: "triple (has_key n sel k) (in_app f) (\<lambda>_. has_key n sel k) (has_key n sel k)"
  by (rule triple_in_app [OF triple_true]) simp_all

lemma triple_if:
  "(\<And>s. P s \<Longrightarrow> c s \<Longrightarrow> P (fst (g s))) \<Longrightarrow> triple (\<lambda>s. P s \<and> \<not> c s) f (\<lambda>_. P) P \<Longrightarrow>
   triple P (\<lambda>s. if c s then g s else f s) (\<lambda>_. P) P"
  by (fastforce simp: triple_def split: prod.splits sum.splits)

lemma ensure_key_has_key: "triple (has_key n sel k) (ensure_key gen n' sel') (\<lambda>_. has_key n sel k) (has_key n sel k)"
proof -
  let ?P = "\<lambda>s. has_key n sel k s \<and> \<not> key_at n' sel' s \<noteq> None"
  have step: "triple ?P (disk f) (\<lambda>_. ?P) (has_key n sel k)" if "\<And>s. ?P s \<Longrightarrow> ?P (f s)" for f
    by (rule triple_weaken [OF triple_disk [where P = ?P, OF that]]) simp_all
  have put: "triple ?P (disk (put_key n' sel' (gen n' sel'))) (\<lambda>_. has_key n sel k) (has_key n sel k)"
    by (auto simp: triple_def disk_def split: list.splits bool.splits)
  have "triple ?P (andthen (disk (make_dir n')) (\<lambda>_. andthen (disk id) (\<lambda>_.
      andthen (disk (put_key n' sel' (gen n' sel'))) (\<lambda>_. returns True)))) (\<lambda>_. has_key n sel k) (has_key n sel k)"
    by (rule triple_andthen [OF step triple_andthen [OF step triple_andthen [OF put triple_returns]]]) simp_all
  then show ?thesis
    unfolding ensure_key_def
    by (intro triple_guarded triple_keeps_andthen triple_disk triple_if) auto
qed

lemma rebuild_has_key: "triple (has_key n sel k) (rebuild ds) (\<lambda>_. has_key n sel k) (has_key n sel k)"
  by (auto simp: rebuild_def triple_fails split: sum.split intro!: triple_disk)

lemma resync_table_has_key: "triple (has_key n sel k) (resync_table srv dflt gen) (\<lambda>_. has_key n sel k) (has_key n sel k)"
  unfolding resync_table_def
  by (auto intro!: triple_keeps_andthen in_app_has_key ensure_key_has_key rebuild_has_key)

lemma load_key_keeps: "triple (has_key n sel k) (load_key rsa n' sel') (\<lambda>_. has_key n sel k) (has_key n sel k)"
  unfolding load_key_def
  by (intro triple_keeps_andthen triple_disk) (auto intro!: triple_keepsI split: option.split)

lemma server_mail_has_key: "triple (has_key n sel k) (server_mail rsa pub srv dflt gen) (\<lambda>_. has_key n sel k) (has_key n sel k)"
  unfolding server_mail_def server_selector_def key_record_def
  by (auto intro!: triple_keeps_andthen in_app_has_key ensure_key_has_key load_key_keeps triple_fails triple_returns)

lemma add_sending_has_key: "triple (has_key n sel k) (add_sending srv dflt gen now name) (\<lambda>_. has_key n sel k) (has_key n sel k)"
  unfolding add_sending_def
proof (rule triple_keeps_andthen [OF in_app_has_key], rule triple_keepsI)
  fix d s
  assume s: "has_key n sel k s"
  have r: "has_key n sel k (rollback_add i s)" if "has_key n sel k s" for i s
    unfolding rollback_add_def by (rule quietly_keeps [OF in_app_has_key that])
  obtain s1 r1 where 1: "ensure_key gen (d_name d) (d_selector d) s = (s1, r1)" by (cases "ensure_key gen (d_name d) (d_selector d) s")
  with triple_keepsD [OF ensure_key_has_key s] have s1: "has_key n sel k s1" by (metis fst_conv)
  obtain s2 r2 where 2: "resync_table srv dflt gen s1 = (s2, r2)" by (cases "resync_table srv dflt gen s1")
  with triple_keepsD [OF resync_table_has_key s1] have "has_key n sel k s2" by (metis fst_conv)
  with s1 1 2 r show "has_key n sel k (fst (case ensure_key gen (d_name d) (d_selector d) s of
         (s1, Inl e) \<Rightarrow> (rollback_add (d_id d) s1, Inl e)
       | (s1, Inr _) \<Rightarrow>
           (case resync_table srv dflt gen s1 of
              (s2, Inl e) \<Rightarrow> (rollback_add (d_id d) s2, Inl e)
            | (s2, Inr _) \<Rightarrow> (s2, Inr d))))"
    by (cases r1; cases r2) simp_all
qed

section \<open>The registry stays well-formed\<close>

abbreviation site_wf :: "site \<Rightarrow> bool" where
  "site_wf s \<equiv> wf (st_world s)"

abbreviation keeps_site :: "'a site_op \<Rightarrow> bool" where
  "keeps_site f \<equiv> triple site_wf f (\<lambda>_. site_wf) site_wf"

lemma in_app_wf: "keeps_wf f \<Longrightarrow> keeps_site (in_app f)"
  by (rule triple_in_app) simp_all

lemma in_app_db_wf: "(\<And>s. wf_db s \<Longrightarrow> wf_db (fst (f s))) \<Longrightarrow> keeps_site (in_app (on_db f))"
  by (rule in_app_wf [OF on_db_wf])

lemma disk_wf: "(\<And>s. st_world (f s) = st_world s) \<Longrightarrow> keeps_site (disk f)"
  by (rule triple_disk) simp_all

lemma site_ops_wf:
  "keeps_site (ensure_key gen n sel)" "keeps_site (remove_key n)" "keeps_site key_domains" "keeps_site (load_key rsa n sel)"
  "keeps_site (import_key rsa n sel pem)" "keeps_site (rebuild ds)"
proof -
  have w: "st_world (make_dir n s) = st_world s" "st_world (put_key n sel k s) = st_world s" for n s sel k
    by (simp_all add: make_dir_def put_key_def)
  show "keeps_site (ensure_key gen n sel)"
    unfolding ensure_key_def
    by (intro triple_guarded triple_keeps_andthen disk_wf triple_if)
      (auto intro!: triple_weaken [OF triple_keeps_andthen [where P = site_wf]] triple_keeps_andthen disk_wf triple_returns simp: w)
  show "keeps_site (remove_key n)" unfolding remove_key_def by (intro triple_guarded disk_wf) simp
  show "keeps_site key_domains" unfolding key_domains_def
    by (intro triple_keeps_andthen disk_wf) (auto intro: triple_keepsI)
  show "keeps_site (load_key rsa n sel)" unfolding load_key_def
    by (intro triple_keeps_andthen disk_wf) (auto intro!: triple_keepsI split: option.split)
  show "keeps_site (import_key rsa n sel pem)" unfolding import_key_def
    by (auto intro!: triple_guarded triple_keeps_andthen disk_wf triple_fails simp: w split: option.split)
  show "keeps_site (rebuild ds)" unfolding rebuild_def
    by (auto intro!: disk_wf triple_fails split: sum.split)
qed

lemma list_domains_wf: "wf_db s \<Longrightarrow> wf_db (fst (list_domains s))"
  by (auto simp: list_domains_def intro: wf_step)

lemma resync_table_wf: "keeps_site (resync_table srv dflt gen)"
  unfolding resync_table_def
  by (auto intro!: triple_keeps_andthen in_app_db_wf list_domains_wf site_ops_wf)

lemma quietly_site: "keeps_site f \<Longrightarrow> site_wf s \<Longrightarrow> site_wf (quietly f s)"
  by (rule quietly_keeps)

lemma site_case:
  assumes "keeps_site f" "site_wf s" "\<And>s' e. site_wf s' \<Longrightarrow> site_wf (fst (g s' e))" "\<And>s' x. site_wf s' \<Longrightarrow> site_wf (fst (h s' x))"
  shows "site_wf (fst (case f s of (s', Inl e) \<Rightarrow> g s' e | (s', Inr x) \<Rightarrow> h s' x))"
  using triple_keepsD [OF assms(1,2)] assms(3,4) by (cases "f s"; cases "snd (f s)") auto

lemma add_sending_wf:
  assumes "domain_check name = None"
  shows "keeps_site (add_sending srv dflt gen now name)"
  unfolding add_sending_def rollback_add_def
  by (intro triple_keeps_andthen in_app_db_wf add_domain_wf assms triple_keepsI site_case site_ops_wf resync_table_wf)
    (auto intro!: quietly_site in_app_db_wf delete_domain_wf)

lemma after_delete_wf: "keeps_site (after_delete ul srv dflt gen d)"
proof (rule triple_keepsI)
  fix s assume s: "site_wf s"
  obtain s1 r1 where 1: "resync_table srv dflt gen s = (s1, r1)" by (cases "resync_table srv dflt gen s")
  obtain s2 r2 where 2: "in_app (resync ul) s1 = (s2, r2)" by (cases "in_app (resync ul) s1")
  have "site_wf s1" using triple_keepsD [OF resync_table_wf s] 1 by (metis fst_conv)
  then have "site_wf s2" using triple_keepsD [OF in_app_wf [OF resync_wf]] 2 by (metis fst_conv)
  then have "site_wf (fst (remove_key (d_name d) s2))" by (rule triple_keepsD [OF site_ops_wf(2)])
  with \<open>site_wf s2\<close> 1 2 show "site_wf (fst (after_delete ul srv dflt gen d s))"
    by (auto simp: after_delete_def Let_def split: prod.split)
qed

lemma delete_sending_wf: "keeps_site (delete_sending ul srv dflt gen i)"
  unfolding delete_sending_def
  by (intro triple_keeps_andthen in_app_db_wf in_app_wf purge_wf after_delete_wf reads_wf limits_wf delete_domain_wf)

lemma remove_keys_wf: "keeps_site (remove_keys keep ns)"
proof (induction ns)
  case (Cons n ns)
  have "keeps_site (andthen (remove_key n) (\<lambda>_. remove_keys keep ns))"
    by (intro triple_keeps_andthen site_ops_wf Cons.IH)
  with Cons.IH show ?case by (auto intro!: triple_keepsI dest: triple_keepsD)
qed (auto intro: triple_keepsI)

lemma resync_domains_wf: "keeps_site (resync_domains srv dflt gen)"
  unfolding resync_domains_def
  by (intro triple_keeps_andthen resync_table_wf in_app_db_wf list_domains_wf site_ops_wf remove_keys_wf)

lemma set_rua_wf: "wf_db s \<Longrightarrow> wf_db (fst (set_domain_dmarc_address i rua s))"
  using set_rua_inv [of s i rua]
  by (auto simp: wf_db_def registry_checked_def set_domain_dmarc_address_def db_step_def split: list.splits bool.splits)

lemma get_by_login_wf: "wf_db s \<Longrightarrow> wf_db (fst (get_application_by_login l s))"
  by (auto simp: get_application_by_login_def intro!: wf_step split: option.split)

lemma import_limit_wf: "keeps_site (import_rate_limit sc ref x)"
  unfolding import_rate_limit_def Let_def by (auto intro!: in_app_db_wf limits_wf triple_returns)

lemma import_app_wf: "keeps_site (import_app ul now did a)"
  unfolding import_app_def Let_def
  by (auto intro!: triple_keeps_andthen in_app_wf import_wf in_app_db_wf get_by_login_wf update_ips_wf import_limit_wf
      triple_returns split: option.split)

lemma import_apps_wf: "keeps_site (import_apps ul now did as)"
proof (induction as)
  case (Cons a as)
  have "keeps_site (andthen (import_app ul now did a) (\<lambda>_. import_apps ul now did as))"
    by (intro triple_keeps_andthen import_app_wf Cons.IH)
  then show ?case by (auto intro!: triple_keepsI dest: triple_keepsD)
qed (auto intro: triple_keepsI)

lemma set_rua_site: "keeps_site (in_app (on_db (set_domain_dmarc_address i rua)))"
  by (rule in_app_db_wf) (rule set_rua_wf)

lemma branch_site: "keeps_site f \<Longrightarrow> keeps_site g \<Longrightarrow> keeps_site (if c then f else g)"
  by simp

lemma import_limits_site: "keeps_site (case l of None \<Rightarrow> returns () | Some r \<Rightarrow> import_rate_limit sc i r)"
  by (cases l) (simp_all add: triple_returns import_limit_wf)

lemma import_rest_wf: "keeps_site (import_rest ul rsa srv dflt gen now x d)"
  unfolding import_rest_def
  by (intro triple_keeps_andthen site_ops_wf resync_table_wf branch_site set_rua_site import_limits_site import_apps_wf
      in_app_wf resync_wf triple_returns)

lemma import_domain_wf:
  assumes "domain_check (de_domain x) = None"
  shows "keeps_site (import_domain ul rsa srv dflt gen now x)"
  unfolding import_domain_def
  by (intro branch_site triple_fails triple_guarded triple_keeps_andthen [OF in_app_db_wf] add_domain_wf assms triple_keepsI
      site_case import_rest_wf)
    (auto intro: quietly_site delete_sending_wf)

end
