(* ===== verification/Domain_Lifecycle.thy ===== *)
theory Domain_Lifecycle
  imports Domain_Service
begin

text \<open>
  What the operations of the domain service (theory Domain_Service) do to the places a domain
  lives in: the rows of the registry and the SASL accounts (\<open>books\<close>), the selector table and the
  keys on disk. One lemma per step says what it leaves alone, and the properties at the end
  compose them: what an added and a deleted domain leave, what a failure leaves, and that no
  line of the table is ever without its key.
\<close>

section \<open>Rows and accounts\<close>

definition books ::
  "site \<Rightarrow> domain_row list \<times> app_row list \<times> rate_limit list \<times> (nat \<times> nat) \<times> (string \<rightharpoonup> string)" where
  "books s = (db_domains (w_db (st_world s)), db_apps (w_db (st_world s)), db_limits (w_db (st_world s)),
     (db_next_domain (w_db (st_world s)), db_next_app (w_db (st_world s))), w_sasl (st_world s))"

abbreviation keeps_books :: "'a site_op \<Rightarrow> bool" where
  "keeps_books f \<equiv> \<forall>B. triple (\<lambda>s. books s = B) f (\<lambda>_ s. books s = B) (\<lambda>s. books s = B)"

lemma books_simps [simp]:
  "books (s\<lparr>st_table := t\<rparr>) = books s" "books (s\<lparr>st_keys := ks\<rparr>) = books s" "books (make_dir n s) = books s"
  "books (put_key n sel k s) = books s" "books (s\<lparr>st_world := (st_world s)\<lparr>w_faults := fs\<rparr>\<rparr>) = books s"
  by (simp_all add: books_def make_dir_def put_key_def)

lemma disk_books: "(\<And>s. books (f s) = books s) \<Longrightarrow> keeps_books (disk f)"
  by (intro allI triple_disk) simp_all

lemma andthen_books: "keeps_books f \<Longrightarrow> (\<And>x. keeps_books (g x)) \<Longrightarrow> keeps_books (andthen f g)"
  by (blast intro: triple_andthen)

lemma guarded_books: "keeps_books f \<Longrightarrow> keeps_books (guarded n sel f)"
  by (blast intro: triple_guarded)

lemma end_books: "keeps_books (returns x)" "keeps_books (fails e)"
  by (simp_all add: triple_returns triple_fails)

lemma booksI: "(\<And>s. books (fst (f s)) = books s) \<Longrightarrow> keeps_books f"
  by (simp add: triple_keepsI)

lemma books_fst: "keeps_books f \<Longrightarrow> books (fst (f s)) = books s"
  by (rule triple_keepsD [where P = "\<lambda>t. books t = books s"], erule spec, rule refl)

lemma booksD: "keeps_books f \<Longrightarrow> f s = (s', r) \<Longrightarrow> books s' = books s"
  using books_fst [of f s] by simp

lemma branch_books: "keeps_books g \<Longrightarrow> keeps_books f \<Longrightarrow> keeps_books (\<lambda>s. if c s then g s else f s)"
  by (rule booksI) (simp add: books_fst)

lemma andthen_iff:
  "andthen f g s = (s', r) \<longleftrightarrow>
     (\<exists>e. f s = (s', Inl e) \<and> r = Inl e) \<or> (\<exists>s1 x. f s = (s1, Inr x) \<and> g x s1 = (s', r))"
  by (auto simp: andthen_def split: prod.splits sum.splits)

lemma case_iff:
  "(case t of (a, Inl e) \<Rightarrow> g a e | (a, Inr x) \<Rightarrow> h a x) = p \<longleftrightarrow>
     (\<exists>a e. t = (a, Inl e) \<and> g a e = p) \<or> (\<exists>a x. t = (a, Inr x) \<and> h a x = p)"
  by (auto split: prod.splits sum.splits)

lemma list_domains_cases:
  assumes "list_domains s = (s', r)"
  shows "(\<exists>fs. s' = s\<lparr>db_faults := fs\<rparr>) \<and> count_list (db_faults s') True \<le> count_list (db_faults s) True \<and>
    (r = Inl Db_error \<and> count_list (db_faults s') True < count_list (db_faults s) True \<or>
     r = Inr (sort_key d_name (db_domains s)))"
  using assms
  by (auto simp: list_domains_def db_step_def intro: exI [of _ "db_faults s"] split: list.splits bool.splits)

lemma list_books: "keeps_books (in_app (on_db list_domains))"
proof (rule booksI)
  fix s :: site
  obtain t r where l: "list_domains (w_db (st_world s)) = (t, r)" by (cases "list_domains (w_db (st_world s))")
  with list_domains_cases [OF l] show "books (fst (in_app (on_db list_domains) s)) = books s"
    by (auto simp: in_app_def on_db_def books_def split: sum.split)
qed

lemma key_books:
  "keeps_books (ensure_key gen n sel)" "keeps_books (remove_key n)" "keeps_books key_domains"
  "keeps_books (import_key rsa n sel pem)" "keeps_books (rebuild ds)"
proof -
  have "keeps_books (\<lambda>s. (s, Inr False))" by (rule booksI) simp
  then show "keeps_books (ensure_key gen n sel)"
    unfolding ensure_key_def
    by (intro guarded_books andthen_books disk_books branch_books end_books) simp_all
  show "keeps_books (remove_key n)"
    unfolding remove_key_def by (intro guarded_books disk_books) simp
  show "keeps_books key_domains"
    unfolding key_domains_def by (intro andthen_books disk_books booksI) simp_all
  show "keeps_books (import_key rsa n sel pem)"
    unfolding import_key_def
    by (auto intro!: triple_guarded triple_keeps_andthen triple_disk triple_fails split: option.split)
  show "keeps_books (rebuild ds)"
    unfolding rebuild_def by (auto intro!: triple_disk triple_fails split: sum.split)
qed

lemma resync_table_books: "keeps_books (resync_table srv dflt gen)"
  unfolding resync_table_def by (intro andthen_books list_books) (simp add: andthen_books key_books)

section \<open>The table\<close>

text \<open>What the table lists: the domains, and the server's own name.\<close>

definition served :: "string \<Rightarrow> string \<Rightarrow> domain_row list \<Rightarrow> signing_domain list" where
  "served srv dflt ds =
     signing_of (sort_key d_name ds) @
     (if srv \<noteq> [] \<and> srv \<notin> d_name ` set ds then [\<lparr>sd_name = srv, sd_selector = dflt\<rparr>] else [])"

definition lists :: "signing_domain list \<Rightarrow> site \<Rightarrow> bool" where
  "lists ds s \<longleftrightarrow> (\<exists>t. render_selectors ds = Inr t \<and> st_table s = Some t)"

abbreviation table_current :: "string \<Rightarrow> string \<Rightarrow> site \<Rightarrow> bool" where
  "table_current srv dflt s \<equiv> lists (served srv dflt (db_domains (w_db (st_world s)))) s"

lemma disk_cases:
  assumes "disk f s = (s', r)"
  shows "\<exists>fs. count_list fs True \<le> count_list (w_faults (st_world s)) True \<and>
    (r = Inr () \<and> s' = f (s\<lparr>st_world := (st_world s)\<lparr>w_faults := fs\<rparr>\<rparr>) \<or>
     r = Inl Disk_failed \<and> s' = s\<lparr>st_world := (st_world s)\<lparr>w_faults := fs\<rparr>\<rparr> \<and>
     count_list fs True < count_list (w_faults (st_world s)) True)"
proof (cases "w_faults (st_world s)")
  case Nil
  then have e: "s\<lparr>st_world := (st_world s)\<lparr>w_faults := []\<rparr>\<rparr> = s" by (cases s; cases "st_world s") simp
  from Nil assms have "r = Inr () \<and> s' = f s" by (simp add: disk_def)
  with Nil show ?thesis by (intro exI [of _ "[]"]) (simp add: e)
qed (use assms in \<open>auto simp: disk_def intro!: exI [of _ "tl (w_faults (st_world s))"] split: bool.splits\<close>)

lemma rebuild_table_cases:
  assumes "rebuild ds s = (s', r)"
  shows "st_keys s' = st_keys s \<and> (st_table s' = st_table s \<and> r \<noteq> Inr () \<or> lists ds s' \<and> r = Inr ())"
  using assms disk_cases [of _ s s' r]
  by (fastforce simp: rebuild_def fails_def lists_def split: sum.splits)

lemma disk_table:
  assumes "disk f s = (s', r)" "\<And>s. st_table (f s) = st_table s"
  shows "st_table s' = st_table s"
  using disk_cases [OF assms(1)] assms(2) by auto

lemma disk_Inr: "disk f s = (s', Inr u) \<Longrightarrow> \<exists>fs. s' = f (s\<lparr>st_world := (st_world s)\<lparr>w_faults := fs\<rparr>\<rparr>)"
  using disk_cases [of f s s' "Inr u"] by auto

lemma triple_branch:
  "triple P g (\<lambda>_. P) P \<Longrightarrow> triple P f (\<lambda>_. P) P \<Longrightarrow> triple P (\<lambda>s. if c s then g s else f s) (\<lambda>_. P) P"
  by (auto intro!: triple_keepsI dest: triple_keepsD)

lemma ensure_key_keeps:
  assumes "\<And>s. P s \<Longrightarrow> P (make_dir n s)" "\<And>s k. P s \<Longrightarrow> P (put_key n sel k s)"
    "\<And>s fs. P s \<Longrightarrow> P (s\<lparr>st_world := (st_world s)\<lparr>w_faults := fs\<rparr>\<rparr>)"
  shows "triple P (ensure_key gen n sel) (\<lambda>_. P) P"
proof -
  have "triple P (\<lambda>s. (s, Inr False)) (\<lambda>_. P) P" by (rule triple_keepsI) simp
  then show ?thesis
    unfolding ensure_key_def
    by (intro triple_guarded triple_keeps_andthen triple_branch triple_disk triple_returns) (simp_all add: assms)
qed

lemma ensure_key_table:
  assumes "ensure_key gen n sel s = (s', r)"
  shows "st_table s' = st_table s"
proof -
  have "st_table (fst (ensure_key gen n sel s)) = st_table s"
    by (rule triple_keepsD [OF ensure_key_keeps]) (simp_all add: make_dir_def put_key_def)
  with assms show ?thesis by simp
qed

lemma ensure_key_Inr:
  assumes "ensure_key gen n sel s = (s', Inr x)"
  shows "key_at n sel s' \<noteq> None"
  using assms
  by (auto simp: ensure_key_def guarded_def fails_def andthen_iff returns_def dest!: disk_Inr split: option.splits if_splits)

lemma list_Inr:
  assumes "in_app (on_db list_domains) s = (s', Inr ds)"
  shows "ds = sort_key d_name (db_domains (w_db (st_world s))) \<and> books s' = books s \<and> st_table s' = st_table s \<and>
    st_keys s' = st_keys s"
proof -
  obtain t r where l: "list_domains (w_db (st_world s)) = (t, r)" by (cases "list_domains (w_db (st_world s))")
  with list_domains_cases [OF l] assms show ?thesis
    by (auto simp: in_app_def on_db_def books_def)
qed

lemma in_app_disk:
  assumes "in_app f s = (s', r)"
  shows "st_table s' = st_table s \<and> st_keys s' = st_keys s"
  using assms by (auto simp: in_app_def split: prod.splits sum.splits)

lemma resync_table_cases:
  assumes "resync_table srv dflt gen s = (s', r)"
  shows "st_table s' = st_table s \<and> r \<noteq> Inr () \<or>
    table_current srv dflt s' \<and> r = Inr () \<and>
    (srv \<noteq> [] \<longrightarrow> srv \<notin> d_name ` set (db_domains (w_db (st_world s))) \<longrightarrow> key_at srv dflt s' \<noteq> None)"
proof -
  have b: "books s' = books s" by (rule booksD [OF resync_table_books assms])
  let ?D = "db_domains (w_db (st_world s))"
  from assms [unfolded resync_table_def andthen_iff] show ?thesis
  proof (elim disjE exE conjE)
    fix e assume "in_app (on_db list_domains) s = (s', Inl e)" "r = Inl e"
    then show ?thesis using in_app_disk by auto
  next
    fix s1 ds
    assume l: "in_app (on_db list_domains) s = (s1, Inr ds)"
      and rest: "(if srv \<noteq> [] \<and> \<not> list_ex (\<lambda>d. d_name d = srv) ds then
         andthen (ensure_key gen srv dflt) (\<lambda>_. rebuild (signing_of ds @ [\<lparr>sd_name = srv, sd_selector = dflt\<rparr>]))
       else rebuild (signing_of ds)) s1 = (s', r)"
    from list_Inr [OF l] have ds: "ds = sort_key d_name ?D" "st_table s1 = st_table s" by auto
    show ?thesis
    proof (cases "srv \<noteq> [] \<and> srv \<notin> d_name ` set ?D")
      case False
      then have "\<not> (srv \<noteq> [] \<and> \<not> list_ex (\<lambda>d. d_name d = srv) ds)" by (auto simp: ds list_ex_iff)
      then have "rebuild (signing_of ds) s1 = (s', r)" using rest by (simp only: if_False)
      moreover have "served srv dflt ?D = signing_of ds" using False by (auto simp: ds served_def)
      ultimately show ?thesis using rebuild_table_cases [of "signing_of ds" s1 s' r] b False ds(2) by (auto simp: books_def)
    next
      case True
      let ?L = "signing_of ds @ [\<lparr>sd_name = srv, sd_selector = dflt\<rparr>]"
      have L: "served srv dflt ?D = ?L" using True by (simp add: served_def ds)
      from True have "(srv \<noteq> [] \<and> \<not> list_ex (\<lambda>d. d_name d = srv) ds) = True" by (auto simp: ds list_ex_iff)
      then have "andthen (ensure_key gen srv dflt) (\<lambda>_. rebuild ?L) s1 = (s', r)" using rest by (simp only: if_True ds)
      then show ?thesis
        unfolding andthen_iff
      proof (elim disjE exE conjE)
        fix e assume "ensure_key gen srv dflt s1 = (s', Inl e)" "r = Inl e"
        with ensure_key_table ds(2) show ?thesis by auto
      next
        fix s2 x assume k: "ensure_key gen srv dflt s1 = (s2, Inr x)" and r: "rebuild ?L s2 = (s', r)"
        have "key_at srv dflt s' = key_at srv dflt s2"
          using rebuild_table_cases [OF r] by (simp add: key_at_def key_dir_def)
        with ensure_key_Inr [OF k] ensure_key_table [OF k] rebuild_table_cases [OF r] ds(2) b L show ?thesis
          by (auto simp: books_def)
      qed
    qed
  qed
qed

section \<open>Adding a domain\<close>

lemma in_app_on_db:
  assumes "in_app (on_db f) s = (s', r)"
  shows "\<exists>db x. f (w_db (st_world s)) = (db, x) \<and> s' = s\<lparr>st_world := (st_world s)\<lparr>w_db := db\<rparr>\<rparr> \<and>
    ((\<exists>e. x = Inl e \<and> r = Inl (App_failed (Store e))) \<or> (\<exists>y. x = Inr y \<and> r = Inr y))"
  using assms by (auto simp: in_app_def on_db_def split: prod.splits sum.splits)

lemma add_domain_cases:
  assumes "add_domain now n sel s = (s', r)"
  shows "db_apps s' = db_apps s \<and> db_limits s' = db_limits s \<and> db_next_app s' = db_next_app s \<and>
    count_list (db_faults s') True \<le> count_list (db_faults s) True \<and>
    ((\<exists>e. r = Inl e) \<and> db_domains s' = db_domains s \<or>
     (\<exists>d. r = Inr d \<and> d_id d = db_next_domain s \<and> d_name d = n \<and> d_selector d = sel \<and> d_rua d = [] \<and>
        n \<notin> d_name ` set (db_domains s) \<and> db_domains s' = db_domains s @ [d]))"
  using assms
  by (auto simp: add_domain_def db_step_def Let_def list_ex_iff split: list.splits bool.splits if_splits)

text \<open>The three ways \<open>Add\<close> ends.\<close>

lemma add_sending_cases:
  assumes "add_sending srv dflt gen now name s = (s', r)"
  shows "\<exists>s1 x. in_app (on_db (add_domain now name dflt)) s = (s1, x) \<and>
    ((\<exists>e. x = Inl e \<and> r = Inl e \<and> s' = s1) \<or>
     (\<exists>d s2 y. x = Inr d \<and> ensure_key gen (d_name d) (d_selector d) s1 = (s2, y) \<and>
       ((\<exists>e. y = Inl e \<and> r = Inl e \<and> s' = rollback_add (d_id d) s2) \<or>
        (\<exists>b s3 z. y = Inr b \<and> resync_table srv dflt gen s2 = (s3, z) \<and>
          ((\<exists>e. z = Inl e \<and> r = Inl e \<and> s' = rollback_add (d_id d) s3) \<or>
           z = Inr () \<and> r = Inr d \<and> s' = s3)))))"
  using assms unfolding add_sending_def andthen_iff case_iff
  by (elim disjE exE conjE) (simp_all, blast?)

lemma resync_table_key: "has_key n sel k s \<Longrightarrow> resync_table srv dflt gen s = (s', r) \<Longrightarrow> has_key n sel k s'"
  using triple_keepsD [OF resync_table_has_key] by (metis fst_conv)

lemma added:
  assumes "add_sending srv dflt gen now name s = (s', Inr d)"
  shows "d_name d = name \<and> d_selector d = dflt \<and> name \<notin> d_name ` set (db_domains (w_db (st_world s))) \<and>
    db_domains (w_db (st_world s')) = db_domains (w_db (st_world s)) @ [d] \<and>
    db_apps (w_db (st_world s')) = db_apps (w_db (st_world s)) \<and> w_sasl (st_world s') = w_sasl (st_world s) \<and>
    key_at name dflt s' \<noteq> None \<and> table_current srv dflt s'"
proof -
  from add_sending_cases [OF assms] obtain s1 s2 b where
    a: "in_app (on_db (add_domain now name dflt)) s = (s1, Inr d)"
    and k: "ensure_key gen (d_name d) (d_selector d) s1 = (s2, Inr b)"
    and t: "resync_table srv dflt gen s2 = (s', Inr ())" by auto
  from in_app_on_db [OF a] obtain db where db: "add_domain now name dflt (w_db (st_world s)) = (db, Inr d)"
    and s1: "s1 = s\<lparr>st_world := (st_world s)\<lparr>w_db := db\<rparr>\<rparr>" by auto
  have b: "books s' = books s1" using booksD [OF key_books(1) k] booksD [OF resync_table_books t] by simp
  from ensure_key_Inr [OF k] obtain x where "has_key (d_name d) (d_selector d) x s2" by blast
  then have "has_key (d_name d) (d_selector d) x s'" using t by (rule resync_table_key)
  with add_domain_cases [OF db] resync_table_cases [OF t] b show ?thesis
    by (auto simp: s1 books_def)
qed

section \<open>Deleting a domain\<close>

definition logins_of :: "nat \<Rightarrow> db \<Rightarrow> string set" where
  "logins_of i s = a_login ` {a \<in> set (db_apps s). a_domain_id a = i}"

definition without :: "string set \<Rightarrow> (string \<rightharpoonup> string) \<Rightarrow> string \<rightharpoonup> string" where
  "without L m = (\<lambda>l. if l \<in> L then None else m l)"

lemma without_without: "without L (m(l := None)) = without (insert l L) m"
  by (auto simp: without_def)

lemma without_empty [simp]: "without {} m = m"
  by (simp add: without_def)

lemma delete_each_sasl_cases:
  assumes "delete_each_sasl ls w = (w', r)"
  shows "w_db w' = w_db w \<and> w_map w' = w_map w \<and>
    (\<exists>L \<subseteq> set ls. w_sasl w' = without L (w_sasl w) \<and> (r = Inr () \<longrightarrow> L = set ls))"
  using assms
proof (induction ls arbitrary: w)
  case (Cons l ls)
  from Cons.prems [unfolded delete_each_sasl.simps andthen_iff] show ?case
  proof (elim disjE exE conjE)
    fix e assume "sasl_delete l w = (w', Inl e)" "r = Inl e"
    with sasl_delete_cases [of l w w' "Inl e"] show ?thesis by (intro conjI exI [of _ "{}"]) auto
  next
    fix v x assume d: "sasl_delete l w = (v, Inr x)" "delete_each_sasl ls v = (w', r)"
    from Cons.IH [OF d(2)] obtain L where L: "L \<subseteq> set ls" "w_sasl w' = without L (w_sasl v)" "r = Inr () \<longrightarrow> L = set ls"
      and w: "w_db w' = w_db v" "w_map w' = w_map v" by blast
    from sasl_delete_cases [OF d(1)] have v: "w_sasl v = (w_sasl w)(l := None)" "w_db v = w_db w" "w_map v = w_map w" by auto
    have "w_sasl w' = without (insert l L) (w_sasl w)" by (simp add: L(2) v without_without)
    with L(1,3) w v show ?thesis by (intro conjI exI [of _ "insert l L"]) auto
  qed
qed (auto intro: exI [of _ "{}"])

lemma logins_cases:
  assumes "list_logins_by_domain i s = (s', r)"
  shows "(\<exists>fs. s' = s\<lparr>db_faults := fs\<rparr>) \<and> ((\<exists>e. r = Inl e) \<or> (\<exists>ls. r = Inr ls \<and> set ls = logins_of i s))"
  using assms
  by (auto simp: list_logins_by_domain_def db_step_def logins_of_def intro: exI [of _ "db_faults s"]
      split: list.splits bool.splits)

lemma purge_cases:
  assumes "purge_domain_sasl i w = (w', r)"
  shows "(\<exists>fs. w_db w' = (w_db w)\<lparr>db_faults := fs\<rparr>) \<and> w_map w' = w_map w \<and>
    (\<exists>L \<subseteq> logins_of i (w_db w). w_sasl w' = without L (w_sasl w) \<and> (r = Inr () \<longrightarrow> L = logins_of i (w_db w)))"
proof -
  obtain db x where l: "list_logins_by_domain i (w_db w) = (db, x)" by (cases "list_logins_by_domain i (w_db w)")
  from logins_cases [OF l] obtain fs where db: "db = (w_db w)\<lparr>db_faults := fs\<rparr>" by blast
  show ?thesis
  proof (cases x)
    case (Inl e)
    with assms l have "w' = w\<lparr>w_db := db\<rparr>" "r = Inl (Store e)" by (auto simp: purge_domain_sasl_def andthen_def on_db_def)
    with db show ?thesis by (intro conjI exI [of _ "{}"]) auto
  next
    case (Inr ls)
    with logins_cases [OF l] have ls: "set ls = logins_of i (w_db w)" by auto
    from assms l Inr have "delete_each_sasl ls (w\<lparr>w_db := db\<rparr>) = (w', r)"
      by (simp add: purge_domain_sasl_def andthen_def on_db_def)
    from delete_each_sasl_cases [OF this] show ?thesis by (simp add: ls db) blast
  qed
qed

lemma get_domain_cases:
  assumes "get_domain i s = (s', r)"
  shows "(\<exists>fs. s' = s\<lparr>db_faults := fs\<rparr>) \<and> ((\<exists>e. r = Inl e) \<or> (\<exists>d. r = Inr d \<and> find_domain i s = Some d))"
  using assms
  by (auto simp: get_domain_def db_step_def intro: exI [of _ "db_faults s"] split: list.splits bool.splits option.splits)

lemma remove_key_cases:
  assumes "remove_key n s = (s', r)"
  shows "books s' = books s \<and> st_table s' = st_table s \<and> w_db (st_world s') = w_db (st_world s) \<and>
    w_map (st_world s') = w_map (st_world s) \<and>
    (st_keys s' = st_keys s \<and> r \<noteq> Inr () \<or> st_keys s' = AList.delete n (st_keys s) \<and> r = Inr ())"
  using assms disk_cases [of _ s s' r]
  by (fastforce simp: remove_key_def guarded_def fails_def books_def split: option.splits)

lemma app_resync_cases:
  assumes "in_app (resync ul) s = (s', r)"
  shows "books s' = books s \<and> st_table s' = st_table s \<and> st_keys s' = st_keys s \<and> (r = Inr () \<longrightarrow> in_step ul (st_world s'))"
proof -
  obtain w x where w: "resync ul (st_world s) = (w, x)" by (cases "resync ul (st_world s)")
  from resync_cases [OF w] assms w show ?thesis
    by (auto simp: in_app_def books_def split: sum.splits)
qed

lemma key_at_delete: "key_at m sel (s\<lparr>st_keys := AList.delete n (st_keys s)\<rparr>) = (if m = n then None else key_at m sel s)"
  by (simp add: key_at_def key_dir_def delete_conv')

lemma lists_table: "st_table s' = st_table s \<Longrightarrow> lists L s' = lists L s"
  by (simp add: lists_def)

lemma table_books: "books s' = books s \<Longrightarrow> st_table s' = st_table s \<Longrightarrow> table_current srv dflt s' = table_current srv dflt s"
  by (simp add: lists_def books_def)

lemma error_list_Nil [simp]: "error_list r = [] \<longleftrightarrow> r = Inr ()"
  by (simp add: error_list_def split: sum.split)

lemma same_keys: "st_keys s' = st_keys s \<Longrightarrow> key_at n sel s' = key_at n sel s"
  by (simp add: key_at_def key_dir_def)

lemma after_delete_cases:
  assumes "after_delete ul srv dflt gen d s = (s', r)"
  shows "books s' = books s \<and>
    (st_table s' = st_table s \<and> r \<noteq> Inr () \<and> (\<forall>n sel k. has_key n sel k s \<longrightarrow> has_key n sel k s') \<or>
     table_current srv dflt s' \<and> (\<forall>n sel k. has_key n sel k s \<longrightarrow> has_key n sel k s' \<or> n = d_name d \<and> n \<noteq> srv) \<and>
       (srv \<noteq> [] \<longrightarrow> srv \<notin> d_name ` set (db_domains (w_db (st_world s))) \<longrightarrow> key_at srv dflt s' \<noteq> None)) \<and>
    (if r = Inr () then in_step ul (st_world s') \<and> (d_name d \<noteq> srv \<longrightarrow> d_name d \<notin> fst ` set (st_keys s'))
     else \<exists>errs. errs \<noteq> [] \<and> r = Inl (Incomplete (d_name d) errs))"
    (is "_ \<and> ?table \<and> ?end")
proof -
  obtain s1 r1 where 1: "resync_table srv dflt gen s = (s1, r1)" by (cases "resync_table srv dflt gen s")
  obtain s2 r2 where 2: "in_app (resync ul) s1 = (s2, r2)" by (cases "in_app (resync ul) s1")
  let ?go = "d_name d \<noteq> srv \<and> r1 = Inr ()"
  obtain s3 r3 where 3: "(if ?go then remove_key (d_name d) s2 else (s2, Inr ())) = (s3, r3)"
    by (cases "if ?go then remove_key (d_name d) s2 else (s2, Inr ())")
  have s': "s' = s3" and r: "r = (if r1 = Inr () \<and> r2 = Inr () \<and> r3 = Inr () then Inr ()
      else Inl (Incomplete (d_name d) (error_list r1 @ error_list r2 @ error_list r3)))"
    using assms 1 2 3 by (auto simp: after_delete_def Let_def)
  note c1 = resync_table_cases [OF 1] booksD [OF resync_table_books 1] and c2 = app_resync_cases [OF 2]
  have c3: "books s3 = books s2 \<and> st_table s3 = st_table s2 \<and> w_db (st_world s3) = w_db (st_world s2) \<and>
      w_map (st_world s3) = w_map (st_world s2) \<and>
      (st_keys s3 = st_keys s2 \<and> (r3 = Inr () \<longrightarrow> \<not> ?go) \<or> ?go \<and> r3 = Inr () \<and> st_keys s3 = AList.delete (d_name d) (st_keys s2))"
    using 3 remove_key_cases [of "d_name d" s2 s3 r3] by (auto split: if_splits)
  have b: "books s' = books s" using c1 c2 c3 s' by simp
  have t: "st_table s' = st_table s1" using c2 c3 s' by simp
  have cur: "table_current srv dflt s' = table_current srv dflt s1" using b c1(2) t by (simp add: table_books)
  have keys: "key_at n sel s' = key_at n sel s1 \<or> n = d_name d \<and> ?go" for n sel
  proof -
    have "key_at n sel s2 = key_at n sel s1" by (rule same_keys) (use c2 in blast)
    moreover have "key_at n sel s3 = key_at n sel s2 \<or> n = d_name d \<and> ?go"
    proof (cases "st_keys s3 = st_keys s2")
      case False
      with c3 have "st_keys s3 = AList.delete (d_name d) (st_keys s2)" "?go" by blast+
      then show ?thesis by (simp add: key_at_def key_dir_def delete_conv')
    qed (rule disjI1, rule same_keys)
    ultimately show ?thesis using s' by simp
  qed
  have kept: "has_key n sel k s' \<or> n = d_name d \<and> ?go" if "has_key n sel k s" for n sel k
    using keys [of n sel] resync_table_key [OF that 1] by auto
  have T: ?table
  proof (cases "r1 = Inr ()")
    case True
    with c1(1) have "table_current srv dflt s1"
      "srv \<noteq> [] \<longrightarrow> srv \<notin> d_name ` set (db_domains (w_db (st_world s))) \<longrightarrow> key_at srv dflt s1 \<noteq> None" by auto
    moreover have "\<forall>n sel k. has_key n sel k s \<longrightarrow> has_key n sel k s' \<or> n = d_name d \<and> n \<noteq> srv" using kept by blast
    moreover have "key_at srv dflt s' = key_at srv dflt s1" using keys [of srv dflt] by auto
    ultimately show ?thesis using cur by simp
  next
    case False
    moreover have "\<forall>n sel k. has_key n sel k s \<longrightarrow> has_key n sel k s'" using kept False by blast
    moreover have "r \<noteq> Inr ()" using False r by auto
    ultimately show ?thesis using c1(1) t by auto
  qed
  have E: "if r = Inr () then in_step ul (st_world s') \<and> (d_name d \<noteq> srv \<longrightarrow> d_name d \<notin> fst ` set (st_keys s'))
     else \<exists>errs. errs \<noteq> [] \<and> r = Inl (Incomplete (d_name d) errs)"
  proof (cases "r1 = Inr () \<and> r2 = Inr () \<and> r3 = Inr ()")
    case True
    with c2 have "in_step ul (st_world s2)" by simp
    with c3 s' have "in_step ul (st_world s')" by (simp add: in_step_def)
    moreover have "d_name d \<notin> fst ` set (st_keys s')" if "d_name d \<noteq> srv"
    proof -
      have "st_keys s' = AList.delete (d_name d) (st_keys s2)" using c3 True that s' by blast
      then show ?thesis by (simp add: delete_notin_dom)
    qed
    ultimately show ?thesis using True by (simp add: r)
  qed (auto simp: r)
  from b T E show ?thesis by blast
qed

text \<open>The steps of a deletion on the books.\<close>

lemma in_app_eq:
  assumes "in_app f s = (s', r)"
  shows "\<exists>w x. f (st_world s) = (w, x) \<and> s' = s\<lparr>st_world := w\<rparr> \<and>
    ((\<exists>e. x = Inl e \<and> r = Inl (App_failed e)) \<or> (\<exists>y. x = Inr y \<and> r = Inr y))"
  using assms by (auto simp: in_app_def split: prod.splits sum.splits)

abbreviation domain_logins :: "nat \<Rightarrow> app_row list \<Rightarrow> string set" where
  "domain_logins i A \<equiv> a_login ` {a \<in> set A. a_domain_id a = i}"

abbreviation domain_limit_of :: "nat \<Rightarrow> app_row list \<Rightarrow> rate_limit \<Rightarrow> bool" where
  "domain_limit_of i A r \<equiv>
     same_limit Scope_domain i r \<or> rl_scope r = Scope_app \<and> rl_ref r \<in> a_id ` {a \<in> set A. a_domain_id a = i}"

lemma booksE:
  assumes "books s = (D, A, M, (n, m), P)"
  shows "db_domains (w_db (st_world s)) = D" "db_apps (w_db (st_world s)) = A" "db_limits (w_db (st_world s)) = M"
    "db_next_domain (w_db (st_world s)) = n" "db_next_app (w_db (st_world s)) = m" "w_sasl (st_world s) = P"
  using assms by (simp_all add: books_def)

lemma get_books:
  assumes "in_app (on_db (get_domain i)) s = (s', r)"
  shows "books s' = books s \<and>
    ((\<exists>e. r = Inl (App_failed e)) \<or> (\<exists>d. r = Inr d \<and> find_domain i (w_db (st_world s)) = Some d))"
proof -
  from in_app_on_db [OF assms] obtain db x where g: "get_domain i (w_db (st_world s)) = (db, x)"
    "s' = s\<lparr>st_world := (st_world s)\<lparr>w_db := db\<rparr>\<rparr>"
    "(\<exists>e. x = Inl e \<and> r = Inl (App_failed (Store e))) \<or> (\<exists>y. x = Inr y \<and> r = Inr y)" by auto
  from get_domain_cases [OF g(1)] obtain fs where "db = (w_db (st_world s))\<lparr>db_faults := fs\<rparr>" by auto
  with g(2) have "books s' = books s" by (simp add: books_def)
  with get_domain_cases [OF g(1)] g(3) show ?thesis by auto
qed

lemma purge_books:
  assumes "in_app (purge_domain_sasl i) s = (s', r)" "books s = (D, A, M, nm, P)"
  shows "\<exists>L \<subseteq> domain_logins i A. books s' = (D, A, M, nm, without L P) \<and>
    ((\<exists>e. r = Inl (App_failed e)) \<or> r = Inr () \<and> L = domain_logins i A)"
proof -
  from in_app_eq [OF assms(1)] obtain w x where w: "purge_domain_sasl i (st_world s) = (w, x)" "s' = s\<lparr>st_world := w\<rparr>"
    "(\<exists>e. x = Inl e \<and> r = Inl (App_failed e)) \<or> x = Inr () \<and> r = Inr ()" by auto
  from purge_cases [OF w(1)] obtain fs L where db: "w_db w = (w_db (st_world s))\<lparr>db_faults := fs\<rparr>"
    and L: "L \<subseteq> logins_of i (w_db (st_world s))" "w_sasl w = without L (w_sasl (st_world s))"
      "x = Inr () \<longrightarrow> L = logins_of i (w_db (st_world s))" by blast
  have "logins_of i (w_db (st_world s)) = domain_logins i A" using assms(2) by (simp add: logins_of_def books_def)
  moreover have "books s' = (D, A, M, nm, without L P)" using assms(2) by (simp add: books_def w(2) db L(2))
  ultimately show ?thesis using L(1,3) w(3) by (intro exI [of _ L]) auto
qed

lemma on_db_books:
  assumes "in_app (on_db f) s = (s', r)" "books s = (D, A, M, nm, P)"
    "\<And>db x. f (w_db (st_world s)) = (db, x) \<Longrightarrow>
      (\<exists>e. x = Inl e) \<and> (\<exists>fs. db = (w_db (st_world s))\<lparr>db_faults := fs\<rparr>) \<or>
      x = Inr () \<and> db_domains db = D' \<and> db_apps db = A' \<and> db_limits db = M' \<and> (db_next_domain db, db_next_app db) = nm"
  shows "(\<exists>e. r = Inl (App_failed e)) \<and> books s' = books s \<or> r = Inr () \<and> books s' = (D', A', M', nm, P)"
proof -
  from in_app_on_db [OF assms(1)] obtain db x where f: "f (w_db (st_world s)) = (db, x)"
    and s': "s' = s\<lparr>st_world := (st_world s)\<lparr>w_db := db\<rparr>\<rparr>"
    and r: "(\<exists>e. x = Inl e \<and> r = Inl (App_failed (Store e))) \<or> (\<exists>y. x = Inr y \<and> r = Inr y)" by blast
  from assms(3) [OF f] show ?thesis
  proof (elim disjE exE conjE)
    fix e fs assume "x = Inl e" "db = (w_db (st_world s))\<lparr>db_faults := fs\<rparr>"
    with r s' show ?thesis by (simp add: books_def)
  next
    assume "x = Inr ()" "db_domains db = D'" "db_apps db = A'" "db_limits db = M'" "(db_next_domain db, db_next_app db) = nm"
    with r s' assms(2) show ?thesis by (simp add: books_def)
  qed
qed

lemma limits_books:
  assumes "in_app (on_db (delete_rate_limits_for_domain i)) s = (s', r)" "books s = (D, A, M, nm, P)"
  shows "(\<exists>e. r = Inl (App_failed e)) \<and> books s' = books s \<or>
    r = Inr () \<and> books s' = (D, A, filter (\<lambda>x. \<not> domain_limit_of i A x) M, nm, P)"
proof (rule on_db_books [OF assms])
  fix db x assume "delete_rate_limits_for_domain i (w_db (st_world s)) = (db, x)"
  moreover have "set (map a_id (filter (\<lambda>a. a_domain_id a = i) A)) = a_id ` {a \<in> set A. a_domain_id a = i}" by auto
  ultimately show "(\<exists>e. x = Inl e) \<and> (\<exists>fs. db = (w_db (st_world s))\<lparr>db_faults := fs\<rparr>) \<or>
      x = Inr () \<and> db_domains db = D \<and> db_apps db = A \<and> db_limits db = filter (\<lambda>x. \<not> domain_limit_of i A x) M \<and>
      (db_next_domain db, db_next_app db) = nm"
    using assms(2) unfolding books_def delete_rate_limits_for_domain_def db_step_def
    by (cases "db_faults (w_db (st_world s))") (auto simp del: set_map split: bool.splits)
qed

lemma delete_books:
  assumes "in_app (on_db (delete_domain i)) s = (s', r)" "books s = (D, A, M, nm, P)"
  shows "(\<exists>e. r = Inl (App_failed e)) \<and> books s' = books s \<or>
    r = Inr () \<and> books s' = (filter (\<lambda>d. d_id d \<noteq> i) D, filter (\<lambda>a. a_domain_id a \<noteq> i) A, M, nm, P)"
proof (rule on_db_books [OF assms])
  fix db x assume "delete_domain i (w_db (st_world s)) = (db, x)"
  then show "(\<exists>e. x = Inl e) \<and> (\<exists>fs. db = (w_db (st_world s))\<lparr>db_faults := fs\<rparr>) \<or>
      x = Inr () \<and> db_domains db = filter (\<lambda>d. d_id d \<noteq> i) D \<and> db_apps db = filter (\<lambda>a. a_domain_id a \<noteq> i) A \<and> db_limits db = M \<and>
      (db_next_domain db, db_next_app db) = nm"
    using assms(2) unfolding books_def delete_domain_def db_step_def
    by (cases "db_faults (w_db (st_world s))") (auto intro: exI [of _ "db_faults (w_db (st_world s))"] split: bool.splits if_splits)
qed

text \<open>
  A deletion ends before the row is gone, with the rows as they were and some accounts purged,
  or after it, with everything in the registry gone.
\<close>

lemma delete_sending_cases:
  assumes "delete_sending ul srv dflt gen i s = (s', r)" and B: "books s = (D, A, M, nm, P)"
  shows "(\<exists>e. r = Inl (App_failed e)) \<and> st_table s' = st_table s \<and> st_keys s' = st_keys s \<and>
      (\<exists>L \<subseteq> domain_logins i A. \<exists>M'. books s' = (D, A, M', nm, without L P)) \<or>
    (\<exists>d s1. find_domain i (w_db (st_world s)) = Some d \<and>
       books s1 = (filter (\<lambda>d. d_id d \<noteq> i) D, filter (\<lambda>a. a_domain_id a \<noteq> i) A,
         filter (\<lambda>x. \<not> domain_limit_of i A x) M, nm, without (domain_logins i A) P) \<and>
       st_table s1 = st_table s \<and> st_keys s1 = st_keys s \<and> after_delete ul srv dflt gen d s1 = (s', r))"
    (is "?before \<or> ?after")
proof -
  obtain s1 x1 where 1: "in_app (on_db (get_domain i)) s = (s1, x1)" by fastforce
  note b1 = get_books [OF 1] in_app_disk [OF 1]
  show ?thesis
  proof (cases x1)
    case (Inl e)
    with assms(1) 1 have "s' = s1" "r = Inl e" by (simp_all add: delete_sending_def andthen_def)
    with b1 B Inl have ?before by (intro conjI exI [of _ "{}"] exI [of _ M]) auto
    then show ?thesis ..
  next
    case d: (Inr d)
    obtain s2 x2 where 2: "in_app (purge_domain_sasl i) s1 = (s2, x2)" by fastforce
    from b1 B have B1: "books s1 = (D, A, M, nm, P)" by simp
    from purge_books [OF 2 B1] obtain L where L: "L \<subseteq> domain_logins i A" "books s2 = (D, A, M, nm, without L P)"
      "(\<exists>e. x2 = Inl (App_failed e)) \<or> x2 = Inr () \<and> L = domain_logins i A" by blast
    note k2 = in_app_disk [OF 2]
    show ?thesis
    proof (cases x2)
      case (Inl e)
      with assms(1) 1 2 d have "s' = s2" "r = Inl e" by (simp_all add: delete_sending_def andthen_def)
      with b1 k2 L Inl have ?before by (intro conjI exI [of _ L] exI [of _ M]) auto
      then show ?thesis ..
    next
      case (Inr u)
      obtain s3 x3 where 3: "in_app (on_db (delete_rate_limits_for_domain i)) s2 = (s3, x3)" by fastforce
      note k3 = in_app_disk [OF 3] and b3 = limits_books [OF 3 L(2)]
      show ?thesis
      proof (cases x3)
        case (Inl e)
        with assms(1) 1 2 3 d Inr have "s' = s3" "r = Inl e" by (simp_all add: delete_sending_def andthen_def)
        with b1 k2 k3 b3 L Inl have ?before by (intro conjI exI [of _ L] exI [of _ M]) auto
        then show ?thesis ..
      next
        case u3: (Inr v)
        with b3 L(3) Inr have B3: "books s3 = (D, A, filter (\<lambda>x. \<not> domain_limit_of i A x) M, nm, without (domain_logins i A) P)"
          by auto
        obtain s4 x4 where 4: "in_app (on_db (delete_domain i)) s3 = (s4, x4)" by fastforce
        note k4 = in_app_disk [OF 4] and b4 = delete_books [OF 4 B3]
        show ?thesis
        proof (cases x4)
          case (Inl e)
          with assms(1) 1 2 3 4 d Inr u3 have "s' = s4" "r = Inl e" by (simp_all add: delete_sending_def andthen_def)
          with b1 k2 k3 k4 b4 B3 Inl have ?before by (intro conjI exI [of _ "domain_logins i A"] exI [of _ "filter (\<lambda>x. \<not> domain_limit_of i A x) M"]) auto
          then show ?thesis ..
        next
          case (Inr y)
          with assms(1) 1 2 3 4 d \<open>x2 = Inr u\<close> u3 have "after_delete ul srv dflt gen d s4 = (s', r)"
            by (simp add: delete_sending_def andthen_def)
          with b1 k2 k3 k4 b4 Inr d have ?after by (intro exI [of _ d] exI [of _ s4] conjI) auto
          then show ?thesis ..
        qed
      qed
    qed
  qed
qed

section \<open>Every line of the table has its key\<close>

text \<open>
  \<open>signable\<close>: every domain of the registry has its key. \<open>backed\<close>: every line of the table does.
\<close>

definition signable :: "site \<Rightarrow> bool" where
  "signable s \<longleftrightarrow> (\<forall>d \<in> set (db_domains (w_db (st_world s))). key_at (d_name d) (d_selector d) s \<noteq> None)"

definition all_keys :: "signing_domain list \<Rightarrow> site \<Rightarrow> bool" where
  "all_keys L s \<longleftrightarrow> (\<forall>x \<in> set L. key_at (sd_name x) (sd_selector x) s \<noteq> None)"

definition backed :: "site \<Rightarrow> bool" where
  "backed s \<longleftrightarrow> (\<forall>t. st_table s = Some t \<longrightarrow> (\<exists>L. lists L s \<and> all_keys L s))"

lemma all_keys_mono: "all_keys L s \<Longrightarrow> (\<And>n sel k. has_key n sel k s \<Longrightarrow> has_key n sel k s') \<Longrightarrow> all_keys L s'"
  unfolding all_keys_def by (metis option.collapse option.distinct(1))

lemma backed_mono:
  assumes "backed s" "st_table s' = st_table s" "\<And>n sel k. has_key n sel k s \<Longrightarrow> has_key n sel k s'"
  shows "backed s'"
  unfolding backed_def
proof (intro allI impI)
  fix t assume "st_table s' = Some t"
  then obtain L where "lists L s" "all_keys L s" using assms(1,2) by (auto simp: backed_def)
  then show "\<exists>L. lists L s' \<and> all_keys L s'" using assms(2,3) all_keys_mono [of L s s'] by (auto simp: lists_def)
qed

lemma backed_current:
  assumes "table_current srv dflt s" "signable s"
    "srv \<noteq> [] \<Longrightarrow> srv \<notin> d_name ` set (db_domains (w_db (st_world s))) \<Longrightarrow> key_at srv dflt s \<noteq> None"
  shows "backed s"
  unfolding backed_def
proof (intro allI impI exI conjI)
  show "all_keys (served srv dflt (db_domains (w_db (st_world s)))) s"
    using assms(2,3) by (auto simp: all_keys_def served_def signing_of_def signable_def)
qed (rule assms(1))

lemma signable_mono:
  assumes "signable s" "books s' = books s" "\<And>n sel k. has_key n sel k s \<Longrightarrow> has_key n sel k s'"
  shows "signable s'"
  unfolding signable_def
proof
  fix d assume "d \<in> set (db_domains (w_db (st_world s')))"
  then have "d \<in> set (db_domains (w_db (st_world s)))" using assms(2) by (simp add: books_def)
  then obtain k where "has_key (d_name d) (d_selector d) k s" using assms(1) by (auto simp: signable_def)
  then show "key_at (d_name d) (d_selector d) s' \<noteq> None" using assms(3) by blast
qed

lemma resync_table_backed:
  assumes "resync_table srv dflt gen s = (s', r)" "signable s" "backed s"
  shows "signable s' \<and> backed s'"
proof -
  have b: "books s' = books s" by (rule booksD [OF resync_table_books assms(1)])
  have k: "has_key n sel x s \<Longrightarrow> has_key n sel x s'" for n sel x using assms(1) by (rule resync_table_key [rotated])
  have s': "signable s'" by (rule signable_mono [OF assms(2) b k])
  from resync_table_cases [OF assms(1)] show ?thesis
  proof (elim disjE conjE)
    assume "st_table s' = st_table s"
    then show ?thesis using s' backed_mono [OF assms(3) _ k] by blast
  next
    assume cur: "table_current srv dflt s'"
      and srv: "srv \<noteq> [] \<longrightarrow> srv \<notin> d_name ` set (db_domains (w_db (st_world s))) \<longrightarrow> key_at srv dflt s' \<noteq> None"
    have "backed s'" by (rule backed_current [OF cur s']) (use srv b in \<open>simp add: books_def\<close>)
    with s' show ?thesis ..
  qed
qed

lemma in_app_keys: "in_app f s = (s', r) \<Longrightarrow> st_table s' = st_table s \<and> key_at n sel s' = key_at n sel s"
  using in_app_disk [of f s s' r] same_keys [of s' s n sel] by blast

lemma rollback_disk: "st_table (rollback_add i s) = st_table s \<and> key_at n sel (rollback_add i s) = key_at n sel s"
  unfolding rollback_add_def quietly_def by (rule in_app_keys [OF prod.collapse [symmetric]])

lemma rollback_backed: "backed s \<Longrightarrow> backed (rollback_add i s)"
  using rollback_disk by (auto intro: backed_mono)

lemma ensure_key_kept: "ensure_key gen n' sel' s = (s', r) \<Longrightarrow> has_key n sel k s \<Longrightarrow> has_key n sel k s'"
  using triple_keepsD [OF ensure_key_has_key] by (metis fst_conv)

lemma add_sending_backed:
  assumes "add_sending srv dflt gen now name s = (s', r)" "signable s" "backed s"
  shows "backed s' \<and> (\<forall>d. r = Inr d \<longrightarrow> signable s')"
proof -
  from add_sending_cases [OF assms(1)] obtain s1 x where a: "in_app (on_db (add_domain now name dflt)) s = (s1, x)"
    and rest: "(\<exists>e. x = Inl e \<and> r = Inl e \<and> s' = s1) \<or>
     (\<exists>d s2 y. x = Inr d \<and> ensure_key gen (d_name d) (d_selector d) s1 = (s2, y) \<and>
       ((\<exists>e. y = Inl e \<and> r = Inl e \<and> s' = rollback_add (d_id d) s2) \<or>
        (\<exists>b s3 z. y = Inr b \<and> resync_table srv dflt gen s2 = (s3, z) \<and>
          ((\<exists>e. z = Inl e \<and> r = Inl e \<and> s' = rollback_add (d_id d) s3) \<or>
           z = Inr () \<and> r = Inr d \<and> s' = s3))))" by blast
  have b1: "backed s1" by (rule backed_mono [OF assms(3)]) (simp_all add: in_app_keys [OF a])
  from rest show ?thesis
  proof (elim disjE exE conjE)
    fix d s2 y e assume k: "ensure_key gen (d_name d) (d_selector d) s1 = (s2, y)" "r = Inl e" "s' = rollback_add (d_id d) s2"
    have "backed s2" using ensure_key_table [OF k(1)] ensure_key_kept [OF k(1)] by (auto intro: backed_mono [OF b1])
    with k rollback_backed show ?thesis by auto
  next
    fix d s2 y b s3 z
    assume x: "x = Inr d" and k: "ensure_key gen (d_name d) (d_selector d) s1 = (s2, y)" "y = Inr b"
      and t: "resync_table srv dflt gen s2 = (s3, z)"
    have b2: "backed s2" using ensure_key_table [OF k(1)] ensure_key_kept [OF k(1)] by (auto intro: backed_mono [OF b1])
    have s2: "signable s2"
      unfolding signable_def
    proof
      fix c assume "c \<in> set (db_domains (w_db (st_world s2)))"
      moreover have "books s2 = books s1" by (rule booksD [OF key_books(1) k(1)])
      moreover from in_app_on_db [OF a] x obtain db where "add_domain now name dflt (w_db (st_world s)) = (db, Inr d)"
        "w_db (st_world s1) = db" by auto
      ultimately have "c \<in> set (db_domains (w_db (st_world s))) \<or> c = d"
        using add_domain_cases [of now name dflt "w_db (st_world s)" db "Inr d"] by (auto simp: books_def)
      then show "key_at (d_name c) (d_selector c) s2 \<noteq> None"
      proof
        assume "c \<in> set (db_domains (w_db (st_world s)))"
        then obtain u where "has_key (d_name c) (d_selector c) u s1"
          using assms(2) in_app_keys [OF a] by (auto simp: signable_def)
        with ensure_key_kept [OF k(1)] show ?thesis by blast
      qed (use ensure_key_Inr k in blast)
    qed
    note sb = resync_table_backed [OF t s2 b2]
    { fix e assume "r = Inl e" "s' = rollback_add (d_id d) s3"
      with sb rollback_backed show ?thesis by auto }
    { assume "s' = s3" with sb show ?thesis by auto }
  qed (use b1 in auto)
qed

lemma delete_sending_backed:
  assumes "delete_sending ul srv dflt gen i s = (s', r)" "signable s" "backed s" "registry_inv (w_db (st_world s))"
  shows "backed s' \<and> signable s'"
proof -
  obtain D A M nm P where B: "books s = (D, A, M, nm, P)" by (cases "books s")
  from delete_sending_cases [OF assms(1) B] show ?thesis
  proof (elim disjE exE conjE)
    fix L M' assume "st_table s' = st_table s" "st_keys s' = st_keys s" and b: "books s' = (D, A, M', nm, without L P)"
    then have k: "key_at n sel s' = key_at n sel s" for n sel by (simp add: key_at_def key_dir_def)
    have "signable s'" using assms(2) b B k by (simp add: signable_def books_def)
    with \<open>st_table s' = st_table s\<close> k show ?thesis by (auto intro: backed_mono [OF assms(3)])
  next
    fix d s1
    assume d: "find_domain i (w_db (st_world s)) = Some d" and t1: "st_table s1 = st_table s" "st_keys s1 = st_keys s"
      and b1: "books s1 = (filter (\<lambda>d. d_id d \<noteq> i) D, filter (\<lambda>a. a_domain_id a \<noteq> i) A,
         filter (\<lambda>x. \<not> domain_limit_of i A x) M, nm, without (domain_logins i A) P)"
      and a: "after_delete ul srv dflt gen d s1 = (s', r)"
    have k1: "key_at n sel s1 = key_at n sel s" for n sel by (rule same_keys [OF t1(2)])
    note c = after_delete_cases [OF a]
    have D': "db_domains (w_db (st_world s')) = filter (\<lambda>d. d_id d \<noteq> i) D"
      "db_domains (w_db (st_world s1)) = filter (\<lambda>d. d_id d \<noteq> i) D" "db_domains (w_db (st_world s)) = D"
      using c b1 B by (simp_all add: books_def)
    have other: "d_name x \<noteq> d_name d" if "x \<in> set (filter (\<lambda>d. d_id d \<noteq> i) D)" for x
    proof
      assume "d_name x = d_name d"
      moreover have "d \<in> set D" "d_id d = i" using find_domain_Some [OF d] D'(3) by auto
      moreover have "inj_on d_name (set D)" using assms(4) D'(3) by (simp add: registry_inv_def distinct_map)
      ultimately show False using that by (auto dest: inj_onD)
    qed
    have kept: "key_at (d_name x) (d_selector x) s' \<noteq> None" if x: "x \<in> set (filter (\<lambda>d. d_id d \<noteq> i) D)" for x
    proof -
      obtain k where "has_key (d_name x) (d_selector x) k s1"
        using assms(2) x D'(3) k1 by (auto simp: signable_def)
      with c other [OF x] show ?thesis by blast
    qed
    then have s': "signable s'" by (simp add: signable_def D'(1))
    have b1: "backed s1" by (rule backed_mono [OF assms(3) t1(1)]) (simp add: k1)
    from c have "backed s'"
    proof (elim conjE disjE)
      assume "st_table s' = st_table s1" "\<forall>n sel k. has_key n sel k s1 \<longrightarrow> has_key n sel k s'"
      then show ?thesis by (auto intro: backed_mono [OF b1])
    next
      assume cur: "table_current srv dflt s'"
        and k: "srv \<noteq> [] \<longrightarrow> srv \<notin> d_name ` set (db_domains (w_db (st_world s1))) \<longrightarrow> key_at srv dflt s' \<noteq> None"
      show ?thesis by (rule backed_current [OF cur s']) (use k D' in simp)
    qed
    with s' show ?thesis by simp
  qed
qed

lemma shrink: "S' \<subseteq> S - {n} \<Longrightarrow> T \<subseteq> S' - (A - K) \<Longrightarrow> n \<notin> K \<Longrightarrow> T \<subseteq> S - (insert n A - K)"
  by blast

lemma remove_keys_cases:
  assumes "remove_keys keep ns s = (s', r)"
  shows "books s' = books s \<and> st_table s' = st_table s \<and> (\<forall>n \<in> set keep. \<forall>sel. key_at n sel s' = key_at n sel s) \<and>
    (r = Inr () \<longrightarrow> fst ` set (st_keys s') \<subseteq> fst ` set (st_keys s) - (set ns - set keep))"
  using assms
proof (induction ns arbitrary: s)
  case (Cons n ns)
  show ?case
  proof (cases "n \<in> set keep")
    case True
    with Cons show ?thesis by auto
  next
    case False
    with Cons.prems have "andthen (remove_key n) (\<lambda>_. remove_keys keep ns) s = (s', r)" by simp
    then show ?thesis
      unfolding andthen_iff
    proof (elim disjE exE conjE)
      fix e assume e: "remove_key n s = (s', Inl e)" "r = Inl e"
      from remove_key_cases [OF e(1)] have "st_keys s' = st_keys s" "books s' = books s" "st_table s' = st_table s" by auto
      moreover from this(1) have "\<forall>m sel. key_at m sel s' = key_at m sel s" by (auto intro: same_keys)
      ultimately show ?thesis using e(2) by simp
    next
      fix t x assume t: "remove_key n s = (t, Inr x)" and rest: "remove_keys keep ns t = (s', r)"
      from remove_key_cases [OF t] have kt: "st_keys t = AList.delete n (st_keys s)" by auto
      have kept: "key_at m sel t = key_at m sel s" if "m \<in> set keep" for m sel
        using that False by (auto simp: key_at_def key_dir_def kt delete_conv')
      have "fst ` set (st_keys t) \<subseteq> fst ` set (st_keys s) - {n}"
        using delete_notin_dom [of n "st_keys s"] dom_delete_subset [of n "st_keys s"] unfolding kt by blast
      moreover have "fst ` set (st_keys s') \<subseteq> fst ` set (st_keys t) - (set ns - set keep)" if "r = Inr ()"
        using conjunct2 [OF conjunct2 [OF conjunct2 [OF Cons.IH [OF rest]]]] that by (rule mp)
      ultimately have gone: "fst ` set (st_keys s') \<subseteq> fst ` set (st_keys s) - (set (n # ns) - set keep)" if "r = Inr ()"
        using shrink [OF _ _ False] that by simp
      have same: "books s' = books s" "st_table s' = st_table s"
        using conjunct1 [OF Cons.IH [OF rest]] conjunct1 [OF conjunct2 [OF Cons.IH [OF rest]]] remove_key_cases [OF t]
        by simp_all
      have "\<forall>m \<in> set keep. \<forall>sel. key_at m sel s' = key_at m sel s" using Cons.IH [OF rest] kept by simp
      with gone same show ?thesis by blast
    qed
  qed
qed auto

lemma key_domains_cases:
  assumes "key_domains s = (s', r)"
  shows "books s' = books s \<and> st_table s' = st_table s \<and> st_keys s' = st_keys s \<and>
    (\<forall>ns. r = Inr ns \<longrightarrow> set ns = fst ` set (st_keys s))"
proof -
  have b: "books s' = books s" by (rule booksD [OF key_books(3) assms])
  from assms [unfolded key_domains_def andthen_iff] show ?thesis
  proof (elim disjE exE conjE)
    fix e assume "disk id s = (s', Inl e)" "r = Inl e"
    with disk_cases [of id s s' "Inl e"] b show ?thesis by auto
  next
    fix t x assume "disk id s = (t, Inr x)" "(t, Inr (sort (map fst (st_keys t)))) = (s', r)"
    with disk_Inr [of id s t x] b show ?thesis by (auto simp del: set_map simp: set_map [symmetric])
  qed
qed

text \<open>\<open>Resync\<close> clears away what no name uses, and only after the table was rewritten.\<close>

lemma resync_domains_steps:
  assumes "resync_domains srv dflt gen s = (s', r)"
  shows "\<exists>s1 x. resync_table srv dflt gen s = (s1, x) \<and> books s' = books s1 \<and> st_table s' = st_table s1 \<and>
    (x \<noteq> Inr () \<longrightarrow> r \<noteq> Inr () \<and> st_keys s' = st_keys s1) \<and>
    (\<forall>n \<in> insert srv (d_name ` set (db_domains (w_db (st_world s)))). \<forall>sel. key_at n sel s' = key_at n sel s1) \<and>
    (r = Inr () \<longrightarrow> fst ` set (st_keys s') \<subseteq> insert srv (d_name ` set (db_domains (w_db (st_world s)))))"
proof -
  obtain s1 x where 1: "resync_table srv dflt gen s = (s1, x)" by fastforce
  have b1: "books s1 = books s" by (rule booksD [OF resync_table_books 1])
  let ?names = "insert srv (d_name ` set (db_domains (w_db (st_world s))))"
  show ?thesis
  proof (cases x)
    case (Inl e)
    with assms 1 have "s' = s1" "r = Inl e" by (simp_all add: resync_domains_def andthen_def)
    with 1 Inl show ?thesis by auto
  next
    case (Inr u)
    obtain s2 y where 2: "in_app (on_db list_domains) s1 = (s2, y)" by fastforce
    note k2 = in_app_disk [OF 2] and b2 = booksD [OF list_books 2]
    show ?thesis
    proof (cases y)
      case (Inl e)
      with assms 1 2 \<open>x = Inr u\<close> have "s' = s2" "r = Inl e" by (simp_all add: resync_domains_def andthen_def)
      with 1 \<open>x = Inr u\<close> k2 b2 show ?thesis by (simp add: key_at_def key_dir_def)
    next
      case ds: (Inr ds)
      have names: "set (srv # map d_name ds) = ?names" using list_Inr [OF 2 [unfolded ds]] b1 by (simp add: books_def)
      obtain s3 z where 3: "key_domains s2 = (s3, z)" by fastforce
      note k3 = key_domains_cases [OF 3]
      show ?thesis
      proof (cases z)
        case (Inl e)
        with assms 1 2 3 \<open>x = Inr u\<close> ds have "s' = s3" "r = Inl e" by (simp_all add: resync_domains_def andthen_def)
        with 1 \<open>x = Inr u\<close> k2 b2 k3 show ?thesis by (simp add: key_at_def key_dir_def)
      next
        case (Inr ns)
        with assms 1 2 3 \<open>x = Inr u\<close> ds have "remove_keys (srv # map d_name ds) ns s3 = (s', r)"
          by (simp add: resync_domains_def andthen_def)
        note c = remove_keys_cases [OF this, unfolded names]
        have "key_at n sel s3 = key_at n sel s1" for n sel using k2 k3 by (simp add: key_at_def key_dir_def)
        moreover have "fst ` set (st_keys s') \<subseteq> ?names" if "r = Inr ()" using c k3 Inr that by auto
        ultimately show ?thesis using 1 \<open>x = Inr u\<close> c k2 b2 k3 by auto
      qed
    qed
  qed
qed

lemma resync_domains_backed:
  assumes "resync_domains srv dflt gen s = (s', r)" "signable s" "backed s"
  shows "backed s' \<and> signable s'"
proof -
  let ?names = "insert srv (d_name ` set (db_domains (w_db (st_world s))))"
  from resync_domains_steps [OF assms(1)] obtain s1 x where 1: "resync_table srv dflt gen s = (s1, x)"
    and b: "books s' = books s1" "st_table s' = st_table s1"
    and no: "x \<noteq> Inr () \<longrightarrow> r \<noteq> Inr () \<and> st_keys s' = st_keys s1"
    and k: "\<forall>n \<in> ?names. \<forall>sel. key_at n sel s' = key_at n sel s1" by blast
  have b1: "books s1 = books s" by (rule booksD [OF resync_table_books 1])
  have s1: "signable s1" "backed s1" using resync_table_backed [OF 1 assms(2,3)] by auto
  have s': "signable s'" using s1(1) k b(1) b1 by (simp add: signable_def books_def)
  show ?thesis
  proof (cases "x = Inr ()")
    case True
    with resync_table_cases [OF 1] have cur: "table_current srv dflt s1"
      "srv \<noteq> [] \<longrightarrow> srv \<notin> d_name ` set (db_domains (w_db (st_world s))) \<longrightarrow> key_at srv dflt s1 \<noteq> None" by auto
    have "table_current srv dflt s'" using cur(1) table_books [OF b] by simp
    then have "backed s'" by (rule backed_current [OF _ s']) (use cur(2) k b(1) b1 in \<open>simp add: books_def\<close>)
    with s' show ?thesis by simp
  next
    case False
    with no have "st_keys s' = st_keys s1" by simp
    then have "backed s'" using b(2) by (auto intro: backed_mono [OF s1(2)] simp: key_at_def key_dir_def)
    with s' show ?thesis by simp
  qed
qed

section \<open>A failed addition is undone\<close>

text \<open>An error other than a refused name uses up a failure.\<close>

abbreviation fuel :: "site \<Rightarrow> nat" where
  "fuel s \<equiv> failures (st_world s)"

definition costs :: "'a site_op \<Rightarrow> bool" where
  "costs f \<longleftrightarrow> (\<forall>s s' r. f s = (s', r) \<longrightarrow> fuel s' \<le> fuel s \<and>
     (\<forall>e. r = Inl e \<longrightarrow> (\<exists>k. e = Key_bad k) \<or> fuel s' < fuel s))"

lemma costsI:
  "(\<And>s s' r. f s = (s', r) \<Longrightarrow> fuel s' \<le> fuel s) \<Longrightarrow>
   (\<And>s s' e. f s = (s', Inl e) \<Longrightarrow> (\<exists>k. e = Key_bad k) \<or> fuel s' < fuel s) \<Longrightarrow> costs f"
  unfolding costs_def by blast

lemma costsD: "costs f \<Longrightarrow> f s = (s', r) \<Longrightarrow> fuel s' \<le> fuel s"
  and costs_Inl: "costs f \<Longrightarrow> f s = (s', Inl e) \<Longrightarrow> (\<exists>k. e = Key_bad k) \<or> fuel s' < fuel s"
  unfolding costs_def by blast+

lemma costs_andthen:
  assumes "costs f" "\<And>x. costs (g x)"
  shows "costs (andthen f g)"
proof (rule costsI)
  fix s s' r assume "andthen f g s = (s', r)"
  then show "fuel s' \<le> fuel s"
    unfolding andthen_iff using costsD [OF assms(1)] costsD [OF assms(2)] by (meson order_trans)
next
  fix s s' e assume "andthen f g s = (s', Inl e)"
  then show "(\<exists>k. e = Key_bad k) \<or> fuel s' < fuel s"
    unfolding andthen_iff
    using costs_Inl [OF assms(1)] costsD [OF assms(1)] costs_Inl [OF assms(2)] by (metis Inl_inject order_less_le_trans)
qed

lemma costs_disk:
  assumes "\<And>s. st_world (f s) = st_world s"
  shows "costs (disk f)"
proof (rule costsI)
  show "fuel s' \<le> fuel s" if "disk f s = (s', r)" for s s' r
    using disk_cases [OF that] assms by (auto simp: failures_def)
  show "(\<exists>k. e = Key_bad k) \<or> fuel s' < fuel s" if "disk f s = (s', Inl e)" for s s' e
    using disk_cases [OF that] by (auto simp: failures_def)
qed

lemma costs_guarded: "costs f \<Longrightarrow> costs (guarded n sel f)"
  by (auto simp: guarded_def fails_def costs_def split: option.split)

lemma costs_returns: "costs (returns x)" and costs_bad: "costs (fails (Key_bad e))"
  by (simp_all add: costs_def returns_def fails_def)

lemma costs_branch: "costs f \<Longrightarrow> costs g \<Longrightarrow> costs (\<lambda>s. if c s then f s else g s)"
  by (auto simp: costs_def)

lemma world_disk [simp]: "st_world (make_dir n s) = st_world s" "st_world (put_key n sel k s) = st_world s"
  by (simp_all add: make_dir_def put_key_def)

lemma costs_list: "costs (in_app (on_db list_domains))"
proof (rule costsI)
  fix s s' :: site and r assume "in_app (on_db list_domains) s = (s', r)"
  from in_app_on_db [OF this] show "fuel s' \<le> fuel s"
    using list_domains_cases [of "w_db (st_world s)"] by (fastforce simp: failures_def)
next
  fix s s' :: site and e assume "in_app (on_db list_domains) s = (s', Inl e)"
  from in_app_on_db [OF this] show "(\<exists>k. e = Key_bad k) \<or> fuel s' < fuel s"
    using list_domains_cases [of "w_db (st_world s)"] by (fastforce simp: failures_def)
qed

lemma costs_ensure: "costs (ensure_key gen n sel)"
proof -
  have "costs (\<lambda>s. (s, Inr False))" by (simp add: costs_def)
  then show ?thesis
    unfolding ensure_key_def
    by (intro costs_guarded costs_andthen costs_branch costs_disk costs_returns) simp_all
qed

lemma costs_rebuild: "costs (rebuild ds)"
  unfolding rebuild_def by (auto intro!: costs_disk costs_bad split: sum.split)

lemma costs_resync_table: "costs (resync_table srv dflt gen)"
  unfolding resync_table_def by (intro costs_andthen costs_list) (simp add: costs_andthen costs_ensure costs_rebuild)

lemma rollback_done:
  assumes "books s = (D, A, M, nm, P)" "fuel s = 0"
  shows "books (rollback_add i s) = (filter (\<lambda>d. d_id d \<noteq> i) D, filter (\<lambda>a. a_domain_id a \<noteq> i) A, M, nm, P) \<or>
    i \<notin> d_id ` set D \<and> books (rollback_add i s) = books s"
proof -
  have q: "\<forall>f \<in> set (db_faults (w_db (st_world s))). \<not> f" using assms(2) by (auto simp: failures_0)
  obtain t r where t: "in_app (on_db (delete_domain i)) s = (t, r)" by fastforce
  from in_app_on_db [OF t] obtain db x where d: "delete_domain i (w_db (st_world s)) = (db, x)"
    and r: "(\<exists>e. x = Inl e \<and> r = Inl (App_failed (Store e))) \<or> (\<exists>y. x = Inr y \<and> r = Inr y)" by blast
  have "find_domain i (w_db (st_world s)) = None" if "r \<noteq> Inr ()"
    using that r d q unfolding delete_domain_def by (auto simp: db_step_quiet find_domain_def split: if_splits)
  then have "i \<notin> d_id ` set D" if "r \<noteq> Inr ()" using that assms(1) by (auto simp: find_domain_None_iff books_def)
  with delete_books [OF t assms(1)] t show ?thesis by (auto simp: rollback_add_def quietly_def)
qed

text \<open>A failed addition ended at the row, or with the row taken back after a step that failed.\<close>

lemma add_failed_steps:
  assumes add: "add_sending srv dflt gen now name s = (s', Inl e)"
  shows "\<exists>s1 x. in_app (on_db (add_domain now name dflt)) s = (s1, x) \<and>
    (x = Inl e \<and> s' = s1 \<or>
     (\<exists>d s2. x = Inr d \<and> s' = rollback_add (d_id d) s2 \<and> books s2 = books s1 \<and>
        fuel s2 \<le> fuel s1 \<and> ((\<exists>k. e = Key_bad k) \<or> fuel s2 < fuel s1)))"
proof -
  from add_sending_cases [OF add] obtain s1 x where a: "in_app (on_db (add_domain now name dflt)) s = (s1, x)"
    and r: "x = Inl e \<and> s' = s1 \<or>
     (\<exists>d s2 y. x = Inr d \<and> ensure_key gen (d_name d) (d_selector d) s1 = (s2, y) \<and>
       (y = Inl e \<and> s' = rollback_add (d_id d) s2 \<or>
        (\<exists>b s3 z. y = Inr b \<and> resync_table srv dflt gen s2 = (s3, z) \<and> z = Inl e \<and> s' = rollback_add (d_id d) s3)))"
    by blast
  show ?thesis
  proof (intro exI conjI, rule a, use r in \<open>elim disjE exE conjE\<close>)
    fix d s2 y assume x: "x = Inr d" and k: "ensure_key gen (d_name d) (d_selector d) s1 = (s2, y)" "y = Inl e"
      and s': "s' = rollback_add (d_id d) s2"
    from booksD [OF key_books(1) k(1)] costsD [OF costs_ensure k(1)] costs_Inl [OF costs_ensure] k x s'
    show "x = Inl e \<and> s' = s1 \<or> (\<exists>d s2. x = Inr d \<and> s' = rollback_add (d_id d) s2 \<and> books s2 = books s1 \<and>
      fuel s2 \<le> fuel s1 \<and> ((\<exists>k. e = Key_bad k) \<or> fuel s2 < fuel s1))" by blast
  next
    fix d s2 y b s3 z assume x: "x = Inr d" and k: "ensure_key gen (d_name d) (d_selector d) s1 = (s2, y)"
      and t: "resync_table srv dflt gen s2 = (s3, z)" "z = Inl e" and s': "s' = rollback_add (d_id d) s3"
    have "fuel s3 \<le> fuel s1" using costsD [OF costs_ensure k] costsD [OF costs_resync_table t(1)] by simp
    moreover have "(\<exists>k. e = Key_bad k) \<or> fuel s3 < fuel s1"
      using costsD [OF costs_ensure k] costs_Inl [OF costs_resync_table] t by fastforce
    moreover have "books s3 = books s1" using booksD [OF key_books(1) k] booksD [OF resync_table_books t(1)] by simp
    ultimately show "x = Inl e \<and> s' = s1 \<or> (\<exists>d s2. x = Inr d \<and> s' = rollback_add (d_id d) s2 \<and> books s2 = books s1 \<and>
      fuel s2 \<le> fuel s1 \<and> ((\<exists>k. e = Key_bad k) \<or> fuel s2 < fuel s1))" using x s' by blast
  qed simp
qed

lemma fresh_domain_filtered:
  assumes "registry_inv s" "d_id d = db_next_domain s"
  shows "filter (\<lambda>c. d_id c \<noteq> d_id d) (db_domains s @ [d]) = db_domains s \<and>
    filter (\<lambda>a. a_domain_id a \<noteq> d_id d) (db_apps s) = db_apps s"
proof -
  have "d_id c \<noteq> d_id d" if "c \<in> set (db_domains s)" for c using that assms by (auto simp: registry_inv_def)
  then show ?thesis using assms(1) by (fastforce simp: registry_inv_def filter_id_conv)
qed

lemma add_failed:
  assumes add: "add_sending srv dflt gen now name s = (s', Inl e)" and inv: "registry_inv (w_db (st_world s))"
    and few: "fuel s \<le> (case e of Key_bad _ \<Rightarrow> 0 | _ \<Rightarrow> 1)"
  shows "db_domains (w_db (st_world s')) = db_domains (w_db (st_world s)) \<and>
    db_apps (w_db (st_world s')) = db_apps (w_db (st_world s)) \<and>
    db_limits (w_db (st_world s')) = db_limits (w_db (st_world s)) \<and> w_sasl (st_world s') = w_sasl (st_world s)"
proof -
  from add_failed_steps [OF add] obtain s1 x where a: "in_app (on_db (add_domain now name dflt)) s = (s1, x)"
    and rest: "x = Inl e \<and> s' = s1 \<or>
     (\<exists>d s2. x = Inr d \<and> s' = rollback_add (d_id d) s2 \<and> books s2 = books s1 \<and>
        fuel s2 \<le> fuel s1 \<and> ((\<exists>k. e = Key_bad k) \<or> fuel s2 < fuel s1))" by blast
  from in_app_on_db [OF a] obtain db y where db: "add_domain now name dflt (w_db (st_world s)) = (db, y)"
    "s1 = s\<lparr>st_world := (st_world s)\<lparr>w_db := db\<rparr>\<rparr>"
    "(\<exists>e. y = Inl e \<and> x = Inl (App_failed (Store e))) \<or> (\<exists>d. y = Inr d \<and> x = Inr d)" by blast
  note c = add_domain_cases [OF db(1)]
  show ?thesis
  proof (cases "x = Inl e \<and> s' = s1")
    case True
    with c db show ?thesis by auto
  next
    case False
    with rest obtain d s2 where x: "x = Inr d" and s': "s' = rollback_add (d_id d) s2" "books s2 = books s1" "fuel s2 \<le> fuel s1"
      and le: "(\<exists>k. e = Key_bad k) \<or> fuel s2 < fuel s1" by blast
    have "fuel s1 \<le> fuel s" using c db(2) by (simp add: failures_def)
    with few le s'(3) have q: "fuel s2 = 0" by (cases e) auto
    let ?D = "db_domains (w_db (st_world s))" and ?A = "db_apps (w_db (st_world s))"
    from c db x have d: "d_id d = db_next_domain (w_db (st_world s))" and rows: "db_domains db = ?D @ [d]" "db_apps db = ?A"
      "db_limits db = db_limits (w_db (st_world s))" by auto
    have "books s2 = (?D @ [d], ?A, db_limits (w_db (st_world s)), (db_next_domain db, db_next_app db), w_sasl (st_world s))"
      using s'(2) db(2) rows by (simp add: books_def)
    from rollback_done [OF this q, of "d_id d"] s'(1) have "books s' = (filter (\<lambda>c. d_id c \<noteq> d_id d) (?D @ [d]),
      filter (\<lambda>a. a_domain_id a \<noteq> d_id d) ?A, db_limits (w_db (st_world s)), (db_next_domain db, db_next_app db), w_sasl (st_world s))"
      by auto
    then show ?thesis using fresh_domain_filtered [OF inv d] by (simp add: books_def)
  qed
qed

section \<open>The properties\<close>

text \<open>A server with one domain, its key and an application, for the witnesses.\<close>

definition sample_site :: site where
  "sample_site =
     \<lparr>st_world =
        \<lparr>w_db = \<lparr>db_domains = [\<lparr>d_id = 1, d_name = ''a.io'', d_selector = ''s'', d_rua = [], d_created = 0\<rparr>],
                 db_apps = [\<lparr>a_id = 1, a_domain_id = 1, a_login = ''app'', a_mode = Wildcard, a_created = 0,
                             a_addresses = [], a_restrict = False, a_ips = []\<rparr>],
                 db_limits = [], db_next_domain = 2, db_next_app = 2, db_faults = []\<rparr>,
         w_sasl = [''app'' \<mapsto> ''pw''], w_map = None, w_live = None, w_faults = []\<rparr>,
      st_keys = [(''a.io'', [(''s'', ''key'')])], st_table = None\<rparr>"

text \<open>
  Every operation of the domain service keeps the registry well-formed, whatever fails in it,
  for a name its callers validated.
\<close>

theorem domain_service_keeps_registry:
  assumes "wf_db (w_db (st_world s))" "domain_check name = None" "domain_check (de_domain x) = None"
  shows "wf_db (w_db (st_world (fst (add_sending srv dflt gen now name s)))) \<and>
    wf_db (w_db (st_world (fst (delete_sending ul srv dflt gen i s)))) \<and>
    wf_db (w_db (st_world (fst (resync_domains srv dflt gen s)))) \<and>
    wf_db (w_db (st_world (fst (import_domain ul rsa srv dflt gen now x s))))"
  using triple_keepsD [OF add_sending_wf [OF assms(2)] assms(1)] triple_keepsD [OF delete_sending_wf assms(1)]
    triple_keepsD [OF resync_domains_wf assms(1)] triple_keepsD [OF import_domain_wf [OF assms(3)] assms(1)]
  by blast

lemma domain_service_keeps_registry_witness:
  "wf_db (w_db (st_world (fst (add_sending ''m.io'' ''s'' (\<lambda>n s. n) 0 ''b.io'' sample_site))))"
proof -
  have "wf_db (w_db (st_world sample_site))" by code_simp
  moreover have "domain_check ''b.io'' = None" by code_simp
  moreover have "domain_check (de_domain \<lparr>de_format = [], de_domain = ''b.io'', de_selector = [], de_key = [], de_rua = [],
     de_limit = None, de_apps = []\<rparr>) = None" by code_simp
  ultimately show ?thesis using domain_service_keeps_registry by blast
qed

text \<open>
  An added domain is a new row of the registry with its key on disk, and the selector table
  was rendered from the registry that has it; applications and accounts are as before.
\<close>

theorem added_domain:
  assumes "add_sending srv dflt gen now name s = (s', Inr d)"
  shows "d_name d = name \<and> d_selector d = dflt \<and> name \<notin> d_name ` set (db_domains (w_db (st_world s))) \<and>
    db_domains (w_db (st_world s')) = db_domains (w_db (st_world s)) @ [d] \<and>
    db_apps (w_db (st_world s')) = db_apps (w_db (st_world s)) \<and> w_sasl (st_world s') = w_sasl (st_world s) \<and>
    key_at name dflt s' \<noteq> None \<and> lists (served srv dflt (db_domains (w_db (st_world s')))) s'"
  by (rule added [OF assms])

lemma added_domain_witness:
  "key_at ''b.io'' ''s'' (fst (add_sending ''m.io'' ''s'' (\<lambda>n s. n) 0 ''b.io'' sample_site)) \<noteq> None"
proof -
  let ?c = "add_sending ''m.io'' ''s'' (\<lambda>n s. n) 0 ''b.io'' sample_site"
  have "case snd ?c of Inr d \<Rightarrow> True | Inl _ \<Rightarrow> False" by code_simp
  then obtain d where "snd ?c = Inr d" by (auto split: sum.splits)
  from added_domain [OF call_result [OF this]] show ?thesis by blast
qed


definition faulty :: "bool list \<Rightarrow> site \<Rightarrow> site" where
  "faulty fs s = s\<lparr>st_world := (st_world s)\<lparr>w_faults := fs\<rparr>\<rparr>"


text \<open>
  C6. A deleted domain is gone from the registry with its applications, their accounts and every
  limit of both; the sender map on disk and the selector table were rendered from what is left, and
  its key directory is gone, unless the name is the server's own.
\<close>

theorem deleted_domain:
  assumes "delete_sending ul srv dflt gen i s = (s', Inr ())" "books s = (D, A, M, nm, P)"
  shows "\<exists>d. find_domain i (w_db (st_world s)) = Some d \<and>
    books s' = (filter (\<lambda>d. d_id d \<noteq> i) D, filter (\<lambda>a. a_domain_id a \<noteq> i) A,
      filter (\<lambda>r. \<not> domain_limit_of i A r) M, nm, without (domain_logins i A) P) \<and>
    in_step ul (st_world s') \<and> lists (served srv dflt (filter (\<lambda>d. d_id d \<noteq> i) D)) s' \<and>
    (d_name d = srv \<or> d_name d \<notin> fst ` set (st_keys s'))"
proof -
  from delete_sending_cases [OF assms] obtain d s1 where d: "find_domain i (w_db (st_world s)) = Some d"
    and b: "books s1 = (filter (\<lambda>d. d_id d \<noteq> i) D, filter (\<lambda>a. a_domain_id a \<noteq> i) A,
      filter (\<lambda>x. \<not> domain_limit_of i A x) M, nm, without (domain_logins i A) P)"
    and a: "after_delete ul srv dflt gen d s1 = (s', Inr ())" by auto
  note c = after_delete_cases [OF a]
  then have "books s' = books s1" "table_current srv dflt s'" by auto
  moreover have "db_domains (w_db (st_world s')) = filter (\<lambda>d. d_id d \<noteq> i) D" using c b by (simp add: books_def)
  ultimately show ?thesis using c d b by auto
qed

lemma deleted_domain_witness:
  "db_apps (w_db (st_world (fst (delete_sending id ''m.io'' ''s'' (\<lambda>n s. n) 1 sample_site)))) = [] \<and>
     in_step id (st_world (fst (delete_sending id ''m.io'' ''s'' (\<lambda>n s. n) 1 sample_site)))"
proof -
  let ?c = "delete_sending id ''m.io'' ''s'' (\<lambda>n s. n) 1 sample_site"
  have "snd ?c = Inr ()" by code_simp
  then have "?c = (fst ?c, Inr ())" by (rule call_result)
  from deleted_domain [OF this books_def] show ?thesis by (auto simp: books_def sample_site_def)
qed

text \<open>
  A deletion that fails says truly whether the domain is gone: an \<open>ErrDeletedIncomplete\<close> means
  rows and accounts are gone and a step after it failed; any other error means that every row is
  there and neither the table nor a key was touched.
\<close>

theorem failed_deletion:
  assumes "delete_sending ul srv dflt gen i s = (s', Inl e)" "books s = (D, A, M, nm, P)"
  shows "\<exists>D' A' M' P'. books s' = (D', A', M', nm, P') \<and>
    (case e of
       Incomplete n es \<Rightarrow> es \<noteq> [] \<and> D' = filter (\<lambda>d. d_id d \<noteq> i) D \<and> A' = filter (\<lambda>a. a_domain_id a \<noteq> i) A \<and>
         P' = without (domain_logins i A) P
     | _ \<Rightarrow> D' = D \<and> A' = A \<and> st_table s' = st_table s \<and> st_keys s' = st_keys s)"
  using delete_sending_cases [OF assms]
proof (elim disjE exE conjE)
  fix d s1 assume b: "books s1 = (filter (\<lambda>d. d_id d \<noteq> i) D, filter (\<lambda>a. a_domain_id a \<noteq> i) A,
      filter (\<lambda>x. \<not> domain_limit_of i A x) M, nm, without (domain_logins i A) P)"
    and a: "after_delete ul srv dflt gen d s1 = (s', Inl e)"
  from after_delete_cases [OF a] have "books s' = books s1" "\<exists>es. es \<noteq> [] \<and> e = Incomplete (d_name d) es" by auto
  with b show ?thesis by auto
qed auto

lemma failed_deletion_witness:
  "\<exists>M' P'. books (fst (delete_sending id ''m.io'' ''s'' (\<lambda>n s. n) 1 (faulty [True] sample_site))) =
     (db_domains (w_db (st_world sample_site)), db_apps (w_db (st_world sample_site)), M', (2, 2), P')"
proof -
  let ?s = "faulty [True] sample_site"
  let ?c = "delete_sending id ''m.io'' ''s'' (\<lambda>n s. n) 1 ?s"
  have "snd ?c = Inl (App_failed Command_failed)" by code_simp
  then have "?c = (fst ?c, Inl (App_failed Command_failed))" by (rule call_result)
  from failed_deletion [OF this books_def] show ?thesis by (simp add: faulty_def sample_site_def)
qed

text \<open>No deletion of a domain leaves a SASL account without an application, at whatever step it fails.\<close>

theorem domain_deletion_leaves_no_account:
  assumes "no_orphans (st_world s)"
  shows "no_orphans (st_world (fst (delete_sending ul srv dflt gen i s)))"
proof -
  obtain D A M nm P where B: "books s = (D, A, M, nm, P)" by (cases "books s")
  obtain s' r where d: "delete_sending ul srv dflt gen i s = (s', r)" by fastforce
  have all: "P l \<noteq> None \<Longrightarrow> l \<in> a_login ` set A" for l using assms B by (auto simp: no_orphans_def books_def)
  have "\<exists>L A' D' M'. books s' = (D', A', M', nm, without L P) \<and> (A' = A \<or>
    A' = filter (\<lambda>a. a_domain_id a \<noteq> i) A \<and> L = domain_logins i A)"
    using delete_sending_cases [OF d B] after_delete_cases [of ul srv dflt gen] by (elim disjE exE conjE) fastforce+
  then obtain L A' D' M' where s': "books s' = (D', A', M', nm, without L P)"
    and A': "A' = A \<or> A' = filter (\<lambda>a. a_domain_id a \<noteq> i) A \<and> L = domain_logins i A" by blast
  have "l \<in> a_login ` set A'" if "without L P l \<noteq> None" for l
  proof -
    have l: "l \<notin> L" "P l \<noteq> None" using that by (auto simp: without_def split: if_splits)
    from all [OF l(2)] obtain a where "a \<in> set A" "l = a_login a" by blast
    with l(1) A' show ?thesis by (elim disjE) (blast intro: image_eqI, auto intro!: image_eqI [of _ _ a])
  qed
  with d s' show ?thesis by (auto simp: no_orphans_def books_def)
qed

lemma domain_deletion_leaves_no_account_witness:
  "no_orphans (st_world (fst (delete_sending id ''m.io'' ''s'' (\<lambda>n s. n) 1 (faulty [False, True] sample_site))))"
  by (rule domain_deletion_leaves_no_account) (simp add: no_orphans_def faulty_def sample_site_def)



text \<open>
  A key on disk is never replaced by a new one: adding a domain of its name, rewriting the
  table and asking for the server's record all leave it as it is.
\<close>

theorem key_never_replaced:
  assumes "key_at n sel s = Some k"
  shows "key_at n sel (fst (add_sending srv dflt gen now name s)) = Some k \<and>
    key_at n sel (fst (write_selectors srv dflt gen s)) = Some k \<and>
    key_at n sel (fst (server_mail rsa pub srv dflt gen s)) = Some k"
  using triple_keepsD [OF add_sending_has_key assms] triple_keepsD [OF resync_table_has_key assms]
    triple_keepsD [OF server_mail_has_key assms]
  unfolding write_selectors_def by blast

lemma key_never_replaced_witness:
  "key_at ''a.io'' ''s'' (fst (add_sending ''m.io'' ''s'' (\<lambda>n s. n) 0 ''b.io'' sample_site)) = Some ''key''"
proof -
  have "key_at ''a.io'' ''s'' sample_site = Some ''key''" by code_simp
  then show ?thesis using key_never_replaced by blast
qed



end
