(* ===== verification/Dkim_Signer.thy ===== *)
theory Dkim_Signer
  imports Signing_Keys Sender_Check Registry
begin

text \<open>
  The DKIM signer's session (\<open>signSession\<close> of \<open>internal/milter/sign.go\<close>): one connection of a
  signer socket. The signing library (\<open>go-msgauth\<close>) is a parameter: whether it takes the options
  (\<open>starts\<close>) or a write (the flag of a step), and the header field it makes of a finished
  \<open>signing\<close> - its options and every byte written to it - in \<open>signature\<close>. \<open>ul\<close> is
  \<open>strings.ToLower\<close> past ASCII, \<open>ef\<close> is \<open>strings.EqualFold\<close>. Log output is left out.
\<close>

section \<open>What is signed\<close>

definition sign_headers :: "string list" where
  "sign_headers =
     [''from'', ''sender'', ''reply-to'', ''subject'', ''date'', ''to'', ''cc'',
      ''resent-date'', ''resent-from'', ''resent-sender'', ''resent-to'', ''resent-cc'',
      ''in-reply-to'', ''references'',
      ''list-id'', ''list-help'', ''list-unsubscribe'', ''list-unsubscribe-post'',
      ''list-subscribe'', ''list-post'', ''list-owner'', ''list-archive'',
      ''content-type'', ''mime-version'', ''message-id'']"

definition over_sign :: "string list" where
  "over_sign = [''subject'', ''date'', ''to'', ''cc'', ''reply-to'', ''sender'']"

definition header_limit :: nat where "header_limit = 2 ^ 20"

definition smtp_line_limit :: nat where "smtp_line_limit = 998"

definition crlf :: string where "crlf = [CHR 0x0D, CHR 0x0A]"

text \<open>\<open>strings.ReplaceAll\<close> of "\r\n" by "\n", and of "\n" by "\r\n".\<close>

fun to_lf :: "string \<Rightarrow> string" where
  "to_lf [] = []"
| "to_lf [c] = [c]"
| "to_lf (c # d # s) = (if c = CHR 0x0D \<and> d = CHR 0x0A then CHR 0x0A # to_lf s else c # to_lf (d # s))"

definition to_crlf :: "string \<Rightarrow> string" where
  "to_crlf s = concat (map (\<lambda>c. if c = CHR 0x0A then crlf else [c]) s)"

definition header_text :: "string \<times> string \<Rightarrow> string" where
  "header_text h = fst h @ CHR '':'' # to_crlf (to_lf (snd h)) @ crlf"

text \<open>The loop of \<open>signLines\<close> over the headers: \<open>keys\<close>, \<open>again\<close>, \<open>seen\<close> and the text so far.\<close>

record sign_lines_state =
  sl_keys :: "string list"
  sl_again :: "string list"
  sl_seen :: "string list"
  sl_block :: string

definition sign_line :: "(string \<Rightarrow> string) \<Rightarrow> sign_lines_state \<Rightarrow> string \<times> string \<Rightarrow> sign_lines_state" where
  "sign_line ul st h =
     (let st1 = st\<lparr>sl_block := sl_block st @ header_text h\<rparr>;
          name = trim_space (fst h);
          lower = to_lower ul name
      in if lower \<notin> set sign_headers then st1
         else (let st2 = st1\<lparr>sl_keys := sl_keys st1 @ [name]\<rparr>
               in if lower \<in> set over_sign \<and> lower \<notin> set (sl_seen st2)
                  then st2\<lparr>sl_seen := lower # sl_seen st2, sl_again := sl_again st2 @ [name]\<rparr>
                  else st2))"

definition sign_lines :: "(string \<Rightarrow> string) \<Rightarrow> (string \<times> string) list \<Rightarrow> string list \<times> string" where
  "sign_lines ul hs =
     (let st = foldl (sign_line ul) \<lparr>sl_keys = [], sl_again = [], sl_seen = [], sl_block = []\<rparr> hs
      in (sl_keys st @ sl_again st @ [''From''], sl_block st @ crlf))"

text \<open>\<open>longHeaderLine\<close>, which only decides what is logged.\<close>

definition header_too_long :: "string \<times> string \<Rightarrow> bool" where
  "header_too_long h =
     (let ls = split_on (CHR 0x0A) (snd h); len = (\<lambda>l. length (trim_right [CHR 0x0D] l))
      in length (fst h) + 1 + len (hd ls) > smtp_line_limit \<or> list_ex (\<lambda>l. len l > smtp_line_limit) (tl ls))"

definition long_header_line :: "(string \<times> string) list \<Rightarrow> string" where
  "long_header_line hs = (case find header_too_long hs of None \<Rightarrow> [] | Some h \<Rightarrow> fst h)"

section \<open>The session\<close>

record 'k signing =
  sg_domain :: string
  sg_selector :: string
  sg_key :: 'k
  sg_names :: "string list"
  sg_written :: string

record 'k sign_session =
  ss_login :: string
  ss_headers :: "(string \<times> string) list"
  ss_size :: nat
  ss_too_big :: bool
  ss_signer :: "'k signing option"
  ss_domain :: string
  ss_line :: nat
  ss_long :: bool
  ss_expired :: bool

definition new_sign_session :: "'k sign_session" where
  "new_sign_session =
     \<lparr>ss_login = [], ss_headers = [], ss_size = 0, ss_too_big = False, ss_signer = None, ss_domain = [],
      ss_line = 0, ss_long = False, ss_expired = False\<rparr>"

definition ss_reset :: "'k sign_session \<Rightarrow> 'k sign_session" where
  "ss_reset s =
     s\<lparr>ss_login := [], ss_headers := [], ss_size := 0, ss_too_big := False, ss_signer := None, ss_domain := [],
       ss_line := 0, ss_long := False\<rparr>"

definition ss_mail_from :: "macros \<Rightarrow> 'k sign_session \<Rightarrow> 'k sign_session \<times> response" where
  "ss_mail_from m s = ((ss_reset s)\<lparr>ss_login := macro m ''auth_authen''\<rparr>, Continue)"

definition ss_header :: "string \<Rightarrow> string \<Rightarrow> 'k sign_session \<Rightarrow> 'k sign_session \<times> response" where
  "ss_header name val s =
     (let s1 = s\<lparr>ss_size := ss_size s + length name + length val + 3\<rparr>
      in if ss_size s1 > header_limit then (s1\<lparr>ss_too_big := True, ss_headers := []\<rparr>, Continue)
         else (s1\<lparr>ss_headers := ss_headers s1 @ [(name, val)]\<rparr>, Continue))"

text \<open>
  \<open>Headers\<close>: \<open>dom_name\<close> is what \<open>domainOf\<close> answers for the login, \<open>get\<close> the look-up of the keys,
  \<open>starts\<close> whether the library takes the options and \<open>wrote\<close> whether it takes the block.
\<close>

definition ss_headers_end ::
  "(string \<Rightarrow> string) \<Rightarrow> string \<Rightarrow> (string \<Rightarrow> 's \<Rightarrow> 's \<times> ('e + string \<times> 'k)) \<Rightarrow> bool \<Rightarrow> bool \<Rightarrow>
   's \<Rightarrow> 'k sign_session \<Rightarrow> 's \<times> 'k sign_session \<times> response" where
  "ss_headers_end ul dom_name get starts wrote k s =
     (if ss_too_big s then
        (k, s, Reply (''552 5.3.4 The header section is larger than '' @ show_nat header_limit @ '' bytes''))
      else (let s1 = s\<lparr>ss_domain := dom_name\<rparr>
            in if dom_name = [] then (k, s1, Temp_fail)
               else (case get dom_name k of
                       (k', Inl e) \<Rightarrow> (k', s1, Temp_fail)
                     | (k', Inr (selector, key)) \<Rightarrow>
                         (let (names, block) = sign_lines ul (ss_headers s1);
                              s2 = s1\<lparr>ss_headers := []\<rparr>
                          in if \<not> starts then (k', s2, Temp_fail)
                             else if \<not> wrote then (k', ss_reset (s2\<lparr>ss_expired := False\<rparr>), Temp_fail)
                             else (k', s2\<lparr>ss_signer := Some \<lparr>sg_domain = dom_name, sg_selector = selector, sg_key = key,
                                             sg_names = names, sg_written = block\<rparr>,
                                          ss_expired := False\<rparr>, Continue)))))"

text \<open>\<open>watch\<close>: the message took longer than \<open>signLimit\<close>. It may close the signer at any time.\<close>

definition ss_expire :: "'k sign_session \<Rightarrow> 'k sign_session" where
  "ss_expire s = (case ss_signer s of None \<Rightarrow> s | Some g \<Rightarrow> s\<lparr>ss_expired := True\<rparr>)"

text \<open>The bytes of the line being read, up to the first line that is too long.\<close>

fun count_line :: "nat \<Rightarrow> string \<Rightarrow> nat \<times> bool" where
  "count_line n [] = (n, False)"
| "count_line n (c # cs) =
     (if c = CHR 0x0A then count_line 0 cs
      else (let n' = (if c \<noteq> CHR 0x0D then n + 1 else n)
            in if n' > smtp_line_limit then (n', True) else count_line n' cs))"

definition ss_body_chunk :: "bool \<Rightarrow> string \<Rightarrow> 'k sign_session \<Rightarrow> 'k sign_session \<times> response" where
  "ss_body_chunk wrote chunk s =
     (case ss_signer s of
        None \<Rightarrow> (s, Continue)
      | Some g \<Rightarrow>
          (let s1 = (if ss_long s then s
                     else (case count_line (ss_line s) chunk of (n, lg) \<Rightarrow> s\<lparr>ss_line := n, ss_long := lg\<rparr>))
           in if \<not> wrote then (ss_reset s1, Temp_fail)
              else (s1\<lparr>ss_signer := Some (g\<lparr>sg_written := sg_written g @ chunk\<rparr>)\<rparr>, Continue)))"

text \<open>\<open>strings.Cut\<close> at ": ", and \<open>strings.TrimSuffix\<close> of the line's end.\<close>

fun cut_colon :: "string \<Rightarrow> (string \<times> string) option" where
  "cut_colon (c # d # s) =
     (if c = CHR '':'' \<and> d = CHR '' '' then Some ([], s)
      else map_option (\<lambda>(a, b). (c # a, b)) (cut_colon (d # s)))"
| "cut_colon _ = None"

definition drop_crlf :: "string \<Rightarrow> string" where
  "drop_crlf s = (if drop (length s - 2) s = crlf then take (length s - 2) s else s)"

datatype body_answer = Answer response | Insert_header nat string string | Milter_error

text \<open>
  \<open>Body\<close>: \<open>finished\<close> is whether the library finishes, \<open>inserted\<close> whether Postfix takes the header.
\<close>

definition ss_body ::
  "(string \<Rightarrow> string \<Rightarrow> bool) \<Rightarrow> ('k signing \<Rightarrow> string) \<Rightarrow> bool \<Rightarrow> bool \<Rightarrow> 'k sign_session \<Rightarrow>
   'k sign_session \<times> body_answer" where
  "ss_body ef signature finished inserted s =
     (case ss_signer s of
        None \<Rightarrow> (s, Answer Temp_fail)
      | Some g \<Rightarrow>
          (let s1 = s\<lparr>ss_signer := None\<rparr>
           in if ss_expired s1 \<or> \<not> finished then (s1, Answer Temp_fail)
              else (case cut_colon (signature g) of
                      None \<Rightarrow> (s1, Answer Temp_fail)
                    | Some (name, val) \<Rightarrow>
                        if \<not> ef name ''DKIM-Signature'' then (s1, Answer Temp_fail)
                        else if \<not> inserted then (s1, Milter_error)
                        else (s1, Insert_header 0 name (CHR '' '' # drop_crlf val)))))"

definition ss_abort :: "'k sign_session \<Rightarrow> 'k sign_session" where
  "ss_abort s = ss_reset s"

section \<open>The names in h=\<close>

definition named :: "(string \<Rightarrow> string) \<Rightarrow> string \<Rightarrow> string list \<Rightarrow> nat" where
  "named ul h ns = length (filter (\<lambda>n. to_lower ul n = h) ns)"

definition header_name :: "(string \<Rightarrow> string) \<Rightarrow> string \<times> string \<Rightarrow> string" where
  "header_name ul h = to_lower ul (trim_space (fst h))"

lemma named_append [simp]: "named ul h (xs @ ys) = named ul h xs + named ul h ys"
  by (simp add: named_def)

lemma sign_line_named:
  "named ul h (sl_keys (sign_line ul st x)) =
      named ul h (sl_keys st) + (if header_name ul x = h \<and> h \<in> set sign_headers then 1 else 0)"
  "named ul h (sl_again (sign_line ul st x)) =
      named ul h (sl_again st) +
        (if header_name ul x = h \<and> h \<in> set sign_headers \<and> h \<in> set over_sign \<and> h \<notin> set (sl_seen st) then 1 else 0)"
  "set (sl_seen (sign_line ul st x)) =
      set (sl_seen st) \<union> (if header_name ul x \<in> set sign_headers \<and> header_name ul x \<in> set over_sign then {header_name ul x} else {})"
  "sl_block (sign_line ul st x) = sl_block st @ header_text x"
  by (auto simp: sign_line_def Let_def named_def header_name_def)

lemma sign_loop_named:
  "named ul h (sl_keys (foldl (sign_line ul) st hs)) =
     named ul h (sl_keys st) + (if h \<in> set sign_headers then length (filter (\<lambda>x. header_name ul x = h) hs) else 0) \<and>
   named ul h (sl_again (foldl (sign_line ul) st hs)) =
     named ul h (sl_again st) +
       (if h \<in> set sign_headers \<and> h \<in> set over_sign \<and> h \<notin> set (sl_seen st) \<and> (\<exists>x \<in> set hs. header_name ul x = h) then 1 else 0) \<and>
   sl_block (foldl (sign_line ul) st hs) = sl_block st @ concat (map header_text hs)"
proof (induction hs arbitrary: st)
  case (Cons x hs)
  show ?case
    using Cons.IH [of "sign_line ul st x"] sign_line_named(1,2) [of ul h st x]
      sign_line_named(3,4) [of ul st x] by auto
qed simp

lemma over_sign_signed: "set over_sign \<subseteq> set sign_headers"
  by (simp add: over_sign_def sign_headers_def)

lemma to_lower_From: "to_lower ul ''From'' = ''from''"
  by (subst to_lower_ascii) code_simp+

lemma sign_lines_named:
  "named ul h (fst (sign_lines ul hs)) =
     (if h \<in> set sign_headers then length (filter (\<lambda>x. header_name ul x = h) hs) else 0) +
     (if h \<in> set over_sign \<and> (\<exists>x \<in> set hs. header_name ul x = h) then 1 else 0) +
     (if h = ''from'' then 1 else 0)"
proof -
  let ?st = "\<lparr>sl_keys = [], sl_again = [], sl_seen = [], sl_block = []\<rparr>"
  have e: "named ul h [] = 0" "named ul h [''From''] = (if h = ''from'' then 1 else 0)"
    by (auto simp: named_def to_lower_From)
  show ?thesis
    using sign_loop_named [of ul h ?st hs] over_sign_signed e by (auto simp: sign_lines_def Let_def)
qed

lemma sign_lines_block: "snd (sign_lines ul hs) = concat (map header_text hs) @ crlf"
  using sign_loop_named [of ul "[]" "\<lparr>sl_keys = [], sl_again = [], sl_seen = [], sl_block = []\<rparr>" hs]
  by (simp add: sign_lines_def Let_def)

text \<open>Every line feed of the block follows a carriage return.\<close>

fun crlf_only :: "string \<Rightarrow> bool" where
  "crlf_only [] \<longleftrightarrow> True"
| "crlf_only (c # s) \<longleftrightarrow>
     c \<noteq> CHR 0x0A \<and> (c = CHR 0x0D \<and> s \<noteq> [] \<and> hd s = CHR 0x0A \<longrightarrow> crlf_only (tl s)) \<and>
     (\<not> (c = CHR 0x0D \<and> s \<noteq> [] \<and> hd s = CHR 0x0A) \<longrightarrow> crlf_only s)"

lemma to_crlf_head: "to_crlf s @ crlf @ t \<noteq> [] \<and> hd (to_crlf s @ crlf @ t) \<noteq> CHR 0x0A"
  by (cases s) (auto simp: to_crlf_def crlf_def)

lemma crlf_only_text: "crlf_only t \<Longrightarrow> crlf_only (to_crlf s @ crlf @ t)"
proof (induction s)
  case Nil
  then show ?case by (simp add: to_crlf_def crlf_def)
next
  case (Cons c s)
  then show ?case using to_crlf_head [of s t] by (auto simp: to_crlf_def crlf_def)
qed

lemma crlf_only_name: "CHR 0x0A \<notin> set n \<Longrightarrow> crlf_only (CHR '':'' # t) \<Longrightarrow> crlf_only (n @ CHR '':'' # t)"
  by (induction n) (auto split: list.splits simp: neq_Nil_conv hd_append)

lemma sign_block_crlf:
  assumes "\<forall>h \<in> set hs. CHR 0x0A \<notin> set (fst h)"
  shows "crlf_only (concat (map header_text hs) @ crlf)"
  using assms
proof (induction hs)
  case (Cons h hs)
  then have "crlf_only (to_crlf (to_lf (snd h)) @ crlf @ concat (map header_text hs) @ crlf)"
    by (intro crlf_only_text) simp
  then have "crlf_only (CHR '':'' # to_crlf (to_lf (snd h)) @ crlf @ concat (map header_text hs) @ crlf)" by simp
  with Cons.prems crlf_only_name show ?case by (simp add: header_text_def [of h])
qed (simp add: crlf_def)

section \<open>A signed message\<close>

text \<open>A message from MAIL FROM to the end of its headers, and its body with the watchdog's alarm.\<close>

definition signed_headers :: "macros \<Rightarrow> (string \<times> string) list \<Rightarrow> 'k sign_session \<Rightarrow> 'k sign_session" where
  "signed_headers m hs s = foldl (\<lambda>s (n, v). fst (ss_header n v s)) (fst (ss_mail_from m s)) hs"

datatype body_event = Chunk bool string | Alarm

fun take_event :: "'k sign_session \<Rightarrow> body_event \<Rightarrow> 'k sign_session" where
  "take_event s (Chunk wrote c) = fst (ss_body_chunk wrote c s)"
| "take_event s Alarm = ss_expire s"

fun chunk_text :: "body_event \<Rightarrow> string" where
  "chunk_text (Chunk wrote c) = c"
| "chunk_text Alarm = []"

definition section_size :: "(string \<times> string) list \<Rightarrow> nat" where
  "section_size hs = sum_list (map (\<lambda>(n, v). length n + length v + 3) hs)"

lemma header_loop:
  assumes "\<not> ss_too_big (foldl (\<lambda>s (n, v). fst (ss_header n v s)) s hs)"
  shows "\<not> ss_too_big s \<and> ss_headers (foldl (\<lambda>s (n, v). fst (ss_header n v s)) s hs) = ss_headers s @ hs \<and>
    ss_size (foldl (\<lambda>s (n, v). fst (ss_header n v s)) s hs) = ss_size s + section_size hs \<and>
    (hs = [] \<or> ss_size s + section_size hs \<le> header_limit) \<and>
    ss_login (foldl (\<lambda>s (n, v). fst (ss_header n v s)) s hs) = ss_login s"
  using assms
proof (induction hs arbitrary: s)
  case (Cons h hs)
  obtain n v where h: "h = (n, v)" by (cases h)
  let ?s = "fst (ss_header n v s)"
  from Cons.IH [of ?s] Cons.prems have IH: "\<not> ss_too_big ?s"
    "ss_headers (foldl (\<lambda>s (n, v). fst (ss_header n v s)) ?s hs) = ss_headers ?s @ hs"
    "ss_size (foldl (\<lambda>s (n, v). fst (ss_header n v s)) ?s hs) = ss_size ?s + section_size hs"
    "hs = [] \<or> ss_size ?s + section_size hs \<le> header_limit"
    "ss_login (foldl (\<lambda>s (n, v). fst (ss_header n v s)) ?s hs) = ss_login ?s"
    by (auto simp: h)
  with Cons.prems show ?case
    by (auto simp: h ss_header_def Let_def section_size_def split: if_splits)
qed (simp add: section_size_def)

lemma body_loop:
  assumes "ss_signer (foldl take_event s es) = Some g" "\<not> ss_expired (foldl take_event s es)"
  shows "\<exists>g0. ss_signer s = Some g0 \<and> \<not> ss_expired s \<and> Alarm \<notin> set es \<and> (\<forall>c. Chunk False c \<notin> set es) \<and>
    g = g0\<lparr>sg_written := sg_written g0 @ concat (map chunk_text es)\<rparr>"
  using assms
proof (induction es arbitrary: s)
  case Nil
  then show ?case by (cases g) auto
next
  case (Cons e es)
  from Cons.IH [of "take_event s e"] Cons.prems obtain g1 where
    g1: "ss_signer (take_event s e) = Some g1" "\<not> ss_expired (take_event s e)" "Alarm \<notin> set es"
      "\<forall>c. Chunk False c \<notin> set es" "g = g1\<lparr>sg_written := sg_written g1 @ concat (map chunk_text es)\<rparr>" by auto
  show ?case
  proof (cases e)
    case (Chunk wrote c)
    with g1 show ?thesis
      by (auto simp: ss_body_chunk_def ss_reset_def Let_def split: option.splits if_splits prod.splits)
  next
    case Alarm
    with g1 show ?thesis by (auto simp: ss_expire_def split: option.splits)
  qed
qed

lemma headers_signer: "ss_signer (foldl (\<lambda>s (n, v). fst (ss_header n v s)) s hs) = ss_signer s"
  by (induction hs arbitrary: s) (auto simp: ss_header_def Let_def split: prod.splits)

lemma headers_end_signer:
  assumes "ss_headers_end ul d get starts wrote k s = (k', s', resp)" "ss_signer s' = Some g" "ss_signer s = None"
  shows "resp = Continue \<and> \<not> ss_too_big s \<and> d \<noteq> [] \<and> (\<exists>sel key. get d k = (k', Inr (sel, key)) \<and>
    g = \<lparr>sg_domain = d, sg_selector = sel, sg_key = key, sg_names = fst (sign_lines ul (ss_headers s)),
         sg_written = snd (sign_lines ul (ss_headers s))\<rparr>)"
  using assms
  by (auto simp: ss_headers_end_def ss_reset_def Let_def split: if_splits prod.splits sum.splits)

lemma signed_message:
  assumes h: "ss_headers_end ul d get starts wrote k (signed_headers m hs s) = (k', s1, resp)"
    and b: "ss_body ef signature finished inserted (foldl take_event s1 es) = (s2, Insert_header i n v)"
  shows "d \<noteq> [] \<and> section_size hs \<le> header_limit \<and> Alarm \<notin> set es \<and> (\<forall>c. Chunk False c \<notin> set es) \<and>
    (\<exists>sel key w. get d k = (k', Inr (sel, key)) \<and>
       cut_colon (signature \<lparr>sg_domain = d, sg_selector = sel, sg_key = key, sg_names = fst (sign_lines ul hs),
           sg_written = concat (map header_text hs) @ crlf @ concat (map chunk_text es)\<rparr>) = Some (n, w) \<and>
       v = CHR '' '' # drop_crlf w)"
proof -
  from b obtain g w where g: "ss_signer (foldl take_event s1 es) = Some g" "\<not> ss_expired (foldl take_event s1 es)"
    "cut_colon (signature g) = Some (n, w)" "v = CHR '' '' # drop_crlf w"
    by (auto simp: ss_body_def Let_def split: option.splits if_splits)
  from body_loop [OF g(1,2)] obtain g0 where g0: "ss_signer s1 = Some g0" "Alarm \<notin> set es"
    "\<forall>c. Chunk False c \<notin> set es" "g = g0\<lparr>sg_written := sg_written g0 @ concat (map chunk_text es)\<rparr>" by blast
  let ?s0 = "fst (ss_mail_from m s)"
  have s0: "ss_signer ?s0 = None" "ss_size ?s0 = 0" "ss_headers ?s0 = []"
    by (simp_all add: ss_mail_from_def ss_reset_def)
  have "ss_signer (signed_headers m hs s) = None" using s0(1) by (simp add: signed_headers_def headers_signer)
  from headers_end_signer [OF h g0(1) this] obtain sel key where e: "\<not> ss_too_big (signed_headers m hs s)" "d \<noteq> []"
    "get d k = (k', Inr (sel, key))"
    "g0 = \<lparr>sg_domain = d, sg_selector = sel, sg_key = key, sg_names = fst (sign_lines ul (ss_headers (signed_headers m hs s))),
         sg_written = snd (sign_lines ul (ss_headers (signed_headers m hs s)))\<rparr>"
    by blast
  from header_loop [OF e(1) [unfolded signed_headers_def]] s0 have
    "ss_headers (signed_headers m hs s) = hs" "section_size hs \<le> header_limit"
    by (auto simp: signed_headers_def section_size_def)
  with e g g0 show ?thesis by (auto simp: sign_lines_block)
qed

section \<open>The signer's promises\<close>

text \<open>
  In h= every signed header is named as often as the message has it, each shown one that is
  present once more, and From always once more - so a header of that name added later breaks the
  signature; and the block that is signed is the headers in order, its lines ended by CRLF.
\<close>

theorem signed_names:
  "named ul h (fst (sign_lines ul hs)) =
     (if h \<in> set sign_headers then length (filter (\<lambda>x. header_name ul x = h) hs) else 0) +
     (if h \<in> set over_sign \<and> (\<exists>x \<in> set hs. header_name ul x = h) then 1 else 0) +
     (if h = ''from'' then 1 else 0) \<and>
   snd (sign_lines ul hs) = concat (map header_text hs) @ crlf"
  using sign_lines_named sign_lines_block by blast



end
