(* ===== verification/Go_Regexp.thy ===== *)
theory Go_Regexp
  imports Prelude
begin

text \<open>
  What the source uses of Go's package \<open>regexp\<close>: a pattern is a value of \<open>re\<close>, and
  \<open>find_submatch\<close> is \<open>FindStringSubmatch\<close> for a pattern that starts with \<open>^\<close>. Of the matches
  that begin there the package takes the one a backtracking search finds first: the left branch of
  an alternation before the right one, one more repetition before none for a greedy \<open>*\<close>, none
  before one more for a lazy one. \<open>run\<close> is that search, with what follows as a continuation.

  A pattern works on runes and this matcher on bytes. For the patterns of the source that is the
  same: every class of them either holds ASCII only or every byte above ASCII, and stands where
  another of the kind may follow, so the bytes of a rune are taken one after the other.
\<close>

section \<open>Patterns and the search\<close>

datatype re =
    Eps
  | Lit string
  | Cls "char \<Rightarrow> bool"
  | Seq re re
  | Alt re re
  | Star bool re
  | Cap nat re
  | Word_b
  | Text_end

text \<open>A position is the byte before it (a line feed at the head) and the text after it.\<close>

type_synonym pos = "char \<times> string"

type_synonym caps = "(nat \<times> string) list"

definition word_char :: "char \<Rightarrow> bool" where
  "word_char c \<longleftrightarrow> is_digit c \<or> is_upper c \<or> is_lower c \<or> c = CHR ''_''"

definition adv :: "char \<Rightarrow> string \<Rightarrow> char" where
  "adv p s = last (p # s)"

definition word_edge :: "pos \<Rightarrow> bool" where
  "word_edge x \<longleftrightarrow> word_char (fst x) \<noteq> (snd x \<noteq> [] \<and> word_char (hd (snd x)))"

text \<open>A repetition that takes nothing is not repeated.\<close>

fun repeated ::
  "bool \<Rightarrow> (pos \<Rightarrow> caps \<Rightarrow> (pos \<Rightarrow> caps \<Rightarrow> caps option) \<Rightarrow> caps option) \<Rightarrow> nat \<Rightarrow> pos \<Rightarrow> caps \<Rightarrow>
   (pos \<Rightarrow> caps \<Rightarrow> caps option) \<Rightarrow> caps option" where
  "repeated greedy f 0 x cs k = k x cs"
| "repeated greedy f (Suc n) x cs k =
     (let more = (\<lambda>_ :: unit. f x cs (\<lambda>y cs'. if length (snd y) < length (snd x) then repeated greedy f n y cs' k else None))
      in if greedy then (case more () of Some r \<Rightarrow> Some r | None \<Rightarrow> k x cs)
         else (case k x cs of Some r \<Rightarrow> Some r | None \<Rightarrow> more ()))"

fun run :: "re \<Rightarrow> pos \<Rightarrow> caps \<Rightarrow> (pos \<Rightarrow> caps \<Rightarrow> caps option) \<Rightarrow> caps option" where
  "run Eps x cs k = k x cs"
| "run (Lit s) x cs k =
     (if take (length s) (snd x) = s then k (adv (fst x) s, drop (length s) (snd x)) cs else None)"
| "run (Cls P) x cs k =
     (case snd x of [] \<Rightarrow> None | c # r \<Rightarrow> if P c then k (c, r) cs else None)"
| "run (Seq a b) x cs k = run a x cs (\<lambda>y cs'. run b y cs' k)"
| "run (Alt a b) x cs k = (case run a x cs k of Some r \<Rightarrow> Some r | None \<Rightarrow> run b x cs k)"
| "run (Star greedy a) x cs k = repeated greedy (run a) (length (snd x)) x cs k"
| "run (Cap i a) x cs k =
     run a x cs (\<lambda>y cs'. k y ((i, take (length (snd x) - length (snd y)) (snd x)) # cs'))"
| "run Word_b x cs k = (if word_edge x then k x cs else None)"
| "run Text_end x cs k = (if snd x = [] then k x cs else None)"

definition find_submatch :: "re \<Rightarrow> string \<Rightarrow> caps option" where
  "find_submatch r s = run r (CHR 0x0A, s) [] (\<lambda>_ cs. Some cs)"

text \<open>\<open>m[i]\<close>, "" for a group that took no part; and where the whole match ends.\<close>

definition group :: "caps \<Rightarrow> nat \<Rightarrow> string" where
  "group cs i = (case map_of cs i of None \<Rightarrow> [] | Some s \<Rightarrow> s)"

text \<open>The classes and short forms of the patterns.\<close>

definition space_char :: "char \<Rightarrow> bool" where
  "space_char c \<longleftrightarrow> c \<in> {CHR '' '', CHR 0x09, CHR 0x0A, CHR 0x0C, CHR 0x0D}"

definition not_space :: "char \<Rightarrow> bool" where
  "not_space c \<longleftrightarrow> \<not> space_char c"

definition not_newline :: "char \<Rightarrow> bool" where
  "not_newline c \<longleftrightarrow> c \<noteq> CHR 0x0A"

definition alnum :: "char \<Rightarrow> bool" where
  "alnum c \<longleftrightarrow> is_digit c \<or> is_upper c \<or> is_lower c"

definition not_in :: "string \<Rightarrow> char \<Rightarrow> bool" where
  "not_in s c \<longleftrightarrow> c \<notin> set s"

definition many :: "(char \<Rightarrow> bool) \<Rightarrow> re" where
  "many P = Star True (Cls P)"

definition some1 :: "(char \<Rightarrow> bool) \<Rightarrow> re" where
  "some1 P = Seq (Cls P) (many P)"

definition few :: "(char \<Rightarrow> bool) \<Rightarrow> re" where
  "few P = Star False (Cls P)"

definition opt :: "re \<Rightarrow> re" where
  "opt r = Alt r Eps"

fun seq :: "re list \<Rightarrow> re" where
  "seq [] = Eps"
| "seq [r] = r"
| "seq (r # rs) = Seq r (seq rs)"

fun times :: "nat \<Rightarrow> re \<Rightarrow> re" where
  "times 0 r = Eps"
| "times (Suc n) r = Seq r (times n r)"

fun upto_times :: "nat \<Rightarrow> re \<Rightarrow> re" where
  "upto_times 0 r = Eps"
| "upto_times (Suc n) r = opt (Seq r (upto_times n r))"

section \<open>What the search finds\<close>

text \<open>The relation of a pattern: from a position and captures to those after a match of it.\<close>

definition shorter :: "((pos \<times> caps) \<times> pos \<times> caps) set" where
  "shorter = {((x, cs), y, cs'). length (snd y) < length (snd x)}"

primrec runs :: "re \<Rightarrow> ((pos \<times> caps) \<times> pos \<times> caps) set" where
  "runs Eps = Id"
| "runs (Lit s) = {((x, cs), y, cs'). cs' = cs \<and> snd x = s @ snd y \<and> fst y = adv (fst x) s}"
| "runs (Cls P) = {((x, cs), y, cs'). cs' = cs \<and> P (fst y) \<and> snd x = fst y # snd y}"
| "runs (Seq a b) = runs a O runs b"
| "runs (Alt a b) = runs a \<union> runs b"
| "runs (Star g a) = (runs a \<inter> shorter)\<^sup>*"
| "runs (Cap i a) = {((x, cs), y, cs'). \<exists>cs1. ((x, cs), y, cs1) \<in> runs a \<and>
     cs' = (i, take (length (snd x) - length (snd y)) (snd x)) # cs1}"
| "runs Word_b = {((x, cs), y, cs'). y = x \<and> cs' = cs \<and> word_edge x}"
| "runs Text_end = {((x, cs), y, cs'). y = x \<and> cs' = cs \<and> snd x = []}"

lemma repeated_sound:
  assumes "\<And>x cs k r. f x cs k = Some r \<Longrightarrow> \<exists>y cs'. ((x, cs), y, cs') \<in> R \<and> k y cs' = Some r"
  shows "repeated g f n x cs k = Some r \<Longrightarrow> \<exists>y cs'. ((x, cs), y, cs') \<in> (R \<inter> shorter)\<^sup>* \<and> k y cs' = Some r"
proof (induction n arbitrary: x cs)
  case (Suc n)
  have more: "\<exists>y cs'. ((x, cs), y, cs') \<in> (R \<inter> shorter)\<^sup>* \<and> k y cs' = Some r"
    if m: "f x cs (\<lambda>y cs'. if length (snd y) < length (snd x) then repeated g f n y cs' k else None) = Some r"
  proof -
    from assms [OF m] obtain y cs' where y: "((x, cs), y, cs') \<in> R \<inter> shorter" "repeated g f n y cs' k = Some r"
      by (auto simp: shorter_def split: if_splits)
    from Suc.IH [OF y(2)] obtain z cs2 where "((y, cs'), z, cs2) \<in> (R \<inter> shorter)\<^sup>*" "k z cs2 = Some r" by blast
    with y(1) show ?thesis by (meson converse_rtrancl_into_rtrancl)
  qed
  have stop: "k x cs = Some r \<Longrightarrow> ?case" by (meson rtrancl.rtrancl_refl)
  from Suc.prems have "k x cs = Some r \<or>
      f x cs (\<lambda>y cs'. if length (snd y) < length (snd x) then repeated g f n y cs' k else None) = Some r"
    unfolding repeated.simps Let_def by (simp only: split: option.splits if_splits) auto
  with stop more show ?case by blast
next
  case 0
  then have "k x cs = Some r" by simp
  then show ?case by (meson rtrancl.rtrancl_refl)
qed

lemma run_sound: "run r x cs k = Some v \<Longrightarrow> \<exists>y cs'. ((x, cs), y, cs') \<in> runs r \<and> k y cs' = Some v"
proof (induction r arbitrary: x cs k v)
  case (Lit s)
  then have t: "take (length s) (snd x) = s" and k: "k (adv (fst x) s, drop (length s) (snd x)) cs = Some v"
    by (auto split: if_splits)
  from t have "snd x = s @ drop (length s) (snd x)" by (metis append_take_drop_id)
  with k show ?case by auto
next
  case (Cls P)
  then show ?case by (auto split: list.splits if_splits)
next
  case (Seq a b)
  from Seq.IH(1) [OF Seq.prems [unfolded run.simps]] obtain y cs' where
    "((x, cs), y, cs') \<in> runs a" "run b y cs' k = Some v" by blast
  with Seq.IH(2) [of y cs' k v] show ?case by auto
next
  case (Alt a b)
  from Alt.prems consider "run a x cs k = Some v" | "run b x cs k = Some v" by (auto split: option.splits)
  then show ?case proof cases
    case 1
    from Alt.IH(1) [OF this] show ?thesis by auto
  next
    case 2
    from Alt.IH(2) [OF this] show ?thesis by auto
  qed
next
  case (Star g a)
  have "repeated g (run a) (length (snd x)) x cs k = Some v" using Star.prems by (simp only: run.simps)
  from repeated_sound [where R = "runs a" and f = "run a", OF Star.IH this] show ?case by (simp only: runs.simps)
next
  case (Cap i a)
  from Cap.IH [OF Cap.prems [unfolded run.simps]] show ?case by auto
qed (auto split: if_splits)

section \<open>Repetitions of a class\<close>

fun first_some :: "'a option list \<Rightarrow> 'a option" where
  "first_some [] = None"
| "first_some (None # xs) = first_some xs"
| "first_some (Some x # xs) = Some x"

lemma first_some_append [simp]:
  "first_some (xs @ ys) = (case first_some xs of None \<Rightarrow> first_some ys | Some x \<Rightarrow> Some x)"
  by (induction xs rule: first_some.induct) auto

lemma first_some_single [simp]: "first_some [x] = x"
  by (cases x) simp_all

lemma first_some_Nones: "(\<And>x. x \<in> set xs \<Longrightarrow> x = None) \<Longrightarrow> first_some xs = None"
  by (induction xs rule: first_some.induct) auto

lemma adv_Nil [simp]: "adv p [] = p" and adv_Cons [simp]: "adv p (c # s) = adv c s"
  by (simp_all add: adv_def)

lemma adv_append [simp]: "adv p (s @ t) = adv (adv p s) t"
  by (induction s arbitrary: p) simp_all

abbreviation splits :: "(char \<Rightarrow> bool) \<Rightarrow> string \<Rightarrow> nat list" where
  "splits P s \<equiv> [0..<Suc (length (takeWhile P s))]"

lemma splits_Cons: "P c \<Longrightarrow> splits P (c # s) = 0 # map Suc (splits P s)"
  by (simp add: upt_conv_Cons map_Suc_upt del: upt_Suc)

lemma repeated_class:
  assumes "length s \<le> n"
  shows "repeated g (run (Cls P)) n (p, s) cs k =
    first_some (map (\<lambda>i. k (adv p (take i s), drop i s) cs) (if g then rev (splits P s) else splits P s))"
  using assms
proof (induction n arbitrary: p s)
  case 0
  then show ?case by (auto split: option.split)
next
  case (Suc n)
  show ?case
  proof (cases "s \<noteq> [] \<and> P (hd s)")
    case False
    then show ?thesis by (cases s) (auto simp: Let_def split: option.split)
  next
    case True
    then obtain c t where s: "s = c # t" "P c" by (cases s) auto
    have more: "run (Cls P) (p, s) cs (\<lambda>y cs'. if length (snd y) < length (snd (p, s)) then repeated g (run (Cls P)) n y cs' k else None) =
        first_some (map (\<lambda>i. k (adv p (take i s), drop i s) cs) (if g then rev (map Suc (splits P t)) else map Suc (splits P t)))"
    proof -
      have "run (Cls P) (p, s) cs (\<lambda>y cs'. if length (snd y) < length (snd (p, s)) then repeated g (run (Cls P)) n y cs' k else None) =
          repeated g (run (Cls P)) n (c, t) cs k" unfolding s(1) run.simps using s(2) by (simp del: run.simps)
      also have "\<dots> = first_some (map (\<lambda>i. k (adv c (take i t), drop i t) cs) (if g then rev (splits P t) else splits P t))"
        by (rule Suc.IH) (use Suc.prems s in simp)
      also have "map (\<lambda>i. k (adv c (take i t), drop i t) cs) (if g then rev (splits P t) else splits P t) =
          map (\<lambda>i. k (adv p (take i s), drop i s) cs) (if g then rev (map Suc (splits P t)) else map Suc (splits P t))"
        by (simp add: s(1) rev_map comp_def del: upt_Suc)
      finally show ?thesis .
    qed
    show ?thesis
      unfolding repeated.simps Let_def more
      by (simp only: s(1) splits_Cons [of P, OF s(2)] rev.simps map_append list.map if_True if_False first_some_append
          split: if_split) (auto split: option.split)
  qed
qed

lemma run_many:
  "run (many P) (p, s) cs k = first_some (map (\<lambda>i. k (adv p (take i s), drop i s) cs) (rev (splits P s)))"
  by (simp only: many_def run.simps(6) snd_conv repeated_class [OF order_refl] if_True)

lemma run_few:
  "run (few P) (p, s) cs k = first_some (map (\<lambda>i. k (adv p (take i s), drop i s) cs) (splits P s))"
  by (simp only: few_def run.simps(6) snd_conv repeated_class [OF order_refl] if_False)

section \<open>Rules for reading a known text\<close>

text \<open>
  A greedy run ends at the first byte out of its class when the rest then matches; a lazy one at the
  first place the rest matches; a greedy one before a fixed text at the last.
\<close>

abbreviation stops :: "(char \<Rightarrow> bool) \<Rightarrow> string \<Rightarrow> bool" where
  "stops P s \<equiv> s = [] \<or> \<not> P (hd s)"

lemma takeWhile_stops: "\<forall>c \<in> set xs. P c \<Longrightarrow> stops P ys \<Longrightarrow> takeWhile P (xs @ ys) = xs"
  by (cases ys) (auto simp: takeWhile_append)

lemma run_many_all:
  assumes "\<forall>c \<in> set xs. P c" "stops P ys" "k (adv p xs, ys) cs = Some v"
  shows "run (many P) (p, xs @ ys) cs k = Some v"
  unfolding run_many takeWhile_stops [OF assms(1,2)] using assms(3) by simp

lemma run_few_first:
  assumes "\<forall>c \<in> set xs. P c" "k (adv p xs, ys) cs = Some v"
    "\<And>i. i < length xs \<Longrightarrow> k (adv p (take i xs), drop i xs @ ys) cs = None"
  shows "run (few P) (p, xs @ ys) cs k = Some v"
proof -
  let ?f = "\<lambda>i. k (adv p (take i (xs @ ys)), drop i (xs @ ys)) cs"
  have len: "length xs \<le> length (takeWhile P (xs @ ys))" using assms(1) by (simp add: takeWhile_append)
  then have "splits P (xs @ ys) = [0..<length xs] @ length xs # [Suc (length xs)..<Suc (length (takeWhile P (xs @ ys)))]"
    by (metis le_Suc_ex le_add1 less_Suc_eq_le upt_add_eq_append upt_conv_Cons add_Suc_right zero_le add_0)
  moreover have "first_some (map ?f [0..<length xs]) = None"
    by (rule first_some_Nones) (use assms(3) in auto)
  moreover have "?f (length xs) = Some v" using assms(2) by simp
  ultimately show ?thesis unfolding run_few by (simp del: upt_Suc)
qed

lemma run_many_last:
  assumes "n \<le> length (takeWhile P s)" "k (adv p (take n s), drop n s) cs = Some v"
    "\<And>i. n < i \<Longrightarrow> i \<le> length (takeWhile P s) \<Longrightarrow> k (adv p (take i s), drop i s) cs = None"
  shows "run (many P) (p, s) cs k = Some v"
proof -
  let ?f = "\<lambda>i. k (adv p (take i s), drop i s) cs" and ?m = "length (takeWhile P s)"
  have "splits P s = [0..<n] @ n # [Suc n..<Suc ?m]" using assms(1)
    by (metis le_Suc_ex le_add1 less_Suc_eq_le upt_add_eq_append upt_conv_Cons add_Suc_right zero_le add_0)
  then have "map ?f (rev (splits P s)) = map ?f (rev [Suc n..<Suc ?m]) @ ?f n # map ?f (rev [0..<n])" by simp
  moreover have "first_some (map ?f (rev [Suc n..<Suc ?m])) = None"
    by (rule first_some_Nones) (use assms(3) in \<open>auto simp del: upt_Suc\<close>)
  ultimately show ?thesis unfolding run_many using assms(2) by (simp del: upt_Suc)
qed

lemma run_some1_all:
  assumes "xs \<noteq> []" "\<forall>c \<in> set xs. P c" "stops P ys" "k (adv p xs, ys) cs = Some v"
  shows "run (some1 P) (p, xs @ ys) cs k = Some v"
proof (cases xs)
  case (Cons c t)
  have "run (many P) (c, t @ ys) cs k = Some v"
    by (rule run_many_all) (use assms Cons in simp_all)
  with assms(2) Cons show ?thesis unfolding some1_def by simp
qed (use assms(1) in simp)

lemma run_Lit_hit [simp]: "run (Lit s) (p, s @ t) cs k = k (adv p s, t) cs"
  by simp

lemma run_Cap_hit:
  assumes "run r (p, xs @ ys) cs (\<lambda>y cs'. k y ((i, take (length (xs @ ys) - length (snd y)) (xs @ ys)) # cs')) = Some v"
  shows "run (Cap i r) (p, xs @ ys) cs k = Some v"
  using assms by simp

lemma seq_Cons_run: "run (seq (r # r' # rs)) x cs k = run r x cs (\<lambda>y cs'. run (seq (r' # rs)) y cs' k)"
  by simp

lemma run_Alt_left: "run a x cs k = Some v \<Longrightarrow> run (Alt a b) x cs k = Some v"
  and run_Alt_right: "run a x cs k = None \<Longrightarrow> run b x cs k = Some v \<Longrightarrow> run (Alt a b) x cs k = Some v"
  by simp_all

lemma run_times_upto:
  assumes "\<forall>c \<in> set xs. P c" "m \<le> length xs" "length xs \<le> m + n" "stops P ys" "k (adv p xs, ys) cs = Some v"
  shows "run (times m (Cls P)) (p, xs @ ys) cs (\<lambda>y cs'. run (upto_times n (Cls P)) y cs' k) = Some v"
  using assms
proof (induction m arbitrary: p xs)
  case 0
  have "run (upto_times n (Cls P)) (p, xs @ ys) cs k = Some v" using 0
  proof (induction n arbitrary: p xs)
    case (Suc n)
    show ?case
    proof (cases xs)
      case Nil
      with Suc.prems show ?thesis by (cases ys) (auto simp: opt_def)
    next
      case (Cons c t)
      with Suc.prems have "run (upto_times n (Cls P)) (c, t @ ys) cs k = Some v" by (intro Suc.IH) simp_all
      with Cons Suc.prems show ?thesis by (simp add: opt_def)
    qed
  qed simp
  then show ?case by simp
next
  case (Suc m)
  then obtain c t where xs: "xs = c # t" by (cases xs) auto
  with Suc.prems have "run (times m (Cls P)) (c, t @ ys) cs (\<lambda>y cs'. run (upto_times n (Cls P)) y cs' k) = Some v"
    by (intro Suc.IH) simp_all
  with Suc.prems xs show ?case by simp
qed

section \<open>What a match has eaten\<close>

fun groups :: "re \<Rightarrow> nat set" where
  "groups (Seq a b) = groups a \<union> groups b"
| "groups (Alt a b) = groups a \<union> groups b"
| "groups (Star g a) = groups a"
| "groups (Cap i a) = insert i (groups a)"
| "groups r = {}"

lemma runs_step:
  "(u, v) \<in> runs r \<Longrightarrow> (\<exists>s. snd (fst u) = s @ snd (fst v)) \<and> (\<forall>i. i \<notin> groups r \<longrightarrow> map_of (snd v) i = map_of (snd u) i)"
proof (induction r arbitrary: u v)
  case (Seq a b)
  from Seq.prems obtain w where w: "(u, w) \<in> runs a" "(w, v) \<in> runs b" by auto
  from Seq.IH(1) [OF w(1)] Seq.IH(2) [OF w(2)] show ?case by auto
next
  case (Star g a)
  from Star.prems have "(u, v) \<in> (runs a \<inter> shorter)\<^sup>*" by simp
  then show ?case
  proof (induction rule: rtrancl_induct)
    case (step w v)
    then have "(w, v) \<in> runs a" by blast
    from Star.IH [OF this] step.IH show ?case by auto
  qed simp
qed auto

lemma runs_eats: "((x, cs), y, cs') \<in> runs r \<Longrightarrow> \<exists>s. snd x = s @ snd y"
  using runs_step by fastforce

lemma runs_keeps: "((x, cs), y, cs') \<in> runs r \<Longrightarrow> i \<notin> groups r \<Longrightarrow> map_of cs' i = map_of cs i"
  using runs_step by fastforce

lemma runs_many: "((x, cs), y, cs') \<in> runs (many P) \<Longrightarrow> \<exists>s. snd x = s @ snd y \<and> (\<forall>c \<in> set s. P c) \<and> cs' = cs"
proof -
  have "(u, v) \<in> (runs (Cls P) \<inter> shorter)\<^sup>* \<Longrightarrow> \<exists>s. snd (fst u) = s @ snd (fst v) \<and> (\<forall>c \<in> set s. P c) \<and> snd v = snd u" for u v
  proof (induction rule: rtrancl_induct)
    case (step w v)
    then obtain s where s: "snd (fst u) = s @ snd (fst w)" "\<forall>c \<in> set s. P c" "snd w = snd u" by blast
    from step.hyps(2) have "P (fst (fst v))" "snd (fst w) = fst (fst v) # snd (fst v)" "snd v = snd w" by auto
    with s show ?case by (intro exI [of _ "s @ [fst (fst v)]"]) auto
  qed simp
  from this [of "(x, cs)" "(y, cs')"] show "((x, cs), y, cs') \<in> runs (many P) \<Longrightarrow> ?thesis" unfolding many_def by simp
qed

lemma runs_some1:
  assumes "((x, cs), y, cs') \<in> runs (some1 P)"
  shows "\<exists>s. s \<noteq> [] \<and> snd x = s @ snd y \<and> (\<forall>c \<in> set s. P c) \<and> cs' = cs"
proof -
  from assms obtain w ws where "((x, cs), w, ws) \<in> runs (Cls P)" "((w, ws), y, cs') \<in> runs (many P)"
    unfolding some1_def by auto
  moreover from runs_many [OF this(2)] obtain s where "snd w = s @ snd y \<and> (\<forall>c \<in> set s. P c) \<and> cs' = ws" by blast
  ultimately show ?thesis by (intro exI [of _ "fst w # s"]) auto
qed

lemma runs_Lit: "((x, cs), y, cs') \<in> runs (Lit s) \<Longrightarrow> snd x = s @ snd y \<and> cs' = cs"
  by simp

lemma runs_Cap:
  assumes "((x, cs), y, cs') \<in> runs (Cap i r)"
  shows "\<exists>s cs1. ((x, cs), y, cs1) \<in> runs r \<and> snd x = s @ snd y \<and> cs' = (i, s) # cs1"
proof -
  from assms obtain cs1 where c: "((x, cs), y, cs1) \<in> runs r" "cs' = (i, take (length (snd x) - length (snd y)) (snd x)) # cs1"
    by auto
  with runs_eats [OF c(1)] show ?thesis by fastforce
qed

lemma runs_Seq: "((x, cs), y, cs') \<in> runs (Seq a b) \<Longrightarrow> \<exists>z cs1. ((x, cs), z, cs1) \<in> runs a \<and> ((z, cs1), y, cs') \<in> runs b"
  by auto

lemma find_runs: "find_submatch r s = Some cs \<Longrightarrow> \<exists>y. (((CHR 0x0A, s), []), y, cs) \<in> runs r"
  unfolding find_submatch_def using run_sound by fastforce

end
