(* ===== verification/Log_Lines.thy ===== *)
theory Log_Lines
  imports Go_Regexp Send_Log "HOL-Library.Sublist"
begin

text \<open>
  The lines of mail.log as \<open>internal/logtail\<close> reads them: the patterns of \<open>logtail.go\<close>,
  \<open>lines.go\<close>, \<open>refusals.go\<close>, \<open>awaited.go\<close>, \<open>sendercheck.go\<close> and \<open>inbound.go\<close> as values of
  \<open>re\<close>, and the functions that take a line apart. The package's clock and zone are the argument
  \<open>clk\<close>: the moment a stamp names in the year of \<open>now\<close> (0) or the one before (1), \<open>None\<close> for a
  stamp the time package does not read. Times are in nanoseconds.
\<close>

section \<open>The stamp\<close>

definition upper_hex :: "char \<Rightarrow> bool" where
  "upper_hex c \<longleftrightarrow> is_digit c \<or> c \<in> set ''ABCDEF''"

definition stamp_re :: re where
  "stamp_re = Cap 0 (Seq (Cap 1 (seq
     [Cls is_upper, times 2 (Cls is_lower), some1 space_char, Cls is_digit, opt (Cls is_digit), Lit '' '',
      times 2 (Cls is_digit), Lit '':'', times 2 (Cls is_digit), Lit '':'', times 2 (Cls is_digit)])) (Cls space_char))"

definition split_timestamp :: "string \<Rightarrow> string \<times> string" where
  "split_timestamp line =
     (case find_submatch stamp_re line of
        Some m \<Rightarrow> (group m 1, trim_space (drop (length (group m 0)) line))
      | None \<Rightarrow> ([], line))"

definition line_time :: "(nat \<Rightarrow> int \<Rightarrow> string \<Rightarrow> int option) \<Rightarrow> string \<Rightarrow> int \<Rightarrow> int \<times> string" where
  "line_time clk line now =
     (case find_submatch stamp_re line of
        Some m \<Rightarrow>
          (let rest = trim_space (drop (length (group m 0)) line);
               stamp = join '' '' (fields_by space_char (group m 1))
           in case clk 0 now stamp of
                None \<Rightarrow> (now, rest)
              | Some t \<Rightarrow>
                  if t > now + 24 * 3600 * second then (case clk 1 now stamp of None \<Rightarrow> (now, rest) | Some t' \<Rightarrow> (t', rest))
                  else (t, rest))
      | None \<Rightarrow> (now, line))"

section \<open>Delivery and expiry lines\<close>

text \<open>\<open>loggedAddress\<close>: an address in the form Postfix logs it.\<close>

definition quoted_byte :: re where
  "quoted_byte = Alt (Cls (not_in [CHR 0x22, CHR 0x5C])) (Seq (Lit [CHR 0x5C]) (Cls not_newline))"

definition logged_address :: re where
  "logged_address =
     Alt (seq [Lit [CHR 0x22], Star True quoted_byte, Lit [CHR 0x22, CHR ''@''], many (not_in ''>'')])
         (many (not_in [CHR ''>'', CHR 0x22]))"

definition delivery_re :: re where
  "delivery_re = Cap 0 (seq
     [some1 not_space, Lit '' '', some1 (\<lambda>c. not_space c \<and> c \<noteq> CHR ''[''), Lit ''['', some1 is_digit, Lit '']: '',
      Cap 1 (some1 alnum), Lit '': to=<'', Cap 2 logged_address, Lit ''>, '',
      opt (seq [Lit ''orig_to=<'', Cap 3 logged_address, Lit ''>, '']),
      Lit ''relay='', Cap 4 (many (\<lambda>c. not_space c \<and> c \<noteq> CHR '','')),
      few not_newline, Word_b, Lit ''status='', Cap 5 (some1 word_char)])"

definition status_word :: "string \<Rightarrow> status option" where
  "status_word w =
     (if w = ''sent'' then Some Status_sent else if w = ''deferred'' then Some Status_deferred
      else if w = ''bounced'' then Some Status_bounced else None)"

definition parse_delivery :: "string \<Rightarrow> (string \<times> string \<times> status) option" where
  "parse_delivery line =
     (case find_submatch delivery_re (snd (split_timestamp line)) of
        None \<Rightarrow> None
      | Some m \<Rightarrow>
          map_option (\<lambda>st. (group m 1, if group m 3 \<noteq> [] then group m 3 else group m 2, st)) (status_word (group m 5)))"

definition delivery_reply :: "string \<Rightarrow> string \<times> string" where
  "delivery_reply rest =
     (case find_submatch delivery_re rest of
        None \<Rightarrow> ([], [])
      | Some m \<Rightarrow>
          (let tail = trim_space (drop (length (group m 0)) rest)
           in (group m 4, if has_prefix ''('' tail \<and> has_suffix '')'' tail then butlast (tl tail) else [])))"

definition expiry_re :: re where
  "expiry_re = seq
     [some1 not_space, Lit '' '', many not_space, Lit ''/qmgr['', some1 is_digit, Lit '']: '', Cap 1 (some1 alnum),
      Lit '': from=<'', many not_newline, Lit ''>, status='', opt (Lit ''force-''), Lit ''expired, returned to sender'',
      many space_char, Text_end]"

definition parse_expiry :: "string \<Rightarrow> string option" where
  "parse_expiry line = map_option (\<lambda>m. group m 1) (find_submatch expiry_re (snd (split_timestamp line)))"

section \<open>The other lines\<close>

text \<open>\<open>lines.go\<close>: the head of a message's line, the program's name.\<close>

definition long_id_char :: "char \<Rightarrow> bool" where
  "long_id_char c \<longleftrightarrow> c \<in> set ''0123456789BCDFGHJKLMNPQRSTVWXYZbcdfghjklmnpqrstvwxyz''"

definition queue_line_re :: re where
  "queue_line_re = seq
     [some1 not_space, Lit '' '', Cap 1 (some1 (\<lambda>c. not_space c \<and> c \<noteq> CHR ''['')), Lit ''['', some1 is_digit, Lit '']: '',
      Cap 2 (Alt (Seq (times 6 (Cls upper_hex)) (upto_times 18 (Cls upper_hex)))
                 (Seq (times 10 (Cls long_id_char)) (upto_times 14 (Cls long_id_char)))),
      Lit '': '', Cap 3 (many not_newline)]"

definition service_char :: "char \<Rightarrow> bool" where
  "service_char c \<longleftrightarrow> is_lower c \<or> is_digit c \<or> c = CHR ''-''"

definition service :: "re \<Rightarrow> re" where
  "service r = opt (Seq r (Lit ''/''))"

definition smtpd_program_re :: re where
  "smtpd_program_re = seq [Lit ''postfix/'', service (some1 service_char), Lit ''smtpd'', Text_end]"

definition port25_program :: string where "port25_program = ''postfix/inbound/smtpd''"

text \<open>\<open>refusals.go\<close>\<close>

definition refusal_line_re :: re where
  "refusal_line_re = seq
     [some1 not_space, Lit '' postfix/'', service (Cap 1 (some1 service_char)), Lit ''smtpd['', some1 is_digit,
      Lit '']: NOQUEUE: milter-reject: MAIL from '', many (\<lambda>c. not_space c \<and> c \<noteq> CHR ''[''), Lit ''['',
      Cap 2 (some1 (not_in '']'')), Lit '']: '', Cls (\<lambda>c. c = CHR ''4'' \<or> c = CHR ''5''), times 2 (Cls is_digit), Lit '' '',
      few not_newline, Lit ''; from=<'', Cap 3 (many (not_in ''>'')), Lit ''>'',
      Alt (seq [many not_newline, Lit '' sasl_username=<'', Cap 4 (many (not_in ''<>'')), Lit ''>'']) (many not_newline),
      Text_end]"

definition from_refusal_re :: re where
  "from_refusal_re = seq
     [some1 not_space, Lit '' postfix/'', service (some1 service_char), Lit ''cleanup['', some1 is_digit, Lit '']: '',
      Cap 1 (some1 alnum), Lit '': milter-reject: END-OF-MESSAGE from '', some1 not_space, Lit '': 5.7.1 '',
      Cap 2 (Alt (Lit ''From'') (Lit ''Sender'')), Lit '': '', Cap 3 (many (not_in '';'')), Lit '' - '',
      Cap 4 (many (not_in '';'')), Lit ''; from=<'', Cap 5 (many (not_in ''>'')), Lit ''> to=<'',
      Cap 6 (many (not_in ''>'')), Lit ''>'']"

definition client_login_re :: re where
  "client_login_re = seq
     [some1 not_space, Lit '' postfix/'', service (Cap 1 (some1 service_char)), Lit ''smtpd['', some1 is_digit, Lit '']: '',
      Cap 2 (some1 alnum), Lit '': client='', few not_newline, Lit '', sasl_username='',
      Cap 3 (some1 (\<lambda>c. not_space c \<and> c \<noteq> CHR '',''))]"

text \<open>\<open>awaited.go\<close>, \<open>sendercheck.go\<close>\<close>

definition message_id_re :: re where
  "message_id_re = seq
     [some1 not_space, Lit '' '', many not_space, Lit ''/cleanup['', some1 is_digit, Lit '']: '', Cap 1 (some1 alnum),
      Lit '': message-id='', Cap 2 (seq [Lit ''<'', some1 (\<lambda>c. not_space c \<and> c \<noteq> CHR ''<'' \<and> c \<noteq> CHR ''>''), Lit ''>'']),
      many space_char, Text_end]"

definition milter_line_re :: re where
  "milter_line_re = seq
     [some1 not_space, Lit '' postfix/'', service (some1 service_char), Cap 1 (Alt (Lit ''smtpd'') (Lit ''cleanup'')), Lit ''['',
      Cap 2 (some1 is_digit), Lit '']: '', Cap 3 (many not_newline), Text_end]"

text \<open>\<open>inbound.go\<close>\<close>

definition neutered :: "char \<Rightarrow> bool" where
  "neutered c \<longleftrightarrow> c \<in> set '' <>();@'' \<or> c = CHR 0x22 \<or> c = CHR 0x5C"

definition address_char :: "char \<Rightarrow> bool" where
  "address_char c \<longleftrightarrow> is_digit c \<or> c \<in> set ''ABCDEFabcdef:.''"

definition inbound_reject_re :: re where
  "inbound_reject_re = seq
     [some1 not_space, Lit '' postfix/'', Cap 1 (Alt (Lit ''inbound/smtpd'') (Lit ''cleanup'')), Lit ''['', some1 is_digit,
      Lit '']: '', Cap 2 (some1 alnum), Lit '': '', Cap 3 (Alt (Lit ''reject'') (Alt (Lit ''milter-reject'') (Lit ''milter-discard''))),
      Lit '': '', some1 not_space, Lit '' from '', many (\<lambda>c. not_space c \<and> c \<noteq> CHR ''[''), Lit ''['', Cap 4 (some1 address_char),
      Lit '']: '', Cap 5 (many not_newline), Lit ''; from=<'', Cap 6 (many (not_in ''>'')), Lit ''> to=<'',
      Cap 7 (many (not_in ''>'')), Lit ''> proto='', some1 not_space,
      opt (seq [Lit '' helo=<'', many (\<lambda>c. \<not> neutered c), Lit ''>'']), opt (Seq (Lit '' sasl_method='') (many not_space)),
      opt (Seq (Lit '' sasl_username='') (many not_space)), opt (Seq (Lit '' sasl_sender='') (many not_space)), Text_end]"

definition inbound_client_re :: re where
  "inbound_client_re = seq
     [some1 not_space, Lit '' postfix/inbound/smtpd['', some1 is_digit, Lit '']: '', Cap 1 (some1 alnum), Lit '': client='']"

definition inbound_forget_re :: re where
  "inbound_forget_re = seq
     [some1 not_space, Lit '' postfix/'',
      Alt (seq [Lit ''qmgr['', some1 is_digit, Lit '']: '', Cap 1 (some1 alnum), Lit '': from=''])
        (Alt (seq [service (some1 service_char), Lit ''smtpd['', some1 is_digit, Lit '']: '', Cap 2 (some1 alnum), Lit '': client=''])
          (seq [Lit ''cleanup['', some1 is_digit, Lit '']: '', Cap 3 (some1 alnum), Lit '': removed (''])) ]"

text \<open>\<open>mentionsQueueID\<close>: the id, with no letter or digit before it, and a colon.\<close>

fun mentions_from :: "char \<Rightarrow> string \<Rightarrow> string \<Rightarrow> bool" where
  "mentions_from prev needle [] \<longleftrightarrow> False"
| "mentions_from prev needle (c # s) \<longleftrightarrow>
     has_prefix needle (c # s) \<and> \<not> alnum prev \<or> mentions_from c needle s"

definition mentions_queue_id :: "string \<Rightarrow> string \<Rightarrow> bool" where
  "mentions_queue_id line qid = mentions_from CHR '' '' (qid @ '':'') line"

text \<open>\<open>printable\<close> of \<open>inbound.go\<close>\<close>

definition log_printable :: "string \<Rightarrow> nat \<Rightarrow> string" where
  "log_printable s m = map (\<lambda>c. if byte_code c < 0x20 \<or> byte_code c > 0x7E then CHR ''?'' else c) (take m s)"

section \<open>A result is read at the head of the line only\<close>

text \<open>\<open>host prog[pid]: body\<close>, as syslog writes a line.\<close>

definition logged_by :: "string \<Rightarrow> string \<Rightarrow> string \<Rightarrow> bool" where
  "logged_by host prog pid \<longleftrightarrow>
     host \<noteq> [] \<and> list_all not_space host \<and> prog \<noteq> [] \<and> list_all (\<lambda>c. not_space c \<and> c \<noteq> CHR ''['') prog \<and>
     pid \<noteq> [] \<and> list_all is_digit pid"

definition syslog_line :: "string \<Rightarrow> string \<Rightarrow> string \<Rightarrow> string \<Rightarrow> string" where
  "syslog_line host prog pid body = host @ '' '' @ prog @ ''['' @ pid @ '']: '' @ body"

lemma split_at_stop:
  "(\<forall>c \<in> set a. P c) \<Longrightarrow> (\<forall>c \<in> set a'. P c) \<Longrightarrow> \<not> P d \<Longrightarrow> \<not> P d' \<Longrightarrow> a @ d # b = a' @ d' # b' \<Longrightarrow> a = a' \<and> d = d' \<and> b = b'"
proof (induction a arbitrary: a')
  case Nil then show ?case by (cases a') auto
next
  case (Cons x a) then show ?case by (cases a') auto
qed

lemma logged_by_unique:
  assumes "logged_by host prog pid" "logged_by host' prog' pid'"
    "syslog_line host prog pid body = syslog_line host' prog' pid' body'"
  shows "body = body'"
proof -
  have sp: "\<not> not_space (CHR '' '')" by (simp add: not_space_def space_char_def)
  have dg: "\<not> is_digit (CHR '']'')" by (simp add: is_digit_def)
  from assms(3) have e: "host @ CHR '' '' # prog @ CHR ''['' # pid @ CHR '']'' # '': '' @ body =
      host' @ CHR '' '' # prog' @ CHR ''['' # pid' @ CHR '']'' # '': '' @ body'" by (simp add: syslog_line_def)
  from assms(1,2) have e: "prog @ CHR ''['' # pid @ CHR '']'' # '': '' @ body = prog' @ CHR ''['' # pid' @ CHR '']'' # '': '' @ body'"
    using split_at_stop [where P = not_space, OF _ _ sp sp e] by (simp add: logged_by_def list_all_iff)
  from assms(1,2) have e: "pid @ CHR '']'' # '': '' @ body = pid' @ CHR '']'' # '': '' @ body'"
    using split_at_stop [where P = "\<lambda>c. not_space c \<and> c \<noteq> CHR ''[''" and d = "CHR ''[''" and d' = "CHR ''[''", OF _ _ _ _ e] by (simp add: logged_by_def list_all_iff)
  from assms(1,2) show ?thesis
    using split_at_stop [where P = is_digit, OF _ _ dg dg e] by (simp add: logged_by_def list_all_iff)
qed

lemma runs_seq: "((x, cs), y, cs') \<in> runs (seq (r # r' # rs)) \<Longrightarrow>
    \<exists>z cs1. ((x, cs), z, cs1) \<in> runs r \<and> ((z, cs1), y, cs') \<in> runs (seq (r' # rs))"
  by auto

text \<open>The head common to the patterns: a class of host, a space, the program.\<close>

lemma runs_seq_some1:
  assumes "((x, cs), y, cs') \<in> runs (seq (some1 P # r' # rs))"
  obtains s z where "s \<noteq> []" "list_all P s" "snd x = s @ snd z" "((z, cs), y, cs') \<in> runs (seq (r' # rs))"
  using runs_seq [OF assms] runs_some1 unfolding list_all_iff by metis

lemma runs_seq_Lit:
  assumes "((x, cs), y, cs') \<in> runs (seq (Lit s # r' # rs))"
  obtains z where "snd x = s @ snd z" "((z, cs), y, cs') \<in> runs (seq (r' # rs))"
  using runs_seq [OF assms] runs_Lit by metis

lemma runs_seq_Cap:
  assumes "((x, cs), y, cs') \<in> runs (seq (Cap i r # r' # rs))"
  obtains s z cs1 where "((x, cs), z, cs1) \<in> runs r" "snd x = s @ snd z" "((z, (i, s) # cs1), y, cs') \<in> runs (seq (r' # rs))"
  using runs_seq [OF assms] runs_Cap by metis

abbreviation prog_char :: "char \<Rightarrow> bool" where "prog_char c \<equiv> not_space c \<and> c \<noteq> CHR ''[''"

lemma head_match:
  assumes "((x, []), y, m) \<in> runs (seq (some1 not_space # Lit '' '' # some1 prog_char # Lit ''['' # some1 is_digit #
     Lit '']: '' # Cap 1 (some1 alnum) # r # rs))"
  obtains host prog pid qid z where "logged_by host prog pid" "qid \<noteq> []" "list_all alnum qid"
    "snd x = syslog_line host prog pid (qid @ snd z)" "((z, [(1, qid)]), y, m) \<in> runs (seq (r # rs))"
proof -
  from runs_seq_some1 [OF assms] obtain host z1 where 1: "host \<noteq> []" "list_all not_space host" "snd x = host @ snd z1"
    "((z1, []), y, m) \<in> runs (seq (Lit '' '' # some1 prog_char # Lit ''['' # some1 is_digit #
     Lit '']: '' # Cap 1 (some1 alnum) # r # rs))" by blast
  from runs_seq_Lit [OF 1(4)] obtain z2 where 2: "snd z1 = '' '' @ snd z2"
    "((z2, []), y, m) \<in> runs (seq (some1 prog_char # Lit ''['' # some1 is_digit #
     Lit '']: '' # Cap 1 (some1 alnum) # r # rs))" by blast
  from runs_seq_some1 [OF 2(2)] obtain prog z3 where 3: "prog \<noteq> []" "list_all prog_char prog" "snd z2 = prog @ snd z3"
    "((z3, []), y, m) \<in> runs (seq (Lit ''['' # some1 is_digit # Lit '']: '' # Cap 1 (some1 alnum) # r # rs))" by blast
  from runs_seq_Lit [OF 3(4)] obtain z4 where 4: "snd z3 = ''['' @ snd z4"
    "((z4, []), y, m) \<in> runs (seq (some1 is_digit # Lit '']: '' # Cap 1 (some1 alnum) # r # rs))" by blast
  from runs_seq_some1 [OF 4(2)] obtain pid z5 where 5: "pid \<noteq> []" "list_all is_digit pid" "snd z4 = pid @ snd z5"
    "((z5, []), y, m) \<in> runs (seq (Lit '']: '' # Cap 1 (some1 alnum) # r # rs))" by blast
  from runs_seq_Lit [OF 5(4)] obtain z6 where 6: "snd z5 = '']: '' @ snd z6"
    "((z6, []), y, m) \<in> runs (seq (Cap 1 (some1 alnum) # r # rs))" by blast
  from runs_seq_Cap [OF 6(2)] obtain qid z7 c where 7: "((z6, []), z7, c) \<in> runs (some1 alnum)" "snd z6 = qid @ snd z7"
    "((z7, (1, qid) # c), y, m) \<in> runs (seq (r # rs))" by blast
  from runs_some1 [OF 7(1)] 7(2) have "qid \<noteq> []" "list_all alnum qid" "c = []" by (auto simp: list_all_iff)
  with 1 2 3 4 5 6 7 show thesis by (intro that) (auto simp: logged_by_def syslog_line_def)
qed

lemma lit_prefix: "((x, cs), y, cs') \<in> runs (seq (Lit s # r' # rs)) \<Longrightarrow> has_prefix s (snd x)"
  by (erule runs_seq_Lit) simp

lemma keeps_group:
  assumes "((x, [(i, q)]), y, m) \<in> runs r" "i \<notin> groups r"
  shows "map_of m i = Some q"
  unfolding runs_keeps [OF assms] by simp

lemma delivery_match_head:
  assumes "find_submatch delivery_re rest = Some m"
  obtains host prog pid tail where "logged_by host prog pid" "group m 1 \<noteq> []" "list_all alnum (group m 1)"
    "rest = syslog_line host prog pid (group m 1 @ '': to=<'' @ tail)"
proof -
  obtain y where y: "(((CHR 0x0A, rest), []), y, m) \<in> runs delivery_re" using find_runs [OF assms] by blast
  let ?t = "[Lit ''>, '', opt (seq [Lit ''orig_to=<'', Cap 3 logged_address, Lit ''>, '']),
      Lit ''relay='', Cap 4 (many (\<lambda>c. not_space c \<and> c \<noteq> CHR '','')),
      few not_newline, Word_b, Lit ''status='', Cap 5 (some1 word_char)]"
  from runs_Cap [OF y [unfolded delivery_re_def]] obtain s0 m0 where m: "m = (0, s0) # m0" and
    "(((CHR 0x0A, rest), []), y, m0) \<in> runs (seq (some1 not_space # Lit '' '' # some1 prog_char # Lit ''['' # some1 is_digit #
     Lit '']: '' # Cap 1 (some1 alnum) # Lit '': to=<'' # Cap 2 logged_address # ?t))" by (elim exE conjE)
  from head_match [OF this(2)] obtain host prog pid qid z where h: "logged_by host prog pid" "qid \<noteq> []" "list_all alnum qid"
    "rest = syslog_line host prog pid (qid @ snd z)"
    "((z, [(1, qid)]), y, m0) \<in> runs (seq (Lit '': to=<'' # Cap 2 logged_address # ?t))" unfolding snd_conv by blast
  have nin: "1 \<notin> groups (seq (Lit '': to=<'' # Cap 2 logged_address # ?t))"
    by (simp add: logged_address_def quoted_byte_def many_def some1_def few_def opt_def)
  have "map_of m0 1 = Some qid" by (rule keeps_group [OF h(5) nin])
  with m have "group m 1 = qid" by (simp add: group_def)
  moreover from lit_prefix [OF h(5)] obtain t where "snd z = '': to=<'' @ t" unfolding has_prefix_iff by (elim exE)
  ultimately show thesis using h(1-4) by (intro that [of host prog pid t]) simp_all
qed

text \<open>
  A line read as the result of a message starts, after its time stamp, with a program and the very
  queue id that is returned: nothing written later in the line (an address, a reply of a remote
  server) can pass for another message's result.
\<close>

theorem result_names_its_head:
  assumes "parse_delivery line = Some (q, r, st)"
  shows "(\<exists>host prog pid tail. logged_by host prog pid \<and> q \<noteq> [] \<and> list_all alnum q \<and>
      snd (split_timestamp line) = syslog_line host prog pid (q @ '': to=<'' @ tail)) \<and>
    (snd (split_timestamp line) = syslog_line h p i body \<and> logged_by h p i \<longrightarrow> has_prefix (q @ '': to=<'') body)"
proof -
  from assms obtain m where m: "find_submatch delivery_re (snd (split_timestamp line)) = Some m" "q = group m 1"
    unfolding parse_delivery_def by (auto split: option.splits)
  from delivery_match_head [OF m(1)] m(2) obtain host prog pid tail where h: "logged_by host prog pid" "q \<noteq> []" "list_all alnum q"
    "snd (split_timestamp line) = syslog_line host prog pid (q @ '': to=<'' @ tail)" by blast
  have "body = q @ '': to=<'' @ tail" if "snd (split_timestamp line) = syslog_line h p i body" "logged_by h p i"
    using logged_by_unique [OF that(2) h(1)] that(1) h(4) by simp
  with h show ?thesis by (auto simp: has_prefix_iff)
qed

section \<open>Every result Postfix writes is read\<close>

text \<open>A stamp as syslog writes it, \<open>Mmm dd hh:mm:ss\<close>, the day padded with a space.\<close>

fun syslog_stamp :: "string \<Rightarrow> bool" where
  "syslog_stamp [a, b, c, s1, d1, d2, s2, h1, h2, c1, m1, m2, c2, x1, x2] \<longleftrightarrow>
     is_upper a \<and> list_all is_lower [b, c] \<and> s1 = CHR '' '' \<and> (d1 = CHR '' '' \<or> is_digit d1) \<and> s2 = CHR '' '' \<and>
     c1 = CHR '':'' \<and> c2 = CHR '':'' \<and> list_all is_digit [d2, h1, h2, m1, m2, x1, x2]"
| "syslog_stamp _ \<longleftrightarrow> False"

lemma digit_no_space: "is_digit c \<Longrightarrow> \<not> space_char c"
  by (auto simp: is_digit_def space_char_def)

lemma space_blank [simp]: "space_char (CHR '' '')"
  by (simp add: space_char_def)

lemma no_digits [simp]: "\<not> is_digit (CHR '' '')" "\<not> is_digit (CHR '':'')"
  by (simp_all add: is_digit_def)

lemma stamp_found:
  assumes "syslog_stamp st"
  shows "find_submatch stamp_re (st @ '' '' @ rest) = Some [(0, st @ '' ''), (1, st)]"
proof -
  obtain a b c s1 d1 d2 s2 h1 h2 c1 m1 m2 c2 x1 x2 where
    st: "st = [a, b, c, s1, d1, d2, s2, h1, h2, c1, m1, m2, c2, x1, x2]" using assms by (elim syslog_stamp.elims(2))
  let ?r = "[h1, h2, CHR '':'', m1, m2, CHR '':'', x1, x2] @ '' '' @ rest"
  note s = assms [unfolded st syslog_stamp.simps]
  let ?k = "\<lambda>y cs'. run (seq [Cls is_digit, opt (Cls is_digit), Lit '' '', times 2 (Cls is_digit), Lit '':'',
     times 2 (Cls is_digit), Lit '':'', times 2 (Cls is_digit)]) y cs'
       (\<lambda>y cs'. run (Cls space_char) y ((1, take (length (st @ '' '' @ rest) - length (snd y)) (st @ '' '' @ rest)) # cs')
         (\<lambda>y cs'. Some ((0, take (length (st @ '' '' @ rest) - length (snd y)) (st @ '' '' @ rest)) # cs')))"
  have fin: "?k (p, d # CHR '' '' # ?r) [] = Some [(0, st @ '' ''), (1, st)]" if "is_digit d" for p d
    using s that by (simp add: opt_def st numeral_2_eq_2)
  have fin2: "?k (p, d # d' # CHR '' '' # ?r) [] = Some [(0, st @ '' ''), (1, st)]" if "is_digit d" "is_digit d'" for p d d'
    using s that by (simp add: opt_def st numeral_2_eq_2)
  let ?v = "Some [(0, st @ '' ''), (1, st)]"
  have two: "run (some1 space_char) (c, ''  '' @ d2 # CHR '' '' # ?r) [] ?k = ?v"
    by (rule run_some1_all; (rule fin)?; use s in \<open>simp add: digit_no_space\<close>)
  have one: "run (some1 space_char) (c, '' '' @ d1 # d2 # CHR '' '' # ?r) [] ?k = ?v" if "d1 \<noteq> CHR '' ''"
    by (rule run_some1_all; (rule fin2)?; use s that in \<open>simp add: digit_no_space\<close>)
  have "run (some1 space_char) (c, CHR '' '' # d1 # d2 # CHR '' '' # ?r) [] ?k = ?v"
  proof (cases "d1 = CHR '' ''")
    case True
    with two show ?thesis by (simp only: append.simps)
  next
    case False
    from one [OF this] show ?thesis by (simp only: append.simps)
  qed
  moreover have "find_submatch stamp_re (st @ '' '' @ rest) = run (some1 space_char) (c, CHR '' '' # d1 # d2 # CHR '' '' # ?r) [] ?k"
    using s by (simp only: find_submatch_def stamp_re_def st seq.simps times.simps numeral_2_eq_2 run.simps(1,3,4,7)
      fst_conv snd_conv append.simps list.case list.pred_inject if_True HOL.simp_thms)
  ultimately show ?thesis by (rule trans [rotated])
qed

text \<open>An address as Postfix logs it: a quoted local part, or one with no quote; no \<open>>\<close> but in quotes.\<close>

fun quoted_form :: "string \<Rightarrow> bool" where
  "quoted_form [] \<longleftrightarrow> False"
| "quoted_form (c # s) \<longleftrightarrow>
     (if c = CHR 0x5C then s \<noteq> [] \<and> not_newline (hd s) \<and> quoted_form (tl s)
      else if c = CHR 0x22 then s \<noteq> [] \<and> hd s = CHR ''@'' \<and> CHR ''>'' \<notin> set s
      else quoted_form s)"

definition logged_form :: "string \<Rightarrow> bool" where
  "logged_form a \<longleftrightarrow>
     (if a \<noteq> [] \<and> hd a = CHR 0x22 then quoted_form (tl a) else CHR ''>'' \<notin> set a \<and> CHR 0x22 \<notin> set a)"

lemma run_quoted_byte:
  "not_newline d \<Longrightarrow> run quoted_byte (p, CHR 0x5C # d # u) cs k = k (d, u) cs"
  "c \<noteq> CHR 0x5C \<Longrightarrow> c \<noteq> CHR 0x22 \<Longrightarrow> run quoted_byte (p, c # u) cs k = k (c, u) cs"
  "run quoted_byte (p, CHR 0x22 # u) cs k = None"
  by (simp_all add: quoted_byte_def not_in_def split: option.split)

lemma run_quoted:
  assumes "quoted_form s" "length (s @ CHR ''>'' # t) \<le> n" "k (adv p s, CHR ''>'' # t) cs = Some v"
  shows "repeated True (run quoted_byte) n (p, s @ CHR ''>'' # t) cs
    (\<lambda>y cs'. run (Seq (Lit [CHR 0x22, CHR ''@'']) (many (not_in ''>''))) y cs' k) = Some v"
  using assms
proof (induction s arbitrary: p n rule: quoted_form.induct)
  case (2 c s)
  then obtain m where n: "n = Suc m" by (cases n) auto
  let ?k = "\<lambda>y cs'. run (Seq (Lit [CHR 0x22, CHR ''@'']) (many (not_in ''>''))) y cs' k"
  consider (esc) d u where "c = CHR 0x5C" "s = d # u" "not_newline d" "quoted_form u"
    | (close) u where "c = CHR 0x22" "s = CHR ''@'' # u" "CHR ''>'' \<notin> set u"
    | (plain) "c \<noteq> CHR 0x5C" "c \<noteq> CHR 0x22" "quoted_form s"
    using 2(3) by (cases s) (auto split: if_splits)
  then show ?case
  proof cases
    case esc
    have "repeated True (run quoted_byte) m (d, u @ CHR ''>'' # t) cs ?k = Some v"
      using 2(1) [of m d] 2(4,5) esc n by simp
    then show ?thesis using esc(3) unfolding n esc(1,2) repeated.simps Let_def append.simps
      by (simp add: run_quoted_byte del: run.simps)
  next
    case close
    have "run (many (not_in ''>'')) (CHR ''@'', u @ CHR ''>'' # t) cs k = Some v"
      by (rule run_many_all) (use 2(5) close in \<open>auto simp: not_in_def\<close>)
    then show ?thesis unfolding n close(1,2) repeated.simps Let_def append.simps by (simp add: run_quoted_byte)
  next
    case plain
    have "repeated True (run quoted_byte) m (c, s @ CHR ''>'' # t) cs ?k = Some v"
      using 2(2) [of m c] 2(4,5) plain n by simp
    then show ?thesis using plain(1,2) unfolding n repeated.simps Let_def append.simps
      by (simp add: run_quoted_byte del: run.simps)
  qed
qed simp

lemma run_logged_address:
  assumes "logged_form a" "k (adv p a, CHR ''>'' # t) cs = Some v"
  shows "run logged_address (p, a @ CHR ''>'' # t) cs k = Some v"
proof (cases "a \<noteq> [] \<and> hd a = CHR 0x22")
  case True
  then obtain s where s: "a = CHR 0x22 # s" "quoted_form s" using assms(1) by (cases a) (auto simp: logged_form_def)
  have "repeated True (run quoted_byte) (length (s @ CHR ''>'' # t)) (CHR 0x22, s @ CHR ''>'' # t) cs
    (\<lambda>y cs'. run (Seq (Lit [CHR 0x22, CHR ''@'']) (many (not_in ''>''))) y cs' k) = Some v"
    by (rule run_quoted) (use assms(2) s in simp_all)
  then show ?thesis unfolding s logged_address_def by (simp del: repeated.simps)
next
  case False
  then have a: "\<forall>c \<in> set a. not_in [CHR ''>'', CHR 0x22] c" using assms(1) by (auto simp: logged_form_def not_in_def split: if_splits)
  have "run (many (not_in [CHR ''>'', CHR 0x22])) (p, a @ CHR ''>'' # t) cs k = Some v"
    by (rule run_many_all) (use a assms(2) in \<open>auto simp: not_in_def\<close>)
  moreover have "run (seq [Lit [CHR 0x22], Star True quoted_byte, Lit [CHR 0x22, CHR ''@''], many (not_in ''>'')]) (p, a @ CHR ''>'' # t) cs k = None"
    using False by (cases a) auto
  ultimately show ?thesis unfolding logged_address_def by (rule run_Alt_right [rotated])
qed

text \<open>Reading a known text piece by piece.\<close>

lemma run_seq_Lit: "run (seq (r # rs)) (adv p s, ys) cs k = Some v \<Longrightarrow> run (seq (Lit s # r # rs)) (p, s @ ys) cs k = Some v"
  by simp

lemma run_seq_some1:
  assumes "xs \<noteq> []" "list_all P xs" "stops P ys" "run (seq (r # rs)) (adv p xs, ys) cs k = Some v"
  shows "run (seq (some1 P # r # rs)) (p, xs @ ys) cs k = Some v"
  unfolding seq.simps run.simps by (rule run_some1_all) (use assms in \<open>simp_all add: list_all_iff del: run.simps seq.simps\<close>)

lemma run_seq_Cap:
  assumes "\<And>k'. k' (adv p xs, ys) cs = Some v \<Longrightarrow> run q (p, xs @ ys) cs k' = Some v"
    "run (seq (r # rs)) (adv p xs, ys) ((i, xs) # cs) k = Some v"
  shows "run (seq (Cap i q # r # rs)) (p, xs @ ys) cs k = Some v"
  unfolding seq.simps run.simps by (rule assms(1)) (use assms(2) in simp)

lemma run_seq_few:
  assumes "list_all P xs" "run (seq (r # rs)) (adv p xs, ys) cs k = Some v"
    "\<And>i. i < length xs \<Longrightarrow> run (seq (r # rs)) (adv p (take i xs), drop i xs @ ys) cs k = None"
  shows "run (seq (few P # r # rs)) (p, xs @ ys) cs k = Some v"
  unfolding seq.simps run.simps by (rule run_few_first) (use assms in \<open>simp_all add: list_all_iff\<close>)

lemma run_seq_opt:
  "run a x cs (\<lambda>y cs'. run (seq (r # rs)) y cs' k) = Some v \<Longrightarrow> run (seq (opt a # r # rs)) x cs k = Some v"
  "run a x cs (\<lambda>y cs'. run (seq (r # rs)) y cs' k) = None \<Longrightarrow> run (seq (r # rs)) x cs k = Some v \<Longrightarrow>
    run (seq (opt a # r # rs)) x cs k = Some v"
  by (simp_all add: opt_def)

lemma run_seq_last: "run (seq [Lit s]) (p, s @ ys) cs k = k (adv p s, ys) cs"
  by simp

lemma no_early_status:
  assumes "\<not> sublist ''status='' d" "d = e @ '' ''" "i < length d"
  shows "take 7 (drop i d @ ys) \<noteq> ''status=''"
proof
  assume t: "take 7 (drop i d @ ys) = ''status=''"
  show False
  proof (cases "7 \<le> length (drop i d)")
    case True
    then have "drop i d = ''status='' @ drop 7 (drop i d)" using t by (metis append_take_drop_id take_all_iff take_append append_Nil2 diff_is_0_eq take_0)
    then have "d = take i d @ ''status='' @ drop 7 (drop i d)" by (metis append_take_drop_id)
    with assms(1) show False unfolding sublist_def by metis
  next
    case False
    then have "take 7 (drop i d @ ys) = drop i d @ take (7 - length (drop i d)) ys" by simp
    moreover have "drop i d = drop i e @ '' ''" using assms(2,3) by simp
    ultimately have "CHR '' '' \<in> set (take 7 (drop i d @ ys))" by simp
    with t show False by simp
  qed
qed

text \<open>A result as Postfix writes it: the fields of the line from the program to the reply.\<close>

definition delivery_line ::
  "string \<Rightarrow> string \<Rightarrow> string \<Rightarrow> string \<Rightarrow> string \<Rightarrow> string option \<Rightarrow> string \<Rightarrow> string \<Rightarrow> string \<Rightarrow> string \<Rightarrow> string" where
  "delivery_line host prog pid qid addr orig relay detail word tail =
     syslog_line host prog pid (qid @ '': to=<'' @ addr @ ''>, '' @
       (case orig of None \<Rightarrow> [] | Some a \<Rightarrow> ''orig_to=<'' @ a @ ''>, '') @
       ''relay='' @ relay @ detail @ ''status='' @ word @ tail)"

lemma delivery_found:
  assumes "logged_by host prog pid" "qid \<noteq> []" "list_all alnum qid" "logged_form addr"
    "pred_option logged_form orig" "list_all (\<lambda>c. not_space c \<and> c \<noteq> CHR '','') relay"
    "detail = CHR '','' # d @ '' ''" "list_all not_newline detail" "\<not> sublist ''status='' detail"
    "word \<noteq> []" "list_all word_char word" "stops word_char tail"
  shows "\<exists>s. delivery_line host prog pid qid addr orig relay detail word tail = s @ tail \<and>
    find_submatch delivery_re (delivery_line host prog pid qid addr orig relay detail word tail) =
      Some ((0, s) # (5, word) # (4, relay) # (case orig of None \<Rightarrow> [] | Some a \<Rightarrow> [(3, a)]) @ [(2, addr), (1, qid)])"
proof -
  let ?s = "delivery_line host prog pid qid addr orig relay detail word []"
  have line: "delivery_line host prog pid qid addr orig relay detail word tail = ?s @ tail"
    by (simp add: delivery_line_def syslog_line_def split: option.split)
  let ?c = "(case orig of None \<Rightarrow> [] | Some a \<Rightarrow> [(3, a)]) @ [(2, addr), (1, qid)]"
  let ?v = "Some ((0, ?s) # (5, word) # (4, relay) # ?c)"
  let ?k = "\<lambda>y cs. Some ((0, take (length (?s @ tail) - length (snd y)) (?s @ tail)) # cs)"
  have last: "run (seq [Word_b, Lit ''status='', Cap 5 (some1 word_char)]) (CHR '' '', ''status='' @ word @ tail) ((4, relay) # ?c) ?k = ?v"
  proof -
    have "run (some1 word_char) (CHR ''='', word @ tail) ((4, relay) # ?c) (\<lambda>y cs'. ?k y ((5, take (length (word @ tail) - length (snd y)) (word @ tail)) # cs')) = ?v"
      by (rule run_some1_all) (use assms(10-12) in \<open>simp_all add: list_all_iff\<close>)
    then show ?thesis by (simp add: word_edge_def word_char_def is_digit_def is_upper_def is_lower_def)
  qed
  have early: "run (seq [Word_b, Lit ''status='', Cap 5 (some1 word_char)]) (q, drop i detail @ ''status='' @ word @ tail) cs ?k = None"
    if "i < length detail" for i q cs
  proof -
    have l: "length ''status='' = 7" by simp
    have "take (length ''status='') (drop i detail @ ''status='' @ word @ tail) \<noteq> ''status=''"
      unfolding l by (rule no_early_status [OF assms(9), where e = "CHR '','' # d"]) (use that assms(7) in simp_all)
    then show ?thesis by (simp only: seq.simps run.simps snd_conv if_False if_cancel)
  qed
  have mid: "run (seq [few not_newline, Word_b, Lit ''status='', Cap 5 (some1 word_char)])
      (q, detail @ ''status='' @ word @ tail) ((4, relay) # ?c) ?k = ?v" for q
  proof (rule run_seq_few [OF assms(8)])
    show "run (seq [Word_b, Lit ''status='', Cap 5 (some1 word_char)]) (adv q detail, ''status='' @ word @ tail) ((4, relay) # ?c) ?k = ?v"
      using last by (simp only: assms(7) adv_Cons adv_append adv_Nil)
  qed (rule early)
  have rel: "run (seq [Lit ''relay='', Cap 4 (many (\<lambda>c. not_space c \<and> c \<noteq> CHR '','')),
      few not_newline, Word_b, Lit ''status='', Cap 5 (some1 word_char)])
      (q, ''relay='' @ relay @ detail @ ''status='' @ word @ tail) ?c ?k = ?v" for q
    by (rule run_seq_Lit, rule run_seq_Cap [OF _ mid], rule run_many_all)
      (use assms(6,7) in \<open>simp_all add: list_all_iff\<close>)
  have org: "run (seq [opt (seq [Lit ''orig_to=<'', Cap 3 logged_address, Lit ''>, '']), Lit ''relay='', Cap 4 (many (\<lambda>c. not_space c \<and> c \<noteq> CHR '','')),
      few not_newline, Word_b, Lit ''status='', Cap 5 (some1 word_char)])
      (q, (case orig of None \<Rightarrow> [] | Some a \<Rightarrow> ''orig_to=<'' @ a @ ''>, '') @ ''relay='' @ relay @ detail @ ''status='' @ word @ tail)
      [(2, addr), (1, qid)] ?k = ?v" for q
  proof (cases orig)
    case None
    have "run (seq (Lit ''orig_to=<'' # rs)) (q, ''relay='' @ t) cs k = None" for rs t cs k by (cases rs) simp_all
    then show ?thesis using rel [of q] None
      by (intro run_seq_opt(2)) (simp_all only: option.case append_Nil)
  next
    case (Some a)
    have c3: "[(3, a)] @ cs = (3, a) # cs" for cs :: caps by simp
    have "run (seq [Lit ''orig_to=<'', Cap 3 logged_address, Lit ''>, '']) (q, ''orig_to=<'' @ a @ ''>, '' @ ''relay='' @ relay @ detail @ ''status='' @ word @ tail)
      [(2, addr), (1, qid)] (\<lambda>y cs'. run (seq [Lit ''relay='', Cap 4 (many (\<lambda>c. not_space c \<and> c \<noteq> CHR '','')),
      few not_newline, Word_b, Lit ''status='', Cap 5 (some1 word_char)]) y cs' ?k) = ?v"
      apply (rule run_seq_Lit, rule run_seq_Cap)
      subgoal for k' using run_logged_address [of a k'] Some assms(5) by (simp only: append.simps option.pred_inject)
      subgoal using rel unfolding Some option.case c3 run_seq_last by blast
      done
    then show ?thesis unfolding Some option.case append_assoc by (rule run_seq_opt(1))
  qed
  have sp: "\<not> not_space (CHR '' '')" "\<not> is_digit (CHR '']'')" "\<not> alnum (CHR '':'')"
    by (simp_all add: not_space_def is_digit_def alnum_def is_upper_def is_lower_def)
  note l = assms(1) [unfolded logged_by_def]
  have "run (seq (some1 not_space # Lit '' '' # some1 prog_char # Lit ''['' # some1 is_digit # Lit '']: '' #
      Cap 1 (some1 alnum) # Lit '': to=<'' # Cap 2 logged_address # Lit ''>, '' #
      [opt (seq [Lit ''orig_to=<'', Cap 3 logged_address, Lit ''>, '']), Lit ''relay='', Cap 4 (many (\<lambda>c. not_space c \<and> c \<noteq> CHR '','')),
      few not_newline, Word_b, Lit ''status='', Cap 5 (some1 word_char)]))
    (CHR 0x0A, host @ '' '' @ prog @ ''['' @ pid @ '']: '' @ qid @ '': to=<'' @ addr @ ''>, '' @
      (case orig of None \<Rightarrow> [] | Some a \<Rightarrow> ''orig_to=<'' @ a @ ''>, '') @ ''relay='' @ relay @ detail @ ''status='' @ word @ tail) [] ?k = ?v"
    apply (rule run_seq_some1)
    subgoal using l by blast
    subgoal using l by blast
    subgoal using sp by simp
    apply (rule run_seq_Lit, rule run_seq_some1)
    subgoal using l by blast
    subgoal using l by blast
    subgoal by simp
    apply (rule run_seq_Lit, rule run_seq_some1)
    subgoal using l by blast
    subgoal using l by blast
    subgoal using sp by simp
    apply (rule run_seq_Lit, rule run_seq_Cap)
    subgoal by (rule run_some1_all) (use assms(2,3) sp in \<open>simp_all add: list_all_iff\<close>)
    apply (rule run_seq_Lit, rule run_seq_Cap)
    subgoal for k' using run_logged_address [OF assms(4), of k'] by (simp only: append.simps)
    apply (rule run_seq_Lit)
    apply (rule org)
    done
  then have "find_submatch delivery_re (?s @ tail) = ?v"
    unfolding find_submatch_def delivery_re_def
    by (intro run_Cap_hit) (simp only: delivery_line_def syslog_line_def append_assoc append_Nil append_Nil2)
  with line show ?thesis by (intro exI [of _ ?s]) (simp only:)
qed

lemma trim_space_blank:
  assumes "s \<noteq> []" "visible (hd s)" "visible (last s)"
  shows "trim_space ('' '' @ s) = s"
proof -
  have "find (\<lambda>r. r \<noteq> [] \<and> take (length r) (CHR '' '' # s) = r) space_runes = Some '' ''"
    by (simp add: space_runes_def upt_rec)
  then have "drop_runes space_runes (CHR '' '' # s) = drop_runes space_runes s"
    by (subst drop_runes.simps) simp
  then show ?thesis using trim_space_visible [OF assms] by (simp add: trim_space_def)
qed

lemma split_stamp:
  assumes "syslog_stamp st" "rest \<noteq> []" "visible (hd rest)" "visible (last rest)"
  shows "split_timestamp (st @ '' '' @ rest) = (st, rest)"
  using trim_space_visible [OF assms(2-4)] unfolding split_timestamp_def stamp_found [OF assms(1)] by (simp add: group_def)

lemma delivery_parsed:
  fixes reply :: string
  assumes stamp: "syslog_stamp st"
    and head: "logged_by host prog pid" "visible (hd host)" "qid \<noteq> []" "list_all alnum qid"
    and addrs: "logged_form addr" "pred_option logged_form orig"
    and relay: "list_all (\<lambda>c. not_space c \<and> c \<noteq> CHR '','') relay"
    and detail: "detail = CHR '','' # d @ '' ''" "list_all not_newline detail" "\<not> sublist ''status='' detail"
    and word: "word \<noteq> []" "list_all word_char word"
  defines "line \<equiv> delivery_line host prog pid qid addr orig relay detail word ('' ('' @ reply @ '')'')"
  shows "split_timestamp (st @ '' '' @ line) = (st, line)"
    and "parse_delivery (st @ '' '' @ line) =
      map_option (\<lambda>s. (qid, case orig of None \<Rightarrow> addr | Some a \<Rightarrow> if a = [] then addr else a, s)) (status_word word)"
    and "delivery_reply line = (relay, reply)"
proof -
  have "\<exists>s. line = s @ '' ('' @ reply @ '')'' \<and> find_submatch delivery_re line =
      Some ((0, s) # (5, word) # (4, relay) # (case orig of None \<Rightarrow> [] | Some a \<Rightarrow> [(3, a)]) @ [(2, addr), (1, qid)])"
    unfolding line_def
    by (rule delivery_found) (use assms in \<open>simp_all add: word_char_def is_digit_def is_upper_def is_lower_def\<close>)
  then obtain s where s: "line = s @ '' ('' @ reply @ '')''" "find_submatch delivery_re line =
      Some ((0, s) # (5, word) # (4, relay) # (case orig of None \<Rightarrow> [] | Some a \<Rightarrow> [(3, a)]) @ [(2, addr), (1, qid)])" by blast
  have tr: "trim_space (drop (length s) line) = ''('' @ reply @ '')''"
    unfolding s(1) using trim_space_blank [of "''('' @ reply @ '')''"] by (simp add: visible_def)
  have "host \<noteq> []" using head(1) by (simp add: logged_by_def)
  then have "line \<noteq> []" "hd line = hd host" by (simp_all add: line_def delivery_line_def syslog_line_def)
  moreover have "last line = CHR '')''" unfolding s(1) by simp
  ultimately show sp: "split_timestamp (st @ '' '' @ line) = (st, line)"
    using split_stamp [OF stamp, of line] head(2) by (simp add: visible_def)
  let ?m = "(0, s) # (5, word) # (4, relay) # (case orig of None \<Rightarrow> [] | Some a \<Rightarrow> [(3, a)]) @ [(2, addr), (1, qid)]"
  have g: "group ?m 0 = s" "group ?m 4 = relay" by (simp_all add: group_def)
  show "delivery_reply line = (relay, reply)"
    unfolding delivery_reply_def s(2) option.case Let_def g tr by (simp add: has_prefix_def has_suffix_def)
  show "parse_delivery (st @ '' '' @ line) =
      map_option (\<lambda>s. (qid, case orig of None \<Rightarrow> addr | Some a \<Rightarrow> if a = [] then addr else a, s)) (status_word word)"
    unfolding parse_delivery_def sp snd_conv s(2) by (cases orig) (simp_all add: group_def)
qed

text \<open>
  Every delivery line Postfix writes, with a plain or a quoted address and an original recipient or
  none, is read back as its queue id, its recipient and its status.
\<close>

theorem every_result_read:
  assumes stamp: "syslog_stamp st"
    and head: "logged_by host prog pid" "visible (hd host)" "qid \<noteq> []" "list_all alnum qid"
    and addrs: "logged_form addr" "pred_option logged_form orig"
    and relay: "list_all (\<lambda>c. not_space c \<and> c \<noteq> CHR '','') relay"
    and detail: "detail = CHR '','' # d @ '' ''" "list_all not_newline detail" "\<not> sublist ''status='' detail"
    and word: "word \<noteq> []" "list_all word_char word"
  shows "parse_delivery (st @ '' '' @ delivery_line host prog pid qid addr orig relay detail word ('' ('' @ reply @ '')'')) =
      map_option (\<lambda>s. (qid, case orig of None \<Rightarrow> addr | Some a \<Rightarrow> if a = [] then addr else a, s)) (status_word word) \<and>
    delivery_reply (delivery_line host prog pid qid addr orig relay detail word ('' ('' @ reply @ '')'')) = (relay, reply)"
  using delivery_parsed(2,3) [OF assms] by blast

theorem every_result_read_witness:
  "parse_delivery (''Sep  1 10:11:12 '' @ delivery_line ''mx'' ''postfix/smtp'' ''42'' ''4bX'' [CHR 0x22, CHR '' '', CHR 0x22, CHR ''@'', CHR ''b'']
      (Some ''a@b'') ''mail.b[192.0.2.1]:25'' '', delay=1, dsn=2.0.0, '' ''sent'' '' (250 ok status=bounced)'') =
    Some (''4bX'', ''a@b'', Status_sent)"
proof -
  have "\<not> sublist ''status='' '', delay=1, dsn=2.0.0, ''" by (simp add: sublist_code)
  then show ?thesis
  using every_result_read [of "''Sep  1 10:11:12''" "''mx''" "''postfix/smtp''" "''42''" "''4bX''" "[CHR 0x22, CHR '' '', CHR 0x22, CHR ''@'', CHR ''b'']"
      "Some ''a@b''" "''mail.b[192.0.2.1]:25''" "'', delay=1, dsn=2.0.0, ''" "'' delay=1, dsn=2.0.0,''" "''sent''" "''250 ok status=bounced''"]
  by (simp add: logged_by_def visible_def not_space_def space_char_def alnum_def is_digit_def is_upper_def is_lower_def
      logged_form_def not_newline_def word_char_def status_word_def)
qed

theorem result_names_its_head_witness:
  "has_prefix ''4bX: to=<'' ''4bX: to=<a@b>, relay=none, dsn=5.4.4, status=bounced (x)''"
proof -
  have "\<not> sublist ''status='' '', dsn=5.4.4, ''" by (simp add: sublist_code)
  then have p: "parse_delivery (''Sep  1 10:11:12'' @ '' '' @ delivery_line ''mx'' ''smtp'' ''42'' ''4bX'' ''a@b'' None ''none'' '', dsn=5.4.4, '' ''bounced'' ('' ('' @ ''x'' @ '')'')) =
      Some (''4bX'', ''a@b'', Status_bounced)"
    and s: "split_timestamp (''Sep  1 10:11:12'' @ '' '' @ delivery_line ''mx'' ''smtp'' ''42'' ''4bX'' ''a@b'' None ''none'' '', dsn=5.4.4, '' ''bounced'' ('' ('' @ ''x'' @ '')'')) =
      (''Sep  1 10:11:12'', delivery_line ''mx'' ''smtp'' ''42'' ''4bX'' ''a@b'' None ''none'' '', dsn=5.4.4, '' ''bounced'' ('' ('' @ ''x'' @ '')''))"
    by (subst delivery_parsed [where d = "'' dsn=5.4.4,''"];
      simp add: logged_by_def visible_def not_space_def space_char_def alnum_def is_digit_def is_upper_def is_lower_def
        logged_form_def not_newline_def word_char_def status_word_def)+
  from result_names_its_head [OF p, of "''mx''" "''smtp''" "''42''" "''4bX: to=<a@b>, relay=none, dsn=5.4.4, status=bounced (x)''"] s
  show ?thesis by (simp add: logged_by_def not_space_def space_char_def is_digit_def delivery_line_def syslog_line_def)
qed

end
