(* ===== verification/Log_Tail.thy ===== *)
theory Log_Tail
  imports Log_Lines Postfix_Time
begin

text \<open>
  Following mail.log (\<open>follow\<close> of \<open>internal/logtail/logtail.go\<close>, \<open>offset.go\<close>): the file read on
  from where the reader stood, its partial last line, its rotation, the place saved in the database
  and the restart from it. A file is its inode, \<open>d_file\<close> its bytes; what the handlers do with a
  line is the record \<open>hooks\<close> on a state of their own, the database among it. \<open>sha\<close> is the hex
  SHA-256 of the package \<open>crypto\<close>. Reads of an open file do not fail; a pass over the log runs at
  one time \<open>now\<close>, in nanoseconds, and may see a new state of the disk at each system call.

  What the lemmas show: the lines handed to the handlers are the complete lines of the files
  followed, each once and in order, however the writes and the reads cut them and through a
  rotation; the place saved is the end of a line already handled and never past one that is held;
  a start reads on from there, the rest of the file rotated meanwhile first.
\<close>

section \<open>Places, the disk, the handlers\<close>

record place =
  p_fp :: string
  p_end :: nat

definition place_string :: "place \<Rightarrow> string" where
  "place_string p = p_fp p @ ''@'' @ show_nat (p_end p)"

text \<open>\<open>parsePlace\<close>; \<open>scan\<close> is \<open>fmt.Sscan\<close> into an integer.\<close>

definition parse_place :: "(string \<Rightarrow> nat option) \<Rightarrow> string \<Rightarrow> place" where
  "parse_place scan s =
     (case last_index (CHR ''@'') s of
        None \<Rightarrow> \<lparr>p_fp = [], p_end = 0\<rparr>
      | Some i \<Rightarrow>
          (case scan (drop (i + 1) s) of
             None \<Rightarrow> \<lparr>p_fp = [], p_end = 0\<rparr>
           | Some n \<Rightarrow> \<lparr>p_fp = take i s, p_end = n\<rparr>))"

record disk =
  d_file :: "nat \<Rightarrow> string"
  d_log :: "nat option"
  d_rotated :: "nat option"

record saved_place =
  sp_fp :: string
  sp_offset :: nat
  sp_updated :: int

text \<open>
  \<open>h_handle now catching_up place start line\<close>; \<open>h_flush now\<close>; \<open>h_hold fp\<close>, the earliest place
  something still waits on; \<open>h_load\<close> and \<open>h_save\<close> of the place (\<open>None\<close> and \<open>False\<close>: the database
  said no); \<open>h_blind from d\<close>.
\<close>

record 's hooks =
  h_handle :: "int \<Rightarrow> bool \<Rightarrow> place \<Rightarrow> nat \<Rightarrow> string \<Rightarrow> 's \<Rightarrow> 's"
  h_flush :: "int \<Rightarrow> 's \<Rightarrow> 's"
  h_hold :: "'s \<Rightarrow> string \<Rightarrow> place option"
  h_load :: "'s \<Rightarrow> 's \<times> saved_place option option"
  h_save :: "saved_place \<Rightarrow> 's \<Rightarrow> 's \<times> bool"
  h_blind :: "int \<Rightarrow> int \<Rightarrow> 's \<Rightarrow> 's"

section \<open>The tracker\<close>

record tracker =
  t_fp :: string
  t_saved :: int
  t_last_save :: "int option"
  t_behind :: bool
  t_prev :: saved_place
  t_line :: place
  t_line_start :: nat

definition fingerprint_size :: nat where "fingerprint_size = 512"

definition persist_interval :: int where "persist_interval = 5 * second"

definition fingerprint_of :: "(string \<Rightarrow> string) \<Rightarrow> disk \<Rightarrow> nat \<Rightarrow> string" where
  "fingerprint_of sha d i =
     (let buf = take fingerprint_size (d_file d i)
      in if length buf < fingerprint_size then [] else sha buf @ '':'' @ show_nat i)"

definition same_log :: "string \<Rightarrow> string \<Rightarrow> bool" where
  "same_log saved current \<longleftrightarrow>
     saved = current \<or>
     (CHR '':'' \<notin> set saved \<and> saved \<noteq> [] \<and>
      saved = (case index_of (CHR '':'') current of None \<Rightarrow> current | Some i \<Rightarrow> take i current))"

definition no_place :: saved_place where
  "no_place = \<lparr>sp_fp = [], sp_offset = 0, sp_updated = 0\<rparr>"

definition new_tracker :: tracker where
  "new_tracker = \<lparr>t_fp = [], t_saved = 0, t_last_save = None, t_behind = False, t_prev = no_place,
     t_line = \<lparr>p_fp = [], p_end = 0\<rparr>, t_line_start = 0\<rparr>"

definition resume_at :: "(string \<Rightarrow> string) \<Rightarrow> 's hooks \<Rightarrow> disk \<Rightarrow> nat \<Rightarrow> tracker \<Rightarrow> 's \<Rightarrow> 's \<times> tracker \<times> nat" where
  "resume_at sha hk d i tr s =
     (let size = length (d_file d i);
          tr1 = tr\<lparr>t_fp := fingerprint_of sha d i\<rparr>
      in case h_load hk s of
           (s1, None) \<Rightarrow> (s1, tr1, size)
         | (s1, Some None) \<Rightarrow> (s1, tr1\<lparr>t_saved := int size\<rparr>, size)
         | (s1, Some (Some prev)) \<Rightarrow>
             if sp_fp prev \<noteq> [] \<and> same_log (sp_fp prev) (t_fp tr1) \<and> sp_offset prev \<le> size
             then (s1, tr1\<lparr>t_saved := int (sp_offset prev)\<rparr>, sp_offset prev)
             else (s1, tr1\<lparr>t_saved := 0, t_behind := (sp_fp prev \<noteq> []), t_prev := prev\<rparr>, 0))"

definition record_place ::
  "(string \<Rightarrow> string) \<Rightarrow> 's hooks \<Rightarrow> int \<Rightarrow> disk \<Rightarrow> nat \<Rightarrow> nat \<Rightarrow> bool \<Rightarrow> tracker \<Rightarrow> 's \<Rightarrow> tracker \<times> 's" where
  "record_place sha hk now d i offset force tr s =
     (let off = (case h_hold hk s (t_fp tr) of
                   Some p \<Rightarrow> if p_end p < offset then p_end p else offset
                 | None \<Rightarrow> offset)
      in if int off = t_saved tr then (tr, s)
         else if \<not> force \<and> (case t_last_save tr of None \<Rightarrow> False | Some t \<Rightarrow> now - t < persist_interval) then (tr, s)
         else (let tr1 = (if t_fp tr = [] then tr\<lparr>t_fp := fingerprint_of sha d i\<rparr> else tr)
               in case h_save hk \<lparr>sp_fp = t_fp tr1, sp_offset = off, sp_updated = stamp now\<rparr> s of
                    (s1, False) \<Rightarrow> (tr1, s1)
                  | (s1, True) \<Rightarrow> (tr1\<lparr>t_saved := int off, t_last_save := Some now\<rparr>, s1)))"

definition adopt ::
  "(string \<Rightarrow> string) \<Rightarrow> 's hooks \<Rightarrow> int \<Rightarrow> disk \<Rightarrow> nat \<Rightarrow> tracker \<Rightarrow> 's \<Rightarrow> tracker \<times> 's" where
  "adopt sha hk now d i tr s =
     record_place sha hk now d i 0 True (tr\<lparr>t_fp := fingerprint_of sha d i, t_saved := -1\<rparr>) s"

section \<open>Reading lines\<close>

lemma index_of_Some: "index_of c s = Some n \<Longrightarrow> n < length s \<and> s ! n = c \<and> c \<notin> set (take n s)"
  by (induction s arbitrary: n) (auto split: if_splits)

lemma index_of_None: "index_of c s = None \<longleftrightarrow> c \<notin> set s"
  by (induction s) auto

lemma index_of_app: "index_of c (s @ t) = (case index_of c s of Some n \<Rightarrow> Some n | None \<Rightarrow> map_option (\<lambda>k. length s + k) (index_of c t))"
proof (induction s)
  case Nil
  show ?case by (cases "index_of c t") simp_all
next
  case (Cons a s)
  then show ?case by (cases "index_of c s"; cases "index_of c t") simp_all
qed

text \<open>\<open>ReadString('\n')\<close> until the end of the file: each complete line, and what is left over.\<close>

function drain_lines ::
  "'s hooks \<Rightarrow> int \<Rightarrow> bool \<Rightarrow> string \<Rightarrow> string \<Rightarrow> tracker \<Rightarrow> string \<Rightarrow> nat \<Rightarrow> 's \<Rightarrow> tracker \<times> string \<times> nat \<times> 's" where
  "drain_lines hk now cu fp text tr pending consumed s =
     (case index_of newline text of
        None \<Rightarrow> (tr, pending @ text, consumed + length text, s)
      | Some n \<Rightarrow>
          (let full = pending @ take (n + 1) text;
               consumed' = consumed + (n + 1);
               tr' = tr\<lparr>t_line := \<lparr>p_fp = fp, p_end = consumed'\<rparr>, t_line_start := consumed' - length full\<rparr>
           in drain_lines hk now cu fp (drop (n + 1) text) tr' [] consumed'
                (h_handle hk now cu (t_line tr') (t_line_start tr') (trim_right [CHR 0x0D, CHR 0x0A] full) s)))"
  by pat_completeness auto
termination
  by (relation "measure (\<lambda>(hk, now, cu, fp, text, _). length text)") (auto dest!: index_of_Some)

declare drain_lines.simps [simp del]

text \<open>\<open>readRotated\<close>: the rotated file from the saved place to its end, its last line whole or not.\<close>

function drain_rotated ::
  "'s hooks \<Rightarrow> int \<Rightarrow> string \<Rightarrow> string \<Rightarrow> tracker \<Rightarrow> nat \<Rightarrow> 's \<Rightarrow> tracker \<times> 's" where
  "drain_rotated hk now fp text tr end s =
     (let n = (case index_of newline text of None \<Rightarrow> length text | Some n \<Rightarrow> n + 1);
          line = take n text;
          tr1 = tr\<lparr>t_line_start := end\<rparr>;
          tr2 = (if line \<noteq> [] then tr1\<lparr>t_line := \<lparr>p_fp = fp, p_end = end + length line\<rparr>\<rparr> else tr1);
          s1 = (if line \<noteq> [] then h_handle hk now True (t_line tr2) (t_line_start tr2) (trim_right [CHR 0x0D, CHR 0x0A] line) s else s)
      in if index_of newline text = None then (tr2, s1)
         else drain_rotated hk now fp (drop n text) tr2 (end + length line) s1)"
  by pat_completeness auto
termination
  by (relation "measure (\<lambda>(hk, now, fp, text, _). length text)") (use index_of_Some in \<open>fastforce+\<close>)

declare drain_rotated.simps [simp del]

section \<open>Starting\<close>

definition read_rotated ::
  "(string \<Rightarrow> string) \<Rightarrow> 's hooks \<Rightarrow> int \<Rightarrow> disk \<Rightarrow> tracker \<Rightarrow> 's \<Rightarrow> tracker \<times> 's \<times> bool" where
  "read_rotated sha hk now d tr s =
     (if \<not> t_behind tr then (tr, s, False)
      else (let tr1 = tr\<lparr>t_behind := False\<rparr>
            in case d_rotated d of
                 None \<Rightarrow> (tr1, s, False)
               | Some j \<Rightarrow>
                   if \<not> same_log (sp_fp (t_prev tr)) (fingerprint_of sha d j) \<or> sp_offset (t_prev tr) > length (d_file d j)
                   then (tr1, s, False)
                   else (case drain_rotated hk now (fingerprint_of sha d j) (drop (sp_offset (t_prev tr)) (d_file d j)) tr1
                                (sp_offset (t_prev tr)) s of
                           (tr2, s2) \<Rightarrow> (tr2, s2, True))))"

text \<open>\<open>rotatedTail\<close> and the loop's variables; \<open>b_since\<close> is \<open>None\<close> while the log can be read.\<close>

record rotated_tail =
  o_inode :: nat
  o_pending :: string
  o_consumed :: nat
  o_fp :: string
  o_until :: int

record blindness =
  b_since :: "int option"
  b_long :: bool

record follower =
  f_inode :: nat
  f_pending :: string
  f_consumed :: nat
  f_old :: "rotated_tail option"
  f_tracker :: tracker
  f_caught_up :: bool
  f_blind :: blindness

text \<open>The start, once the log \<open>i\<close> could be opened.\<close>

definition start_follow :: "(string \<Rightarrow> string) \<Rightarrow> 's hooks \<Rightarrow> int \<Rightarrow> disk \<Rightarrow> nat \<Rightarrow> 's \<Rightarrow> follower \<times> 's" where
  "start_follow sha hk now d i s =
     (case resume_at sha hk d i new_tracker s of
        (s1, tr1, start) \<Rightarrow>
          (case read_rotated sha hk now d tr1 s1 of
             (tr2, s2, did) \<Rightarrow>
               (\<lparr>f_inode = i, f_pending = [], f_consumed = start, f_old = None, f_tracker = tr2,
                 f_caught_up = False, f_blind = \<lparr>b_since = None, b_long = False\<rparr>\<rparr>,
                if did then h_flush hk now s2 else s2)))"

section \<open>A pass over the log\<close>

definition rotated_grace :: int where "rotated_grace = 60 * second"

definition blind_min :: int where "blind_min = 3 * second"

definition see :: "'s hooks \<Rightarrow> int \<Rightarrow> bool \<Rightarrow> blindness \<Rightarrow> 's \<Rightarrow> blindness \<times> 's" where
  "see hk now blind b s =
     (case b_since b of
        None \<Rightarrow> (if blind then b\<lparr>b_since := Some now\<rparr> else b, s)
      | Some since \<Rightarrow>
          (let d = now - since;
               b1 = (if d \<ge> blind_min then b\<lparr>b_long := True\<rparr> else b)
           in if blind \<and> d < 60 * second then (b1, s)
              else (let s1 = (if b_long b1 then h_blind hk since d s else s)
                    in if blind then (b1\<lparr>b_since := Some now\<rparr>, s1)
                       else (\<lparr>b_since = None, b_long = False\<rparr>, s1))))"

definition drain :: "'s hooks \<Rightarrow> int \<Rightarrow> disk \<Rightarrow> follower \<Rightarrow> 's \<Rightarrow> follower \<times> 's" where
  "drain hk now d f s =
     (case drain_lines hk now (\<not> f_caught_up f) (t_fp (f_tracker f)) (drop (f_consumed f) (d_file d (f_inode f)))
             (f_tracker f) (f_pending f) (f_consumed f) s of
        (tr, pending, consumed, s1) \<Rightarrow>
          (f\<lparr>f_tracker := tr, f_pending := pending, f_consumed := consumed\<rparr>, h_flush hk now s1))"

text \<open>\<open>drainOld\<close>; without a time the file is kept.\<close>

definition drain_old :: "'s hooks \<Rightarrow> int \<Rightarrow> bool \<Rightarrow> disk \<Rightarrow> follower \<Rightarrow> 's \<Rightarrow> follower \<times> 's" where
  "drain_old hk now timed d f s =
     (case f_old f of
        None \<Rightarrow> (f, s)
      | Some ol \<Rightarrow>
          (case drain_lines hk now (\<not> f_caught_up f) (o_fp ol) (drop (o_consumed ol) (d_file d (o_inode ol)))
                  (f_tracker f) (o_pending ol) (o_consumed ol) s of
             (tr, pending, consumed, s1) \<Rightarrow>
               (f\<lparr>f_tracker := tr,
                  f_old := if timed \<and> now > o_until ol then None else Some (ol\<lparr>o_pending := pending, o_consumed := consumed\<rparr>)\<rparr>,
                h_flush hk now s1)))"

definition see_log :: "'s hooks \<Rightarrow> int \<Rightarrow> bool \<Rightarrow> follower \<Rightarrow> 's \<Rightarrow> follower \<times> 's" where
  "see_log hk now blind f s = (case see hk now blind (f_blind f) s of (b, s1) \<Rightarrow> (f\<lparr>f_blind := b\<rparr>, s1))"

text \<open>\<open>read\<close>: what has been handed over, the partial line apart.\<close>

definition handed_over :: "follower \<Rightarrow> nat" where
  "handed_over f = f_consumed f - length (f_pending f)"

text \<open>The log is another file, or shorter than what was read of it.\<close>

definition switched :: "disk \<Rightarrow> nat \<Rightarrow> follower \<Rightarrow> bool" where
  "switched d j f \<longleftrightarrow> f_inode f \<noteq> j \<or> length (d_file d j) < f_consumed f"

definition switch_file ::
  "(string \<Rightarrow> string) \<Rightarrow> 's hooks \<Rightarrow> int \<Rightarrow> disk \<Rightarrow> disk \<Rightarrow> nat \<Rightarrow> follower \<Rightarrow> 's \<Rightarrow> follower \<times> 's" where
  "switch_file sha hk now d3 d4 j f s =
     (case drain hk now d3 f s of
        (f1, s1) \<Rightarrow>
          (case (if f_old f1 \<noteq> None then drain_old hk now False d3 f1 s1 else (f1, s1)) of
             (f2, s2) \<Rightarrow>
               (let f3 = f2\<lparr>f_old := None\<rparr>;
                    prev = \<lparr>o_inode = f_inode f3, o_pending = f_pending f3, o_consumed = f_consumed f3,
                            o_fp = t_fp (f_tracker f3), o_until = now + rotated_grace\<rparr>
                in case d_log d4 of
                     None \<Rightarrow> see_log hk now True f3 s2
                   | Some j' \<Rightarrow>
                       (case see_log hk now False
                               (f3\<lparr>f_inode := j', f_pending := [], f_consumed := 0,
                                   f_old := if f_inode f3 \<noteq> j then Some prev else None\<rparr>) s2 of
                          (f4, s4) \<Rightarrow>
                            (case adopt sha hk now d4 j' (f_tracker f4) s4 of
                               (tr, s5) \<Rightarrow> (f4\<lparr>f_tracker := tr\<rparr>, s5))))))"

text \<open>One tick. \<open>d1\<close> is the disk the lines are read from, \<open>d2\<close> the one the name is looked up in,
  \<open>d3\<close> that of the second reading and \<open>d4\<close> the one the log is opened in again.\<close>

definition tick ::
  "(string \<Rightarrow> string) \<Rightarrow> 's hooks \<Rightarrow> int \<Rightarrow> disk \<Rightarrow> disk \<Rightarrow> disk \<Rightarrow> disk \<Rightarrow> follower \<Rightarrow> 's \<Rightarrow> follower \<times> 's" where
  "tick sha hk now d1 d2 d3 d4 f s =
     (case drain_old hk now True d1 f s of
        (f1, s1) \<Rightarrow>
          (case drain hk now d1 f1 s1 of
             (f2', s2) \<Rightarrow>
               (let f2 = f2'\<lparr>f_caught_up := True\<rparr>
                in case d_log d2 of
                     None \<Rightarrow> see_log hk now True f2 s2
                   | Some j \<Rightarrow>
                       if switched d2 j f2 then switch_file sha hk now d3 d4 j f2 s2
                       else (case see_log hk now False f2 s2 of
                               (f3, s3) \<Rightarrow>
                                 (case record_place sha hk now d2 (f_inode f3) (handed_over f3) False (f_tracker f3) s3 of
                                    (tr, s4) \<Rightarrow> (f3\<lparr>f_tracker := tr\<rparr>, s4))))))"

definition stop_follow :: "(string \<Rightarrow> string) \<Rightarrow> 's hooks \<Rightarrow> int \<Rightarrow> disk \<Rightarrow> follower \<Rightarrow> 's \<Rightarrow> follower \<times> 's" where
  "stop_follow sha hk now d f s =
     (case see_log hk now False f s of
        (f1, s1) \<Rightarrow>
          (case drain_old hk now True d f1 s1 of
             (f2, s2) \<Rightarrow>
               (case record_place sha hk now d (f_inode f2) (handed_over f2) True (f_tracker f2) s2 of
                  (tr, s3) \<Rightarrow> (f2\<lparr>f_tracker := tr\<rparr>, s3))))"

section \<open>What is read of a text\<close>

text \<open>The complete lines of a text from offset \<open>a\<close>, each with where it starts and ends; the rest.\<close>

function spans :: "nat \<Rightarrow> string \<Rightarrow> (nat \<times> nat \<times> string) list" where
  "spans a text =
     (case index_of newline text of
        None \<Rightarrow> []
      | Some n \<Rightarrow> (a, a + n + 1, trim_right [CHR 0x0D, CHR 0x0A] (take (n + 1) text)) # spans (a + n + 1) (drop (n + 1) text))"
  by pat_completeness auto
termination by (relation "measure (\<lambda>(a, text). length text)") (auto dest!: index_of_Some)

declare spans.simps [simp del]

definition leftover :: "string \<Rightarrow> string" where
  "leftover text = rev (takeWhile (\<lambda>c. c \<noteq> newline) (rev text))"

type_synonym event = "place \<times> nat \<times> string"

definition event_of :: "string \<Rightarrow> nat \<times> nat \<times> string \<Rightarrow> event" where
  "event_of fp = (\<lambda>(a, e, l). (\<lparr>p_fp = fp, p_end = e\<rparr>, a, l))"

definition hand :: "'s hooks \<Rightarrow> int \<Rightarrow> bool \<Rightarrow> event \<Rightarrow> 's \<Rightarrow> 's" where
  "hand hk now cu = (\<lambda>(p, a, l). h_handle hk now cu p a l)"

lemma leftover_none: "index_of newline text = None \<Longrightarrow> leftover text = text"
  unfolding leftover_def index_of_None by (subst takeWhile_eq_all_conv [THEN iffD2]) auto

lemma leftover_no_newline: "newline \<notin> set (leftover text)"
  unfolding leftover_def by (metis (mono_tags) set_rev set_takeWhileD)

lemma leftover_some: "index_of newline text = Some n \<Longrightarrow> leftover text = leftover (drop (n + 1) text)"
proof -
  assume n: "index_of newline text = Some n"
  then have "text = take n text @ newline # drop (n + 1) text" using index_of_Some [OF n] by (metis Suc_eq_plus1 id_take_nth_drop)
  then have "rev text = rev (drop (n + 1) text) @ newline # rev (take n text)" by (metis append_Cons append_Nil append_assoc rev.simps(2) rev_append)
  moreover have "takeWhile P (xs @ y # ys) = takeWhile P xs" if "\<not> P y" for P :: "char \<Rightarrow> bool" and xs y ys
    using that by (induction xs) auto
  ultimately show ?thesis unfolding leftover_def by simp
qed

lemma leftover_length: "length (leftover text) \<le> length text"
  unfolding leftover_def by (metis length_rev length_takeWhile_le)

lemma spans_append:
  "spans a (u @ v) = spans a u @ spans (a + (length u - length (leftover u))) (leftover u @ v)"
  and leftover_append: "leftover (u @ v) = leftover (leftover u @ v)"
proof (induction a u rule: spans.induct)
  case (1 a u)
  {
    case 1
    show ?case
    proof (cases "index_of newline u")
      case None
      then show ?thesis by (simp add: leftover_none spans.simps [of a u])
    next
      case (Some n)
      then have n: "n < length u" "index_of newline (u @ v) = Some n" using index_of_Some [OF Some] by (auto simp: index_of_app)
      have l: "length (leftover u) \<le> length u - (n + 1)" using leftover_some [OF Some] leftover_length [of "drop (n + 1) u"] by simp
      have d: "a + n + 1 + (length (drop (n + 1) u) - length (leftover (drop (n + 1) u))) = a + (length u - length (leftover (drop (n + 1) u)))"
        using n l leftover_some [OF Some] by simp
      show ?thesis using "1.IH"(1) [OF Some] n(1) unfolding d
        unfolding spans.simps [of a "u @ v"] spans.simps [of a u] Some n(2) option.case leftover_some [OF Some] by simp
    qed
  next
    case 2
    show ?case
    proof (cases "index_of newline u")
      case None
      then show ?thesis by (simp add: leftover_none)
    next
      case (Some n)
      then have n: "n < length u" "index_of newline (u @ v) = Some n" using index_of_Some [OF Some] by (auto simp: index_of_app)
      show ?thesis using "1.IH"(2) [OF Some] n unfolding leftover_some [OF n(2)] leftover_some [OF Some] by simp
    qed
  }
qed

lemma drain_lines_eq:
  assumes "newline \<notin> set pending" "length pending \<le> consumed"
  shows "\<exists>tr'. drain_lines hk now cu fp w tr pending consumed s =
      (tr', leftover (pending @ w), consumed + length w,
       fold (hand hk now cu) (map (event_of fp) (spans (consumed - length pending) (pending @ w))) s) \<and>
    t_fp tr' = t_fp tr \<and> t_saved tr' = t_saved tr \<and> t_last_save tr' = t_last_save tr"
  using assms
proof (induction hk now cu fp w tr pending consumed s rule: drain_lines.induct)
  case (1 hk now cu fp w tr pending consumed s)
  have nn: "index_of newline pending = None" using 1(2) by (simp add: index_of_None)
  show ?case
  proof (cases "index_of newline w")
    case None
    then have "index_of newline (pending @ w) = None" using nn by (simp add: index_of_app)
    then show ?thesis using None by (subst drain_lines.simps) (simp add: leftover_none spans.simps)
  next
    case (Some n)
    then have n: "n < length w" "index_of newline (pending @ w) = Some (length pending + n)"
      using index_of_Some [OF Some] nn by (auto simp: index_of_app)
    let ?tr = "tr\<lparr>t_line := \<lparr>p_fp = fp, p_end = consumed + (n + 1)\<rparr>,
       t_line_start := consumed + (n + 1) - length (pending @ take (n + 1) w)\<rparr>"
    have sp: "spans (consumed - length pending) (pending @ w) =
        (consumed - length pending, consumed + (n + 1), trim_right [CHR 0x0D, CHR 0x0A] (pending @ take (n + 1) w)) #
        spans (consumed + (n + 1)) (drop (n + 1) w)"
      using 1(3) n by (subst spans.simps) simp
    have lo: "leftover (pending @ w) = leftover (drop (n + 1) w)" using leftover_some [OF n(2)] by simp
    from 1(1) [OF Some refl refl, of ?tr] obtain tr' where
      "drain_lines hk now cu fp (drop (n + 1) w) ?tr [] (consumed + (n + 1))
        (h_handle hk now cu (t_line ?tr) (t_line_start ?tr) (trim_right [CHR 0x0D, CHR 0x0A] (pending @ take (n + 1) w)) s) =
        (tr', leftover (drop (n + 1) w), consumed + (n + 1) + length (drop (n + 1) w),
         fold (hand hk now cu) (map (event_of fp) (spans (consumed + (n + 1)) (drop (n + 1) w)))
          (h_handle hk now cu (t_line ?tr) (t_line_start ?tr) (trim_right [CHR 0x0D, CHR 0x0A] (pending @ take (n + 1) w)) s))"
      "t_fp tr' = t_fp tr" "t_saved tr' = t_saved tr" "t_last_save tr' = t_last_save tr" by auto
    then show ?thesis using n 1(3) Some unfolding sp lo
      by (subst drain_lines.simps) (simp add: Let_def hand_def event_of_def)
  qed
qed

section \<open>Every line once\<close>

text \<open>
  Handlers that write down what they are given. \<open>hd\<close> is what they hold, \<open>ok\<close> whether the database
  takes a place.
\<close>

record recording =
  r_lines :: "event list"
  r_place :: "saved_place option"

definition recorder :: "(event list \<Rightarrow> string \<Rightarrow> place option) \<Rightarrow> (saved_place \<Rightarrow> bool) \<Rightarrow> recording hooks" where
  "recorder holds ok =
     \<lparr>h_handle = (\<lambda>now cu p a l r. r\<lparr>r_lines := r_lines r @ [(p, a, l)]\<rparr>),
      h_flush = (\<lambda>now r. r),
      h_hold = (\<lambda>r fp. holds (r_lines r) fp),
      h_load = (\<lambda>r. (r, Some (r_place r))),
      h_save = (\<lambda>p r. if ok p then (r\<lparr>r_place := Some p\<rparr>, True) else (r, False)),
      h_blind = (\<lambda>from d r. r)\<rparr>"

text \<open>
  The disk while the log is followed: a file only grows, and the log's name moves to a file that was
  not followed before (\<open>m\<close>: the offset each file was followed from).
\<close>

definition disk_grows :: "(nat \<Rightarrow> nat option) \<Rightarrow> disk \<Rightarrow> disk \<Rightarrow> bool" where
  "disk_grows m d d' \<longleftrightarrow>
     (\<forall>i. prefix (d_file d i) (d_file d' i)) \<and>
     (\<forall>j. d_log d' = Some j \<longrightarrow> d_log d = Some j \<or> m j = None)"

inductive tailing ::
  "(string \<Rightarrow> string) \<Rightarrow> (event list \<Rightarrow> string \<Rightarrow> place option) \<Rightarrow> (saved_place \<Rightarrow> bool) \<Rightarrow> event list \<Rightarrow>
   saved_place option \<Rightarrow> disk \<Rightarrow> follower \<Rightarrow> recording \<Rightarrow> (nat \<Rightarrow> nat option) \<Rightarrow> bool"
  for sha holds ok lines0 p0 where
  start: "f_old f = None \<Longrightarrow> f_pending f = [] \<Longrightarrow> f_consumed f \<le> length (d_file d (f_inode f)) \<Longrightarrow>
    d_log d = Some (f_inode f) \<Longrightarrow> t_fp (f_tracker f) = fingerprint_of sha d (f_inode f) \<Longrightarrow>
    tailing sha holds ok lines0 p0 d f \<lparr>r_lines = lines0, r_place = p0\<rparr> [f_inode f \<mapsto> f_consumed f]"
| world: "tailing sha holds ok lines0 p0 d f r m \<Longrightarrow> disk_grows m d d' \<Longrightarrow> tailing sha holds ok lines0 p0 d' f r m"
| pass: "tailing sha holds ok lines0 p0 d f r m \<Longrightarrow>
    disk_grows m d d1 \<Longrightarrow> disk_grows m d1 d2 \<Longrightarrow> disk_grows m d2 d3 \<Longrightarrow> disk_grows m d3 d4 \<Longrightarrow>
    tick sha (recorder holds ok) now d1 d2 d3 d4 f r = (f', r') \<Longrightarrow>
    tailing sha holds ok lines0 p0 d4 f' r' (if f_inode f' = f_inode f then m else m(f_inode f' \<mapsto> 0))"

lemma disk_grows_refl [simp]: "disk_grows m d d"
  by (simp add: disk_grows_def)

lemma disk_grows_trans: "disk_grows m d d' \<Longrightarrow> disk_grows m d' d'' \<Longrightarrow> disk_grows m d d''"
  unfolding disk_grows_def by (metis prefix_order.trans)

text \<open>
  File \<open>i\<close>, followed from \<open>b\<close>, has been read up to \<open>n\<close>: what was handled of it is its lines, and
  \<open>pend\<close> is the line begun. \<open>evs\<close> are the lines handled, each with its file.
\<close>

definition of_file :: "nat \<Rightarrow> (nat \<times> event) list \<Rightarrow> (nat \<times> nat \<times> string) list" where
  "of_file i evs = map (\<lambda>(_, p, a, l). (a, p_end p, l)) (filter (\<lambda>e. fst e = i) evs)"

definition read_to :: "disk \<Rightarrow> (nat \<times> event) list \<Rightarrow> nat \<Rightarrow> nat \<Rightarrow> nat \<Rightarrow> string \<Rightarrow> bool" where
  "read_to d evs i b n pend \<longleftrightarrow>
     b \<le> n \<and> n \<le> length (d_file d i) \<and>
     of_file i evs = spans b (take (n - b) (drop b (d_file d i))) \<and>
     pend = leftover (take (n - b) (drop b (d_file d i)))"

lemma of_file_append [simp]: "of_file i (xs @ ys) = of_file i xs @ of_file i ys"
  by (simp add: of_file_def)

lemma of_file_tagged: "of_file i (map (\<lambda>e. (j, event_of fp e)) xs) = (if i = j then xs else [])"
  by (auto simp: of_file_def event_of_def filter_map comp_def split_beta)

lemma record_hand: "fold (hand (recorder holds ok) now cu) es r = r\<lparr>r_lines := r_lines r @ es\<rparr>"
  by (induction es arbitrary: r) (auto simp: hand_def recorder_def)

lemma read_to_grows:
  assumes "read_to d evs i b n pend" "prefix (d_file d i) (d_file d' i)"
  shows "read_to d' evs i b n pend"
proof -
  from assms(2) obtain t where "d_file d' i = d_file d i @ t" by (auto simp: prefix_def)
  with assms(1) show ?thesis by (simp add: read_to_def)
qed

lemma read_to_other: "of_file i es = [] \<Longrightarrow> read_to d (evs @ es) i b n pend = read_to d evs i b n pend"
  by (simp add: read_to_def)

text \<open>Reading on to the end of the file.\<close>

lemma read_on:
  assumes "read_to d evs i b n pend"
  defines "w \<equiv> drop n (d_file d i)"
  shows "length pend \<le> n" and "newline \<notin> set pend"
    and "read_to d (evs @ map (\<lambda>e. (i, event_of fp e)) (spans (n - length pend) (pend @ w))) i b (n + length w) (leftover (pend @ w))"
proof -
  let ?u = "take (n - b) (drop b (d_file d i))"
  have n: "b \<le> n" "n \<le> length (d_file d i)" "of_file i evs = spans b ?u" "pend = leftover ?u" using assms(1) by (simp_all add: read_to_def)
  have lu: "length ?u = n - b" using n by simp
  then show "length pend \<le> n" using n(4) leftover_length [of ?u] by simp
  show "newline \<notin> set pend" using n(4) leftover_no_newline by simp
  have uw: "take (n + length w - b) (drop b (d_file d i)) = ?u @ w"
  proof -
    have "drop b (d_file d i) = ?u @ drop (n - b) (drop b (d_file d i))" by (simp only: append_take_drop_id)
    moreover have "drop (n - b) (drop b (d_file d i)) = w" using n(1) by (simp add: w_def)
    ultimately have "drop b (d_file d i) = ?u @ w" by metis
    moreover have "length (drop b (d_file d i)) \<le> n + length w - b" using n by (simp add: w_def)
    ultimately show ?thesis by simp
  qed
  have pos: "b + (length ?u - length pend) = n - length pend" using n lu leftover_length [of ?u] by simp
  show "read_to d (evs @ map (\<lambda>e. (i, event_of fp e)) (spans (n - length pend) (pend @ w))) i b (n + length w) (leftover (pend @ w))"
    unfolding read_to_def uw spans_append [of b ?u w] leftover_append [of ?u w] n(4) [symmetric] pos
    using n(1-3) by (simp add: of_file_tagged w_def)
qed


definition followed :: "disk \<Rightarrow> follower \<Rightarrow> (nat \<times> event) list \<Rightarrow> (nat \<Rightarrow> nat option) \<Rightarrow> bool" where
  "followed d f evs m \<longleftrightarrow>
     (\<exists>b. m (f_inode f) = Some b \<and> read_to d evs (f_inode f) b (f_consumed f) (f_pending f)) \<and>
     (\<forall>ol. f_old f = Some ol \<longrightarrow> o_inode ol \<noteq> f_inode f \<and>
        (\<exists>b. m (o_inode ol) = Some b \<and> read_to d evs (o_inode ol) b (o_consumed ol) (o_pending ol))) \<and>
     (\<forall>i b. m i = Some b \<longrightarrow> (\<exists>n pend. read_to d evs i b n pend)) \<and>
     (\<forall>i. m i = None \<longrightarrow> of_file i evs = []) \<and>
     (\<forall>j. d_log d = Some j \<longrightarrow> j = f_inode f \<or> m j = None)"

lemma followed_grows: "followed d f evs m \<Longrightarrow> disk_grows m d d' \<Longrightarrow> followed d' f evs m"
  unfolding followed_def disk_grows_def
  by (intro conjI) (meson read_to_grows, meson read_to_grows, meson read_to_grows, blast, metis)

lemma followed_read:
  assumes "followed d f evs m" "m i = Some b" "read_to d evs i b n pend"
    and new: "read_to d (evs @ es) i b n' pend'" and others: "\<And>j. j \<noteq> i \<Longrightarrow> of_file j es = []"
  shows "\<forall>k c. m k = Some c \<longrightarrow> (\<exists>n pend. read_to d (evs @ es) k c n pend)"
    "\<forall>k. m k = None \<longrightarrow> of_file k (evs @ es) = []"
proof -
  show "\<forall>k c. m k = Some c \<longrightarrow> (\<exists>n pend. read_to d (evs @ es) k c n pend)"
  proof (intro allI impI)
    fix k c assume k: "m k = Some c"
    show "\<exists>n pend. read_to d (evs @ es) k c n pend"
    proof (cases "k = i")
      case True
      with k assms(2) new show ?thesis by auto
    next
      case False
      with assms(1) k others show ?thesis unfolding followed_def by (metis read_to_other)
    qed
  qed
  show "\<forall>k. m k = None \<longrightarrow> of_file k (evs @ es) = []"
  proof (intro allI impI)
    fix k assume k: "m k = None"
    then have "k \<noteq> i" using assms(2) by auto
    with k assms(1) others show "of_file k (evs @ es) = []" by (auto simp: followed_def)
  qed
qed

lemma drain_followed:
  assumes "followed d f evs m"
  shows "\<exists>f' es. drain (recorder holds ok) now d f r = (f', r\<lparr>r_lines := r_lines r @ map snd es\<rparr>) \<and>
    followed d f' (evs @ es) m \<and> f_inode f' = f_inode f \<and> f_old f' = f_old f \<and>
    f_consumed f' = length (d_file d (f_inode f)) \<and> t_fp (f_tracker f') = t_fp (f_tracker f)"
proof -
  let ?i = "f_inode f" and ?w = "drop (f_consumed f) (d_file d (f_inode f))" and ?fp = "t_fp (f_tracker f)"
  from assms obtain b where b: "m ?i = Some b" "read_to d evs ?i b (f_consumed f) (f_pending f)" by (auto simp: followed_def)
  note r = read_on [OF b(2)]
  let ?sp = "spans (f_consumed f - length (f_pending f)) (f_pending f @ ?w)"
  let ?es = "map (\<lambda>e. (?i, event_of ?fp e)) ?sp"
  obtain tr' where tr: "drain_lines (recorder holds ok) now (\<not> f_caught_up f) ?fp ?w (f_tracker f) (f_pending f) (f_consumed f) r =
      (tr', leftover (f_pending f @ ?w), f_consumed f + length ?w,
       fold (hand (recorder holds ok) now (\<not> f_caught_up f)) (map (event_of ?fp) ?sp) r)" "t_fp tr' = ?fp"
    using drain_lines_eq [OF r(2,1), where hk = "recorder holds ok" and now = now and cu = "\<not> f_caught_up f" and fp = ?fp
      and w = ?w and tr = "f_tracker f" and s = r] by (elim exE conjE)
  let ?f = "f\<lparr>f_tracker := tr', f_pending := leftover (f_pending f @ ?w), f_consumed := f_consumed f + length ?w\<rparr>"
  have d: "drain (recorder holds ok) now d f r = (?f, r\<lparr>r_lines := r_lines r @ map snd ?es\<rparr>)"
    unfolding drain_def tr record_hand by (simp add: recorder_def comp_def)
  have oth: "of_file j ?es = []" if "j \<noteq> ?i" for j using that by (simp add: of_file_tagged)
  have len: "f_consumed f + length ?w = length (d_file d ?i)" using b(2) by (simp add: read_to_def)
  have "followed d ?f (evs @ ?es) m"
    unfolding followed_def
  proof (intro conjI)
    show "\<exists>b. m (f_inode ?f) = Some b \<and> read_to d (evs @ ?es) (f_inode ?f) b (f_consumed ?f) (f_pending ?f)"
      using b(1) r(3) [of ?fp] by simp
    show "\<forall>ol. f_old ?f = Some ol \<longrightarrow> o_inode ol \<noteq> f_inode ?f \<and>
        (\<exists>b. m (o_inode ol) = Some b \<and> read_to d (evs @ ?es) (o_inode ol) b (o_consumed ol) (o_pending ol))"
      using assms oth read_to_other unfolding followed_def by simp
    show "\<forall>i b. m i = Some b \<longrightarrow> (\<exists>n pend. read_to d (evs @ ?es) i b n pend)"
      by (rule followed_read(1) [OF assms b r(3) oth])
    show "\<forall>i. m i = None \<longrightarrow> of_file i (evs @ ?es) = []"
      by (rule followed_read(2) [OF assms b r(3) oth])
    show "\<forall>j. d_log d = Some j \<longrightarrow> j = f_inode ?f \<or> m j = None" using assms by (simp add: followed_def)
  qed
  with d len tr(2) show ?thesis by (intro exI [of _ ?f] exI [of _ ?es]) simp
qed

lemma drain_old_followed:
  assumes "followed d f evs m"
  shows "\<exists>f' es. drain_old (recorder holds ok) now timed d f r = (f', r\<lparr>r_lines := r_lines r @ map snd es\<rparr>) \<and>
    followed d f' (evs @ es) m \<and> f_inode f' = f_inode f \<and> f_consumed f' = f_consumed f \<and> f_pending f' = f_pending f \<and>
    t_fp (f_tracker f') = t_fp (f_tracker f)"
proof (cases "f_old f")
  case None
  then show ?thesis using assms by (intro exI [of _ f] exI [of _ "[]"]) (simp add: drain_old_def)
next
  case (Some ol)
  let ?i = "o_inode ol" and ?w = "drop (o_consumed ol) (d_file d (o_inode ol))" and ?fp = "o_fp ol"
  from assms Some obtain b where b: "m ?i = Some b" "read_to d evs ?i b (o_consumed ol) (o_pending ol)" and ne: "?i \<noteq> f_inode f"
    by (auto simp: followed_def)
  note r = read_on [OF b(2)]
  let ?sp = "spans (o_consumed ol - length (o_pending ol)) (o_pending ol @ ?w)"
  let ?es = "map (\<lambda>e. (?i, event_of ?fp e)) ?sp"
  obtain tr' where tr: "drain_lines (recorder holds ok) now (\<not> f_caught_up f) ?fp ?w (f_tracker f) (o_pending ol) (o_consumed ol) r =
      (tr', leftover (o_pending ol @ ?w), o_consumed ol + length ?w,
       fold (hand (recorder holds ok) now (\<not> f_caught_up f)) (map (event_of ?fp) ?sp) r)" "t_fp tr' = t_fp (f_tracker f)"
    using drain_lines_eq [OF r(2,1), where hk = "recorder holds ok" and now = now and cu = "\<not> f_caught_up f" and fp = ?fp
      and w = ?w and tr = "f_tracker f" and s = r] by (elim exE conjE)
  let ?ol = "ol\<lparr>o_pending := leftover (o_pending ol @ ?w), o_consumed := o_consumed ol + length ?w\<rparr>"
  let ?f = "f\<lparr>f_tracker := tr', f_old := if timed \<and> now > o_until ol then None else Some ?ol\<rparr>"
  have d: "drain_old (recorder holds ok) now timed d f r = (?f, r\<lparr>r_lines := r_lines r @ map snd ?es\<rparr>)"
    unfolding drain_old_def Some option.case tr record_hand by (simp add: recorder_def comp_def)
  have oth: "of_file j ?es = []" if "j \<noteq> ?i" for j using that by (simp add: of_file_tagged)
  have "followed d ?f (evs @ ?es) m"
    unfolding followed_def
  proof (intro conjI)
    show "\<exists>b. m (f_inode ?f) = Some b \<and> read_to d (evs @ ?es) (f_inode ?f) b (f_consumed ?f) (f_pending ?f)"
      using assms read_to_other [OF oth [OF ne [symmetric]]] unfolding followed_def by simp
    show "\<forall>ol'. f_old ?f = Some ol' \<longrightarrow> o_inode ol' \<noteq> f_inode ?f \<and>
        (\<exists>b. m (o_inode ol') = Some b \<and> read_to d (evs @ ?es) (o_inode ol') b (o_consumed ol') (o_pending ol'))"
      using b(1) r(3) [of ?fp] ne by auto
    show "\<forall>i b. m i = Some b \<longrightarrow> (\<exists>n pend. read_to d (evs @ ?es) i b n pend)"
      by (rule followed_read(1) [OF assms b r(3) oth])
    show "\<forall>i. m i = None \<longrightarrow> of_file i (evs @ ?es) = []"
      by (rule followed_read(2) [OF assms b r(3) oth])
    show "\<forall>j. d_log d = Some j \<longrightarrow> j = f_inode ?f \<or> m j = None" using assms by (simp add: followed_def)
  qed
  with d tr(2) show ?thesis by (intro exI [of _ ?f] exI [of _ ?es]) simp
qed

lemma see_recorder: "see (recorder holds ok) now blind b r = (b', r') \<Longrightarrow> r' = r"
  by (auto simp: see_def recorder_def Let_def split: option.splits if_splits)

lemma see_log_recorder: "\<exists>b. see_log (recorder holds ok) now blind f r = (f\<lparr>f_blind := b\<rparr>, r)"
  unfolding see_log_def using see_recorder [of holds ok now blind "f_blind f" r] by (simp split: prod.split) blast

lemma record_lines:
  "record_place sha (recorder holds ok) now d i off force tr r = (tr', r') \<Longrightarrow> r_lines r' = r_lines r"
  by (auto simp: record_place_def recorder_def Let_def split: option.splits if_splits)

text \<open>What the state is seen by: the loop's other variables do not matter.\<close>

lemma followed_cong:
  "f_inode f' = f_inode f \<Longrightarrow> f_consumed f' = f_consumed f \<Longrightarrow> f_pending f' = f_pending f \<Longrightarrow> f_old f' = f_old f \<Longrightarrow>
    followed d f' evs m = followed d f evs m"
  by (simp add: followed_def)

section \<open>The place saved\<close>

lemma spans_ends: "(s, e, l) \<in> set (spans c v) \<Longrightarrow> c < e"
proof (induction c v rule: spans.induct)
  case (1 c v)
  then show ?case by (cases "index_of newline v") (force simp: spans.simps [of c v])+
qed

lemma spans_take: "(s, e, l) \<in> set (spans a w) \<Longrightarrow> e \<le> a + k \<Longrightarrow> (s, e, l) \<in> set (spans a (take k w))"
proof (induction a w arbitrary: k rule: spans.induct)
  case (1 a w)
  from "1.prems"(1) obtain n where n: "index_of newline w = Some n"
    by (cases "index_of newline w") (simp_all add: spans.simps [of a w])
  then have nl: "n < length w" using index_of_Some by auto
  have k: "n < k"
  proof (cases "(s, e, l) \<in> set (spans (a + n + 1) (drop (n + 1) w))")
    case True
    from spans_ends [OF this] "1.prems"(2) show ?thesis by simp
  next
    case False
    with "1.prems"(1) n have "e = a + n + 1" by (simp add: spans.simps [of a w])
    with "1.prems"(2) show ?thesis by simp
  qed
  have "index_of newline (take k w @ drop k w) = Some n" using n by simp
  then have n': "index_of newline (take k w) = Some n"
    using k nl unfolding index_of_app by (cases "index_of newline (take k w)") (auto split: option.splits)
  show ?case
  proof (cases "(s, e, l) \<in> set (spans (a + n + 1) (drop (n + 1) w))")
    case True
    have "(s, e, l) \<in> set (spans (a + n + 1) (take (k - (n + 1)) (drop (n + 1) w)))"
      by (rule "1.IH" [OF n True]) (use k "1.prems"(2) in simp)
    moreover have "take (k - (n + 1)) (drop (n + 1) w) = drop (n + 1) (take k w)" by (simp only: drop_take)
    ultimately show ?thesis unfolding spans.simps [of a "take k w"] n' option.case by simp
  next
    case False
    with "1.prems"(1) n have "(s, e, l) = (a, a + n + 1, trim_right [CHR 0x0D, CHR 0x0A] (take (n + 1) w))"
      by (subst (asm) spans.simps) auto
    moreover have "take (n + 1) (take k w) = take (n + 1) w" using k by (simp add: min_absorb1)
    ultimately show ?thesis unfolding spans.simps [of a "take k w"] n' option.case by simp
  qed
qed

definition handled_below :: "disk \<Rightarrow> event list \<Rightarrow> nat \<Rightarrow> nat \<Rightarrow> nat \<Rightarrow> bool" where
  "handled_below d es i b n \<longleftrightarrow> n \<le> length (d_file d i) \<and>
     (\<forall>(s, e, l) \<in> set (spans b (drop b (d_file d i))). e \<le> n \<longrightarrow> (\<exists>fp. (\<lparr>p_fp = fp, p_end = e\<rparr>, s, l) \<in> set es))"

lemma read_handled:
  assumes "read_to d evs i b n pend" "set (map snd evs) \<subseteq> set es" "k \<le> n"
  shows "handled_below d es i b k"
  unfolding handled_below_def
proof (safe)
  show "k \<le> length (d_file d i)" using assms(1,3) by (simp add: read_to_def)
next
  fix s e l assume s: "(s, e, l) \<in> set (spans b (drop b (d_file d i)))" "e \<le> k"
  have "(s, e, l) \<in> set (spans b (take (n - b) (drop b (d_file d i))))"
    by (rule spans_take [OF s(1)]) (use s(2) assms(1,3) in \<open>simp add: read_to_def\<close>)
  then have "(s, e, l) \<in> set (of_file i evs)" using assms(1) by (simp add: read_to_def)
  then obtain p where p: "(i, p, s, l) \<in> set evs" "p_end p = e" by (fastforce simp: of_file_def)
  then have "(p, s, l) \<in> set es" using assms(2) by force
  moreover have "p = \<lparr>p_fp = p_fp p, p_end = e\<rparr>" using p(2) by simp
  ultimately show "\<exists>fp. (\<lparr>p_fp = fp, p_end = e\<rparr>, s, l) \<in> set es" by metis
qed

lemma fingerprint_grows:
  assumes "prefix (d_file d i) (d_file d' i)" "fingerprint_of sha d i \<noteq> []"
  shows "fingerprint_of sha d' i = fingerprint_of sha d i"
proof -
  from assms(1) obtain t where t: "d_file d' i = d_file d i @ t" by (auto simp: prefix_def)
  from assms(2) have "fingerprint_size \<le> length (d_file d i)" unfolding fingerprint_of_def Let_def
    by (cases "fingerprint_size \<le> length (d_file d i)") simp_all
  then show ?thesis unfolding fingerprint_of_def t by simp
qed


text \<open>The tracker's fingerprint is that of the file open, or not known yet; the place saved is behind the lines handled.\<close>

definition placed ::
  "(string \<Rightarrow> string) \<Rightarrow> saved_place option \<Rightarrow> disk \<Rightarrow> saved_place option \<Rightarrow> event list \<Rightarrow> (nat \<Rightarrow> nat option) \<Rightarrow> bool" where
  "placed sha p0 d pl es m \<longleftrightarrow>
     (\<forall>sp. pl = Some sp \<and> pl \<noteq> p0 \<and> sp_fp sp \<noteq> [] \<longrightarrow>
        (\<exists>i b. m i = Some b \<and> sp_fp sp = fingerprint_of sha d i \<and> handled_below d es i b (sp_offset sp)))"

definition well_placed ::
  "(string \<Rightarrow> string) \<Rightarrow> saved_place option \<Rightarrow> disk \<Rightarrow> follower \<Rightarrow> recording \<Rightarrow> (nat \<Rightarrow> nat option) \<Rightarrow> bool" where
  "well_placed sha p0 d f r m \<longleftrightarrow>
     t_fp (f_tracker f) \<in> {[], fingerprint_of sha d (f_inode f)} \<and> placed sha p0 d (r_place r) (r_lines r) m"

lemma handled_below_more: "handled_below d es i b n \<Longrightarrow> set es \<subseteq> set es' \<Longrightarrow> handled_below d es' i b n"
  unfolding handled_below_def by blast

lemma record_place_cases:
  assumes "record_place sha (recorder holds ok) now d i off force tr r = (tr', r')" "t_fp tr \<in> {[], fingerprint_of sha d i}"
  shows "t_fp tr' \<in> {[], fingerprint_of sha d i}"
    and "r' = r \<or> (\<exists>n fp. r' = r\<lparr>r_place := Some \<lparr>sp_fp = fp, sp_offset = n, sp_updated = stamp now\<rparr>\<rparr> \<and>
       n \<le> off \<and> fp \<in> {[], fingerprint_of sha d i})"
proof -
  define n where "n = (case holds (r_lines r) (t_fp tr) of Some p \<Rightarrow> if p_end p < off then p_end p else off | None \<Rightarrow> off)"
  have "n \<le> off" by (simp add: n_def split: option.split)
  define t1 where "t1 = (if t_fp tr = [] then tr\<lparr>t_fp := fingerprint_of sha d i\<rparr> else tr)"
  let ?p = "\<lparr>sp_fp = t_fp t1, sp_offset = n, sp_updated = stamp now\<rparr>"
  have "record_place sha (recorder holds ok) now d i off force tr r = (tr, r) \<or>
      record_place sha (recorder holds ok) now d i off force tr r =
        (if ok ?p then (t1\<lparr>t_saved := int n, t_last_save := Some now\<rparr>, r\<lparr>r_place := Some ?p\<rparr>) else (t1, r))"
    unfolding record_place_def n_def t1_def by (simp add: recorder_def Let_def)
  then have c: "tr' = tr \<and> r' = r \<or> tr' = t1 \<and> r' = r \<or>
      tr' = t1\<lparr>t_saved := int n, t_last_save := Some now\<rparr> \<and> r' = r\<lparr>r_place := Some ?p\<rparr>"
    by (cases "ok ?p") (simp_all only: assms(1) if_True if_False prod.inject simp_thms, blast+)
  have fp: "t_fp t1 \<in> {[], fingerprint_of sha d i}" using assms(2) by (auto simp: t1_def)
  show "t_fp tr' \<in> {[], fingerprint_of sha d i}" using c assms(2) fp by auto
  show "r' = r \<or> (\<exists>n fp. r' = r\<lparr>r_place := Some \<lparr>sp_fp = fp, sp_offset = n, sp_updated = stamp now\<rparr>\<rparr> \<and>
       n \<le> off \<and> fp \<in> {[], fingerprint_of sha d i})"
    using c \<open>n \<le> off\<close> fp by blast
qed

lemma handled_below_grows:
  assumes "handled_below d es i b n" "prefix (d_file d i) (d_file d' i)"
  shows "handled_below d' es i b n"
proof -
  from assms(2) obtain t where t: "d_file d' i = d_file d i @ t" by (auto simp: prefix_def)
  have n: "n \<le> length (d_file d i)" using assms(1) by (simp add: handled_below_def)
  have "(s, e, l) \<in> set (spans b (drop b (d_file d i)))" if "(s, e, l) \<in> set (spans b (drop b (d_file d' i)))" "e \<le> n" for s e l
  proof (cases "b \<le> length (d_file d i)")
    case True
    have "(s, e, l) \<in> set (spans b (take (length (d_file d i) - b) (drop b (d_file d' i))))"
      by (rule spans_take [OF that(1)]) (use that(2) n True in simp)
    with True show ?thesis by (simp add: t)
  next
    case False
    with spans_ends [OF that(1)] that(2) n show ?thesis by simp
  qed
  with assms(1) t show ?thesis unfolding handled_below_def by fastforce
qed


lemma placedD:
  "placed sha p0 d pl es m \<Longrightarrow> pl = Some sp \<Longrightarrow> pl \<noteq> p0 \<Longrightarrow> sp_fp sp \<noteq> [] \<Longrightarrow>
    \<exists>i b. m i = Some b \<and> sp_fp sp = fingerprint_of sha d i \<and> handled_below d es i b (sp_offset sp)"
  by (simp add: placed_def)

lemma placed_mono:
  assumes "placed sha p0 d pl es m" "\<And>i. prefix (d_file d i) (d_file d' i)" "set es \<subseteq> set es'"
    "\<And>i b. m i = Some b \<Longrightarrow> m' i = Some b"
  shows "placed sha p0 d' pl es' m'"
  unfolding placed_def
proof (intro allI impI, elim conjE)
  fix sp assume sp: "pl = Some sp" "pl \<noteq> p0" "sp_fp sp \<noteq> []"
  obtain i b where i: "m i = Some b" "sp_fp sp = fingerprint_of sha d i" "handled_below d es i b (sp_offset sp)"
    using placedD [OF assms(1) sp] by blast
  have "fingerprint_of sha d' i = fingerprint_of sha d i" by (rule fingerprint_grows [OF assms(2)]) (use i(2) sp(3) in simp)
  moreover have "handled_below d' es' i b (sp_offset sp)"
    by (rule handled_below_more [OF handled_below_grows [OF i(3) assms(2)] assms(3)])
  ultimately show "\<exists>i b. m' i = Some b \<and> sp_fp sp = fingerprint_of sha d' i \<and> handled_below d' es' i b (sp_offset sp)"
    using i(1,2) assms(4) by metis
qed

lemma well_placed_fresh:
  assumes "well_placed sha p0 d f r m" "m j = None" "f_inode f' = j" "t_fp (f_tracker f') = fingerprint_of sha d j"
  shows "well_placed sha p0 d f' r (m(j \<mapsto> b))"
  using placed_mono [where d = d and d' = d and m' = "m(j \<mapsto> b)"] assms unfolding well_placed_def by fastforce

lemma well_placed_mono:
  assumes "well_placed sha p0 d f r m" "disk_grows m d d'" "f_inode f' = f_inode f" "t_fp (f_tracker f') = t_fp (f_tracker f)"
    "r_place r' = r_place r" "set (r_lines r) \<subseteq> set (r_lines r')"
  shows "well_placed sha p0 d' f' r' m"
proof -
  have p: "prefix (d_file d i) (d_file d' i)" for i using assms(2) by (simp add: disk_grows_def)
  have "placed sha p0 d' (r_place r') (r_lines r') m"
    unfolding assms(5) by (rule placed_mono [OF _ p assms(6)]) (use assms(1) in \<open>simp_all add: well_placed_def\<close>)
  moreover have "t_fp (f_tracker f') \<in> {[], fingerprint_of sha d' (f_inode f')}"
    using assms(1,3,4) fingerprint_grows [OF p] by (cases "fingerprint_of sha d (f_inode f) = []") (auto simp: well_placed_def)
  ultimately show ?thesis unfolding well_placed_def by blast
qed

lemma well_placed_record:
  assumes "well_placed sha p0 d f r m" "m (f_inode f) = Some b" "handled_below d (r_lines r) (f_inode f) b off"
    "record_place sha (recorder holds ok) now d (f_inode f) off force (f_tracker f) r = (tr, r')"
    "f_inode f' = f_inode f" "f_tracker f' = tr"
  shows "well_placed sha p0 d f' r' m"
proof -
  have t: "t_fp (f_tracker f) \<in> {[], fingerprint_of sha d (f_inode f)}" using assms(1) by (simp add: well_placed_def)
  note c = record_place_cases [OF assms(4) t]
  have less: "handled_below d (r_lines r) (f_inode f) b n" if "n \<le> off" for n
    using assms(3) that unfolding handled_below_def by fastforce
  from c(2) show ?thesis
  proof (elim disjE exE conjE)
    assume "r' = r"
    with assms(1,5,6) c(1) show ?thesis by (simp add: well_placed_def)
  next
    fix n fp assume "r' = r\<lparr>r_place := Some \<lparr>sp_fp = fp, sp_offset = n, sp_updated = stamp now\<rparr>\<rparr>"
      "n \<le> off" "fp \<in> {[], fingerprint_of sha d (f_inode f)}"
    with assms(2,5,6) c(1) less show ?thesis by (auto simp: well_placed_def placed_def)
  qed
qed

lemma switch_followed:
  assumes "followed d2 f evs m" "d_log d2 = Some j" "j \<noteq> f_inode f" "disk_grows m d2 d3" "disk_grows m d3 d4"
    and "switch_file sha (recorder holds ok) now d3 d4 j f r = (f', r')"
  shows "\<exists>es. r_lines r' = r_lines r @ map snd es \<and>
    followed d4 f' (evs @ es) (if f_inode f' = f_inode f then m else m(f_inode f' \<mapsto> 0)) \<and>
    (well_placed sha p0 d2 f r m \<longrightarrow> well_placed sha p0 d4 f' r' (if f_inode f' = f_inode f then m else m(f_inode f' \<mapsto> 0)))"
proof -
  let ?hk = "recorder holds ok"
  have F3: "followed d3 f evs m" by (rule followed_grows [OF assms(1,4)])
  obtain f1 es1 where f1: "drain ?hk now d3 f r = (f1, r\<lparr>r_lines := r_lines r @ map snd es1\<rparr>)"
      "followed d3 f1 (evs @ es1) m" "f_inode f1 = f_inode f" "t_fp (f_tracker f1) = t_fp (f_tracker f)" using drain_followed [OF F3] by blast
  let ?r1 = "r\<lparr>r_lines := r_lines r @ map snd es1\<rparr>"
  obtain f2 es2 where f2: "(if f_old f1 \<noteq> None then drain_old ?hk now False d3 f1 ?r1 else (f1, ?r1)) =
        (f2, ?r1\<lparr>r_lines := r_lines ?r1 @ map snd es2\<rparr>)"
      "followed d3 f2 (evs @ es1 @ es2) m" "f_inode f2 = f_inode f" "t_fp (f_tracker f2) = t_fp (f_tracker f)"
  proof (cases "f_old f1 = None")
    case True
    with f1 show ?thesis by (intro that [of f1 "[]"]) simp_all
  next
    case False
    with drain_old_followed [OF f1(2), of holds ok now False ?r1] f1(3,4) that show ?thesis by auto
  qed
  let ?r2 = "?r1\<lparr>r_lines := r_lines ?r1 @ map snd es2\<rparr>"
  have g24: "disk_grows m d2 d4" by (rule disk_grows_trans [OF assms(4,5)])
  have W: "well_placed sha p0 d4 f2 ?r2 m" if "well_placed sha p0 d2 f r m"
    by (rule well_placed_mono [OF that g24]) (use f2(3,4) in auto)
  have F4: "followed d4 f2 (evs @ es1 @ es2) m" by (rule followed_grows [OF f2(2) assms(5)])
  let ?f3 = "f2\<lparr>f_old := None\<rparr>"
  let ?prev = "\<lparr>o_inode = f_inode ?f3, o_pending = f_pending ?f3, o_consumed = f_consumed ?f3,
                            o_fp = t_fp (f_tracker ?f3), o_until = now + rotated_grace\<rparr>"
  show ?thesis
  proof (cases "d_log d4")
    case None
    obtain b where "see_log ?hk now True ?f3 ?r2 = (?f3\<lparr>f_blind := b\<rparr>, ?r2)" using see_log_recorder by blast
    with assms(6) f1(1) f2(1) None have "f' = ?f3\<lparr>f_blind := b\<rparr>" "r' = ?r2"
      unfolding switch_file_def by (auto simp: Let_def)
    then show ?thesis using F4 f2(3) W
      by (intro exI [of _ "es1 @ es2"]) (simp add: followed_def well_placed_def)
  next
    case (Some j')
    have j': "m j' = None" "j' \<noteq> f_inode f"
    proof -
      have m: "m (f_inode f) \<noteq> None" using assms(1) by (auto simp: followed_def)
      have "d_log d2 = Some j' \<or> m j' = None" using disk_grows_trans [OF assms(4,5)] Some by (auto simp: disk_grows_def)
      then show "m j' = None" using assms(1-3) by (auto simp: followed_def)
      with m show "j' \<noteq> f_inode f" by auto
    qed
    let ?f4 = "?f3\<lparr>f_inode := j', f_pending := [], f_consumed := 0, f_old := Some ?prev\<rparr>"
    obtain b where b: "see_log ?hk now False ?f4 ?r2 = (?f4\<lparr>f_blind := b\<rparr>, ?r2)" using see_log_recorder by blast
    obtain tr r5 where a: "adopt sha ?hk now d4 j' (f_tracker (?f4\<lparr>f_blind := b\<rparr>)) ?r2 = (tr, r5)" by fastforce
    have res: "f' = ?f4\<lparr>f_blind := b, f_tracker := tr\<rparr>" "r' = r5"
      using assms(3,6) f1(1) f2(1,3) Some b a unfolding switch_file_def by (auto simp: Let_def)
    have "r_lines r' = r_lines ?r2" using a res unfolding adopt_def by (auto dest: record_lines)
    moreover have "followed d4 f' (evs @ es1 @ es2) (m(j' \<mapsto> 0))"
    proof -
      have none: "of_file j' (evs @ es1 @ es2) = []" using F4 j'(1) by (simp add: followed_def)
      have new: "read_to d4 (evs @ es1 @ es2) j' 0 0 []" unfolding read_to_def none
        by (simp add: spans.simps leftover_def)
      from F4 obtain b where "m (f_inode f2) = Some b" "read_to d4 (evs @ es1 @ es2) (f_inode f2) b (f_consumed f2) (f_pending f2)"
        by (auto simp: followed_def)
      moreover have "\<forall>k. d_log d4 = Some k \<longrightarrow> k = j'" using Some by simp
      moreover have "\<forall>i b. m i = Some b \<longrightarrow> (\<exists>n pend. read_to d4 (evs @ es1 @ es2) i b n pend)"
        "\<forall>i. m i = None \<longrightarrow> of_file i (evs @ es1 @ es2) = []" using F4 unfolding followed_def by blast+
      ultimately show ?thesis using new j'(2) f2(3) unfolding followed_def res by auto
    qed
    moreover have "well_placed sha p0 d4 f' r' (m(j' \<mapsto> 0))" if "well_placed sha p0 d2 f r m"
    proof -
      let ?tr0 = "(f_tracker ?f4)\<lparr>t_fp := fingerprint_of sha d4 j', t_saved := -1\<rparr>"
      let ?g = "f'\<lparr>f_tracker := ?tr0\<rparr>"
      have 1: "record_place sha ?hk now d4 (f_inode ?g) 0 True (f_tracker ?g) ?r2 = (tr, r')"
        using a res by (simp add: adopt_def)
      have 2: "handled_below d4 (r_lines ?r2) (f_inode ?g) 0 0" by (auto simp: handled_below_def dest: spans_ends)
      have 3: "well_placed sha p0 d4 ?g ?r2 (m(j' \<mapsto> 0))"
        by (rule well_placed_fresh [OF W [OF that] j'(1)]) (use res in simp_all)
      have 4: "(m(j' \<mapsto> 0)) (f_inode ?g) = Some 0" using res by simp
      show ?thesis by (rule well_placed_record [OF 3 4 2 1]) (use res in simp_all)
    qed
    ultimately show ?thesis using j'(2) res f2(3)
      by (intro exI [of _ "es1 @ es2"]) simp
  qed
qed

lemma tick_followed:
  assumes F: "followed d f evs m"
    and g: "disk_grows m d d1" "disk_grows m d1 d2" "disk_grows m d2 d3" "disk_grows m d3 d4"
    and t: "tick sha (recorder holds ok) now d1 d2 d3 d4 f r = (f', r')"
  shows "\<exists>es1 es2 b. r_lines r' = r_lines r @ map snd (es1 @ es2) \<and>
    followed d4 f' (evs @ es1 @ es2) (if f_inode f' = f_inode f then m else m(f_inode f' \<mapsto> 0)) \<and>
    m (f_inode f) = Some b \<and> (\<exists>pend. read_to d1 (evs @ es1) (f_inode f) b (length (d_file d1 (f_inode f))) pend) \<and>
    (set (map snd evs) \<subseteq> set (r_lines r) \<longrightarrow> well_placed sha p0 d f r m \<longrightarrow>
      well_placed sha p0 d4 f' r' (if f_inode f' = f_inode f then m else m(f_inode f' \<mapsto> 0)))"
proof -
  let ?hk = "recorder holds ok"
  have F1: "followed d1 f evs m" by (rule followed_grows [OF F g(1)])
  obtain f1 ea where f1: "drain_old ?hk now True d1 f r = (f1, r\<lparr>r_lines := r_lines r @ map snd ea\<rparr>)"
      "followed d1 f1 (evs @ ea) m" "f_inode f1 = f_inode f" "t_fp (f_tracker f1) = t_fp (f_tracker f)" using drain_old_followed [OF F1] by blast
  let ?r1 = "r\<lparr>r_lines := r_lines r @ map snd ea\<rparr>"
  obtain f2 eb where f2: "drain ?hk now d1 f1 ?r1 = (f2, ?r1\<lparr>r_lines := r_lines ?r1 @ map snd eb\<rparr>)"
      "followed d1 f2 ((evs @ ea) @ eb) m" "f_inode f2 = f_inode f" "f_consumed f2 = length (d_file d1 (f_inode f))"
      "t_fp (f_tracker f2) = t_fp (f_tracker f)"
    using drain_followed [OF f1(2)] f1(3,4) by metis
  let ?r2 = "?r1\<lparr>r_lines := r_lines ?r1 @ map snd eb\<rparr>" and ?f2 = "f2\<lparr>f_caught_up := True\<rparr>"
  have F1': "followed d1 ?f2 (evs @ ea @ eb) m" using f2(2) by (simp add: followed_def)
  from f2(2,3,4) obtain b where b: "m (f_inode f) = Some b"
      "read_to d1 (evs @ ea @ eb) (f_inode f) b (length (d_file d1 (f_inode f))) (f_pending f2)"
    by (auto simp: followed_def)
  have F2: "followed d2 ?f2 (evs @ ea @ eb) m" by (rule followed_grows [OF F1' g(2)])
  have F4: "followed d4 ?f2 (evs @ ea @ eb) m" by (rule followed_grows [OF F2 disk_grows_trans [OF g(3,4)]])
  have W2: "well_placed sha p0 d2 ?f2 ?r2 m" if "well_placed sha p0 d f r m"
    by (rule well_placed_mono [OF that disk_grows_trans [OF g(1,2)]]) (use f2(3,5) in auto)
  let ?m = "if f_inode f' = f_inode f then m else m(f_inode f' \<mapsto> 0)"
  have "\<exists>es2. r_lines r' = r_lines ?r2 @ map snd es2 \<and> followed d4 f' ((evs @ ea @ eb) @ es2) ?m \<and>
    (set (map snd evs) \<subseteq> set (r_lines r) \<longrightarrow> well_placed sha p0 d f r m \<longrightarrow> well_placed sha p0 d4 f' r' ?m)"
  proof (cases "d_log d2")
    case None
    obtain c where "see_log ?hk now True ?f2 ?r2 = (?f2\<lparr>f_blind := c\<rparr>, ?r2)" using see_log_recorder by blast
    with t f1(1) f2(1) None have "f' = ?f2\<lparr>f_blind := c\<rparr>" "r' = ?r2" unfolding tick_def by (auto simp: Let_def)
    moreover have "well_placed sha p0 d4 (?f2\<lparr>f_blind := c\<rparr>) ?r2 m" if "well_placed sha p0 d f r m"
      by (rule well_placed_mono [OF W2 [OF that] disk_grows_trans [OF g(3,4)]]) auto
    ultimately show ?thesis using F4 f2(3) by (intro exI [of _ "[]"]) (simp add: followed_def)
  next
    case (Some j)
    show ?thesis
    proof (cases "j = f_inode f")
      case True
      have "f_consumed ?f2 \<le> length (d_file d2 j)" using F2 True f2(3) by (auto simp: followed_def read_to_def)
      then have ns: "\<not> switched d2 j ?f2" using True f2(3) by (simp add: switched_def)
      obtain c where c: "see_log ?hk now False ?f2 ?r2 = (?f2\<lparr>f_blind := c\<rparr>, ?r2)" using see_log_recorder by blast
      let ?f3 = "?f2\<lparr>f_blind := c\<rparr>"
      obtain tr s4 where a: "record_place sha ?hk now d2 (f_inode ?f3) (handed_over ?f3) False (f_tracker ?f3) ?r2 = (tr, s4)" by fastforce
      have res: "f' = ?f3\<lparr>f_tracker := tr\<rparr>" "r' = s4" using t f1(1) f2(1) Some ns c a unfolding tick_def by (auto simp: Let_def)
      have "well_placed sha p0 d4 f' r' m" if sub: "set (map snd evs) \<subseteq> set (r_lines r)" and wp: "well_placed sha p0 d f r m"
      proof -
        have "read_to d2 (evs @ ea @ eb) (f_inode ?f3) b (f_consumed ?f3) (f_pending ?f3)"
          using F2 b(1) f2(3) by (auto simp: followed_def)
        then have h: "handled_below d2 (r_lines ?r2) (f_inode ?f3) b (handed_over ?f3)"
          by (rule read_handled) (use sub in \<open>auto simp: handed_over_def\<close>)
        have w3: "well_placed sha p0 d2 ?f3 ?r2 m" by (rule well_placed_mono [OF W2 [OF wp]]) auto
        have "well_placed sha p0 d2 f' r' m" unfolding res(2) by (rule well_placed_record [OF w3 _ h a]) (use b(1) f2(3) res in simp_all)
        then show ?thesis by (rule well_placed_mono [OF _ disk_grows_trans [OF g(3,4)]]) auto
      qed
      then show ?thesis using F4 f2(3) record_lines [OF a] res by (intro exI [of _ "[]"]) (simp add: followed_def)
    next
      case False
      then have sw: "switched d2 j ?f2" using f2(3) by (simp add: switched_def)
      have sws: "switch_file sha ?hk now d3 d4 j ?f2 ?r2 = (f', r')" using t f1(1) f2(1) Some sw unfolding tick_def by (simp add: Let_def)
      have j: "j \<noteq> f_inode ?f2" using False f2(3) by simp
      obtain es where e: "r_lines r' = r_lines ?r2 @ map snd es"
        "followed d4 f' ((evs @ ea @ eb) @ es) (if f_inode f' = f_inode ?f2 then m else m(f_inode f' \<mapsto> 0))"
        "well_placed sha p0 d2 ?f2 ?r2 m \<longrightarrow> well_placed sha p0 d4 f' r' (if f_inode f' = f_inode ?f2 then m else m(f_inode f' \<mapsto> 0))"
        using switch_followed [OF F2 Some j g(3,4) sws] by blast
      have inode: "f_inode ?f2 = f_inode f" using f2(3) by simp
      show ?thesis using e(1) e(2,3) [unfolded inode] W2 by (intro exI [of _ es] conjI impI) blast+
    qed
  qed
  then obtain es2 where "r_lines r' = r_lines ?r2 @ map snd es2" "followed d4 f' ((evs @ ea @ eb) @ es2) ?m"
    "set (map snd evs) \<subseteq> set (r_lines r) \<longrightarrow> well_placed sha p0 d f r m \<longrightarrow> well_placed sha p0 d4 f' r' ?m" by blast
  with b show ?thesis by (intro exI [of _ "ea @ eb"] exI [of _ es2] exI [of _ b]) auto
qed

lemma tailing_followed:
  "tailing sha holds ok lines0 p0 d f r m \<Longrightarrow> \<exists>evs. r_lines r = lines0 @ map snd evs \<and> followed d f evs m"
proof (induction rule: tailing.induct)
  case (start f d)
  have "read_to d [] (f_inode f) (f_consumed f) (f_consumed f) []"
    using start(3) by (simp add: read_to_def of_file_def spans.simps leftover_def)
  with start show ?case by (intro exI [of _ "[]"]) (auto simp: followed_def of_file_def)
next
  case (world d f r m d')
  then show ?case using followed_grows by blast
next
  case (pass d f r m d1 d2 d3 d4 now f' r')
  then obtain evs where e: "r_lines r = lines0 @ map snd evs" "followed d f evs m" by blast
  from tick_followed [OF e(2) pass(2-6)] obtain es1 es2 where
    "r_lines r' = r_lines r @ map snd (es1 @ es2)"
    "followed d4 f' (evs @ es1 @ es2) (if f_inode f' = f_inode f then m else m(f_inode f' \<mapsto> 0))" by blast
  with e show ?case by (intro exI [of _ "evs @ es1 @ es2"]) simp
qed


text \<open>
  C20. One pass hands over every complete line that the open file held and had not been read.
\<close>

theorem pass_reads_all:
  assumes "tailing sha holds ok lines0 p0 d f r m"
    and "disk_grows m d d1" "disk_grows m d1 d2" "disk_grows m d2 d3" "disk_grows m d3 d4"
    and "tick sha (recorder holds ok) now d1 d2 d3 d4 f r = (f', r')"
    and "(s, e, l) \<in> set (spans (the (m (f_inode f))) (drop (the (m (f_inode f))) (d_file d1 (f_inode f))))"
  shows "\<exists>fp. (\<lparr>p_fp = fp, p_end = e\<rparr>, s, l) \<in> set (r_lines r')"
proof -
  from tailing_followed [OF assms(1)] obtain evs where e: "r_lines r = lines0 @ map snd evs" "followed d f evs m" by blast
  from tick_followed [OF e(2) assms(2-6)] obtain es1 es2 b pend where t: "r_lines r' = r_lines r @ map snd (es1 @ es2)"
    "m (f_inode f) = Some b" "read_to d1 (evs @ es1) (f_inode f) b (length (d_file d1 (f_inode f))) pend" by blast
  have "(s, e, l) \<in> set (of_file (f_inode f) (evs @ es1))" using t(2,3) assms(7) by (simp add: read_to_def)
  then obtain p where "(f_inode f, p, s, l) \<in> set (evs @ es1)" "p_end p = e" by (fastforce simp: of_file_def)
  then have "(p, s, l) \<in> set (r_lines r')" "p = \<lparr>p_fp = p_fp p, p_end = e\<rparr>" using t(1) e(1) by (force, simp)
  then show ?thesis by metis
qed


text \<open>
  A place in the database is of a file the follower reads, and every line of that file before it has
  been handled: a restart there loses nothing.
\<close>

theorem place_never_ahead:
  assumes "tailing sha holds ok lines0 p0 d f r m" "r_place r = Some sp" "r_place r \<noteq> p0" "sp_fp sp \<noteq> []"
  shows "\<exists>i b. m i = Some b \<and> sp_fp sp = fingerprint_of sha d i \<and> handled_below d (r_lines r) i b (sp_offset sp)"
proof -
  have "\<exists>evs. r_lines r = lines0 @ map snd evs \<and> followed d f evs m \<and> well_placed sha p0 d f r m"
    using assms(1)
  proof (induction rule: tailing.induct)
    case (start f d)
    from tailing_followed [OF tailing.start [OF start]] start(5) show ?case
      by (auto simp: well_placed_def placed_def simp del: fun_upd_apply)
  next
    case (world d f r m d')
    then show ?case using followed_grows well_placed_mono [OF _ world(2) refl refl refl order_refl] by blast
  next
    case (pass d f r m d1 d2 d3 d4 now f' r')
    then obtain evs where e: "r_lines r = lines0 @ map snd evs" "followed d f evs m" "well_placed sha p0 d f r m" by blast
    have sub: "set (map snd evs) \<subseteq> set (r_lines r)" using e(1) by auto
    from tick_followed [OF e(2) pass(2-6)] sub e(3) obtain es1 es2 where
      "r_lines r' = r_lines r @ map snd (es1 @ es2)"
      "followed d4 f' (evs @ es1 @ es2) (if f_inode f' = f_inode f then m else m(f_inode f' \<mapsto> 0))"
      "well_placed sha p0 d4 f' r' (if f_inode f' = f_inode f then m else m(f_inode f' \<mapsto> 0))" by blast
    with e show ?case by (intro exI [of _ "evs @ es1 @ es2"]) simp
  qed
  with assms(2-4) show ?thesis unfolding well_placed_def by (blast dest: placedD)
qed

section \<open>Starting again\<close>

definition rotated_rest :: "string \<Rightarrow> nat \<Rightarrow> string \<Rightarrow> event list" where
  "rotated_rest fp a w = map (event_of fp) (spans a w @
     (if leftover w = [] then [] else [(a + length w - length (leftover w), a + length w, trim_right [CHR 0x0D, CHR 0x0A] (leftover w))]))"

lemma drain_rotated_eq:
  "\<exists>tr'. drain_rotated hk now fp w tr a s = (tr', fold (hand hk now True) (rotated_rest fp a w) s) \<and>
    t_fp tr' = t_fp tr \<and> t_saved tr' = t_saved tr"
proof (induction hk now fp w tr a s rule: drain_rotated.induct)
  case (1 hk now fp w tr a s)
  show ?case
  proof (cases "index_of newline w")
    case None
    then show ?thesis
      by (subst drain_rotated.simps)
        (auto simp: Let_def rotated_rest_def leftover_none spans.simps [of a w] hand_def event_of_def)
  next
    case (Some n)
    then have n: "n < length w" using index_of_Some by blast
    let ?tr = "tr\<lparr>t_line_start := a, t_line := \<lparr>p_fp = fp, p_end = a + (n + 1)\<rparr>\<rparr>"
    let ?s = "h_handle hk now True (t_line ?tr) (t_line_start ?tr) (trim_right [CHR 0x0D, CHR 0x0A] (take (n + 1) w)) s"
    have ne: "take (n + 1) w \<noteq> []" "length (take (n + 1) w) = n + 1" using n by auto
    have step: "drain_rotated hk now fp w tr a s = drain_rotated hk now fp (drop (n + 1) w) ?tr (a + (n + 1)) ?s"
      using ne by (subst drain_rotated.simps) (simp add: Some Let_def)
    have len: "a + length w = Suc (a + length w - Suc 0)" using n by simp
    have rest: "rotated_rest fp a w = event_of fp (a, a + n + 1, trim_right [CHR 0x0D, CHR 0x0A] (take (n + 1) w)) #
        rotated_rest fp (a + (n + 1)) (drop (n + 1) w)"
      using n len by (simp add: rotated_rest_def spans.simps [of a w] Some leftover_some [OF Some])
    have ih: "\<exists>tr'. drain_rotated hk now fp (drop (n + 1) w) ?tr (a + (n + 1)) ?s =
        (tr', fold (hand hk now True) (rotated_rest fp (a + (n + 1)) (drop (n + 1) w)) ?s) \<and> t_fp tr' = t_fp ?tr \<and> t_saved tr' = t_saved ?tr"
      using "1.IH" [OF refl refl refl refl refl] ne unfolding Some by simp
    then show ?thesis unfolding step rest by (auto simp: hand_def event_of_def)
  qed
qed

text \<open>
  A start with a saved place goes on exactly there when the log is still the same file; when it is
  not, it first hands over what the rotated file holds after the place, then reads the new log from
  its beginning.
\<close>

theorem start_skips_nothing:
  assumes "r_place r = Some sp" "sp_fp sp \<noteq> []" "start_follow sha (recorder holds ok) now d i r = (f, r')"
  shows "if same_log (sp_fp sp) (fingerprint_of sha d i) \<and> sp_offset sp \<le> length (d_file d i)
    then f_consumed f = sp_offset sp \<and> r' = r
    else f_consumed f = 0 \<and> r_place r' = r_place r \<and> r_lines r' = r_lines r @
      (case d_rotated d of
         None \<Rightarrow> []
       | Some j \<Rightarrow>
           if same_log (sp_fp sp) (fingerprint_of sha d j) \<and> sp_offset sp \<le> length (d_file d j)
           then rotated_rest (fingerprint_of sha d j) (sp_offset sp) (drop (sp_offset sp) (d_file d j)) else [])"
proof -
  let ?hk = "recorder holds ok"
  have load: "h_load ?hk r = (r, Some (Some sp))" using assms(1) by (simp add: recorder_def)
  show ?thesis
  proof (cases "same_log (sp_fp sp) (fingerprint_of sha d i) \<and> sp_offset sp \<le> length (d_file d i)")
    case True
    then show ?thesis using assms(2,3) load by (auto simp: start_follow_def resume_at_def read_rotated_def new_tracker_def Let_def)
  next
    case False
    let ?tr = "new_tracker\<lparr>t_fp := fingerprint_of sha d i, t_saved := 0, t_behind := True, t_prev := sp\<rparr>"
    have res: "resume_at sha ?hk d i new_tracker r = (r, ?tr, 0)" using False assms(2) load by (auto simp: resume_at_def Let_def)
    show ?thesis
    proof (cases "\<exists>j. d_rotated d = Some j \<and> same_log (sp_fp sp) (fingerprint_of sha d j) \<and> sp_offset sp \<le> length (d_file d j)")
      case True
      then obtain j where j: "d_rotated d = Some j" "same_log (sp_fp sp) (fingerprint_of sha d j)" "sp_offset sp \<le> length (d_file d j)" by blast
      obtain tr' where "drain_rotated ?hk now (fingerprint_of sha d j) (drop (sp_offset sp) (d_file d j)) (?tr\<lparr>t_behind := False\<rparr>) (sp_offset sp) r =
          (tr', fold (hand ?hk now True) (rotated_rest (fingerprint_of sha d j) (sp_offset sp) (drop (sp_offset sp) (d_file d j))) r)"
        using drain_rotated_eq [of ?hk now "fingerprint_of sha d j" "drop (sp_offset sp) (d_file d j)" "?tr\<lparr>t_behind := False\<rparr>" "sp_offset sp" r]
        by (elim exE conjE)
      with j False assms(3) res show ?thesis
        by (auto simp: start_follow_def read_rotated_def Let_def record_hand) (simp_all add: recorder_def)
    next
      case none: False
      then have "read_rotated sha ?hk now d ?tr r = (?tr\<lparr>t_behind := False\<rparr>, r, False)"
        by (auto simp: read_rotated_def Let_def split: option.split)
      with False assms(3) res none show ?thesis by (auto simp: start_follow_def split: option.split)
    qed
  qed
qed



section \<open>Places in the database\<close>

lemma last_index_app: "c \<notin> set v \<Longrightarrow> last_index c (u @ c # v) = Some (length u)"
proof -
  assume c: "c \<notin> set v"
  have none: "last_index c v = None" using c by (induction v) auto
  show ?thesis by (induction u) (simp_all add: none)
qed

theorem place_read_back:
  assumes "\<And>n. scan (show_nat n) = Some n"
  shows "parse_place scan (place_string p) = p"
proof -
  have "CHR ''@'' \<notin> set (show_nat (p_end p))" using show_nat_digits by (fastforce simp: is_digit_def)
  from last_index_app [OF this] show ?thesis using assms by (simp add: place_string_def parse_place_def)
qed

text \<open>What is held back is not passed by the place saved.\<close>

lemma record_holds:
  assumes "record_place sha hk now d i off force tr s = (tr', s')" "h_hold hk s (t_fp tr) = Some p"
    "\<And>sp s. \<exists>s'. h_save hk sp s = (s', True)"
  shows "t_saved tr' = t_saved tr \<or> (t_saved tr' \<le> int (p_end p) \<and> t_saved tr' \<le> int off)"
proof -
  have s: "snd (h_save hk sp u)" for sp u using assms(3) [of sp u] by auto
  show ?thesis using assms(1,2) s unfolding record_place_def Let_def
    by (auto split: if_splits prod.splits bool.splits option.splits)
qed

section \<open>Witnesses\<close>

text \<open>A log of one long line and the start of another, read in one pass.\<close>

definition long_line :: string where "long_line = replicate 512 CHR ''a''"

definition log_text :: string where "log_text = long_line @ CHR 0x0A # ''b''"

lemma long_line_facts [simp]: "length long_line = 512" "newline \<notin> set long_line" "CHR 0x0A \<notin> set long_line" "long_line \<noteq> []"
  "rev long_line = long_line" "dropWhile (\<lambda>c. c = CHR 0x0D \<or> c = CHR 0x0A) long_line = long_line"
  by (simp_all add: long_line_def newline_def dropWhile_eq_self_iff)

lemma log_text_facts [simp]:
  "index_of newline log_text = Some 512" "drop 513 log_text = ''b''" "length log_text = 514"
  "take 513 log_text = long_line @ [CHR 0x0A]" "take 512 log_text = long_line" "log_text \<noteq> []"
  by (simp_all add: log_text_def index_of_app index_of_None [THEN iffD2] newline_def)

definition ex_disk :: disk where
  "ex_disk = \<lparr>d_file = (\<lambda>i. if i = 7 then log_text else []), d_log = Some 7, d_rotated = None\<rparr>"

definition ex_fp :: string where "ex_fp = fingerprint_of id ex_disk 7"

lemma ex_fp_neq_Nil [simp]: "ex_fp \<noteq> []"
  by (simp add: ex_fp_def fingerprint_of_def ex_disk_def fingerprint_size_def Let_def)

definition ex_follower :: follower where
  "ex_follower = \<lparr>f_inode = 7, f_pending = [], f_consumed = 0, f_old = None,
     f_tracker = new_tracker\<lparr>t_fp := ex_fp\<rparr>, f_caught_up = False,
     f_blind = \<lparr>b_since = None, b_long = False\<rparr>\<rparr>"

abbreviation ex_hooks :: "recording hooks" where "ex_hooks \<equiv> recorder (\<lambda>_ _. None) (\<lambda>_. True)"

definition ex_place :: saved_place where "ex_place = \<lparr>sp_fp = ex_fp, sp_offset = 513, sp_updated = 0\<rparr>"

definition ex_read :: recording where
  "ex_read = \<lparr>r_lines = [(\<lparr>p_fp = ex_fp, p_end = 513\<rparr>, 0, long_line)], r_place = Some ex_place\<rparr>"

lemma ex_start: "tailing id (\<lambda>_ _. None) (\<lambda>_. True) [] None ex_disk ex_follower \<lparr>r_lines = [], r_place = None\<rparr> [7 \<mapsto> 0]"
  using tailing.start [of ex_follower ex_disk id "\<lambda>_ _. None" "\<lambda>_. True" "[]" None]
  by (simp add: ex_follower_def ex_disk_def ex_fp_def)

lemma ex_trim: "trim_right [CHR 0x0D, CHR 0x0A] (long_line @ [CHR 0x0A]) = long_line"
  by (simp add: trim_right_def)

lemma ex_drain: "drain_lines ex_hooks 0 True ex_fp log_text (f_tracker ex_follower) [] 0 \<lparr>r_lines = [], r_place = None\<rparr> =
   ((f_tracker ex_follower)\<lparr>t_line := \<lparr>p_fp = ex_fp, p_end = 513\<rparr>, t_line_start := 0\<rparr>, ''b'', 514, ex_read\<lparr>r_place := None\<rparr>)"
proof -
  have i: "index_of newline ''b'' = None" by (simp add: newline_def)
  show ?thesis
    by (subst drain_lines.simps, simp add: Let_def ex_trim, subst drain_lines.simps) (simp add: i newline_def recorder_def ex_read_def)
qed

lemma ex_tick:
  "\<exists>f. tick id ex_hooks 0 ex_disk ex_disk ex_disk ex_disk ex_follower \<lparr>r_lines = [], r_place = None\<rparr> = (f, ex_read) \<and>
     f_inode f = 7 \<and> f_consumed f = 514"
proof -
  have d: "d_file ex_disk 7 = log_text" "d_log ex_disk = Some 7" by (simp_all add: ex_disk_def)
  let ?tr = "(f_tracker ex_follower)\<lparr>t_line := \<lparr>p_fp = ex_fp, p_end = 513\<rparr>, t_line_start := 0\<rparr>"
  have f: "f_old ex_follower = None" "f_consumed ex_follower = 0" "f_pending ex_follower = []" "f_inode ex_follower = 7"
    "f_caught_up ex_follower = False" "t_fp (f_tracker ex_follower) = ex_fp" "f_blind ex_follower = \<lparr>b_since = None, b_long = False\<rparr>"
    "t_saved (f_tracker ex_follower) = 0" "t_last_save (f_tracker ex_follower) = None"
    by (simp_all add: ex_follower_def new_tracker_def)
  have dr: "drain ex_hooks 0 ex_disk ex_follower \<lparr>r_lines = [], r_place = None\<rparr> =
      (ex_follower\<lparr>f_tracker := ?tr, f_pending := ''b'', f_consumed := 514\<rparr>, ex_read\<lparr>r_place := None\<rparr>)"
    by (simp add: drain_def f d ex_drain) (simp add: recorder_def)
  show ?thesis
    by (simp add: tick_def drain_old_def f dr d see_log_def see_def switched_def handed_over_def record_place_def Let_def)
      (simp add: recorder_def ex_read_def ex_place_def stamp_def second_def f)
qed

lemma ex_run: "\<exists>f. tailing id (\<lambda>_ _. None) (\<lambda>_. True) [] None ex_disk f ex_read [7 \<mapsto> 0] \<and> f_inode f = 7 \<and> f_consumed f = 514"
proof -
  obtain f where f: "tick id ex_hooks 0 ex_disk ex_disk ex_disk ex_disk ex_follower \<lparr>r_lines = [], r_place = None\<rparr> = (f, ex_read)"
    "f_inode f = 7" "f_consumed f = 514" using ex_tick by blast
  from tailing.pass [OF ex_start disk_grows_refl disk_grows_refl disk_grows_refl disk_grows_refl f(1)] f(2,3)
  show ?thesis by (intro exI [of _ f]) (simp add: ex_follower_def)
qed


theorem pass_reads_all_witness: "\<exists>fp. (\<lparr>p_fp = fp, p_end = 513\<rparr>, 0, long_line) \<in> set (r_lines ex_read)"
proof -
  obtain f where f: "tick id ex_hooks 0 ex_disk ex_disk ex_disk ex_disk ex_follower \<lparr>r_lines = [], r_place = None\<rparr> = (f, ex_read)"
    using ex_tick by blast
  have "(0, 513, long_line) \<in> set (spans (the ([7 \<mapsto> 0] (f_inode ex_follower)))
      (drop (the ([7 \<mapsto> 0] (f_inode ex_follower))) (d_file ex_disk (f_inode ex_follower))))"
    by (simp add: ex_follower_def ex_disk_def spans.simps [of 0 log_text] ex_trim)
  from pass_reads_all [OF ex_start disk_grows_refl disk_grows_refl disk_grows_refl disk_grows_refl f this] show ?thesis .
qed

theorem place_never_ahead_witness:
  "\<exists>i b. [7 \<mapsto> 0] i = Some b \<and> sp_fp ex_place = fingerprint_of id ex_disk i \<and> handled_below ex_disk (r_lines ex_read) i b 513"
proof -
  obtain f where f: "tailing id (\<lambda>_ _. None) (\<lambda>_. True) [] None ex_disk f ex_read [7 \<mapsto> 0]" using ex_run by blast
  have "r_place ex_read = Some ex_place" "r_place ex_read \<noteq> None" "sp_fp ex_place \<noteq> []" "sp_offset ex_place = 513"
    by (simp_all add: ex_read_def ex_place_def)
  from place_never_ahead [OF f this(1,2,3)] this(4) show ?thesis by simp
qed

theorem start_skips_nothing_witness:
  "\<exists>f. start_follow id ex_hooks 5 ex_disk 7 ex_read = (f, ex_read) \<and> f_consumed f = 513"
proof -
  have p: "r_place ex_read = Some ex_place" "sp_fp ex_place \<noteq> []" "sp_offset ex_place = 513" by (simp_all add: ex_read_def ex_place_def)
  obtain f r where s: "start_follow id ex_hooks 5 ex_disk 7 ex_read = (f, r)" by fastforce
  have "same_log (sp_fp ex_place) (fingerprint_of id ex_disk 7)" "sp_offset ex_place \<le> length (d_file ex_disk 7)"
    by (simp_all add: ex_place_def ex_fp_def same_log_def) (simp add: ex_disk_def)
  with start_skips_nothing [OF p(1,2) s] p(3) s show ?thesis by auto
qed


text \<open>A scanner of decimals, for the places that are written.\<close>

definition scan_decimal :: "string \<Rightarrow> nat option" where
  "scan_decimal s = Some (foldl (\<lambda>n c. 10 * n + (byte_code c - 48)) 0 s)"

lemma scan_decimal_show: "scan_decimal (show_nat n) = Some n"
proof -
  have "foldl (\<lambda>n c. 10 * n + (byte_code c - 48)) 0 (show_nat n) = n"
  proof (induction n rule: show_nat.induct)
    case (1 n)
    then show ?case using digit_char [of n] digit_char [of "n mod 10"]
      by (cases "n < 10") (simp_all add: show_nat.simps [of n])
  qed
  then show ?thesis by (simp add: scan_decimal_def)
qed

theorem place_read_back_witness:
  "parse_place scan_decimal (place_string \<lparr>p_fp = ''ab:7'', p_end = 513\<rparr>) = \<lparr>p_fp = ''ab:7'', p_end = 513\<rparr>"
  by (rule place_read_back) (rule scan_decimal_show)

end
