(* ===== verification/Inbound_Store.thy ===== *)
theory Inbound_Store
  imports Send_Log "HOL-Library.Multiset"
begin

text \<open>
  The rest of the panel's database that the inbound relay and the log tailer write
  (\<open>internal/store\<close>: \<open>inbound.go\<close>, \<open>inboundspam.go\<close>, \<open>deliverylog.go\<close>, \<open>logtail.go\<close> and the counts of
  \<open>sendercheck.go\<close>): the inbound domains with their one transport each and their recipients, the
  inbound journal, the filter lists, the counters by day and the tailer's place. \<open>panel_store\<close> is
  the send log's store with these tables; a statement or transaction fails as the next entry of
  \<open>db_faults\<close> says. A stamp is its whole seconds; \<open>day\<close> names the day of a time in the container's
  zone. The UNIQUE and CHECK constraints of the migrations are written out.

  What the lemmas show: the journal is cut back to its cap however its two writers take turns, an
  upstream's final answer is never undone, a row takes results only while a queue file has its
  queue id, and the deletion of a domain takes its journal rows out of everybody's scope.
\<close>

section \<open>Rows and state\<close>

text \<open>An inbound domain and its row of \<open>inbound_transports\<close>, which is added and deleted with it.\<close>

record inbound_domain =
  i_id :: nat
  i_name :: string
  i_mode :: string
  i_host :: string
  i_port :: int
  i_tls :: string
  i_recipients :: "string list"
  i_created :: int

datatype decision = Accept | Reject | Tempfail | Quarantine

datatype engine = Rspamd | Postfix_policy | Selfpost

datatype upstream = Up_none | Up_queued | Up_held | Up_sent | Up_deferred | Up_bounced

record spam_row =
  sr_id :: nat
  sr_domain :: string
  sr_ip :: string
  sr_from :: string
  sr_to :: string
  sr_subject :: string
  sr_decision :: decision
  sr_engine :: engine
  sr_detail :: string
  sr_created :: int
  sr_domain_id :: "nat option"
  sr_queue_id :: string
  sr_upstream :: upstream
  sr_relay :: string
  sr_reply :: string
  sr_at :: "int option"

text \<open>\<open>InboundSpamEntry\<close>; \<open>se_at\<close> is \<open>None\<close> for the zero time.\<close>

record spam_entry =
  se_domain :: string
  se_ip :: string
  se_from :: string
  se_to :: string
  se_subject :: string
  se_decision :: decision
  se_engine :: engine
  se_detail :: string
  se_queue_id :: string
  se_upstream :: upstream
  se_at :: "int option"

record filter_entry =
  fe_id :: nat
  fe_list :: string
  fe_kind :: string
  fe_value :: string
  fe_note :: string
  fe_created :: int

record log_day =
  ld_closed :: int
  ld_missed :: int
  ld_blind :: int
  ld_stuck :: int

record check_day =
  cd_down :: int
  cd_deferred :: int
  cd_messages :: int
  cd_estimated :: bool

record tail_place =
  tp_fp :: string
  tp_offset :: nat
  tp_updated :: int

record panel_store =
  ps_mail :: mail_store
  ps_inbound :: "inbound_domain list"
  ps_next_inbound :: nat
  ps_spam :: "spam_row list"
  ps_next_spam :: nat
  ps_writes :: nat
  ps_filters :: "filter_entry list"
  ps_next_filter :: nat
  ps_log_days :: "string \<Rightarrow> log_day"
  ps_check_days :: "string \<Rightarrow> check_day"
  ps_deferred_at :: "int option"
  ps_counted_place :: string
  ps_places :: "string \<Rightarrow> tail_place option"

datatype panel_error = Entry_exists | Entry_not_found | Store_error

type_synonym 'a panel_op = "panel_store \<Rightarrow> panel_store \<times> (panel_error + 'a)"

definition set_faults :: "bool list \<Rightarrow> panel_store \<Rightarrow> panel_store" where
  "set_faults fs s = s\<lparr>ps_mail := (ps_mail s)\<lparr>ms_db := (ms_db (ps_mail s))\<lparr>db_faults := fs\<rparr>\<rparr>\<rparr>"

definition panel_step :: "'a panel_op \<Rightarrow> 'a panel_op" where
  "panel_step f s =
     (case db_faults (ms_db (ps_mail s)) of
        [] \<Rightarrow> f s
      | True # fs \<Rightarrow> (set_faults fs s, Inl Store_error)
      | False # fs \<Rightarrow> f (set_faults fs s))"

text \<open>An operation of the send log on the whole store.\<close>

definition in_mail :: "'a log_op \<Rightarrow> 'a panel_op" where
  "in_mail f s =
     (case f (ps_mail s) of
        (m, Inl e) \<Rightarrow> (s\<lparr>ps_mail := m\<rparr>, Inl Store_error)
      | (m, Inr x) \<Rightarrow> (s\<lparr>ps_mail := m\<rparr>, Inr x))"

section \<open>Inbound domains\<close>

definition recipient_modes :: "string list" where "recipient_modes = [''list'', ''any'']"

definition tls_modes :: "string list" where "tls_modes = [''may'', ''encrypt'', ''secure'', ''none'']"

definition add_inbound_domain :: "int \<Rightarrow> string \<Rightarrow> inbound_domain panel_op" where
  "add_inbound_domain now name = panel_step (\<lambda>s.
     if list_ex (\<lambda>d. i_name d = name) (ps_inbound s) then (s, Inl Entry_exists)
     else (let d = \<lparr>i_id = ps_next_inbound s, i_name = name, i_mode = ''list'', i_host = [], i_port = 25,
                    i_tls = ''may'', i_recipients = [], i_created = stamp now\<rparr>
           in (s\<lparr>ps_inbound := ps_inbound s @ [d], ps_next_inbound := ps_next_inbound s + 1\<rparr>, Inr d)))"

definition list_inbound_domains :: "inbound_domain list panel_op" where
  "list_inbound_domains = panel_step (\<lambda>s. (s, Inr (sort_key i_name (ps_inbound s))))"

text \<open>Two statements: the domain, then its recipients.\<close>

definition get_inbound_domain :: "nat \<Rightarrow> inbound_domain panel_op" where
  "get_inbound_domain i s =
     (case panel_step (\<lambda>s. case find (\<lambda>d. i_id d = i) (ps_inbound s) of
                             None \<Rightarrow> (s, Inl Entry_not_found) | Some d \<Rightarrow> (s, Inr d)) s of
        (s1, Inl e) \<Rightarrow> (s1, Inl e)
      | (s1, Inr d) \<Rightarrow> panel_step (\<lambda>s. (s, Inr (d\<lparr>i_recipients := sort (i_recipients d)\<rparr>))) s1)"

definition update_domain :: "nat \<Rightarrow> (inbound_domain \<Rightarrow> inbound_domain) \<Rightarrow> panel_store \<Rightarrow> panel_store" where
  "update_domain i f s = s\<lparr>ps_inbound := map (\<lambda>d. if i_id d = i then f d else d) (ps_inbound s)\<rparr>"

definition known_domain :: "nat \<Rightarrow> panel_store \<Rightarrow> bool" where
  "known_domain i s \<longleftrightarrow> list_ex (\<lambda>d. i_id d = i) (ps_inbound s)"

definition update_inbound_transport :: "nat \<Rightarrow> string \<Rightarrow> int \<Rightarrow> string \<Rightarrow> unit panel_op" where
  "update_inbound_transport i host port tls = panel_step (\<lambda>s.
     if \<not> known_domain i s then (s, Inl Entry_not_found)
     else if \<not> (1 \<le> port \<and> port \<le> 65535 \<and> tls \<in> set tls_modes) then (s, Inl Store_error)
     else (update_domain i (\<lambda>d. d\<lparr>i_host := host, i_port := port, i_tls := tls\<rparr>) s, Inr ()))"

definition update_inbound_recipients :: "nat \<Rightarrow> string \<Rightarrow> string list \<Rightarrow> unit panel_op" where
  "update_inbound_recipients i mode addrs = panel_step (\<lambda>s.
     if known_domain i s \<and> mode \<notin> set recipient_modes then (s, Inl Store_error)
     else if \<not> known_domain i s then (s, Inl Entry_not_found)
     else if mode = ''list'' \<and> \<not> distinct addrs then (s, Inl Store_error)
     else (update_domain i (\<lambda>d. d\<lparr>i_mode := mode, i_recipients := if mode = ''list'' then addrs else []\<rparr>) s, Inr ()))"

text \<open>The journal rows of the domain lose its id (ON DELETE SET NULL).\<close>

definition delete_inbound_domain :: "nat \<Rightarrow> unit panel_op" where
  "delete_inbound_domain i = panel_step (\<lambda>s.
     if \<not> known_domain i s then (s, Inl Entry_not_found)
     else (s\<lparr>ps_inbound := filter (\<lambda>d. i_id d \<noteq> i) (ps_inbound s),
             ps_spam := map (\<lambda>r. if sr_domain_id r = Some i then r\<lparr>sr_domain_id := None\<rparr> else r) (ps_spam s)\<rparr>, Inr ()))"

definition is_inbound_domain :: "(string \<Rightarrow> string) \<Rightarrow> string \<Rightarrow> bool panel_op" where
  "is_inbound_domain ul name = panel_step (\<lambda>s.
     (s, Inr (list_ex (\<lambda>d. i_name d = to_lower ul name) (ps_inbound s))))"

section \<open>The inbound journal\<close>

definition inbound_cap_rows :: nat where "inbound_cap_rows = 10000"

definition inbound_cap_every :: nat where "inbound_cap_every = 500"

definition upstream_reply_max :: nat where "upstream_reply_max = 255"

definition spam_row_of :: "int \<Rightarrow> panel_store \<Rightarrow> spam_entry \<Rightarrow> nat \<Rightarrow> spam_row" where
  "spam_row_of now s e n =
     \<lparr>sr_id = n, sr_domain = se_domain e, sr_ip = se_ip e, sr_from = se_from e, sr_to = se_to e,
      sr_subject = se_subject e, sr_decision = se_decision e, sr_engine = se_engine e, sr_detail = se_detail e,
      sr_created = (case se_at e of None \<Rightarrow> stamp now | Some t \<Rightarrow> t),
      sr_domain_id = map_option i_id (find (\<lambda>d. i_name d = se_domain e) (ps_inbound s)),
      sr_queue_id = se_queue_id e, sr_upstream = se_upstream e, sr_relay = [], sr_reply = [], sr_at = None\<rparr>"

definition append_spam :: "int \<Rightarrow> spam_entry \<Rightarrow> panel_store \<Rightarrow> panel_store" where
  "append_spam now e s = s\<lparr>ps_spam := ps_spam s @ [spam_row_of now s e (ps_next_spam s)], ps_next_spam := ps_next_spam s + 1\<rparr>"

text \<open>\<open>PruneInboundSpam\<close>: by age (no \<open>cutoff\<close> for the zero time), then the oldest beyond \<open>keep\<close>.\<close>

definition newest_first :: "spam_row list \<Rightarrow> spam_row list" where
  "newest_first rs = rev (sort_key (\<lambda>r. (sr_created r, sr_id r)) rs)"

definition prune_inbound_spam :: "int option \<Rightarrow> nat \<Rightarrow> nat panel_op" where
  "prune_inbound_spam cutoff keep s =
     (case panel_step (\<lambda>s. (s\<lparr>ps_spam := (case cutoff of None \<Rightarrow> ps_spam s
                              | Some c \<Rightarrow> filter (\<lambda>r. \<not> sr_created r < c) (ps_spam s))\<rparr>, Inr (length (ps_spam s)))) s of
        (s1, Inl e) \<Rightarrow> (s1, Inl e)
      | (s1, Inr n) \<Rightarrow> panel_step (\<lambda>s.
          (let gone = set (map sr_id (drop keep (newest_first (ps_spam s))));
               rows = filter (\<lambda>r. sr_id r \<notin> gone) (ps_spam s)
           in (s\<lparr>ps_spam := rows\<rparr>, Inr (n - length rows)))) s1)"

definition count_inbound_writes :: "nat \<Rightarrow> unit panel_op" where
  "count_inbound_writes n s =
     (if n = 0 then (s, Inr ())
      else (let s1 = s\<lparr>ps_writes := ps_writes s + n\<rparr>
            in if ps_writes s1 < inbound_cap_every then (s1, Inr ())
               else (case prune_inbound_spam None inbound_cap_rows (s1\<lparr>ps_writes := 0\<rparr>) of
                       (s2, Inl e) \<Rightarrow> (s2, Inl e)
                     | (s2, Inr _) \<Rightarrow> (s2, Inr ()))))"

definition insert_inbound_spam_message :: "int \<Rightarrow> spam_entry \<Rightarrow> (string \<times> string) list \<Rightarrow> unit panel_op" where
  "insert_inbound_spam_message now e rcpts s =
     (if rcpts = [] then (s, Inr ())
      else (case panel_step (\<lambda>s. (fold (\<lambda>(d, to). append_spam now (e\<lparr>se_domain := d, se_to := to\<rparr>)) rcpts s, Inr ())) s of
              (s1, Inl err) \<Rightarrow> (s1, Inl err)
            | (s1, Inr _) \<Rightarrow> count_inbound_writes (length rcpts) s1))"

definition insert_inbound_spam :: "int \<Rightarrow> spam_entry \<Rightarrow> unit panel_op" where
  "insert_inbound_spam now e s =
     (case panel_step (\<lambda>s. (append_spam now e s, Inr ())) s of
        (s1, Inl err) \<Rightarrow> (s1, Inl err)
      | (s1, Inr _) \<Rightarrow> count_inbound_writes 1 s1)"

definition same_row :: "int \<Rightarrow> spam_entry \<Rightarrow> spam_row \<Rightarrow> bool" where
  "same_row t e r \<longleftrightarrow>
     sr_created r = t \<and> sr_ip r = se_ip e \<and> sr_from r = se_from e \<and> sr_to r = se_to e \<and>
     sr_decision r = se_decision e \<and> sr_engine r = se_engine e \<and> sr_detail r = se_detail e"

text \<open>The row has no queue id and no result: the statement leaves those columns out. The zero time is year 1.\<close>

definition zero_time :: int where "zero_time = - 62135596800"

definition insert_inbound_spam_once :: "int \<Rightarrow> spam_entry \<Rightarrow> bool panel_op" where
  "insert_inbound_spam_once now e s =
     (let t = (case se_at e of None \<Rightarrow> zero_time | Some t \<Rightarrow> t)
      in case panel_step (\<lambda>s.
             if list_ex (same_row t e) (ps_spam s) then (s, Inr False)
             else (append_spam now (e\<lparr>se_queue_id := [], se_upstream := Up_none, se_at := Some t\<rparr>) s, Inr True)) s of
        (s1, Inl err) \<Rightarrow> (s1, Inl err)
      | (s1, Inr False) \<Rightarrow> (s1, Inr False)
      | (s1, Inr True) \<Rightarrow> (case count_inbound_writes 1 s1 of
           (s2, Inl err) \<Rightarrow> (s2, Inl err) | (s2, Inr _) \<Rightarrow> (s2, Inr True)))"

definition update_spam :: "(spam_row \<Rightarrow> bool) \<Rightarrow> (spam_row \<Rightarrow> spam_row) \<Rightarrow> nat panel_op" where
  "update_spam p f = panel_step (\<lambda>s.
     (s\<lparr>ps_spam := map (\<lambda>r. if p r then f r else r) (ps_spam s)\<rparr>, Inr (length (filter p (ps_spam s)))))"

definition undecided :: "spam_row \<Rightarrow> bool" where
  "undecided r \<longleftrightarrow> sr_upstream r \<in> {Up_queued, Up_held, Up_deferred}"

definition forget_inbound_queue_id :: "string \<Rightarrow> nat panel_op" where
  "forget_inbound_queue_id q =
     update_spam (\<lambda>r. sr_queue_id r = q \<and> sr_queue_id r \<noteq> [])
       (\<lambda>r. r\<lparr>sr_queue_id := [], sr_upstream := if undecided r then Up_none else sr_upstream r\<rparr>)"

definition update_inbound_upstream :: "string \<Rightarrow> string \<Rightarrow> upstream \<Rightarrow> string \<Rightarrow> string \<Rightarrow> int \<Rightarrow> nat panel_op" where
  "update_inbound_upstream q to st relay reply when =
     update_spam (\<lambda>r. sr_queue_id r = q \<and> sr_queue_id r \<noteq> [] \<and> same_recipient (sr_to r) to \<and> undecided r)
       (\<lambda>r. r\<lparr>sr_upstream := st, sr_relay := relay, sr_reply := reply, sr_at := Some when\<rparr>)"

text \<open>The reply kept is ASCII (\<open>printable\<close> of the tailer), so its characters are its bytes.\<close>

definition expired_reply :: "string \<Rightarrow> string" where
  "expired_reply reply =
     take upstream_reply_max (if reply = [] then ''expired in the queue'' else ''expired in the queue; last reply: '' @ reply)"

definition expire_inbound_upstream :: "string \<Rightarrow> int \<Rightarrow> nat panel_op" where
  "expire_inbound_upstream q when =
     update_spam (\<lambda>r. sr_queue_id r = q \<and> sr_queue_id r \<noteq> [] \<and> undecided r)
       (\<lambda>r. r\<lparr>sr_upstream := Up_bounced, sr_at := Some when, sr_reply := expired_reply (sr_reply r)\<rparr>)"

text \<open>
  \<open>InboundSpamFilter\<close>: \<open>sf_ids\<close> is the scope, \<open>None\<close> for the global role; \<open>sf_since\<close> and \<open>sf_until\<close> are
  the midnights the days stand for.
\<close>

record spam_filter =
  sf_domain :: string
  sf_decision :: "decision option"
  sf_since :: "int option"
  sf_until :: "int option"
  sf_ids :: "nat list option"

definition inbound_spam_where :: "spam_filter \<Rightarrow> spam_row \<Rightarrow> bool" where
  "inbound_spam_where f r \<longleftrightarrow>
     (case sf_ids f of None \<Rightarrow> True
      | Some ids \<Rightarrow> (case sr_domain_id r of None \<Rightarrow> False | Some i \<Rightarrow> i \<in> set ids)) \<and>
     (sf_domain f = [] \<or> sr_domain r = sf_domain f) \<and>
     (case sf_decision f of None \<Rightarrow> True | Some d \<Rightarrow> sr_decision r = d) \<and>
     (case sf_since f of None \<Rightarrow> True | Some t \<Rightarrow> sr_created r \<ge> t) \<and>
     (case sf_until f of None \<Rightarrow> True | Some t \<Rightarrow> sr_created r < t)"

definition query_inbound_spam :: "spam_filter \<Rightarrow> nat \<Rightarrow> nat \<Rightarrow> spam_row list panel_op" where
  "query_inbound_spam f limit offset = panel_step (\<lambda>s.
     (s, Inr (take limit (drop offset (newest_first (filter (inbound_spam_where f) (ps_spam s)))))))"

definition count_inbound_spam :: "spam_filter \<Rightarrow> nat panel_op" where
  "count_inbound_spam f = panel_step (\<lambda>s. (s, Inr (length (filter (inbound_spam_where f) (ps_spam s)))))"

section \<open>Filter lists\<close>

definition list_kinds :: "string list" where "list_kinds = [''address'', ''domain'', ''ip'']"

definition filter_lists :: "string list" where "filter_lists = [''allow'', ''deny'']"

definition same_entry :: "string \<Rightarrow> string \<Rightarrow> string \<Rightarrow> filter_entry \<Rightarrow> bool" where
  "same_entry ls kind v e \<longleftrightarrow> fe_list e = ls \<and> fe_kind e = kind \<and> fe_value e = v"

definition add_spam_list_entry :: "int \<Rightarrow> string \<Rightarrow> string \<Rightarrow> string \<Rightarrow> string \<Rightarrow> filter_entry panel_op" where
  "add_spam_list_entry now ls kind v note = panel_step (\<lambda>s.
     if ls \<notin> set filter_lists \<or> kind \<notin> set list_kinds then (s, Inl Store_error)
     else if list_ex (same_entry ls kind v) (ps_filters s) then (s, Inl Entry_exists)
     else (let e = \<lparr>fe_id = ps_next_filter s, fe_list = ls, fe_kind = kind, fe_value = v, fe_note = note, fe_created = stamp now\<rparr>
           in (s\<lparr>ps_filters := ps_filters s @ [e], ps_next_filter := ps_next_filter s + 1\<rparr>, Inr e)))"

definition list_spam_list_entries :: "filter_entry list panel_op" where
  "list_spam_list_entries = panel_step (\<lambda>s. (s, Inr (sort_key (\<lambda>e. (fe_list e, fe_kind e, fe_value e)) (ps_filters s))))"

definition delete_spam_list_entry :: "nat \<Rightarrow> unit panel_op" where
  "delete_spam_list_entry i = panel_step (\<lambda>s.
     if list_ex (\<lambda>e. fe_id e = i) (ps_filters s) then (s\<lparr>ps_filters := filter (\<lambda>e. fe_id e \<noteq> i) (ps_filters s)\<rparr>, Inr ())
     else (s, Inl Entry_not_found))"

text \<open>AUTOINCREMENT goes on after the largest id ever used.\<close>

definition restore_spam_list_entry :: "filter_entry \<Rightarrow> unit panel_op" where
  "restore_spam_list_entry e = panel_step (\<lambda>s.
     if list_ex (\<lambda>x. fe_id x = fe_id e \<or> same_entry (fe_list e) (fe_kind e) (fe_value e) x) (ps_filters s) \<or>
        fe_list e \<notin> set filter_lists \<or> fe_kind e \<notin> set list_kinds then (s, Inl Store_error)
     else (s\<lparr>ps_filters := ps_filters s @ [e], ps_next_filter := max (ps_next_filter s) (fe_id e + 1)\<rparr>, Inr ()))"

text \<open>\<open>instr(detail, mark) > 0\<close>.\<close>

fun contains_text :: "string \<Rightarrow> string \<Rightarrow> bool" where
  "contains_text mark [] \<longleftrightarrow> mark = []"
| "contains_text mark (c # s) \<longleftrightarrow> has_prefix mark (c # s) \<or> contains_text mark s"

definition list_spam_list_hits :: "string list \<Rightarrow> spam_row list panel_op" where
  "list_spam_list_hits marks s =
     (if marks = [] then (s, Inr [])
      else panel_step (\<lambda>s. (s, Inr (filter (\<lambda>r. sr_engine r = Rspamd \<and> list_ex (\<lambda>m. contains_text m (sr_detail r)) marks) (ps_spam s)))) s)"

section \<open>Counters by day\<close>

text \<open>\<open>addDeliveryLogDay\<close> of the three counters.\<close>

definition add_log_day :: "string \<Rightarrow> (log_day \<Rightarrow> log_day) \<Rightarrow> int \<Rightarrow> unit panel_op" where
  "add_log_day d f n s =
     (if n \<le> 0 then (s, Inr ())
      else panel_step (\<lambda>s. (s\<lparr>ps_log_days := (ps_log_days s)(d := f (ps_log_days s d))\<rparr>, Inr ())) s)"

definition add_reconcile_closed :: "string \<Rightarrow> int \<Rightarrow> unit panel_op" where
  "add_reconcile_closed d n = add_log_day d (\<lambda>x. x\<lparr>ld_closed := ld_closed x + n\<rparr>) n"

definition add_reconcile_missed :: "string \<Rightarrow> int \<Rightarrow> unit panel_op" where
  "add_reconcile_missed d n = add_log_day d (\<lambda>x. x\<lparr>ld_missed := ld_missed x + n\<rparr>) n"

definition add_tailer_blind :: "(int \<Rightarrow> string) \<Rightarrow> int \<Rightarrow> int \<Rightarrow> unit panel_op" where
  "add_tailer_blind day from d = add_log_day (day from) (\<lambda>x. x\<lparr>ld_blind := ld_blind x + d div second\<rparr>) (d div second)"

definition set_queued_over_lifetime :: "string \<Rightarrow> int \<Rightarrow> unit panel_op" where
  "set_queued_over_lifetime d n = panel_step (\<lambda>s.
     (s\<lparr>ps_log_days := (ps_log_days s)(d := (ps_log_days s d)\<lparr>ld_stuck := n\<rparr>)\<rparr>, Inr ()))"

definition count_open_older_than :: "int \<Rightarrow> nat panel_op" where
  "count_open_older_than cutoff = panel_step (\<lambda>s.
     (s, Inr (count_rows (\<lambda>r. row_open r \<and> lr_created r < cutoff) (ps_mail s))))"

text \<open>
  \<open>AddSenderCheckDown\<close>, \<open>AddSenderCheckDeferred\<close>: one transaction with the place; the moment is kept in
  microseconds.
\<close>

definition add_sender_check_down :: "string \<Rightarrow> int \<Rightarrow> bool \<Rightarrow> unit panel_op" where
  "add_sender_check_down d dur estimated s =
     (if dur div second \<le> 0 then (s, Inr ())
      else panel_step (\<lambda>s. (s\<lparr>ps_check_days := (ps_check_days s)(d := (ps_check_days s d)
             \<lparr>cd_down := cd_down (ps_check_days s d) + dur div second,
              cd_estimated := cd_estimated (ps_check_days s d) \<or> estimated\<rparr>)\<rparr>, Inr ())) s)"

definition add_sender_check_deferred :: "string \<Rightarrow> int \<Rightarrow> int \<Rightarrow> string \<Rightarrow> bool \<Rightarrow> unit panel_op" where
  "add_sender_check_deferred d when n pl message s =
     (if n \<le> 0 then (s, Inr ())
      else panel_step (\<lambda>s.
        (s\<lparr>ps_check_days := (ps_check_days s)(d :=
              (if message then (ps_check_days s d)\<lparr>cd_messages := cd_messages (ps_check_days s d) + n\<rparr>
               else (ps_check_days s d)\<lparr>cd_deferred := cd_deferred (ps_check_days s d) + n\<rparr>)),
            ps_deferred_at := (case ps_deferred_at s of None \<Rightarrow> Some (when div 1000)
              | Some t \<Rightarrow> Some (if when div 1000 > t then when div 1000 else t)),
            ps_counted_place := (if pl \<noteq> [] then pl else ps_counted_place s)\<rparr>, Inr ())) s)"

definition sender_check_counted_place :: "string panel_op" where
  "sender_check_counted_place = panel_step (\<lambda>s. (s, Inr (ps_counted_place s)))"

definition sender_check_deferred_at :: "int option panel_op" where
  "sender_check_deferred_at = panel_step (\<lambda>s. (s, Inr (ps_deferred_at s)))"

section \<open>The tailer's place\<close>

definition logtail_state :: "string \<Rightarrow> tail_place option panel_op" where
  "logtail_state path = panel_step (\<lambda>s. (s, Inr (ps_places s path)))"

definition save_logtail_state :: "int \<Rightarrow> string \<Rightarrow> string \<Rightarrow> nat \<Rightarrow> unit panel_op" where
  "save_logtail_state now path fp offset = panel_step (\<lambda>s.
     (s\<lparr>ps_places := (ps_places s)(path := Some \<lparr>tp_fp = fp, tp_offset = offset, tp_updated = stamp now\<rparr>)\<rparr>, Inr ()))"

section \<open>What becomes of a journal row\<close>

definition final :: "upstream \<Rightarrow> bool" where
  "final u \<longleftrightarrow> u = Up_sent \<or> u = Up_bounced"

text \<open>A row later on: what was written of the message stays, and so does a final answer.\<close>

definition row_becomes :: "spam_row \<Rightarrow> spam_row \<Rightarrow> bool" where
  "row_becomes r r' \<longleftrightarrow>
     sr_id r' = sr_id r \<and> sr_domain r' = sr_domain r \<and> sr_ip r' = sr_ip r \<and> sr_from r' = sr_from r \<and> sr_to r' = sr_to r \<and>
     sr_decision r' = sr_decision r \<and> sr_engine r' = sr_engine r \<and> sr_created r' = sr_created r \<and>
     (sr_domain_id r' = sr_domain_id r \<or> sr_domain_id r' = None) \<and>
     (sr_queue_id r' = sr_queue_id r \<or> sr_queue_id r' = []) \<and>
     (final (sr_upstream r) \<longrightarrow> sr_upstream r' = sr_upstream r \<and> sr_relay r' = sr_relay r \<and> sr_reply r' = sr_reply r)"

lemma row_becomes_refl [simp]: "row_becomes r r"
  by (simp add: row_becomes_def)

lemma row_becomes_trans: "row_becomes r r' \<Longrightarrow> row_becomes r' r'' \<Longrightarrow> row_becomes r r''"
  unfolding row_becomes_def by (elim conjE) (intro conjI; (simp; fail)?; auto)

definition spam_wf :: "panel_store \<Rightarrow> bool" where
  "spam_wf s \<longleftrightarrow> distinct (map sr_id (ps_spam s)) \<and> (\<forall>r \<in> set (ps_spam s). sr_id r < ps_next_spam s)"

definition journal_step :: "panel_store \<Rightarrow> panel_store \<Rightarrow> bool" where
  "journal_step s s' \<longleftrightarrow>
     (spam_wf s \<longrightarrow> spam_wf s') \<and> ps_next_spam s \<le> ps_next_spam s' \<and>
     (\<forall>r' \<in> set (ps_spam s'). (\<exists>r \<in> set (ps_spam s). row_becomes r r') \<or> ps_next_spam s \<le> sr_id r')"

lemma journal_step_refl [simp]: "journal_step s s"
  by (auto simp: journal_step_def intro: row_becomes_refl)

lemma journal_step_trans: "journal_step s s' \<Longrightarrow> journal_step s' s'' \<Longrightarrow> journal_step s s''"
proof -
  assume a: "journal_step s s'" "journal_step s' s''"
  have "(\<exists>r \<in> set (ps_spam s). row_becomes r r'') \<or> ps_next_spam s \<le> sr_id r''" if r: "r'' \<in> set (ps_spam s'')" for r''
  proof -
    from a(2) r consider r' where "r' \<in> set (ps_spam s')" "row_becomes r' r''" | "ps_next_spam s' \<le> sr_id r''"
      by (auto simp: journal_step_def)
    then show ?thesis
    proof cases
      case 1
      with a(1) have "(\<exists>r \<in> set (ps_spam s). row_becomes r r') \<or> ps_next_spam s \<le> sr_id r'" by (auto simp: journal_step_def)
      with 1 show ?thesis by (metis row_becomes_trans row_becomes_def)
    next
      case 2
      with a(1) show ?thesis by (auto simp: journal_step_def)
    qed
  qed
  with a show ?thesis by (auto simp: journal_step_def)
qed

lemma journal_step_same: "ps_spam s' = ps_spam s \<Longrightarrow> ps_next_spam s' = ps_next_spam s \<Longrightarrow> journal_step s s'"
  by (auto simp: journal_step_def spam_wf_def intro: row_becomes_refl)

lemma journal_step_filter: "ps_spam s' = filter P (ps_spam s) \<Longrightarrow> ps_next_spam s' = ps_next_spam s \<Longrightarrow> journal_step s s'"
  by (auto simp: journal_step_def spam_wf_def distinct_map_filter intro: row_becomes_refl)

lemma journal_step_map:
  assumes "ps_spam s' = map f (ps_spam s)" "ps_next_spam s' = ps_next_spam s" "\<And>r. row_becomes r (f r)"
  shows "journal_step s s'"
proof -
  have i: "sr_id (f r) = sr_id r" for r using assms(3) by (simp add: row_becomes_def)
  show ?thesis using assms(1-3) by (auto simp: journal_step_def spam_wf_def comp_def i)
qed

lemma journal_step_append: "journal_step s (append_spam now e s)"
  by (auto simp: journal_step_def append_spam_def spam_wf_def spam_row_of_def intro: row_becomes_refl)

lemma panel_step_keeps:
  assumes "\<And>s. journal_step s (fst (f s))"
  shows "journal_step s (fst (panel_step f s))"
proof -
  have sf: "journal_step s (set_faults fs s)" for fs by (rule journal_step_same) (simp_all add: set_faults_def)
  show ?thesis
    using sf assms journal_step_trans [OF sf assms] by (auto simp: panel_step_def split: list.split bool.split)
qed

lemma prune_keeps: "journal_step s (fst (prune_inbound_spam c k s))"
proof -
  let ?f = "\<lambda>s. (s\<lparr>ps_spam := (case c of None \<Rightarrow> ps_spam s | Some c \<Rightarrow> filter (\<lambda>r. \<not> sr_created r < c) (ps_spam s))\<rparr>, Inr (length (ps_spam s)))
    :: panel_store \<times> (panel_error + nat)"
  have 1: "journal_step s (fst (panel_step ?f s))" for s
    by (rule panel_step_keeps) (cases c; auto intro: journal_step_filter journal_step_same)
  show ?thesis
  proof (cases "panel_step ?f s")
    case (Pair s1 x)
    have 2: "journal_step s1 (fst (panel_step (\<lambda>s. let gone = set (map sr_id (drop k (newest_first (ps_spam s))));
               rows = filter (\<lambda>r. sr_id r \<notin> gone) (ps_spam s) in (s\<lparr>ps_spam := rows\<rparr>, Inr (n - length rows))) s1))" for n
      by (rule panel_step_keeps) (auto simp: Let_def intro!: journal_step_filter)
    show ?thesis using 1 [of s] 2 journal_step_trans unfolding prune_inbound_spam_def Pair
      by (cases x) auto
  qed
qed

lemma count_writes_keeps: "journal_step s (fst (count_inbound_writes n s))"
proof -
  have a: "journal_step s (s\<lparr>ps_writes := x\<rparr>)" for x by (rule journal_step_same) simp_all
  show ?thesis
    using a journal_step_trans [OF a prune_keeps]
    by (auto simp: count_inbound_writes_def Let_def split: prod.split sum.split) (metis fst_conv)+
qed

text \<open>What the journal's writers, the tailer and the panel do to it, in any order.\<close>

datatype journal_op =
    Write_message int spam_entry "(string \<times> string) list"
  | Write_line int spam_entry
  | Write_once int spam_entry
  | Forget string
  | Answer string string upstream string string int
  | Expire string int
  | Prune "int option" nat
  | Delete_domain nat

fun journal_act :: "journal_op \<Rightarrow> panel_store \<Rightarrow> panel_store" where
  "journal_act (Write_message now e rs) s = fst (insert_inbound_spam_message now e rs s)"
| "journal_act (Write_line now e) s = fst (insert_inbound_spam now e s)"
| "journal_act (Write_once now e) s = fst (insert_inbound_spam_once now e s)"
| "journal_act (Forget q) s = fst (forget_inbound_queue_id q s)"
| "journal_act (Answer q to st relay reply when) s = fst (update_inbound_upstream q to st relay reply when s)"
| "journal_act (Expire q when) s = fst (expire_inbound_upstream q when s)"
| "journal_act (Prune c k) s = fst (prune_inbound_spam c k s)"
| "journal_act (Delete_domain i) s = fst (delete_inbound_domain i s)"

lemma then_count:
  assumes "\<And>s. journal_step s (fst (f s))"
  shows "journal_step s (fst (case f s of (s1, Inl e) \<Rightarrow> (s1, Inl e) | (s1, Inr _) \<Rightarrow> count_inbound_writes n s1))"
  using assms [of s] journal_step_trans [OF assms count_writes_keeps] by (auto split: prod.split sum.split) (metis fst_conv)

lemma fold_append_keeps: "journal_step s (fold (\<lambda>(d, to). append_spam now (g d to)) rs s)"
proof (induction rs arbitrary: s)
  case (Cons x rs)
  show ?case using journal_step_trans [OF journal_step_append Cons.IH] by (cases x) simp
qed simp

lemma update_spam_keeps: "(\<And>r. P r \<Longrightarrow> row_becomes r (f r)) \<Longrightarrow> journal_step s (fst (update_spam P f s))"
  unfolding update_spam_def by (rule panel_step_keeps) (auto intro!: journal_step_map [where f = "\<lambda>r. if P r then f r else r"])

lemma journal_act_keeps: "journal_step s (journal_act a s)"
proof (cases a)
  case (Write_message now e rs)
  have "journal_step s (fst (panel_step (\<lambda>s. (fold (\<lambda>(d, to). append_spam now (e\<lparr>se_domain := d, se_to := to\<rparr>)) rs s, Inr ())) s))" for s
    by (rule panel_step_keeps) (simp add: fold_append_keeps)
  from then_count [OF this] show ?thesis by (simp add: Write_message insert_inbound_spam_message_def)
next
  case (Write_line now e)
  have "journal_step s (fst (panel_step (\<lambda>s. (append_spam now e s, Inr ())) s))" for s
    by (rule panel_step_keeps) (simp add: journal_step_append)
  from then_count [OF this] show ?thesis by (simp add: Write_line insert_inbound_spam_def)
next
  case (Write_once now e)
  let ?t = "case se_at e of None \<Rightarrow> zero_time | Some t \<Rightarrow> t"
  let ?f = "\<lambda>s. if list_ex (same_row ?t e) (ps_spam s) then (s, Inr False)
    else (append_spam now (e\<lparr>se_queue_id := [], se_upstream := Up_none, se_at := Some ?t\<rparr>) s, Inr True) :: panel_store \<times> (panel_error + bool)"
  have 1: "journal_step s (fst (panel_step ?f s))" for s
    by (rule panel_step_keeps) (simp add: journal_step_append)
  show ?thesis
  proof (cases "panel_step ?f s")
    case (Pair s1 x)
    have "journal_step s1 (fst (count_inbound_writes 1 s1))" by (rule count_writes_keeps)
    with 1 [of s] Pair show ?thesis unfolding Write_once journal_act.simps insert_inbound_spam_once_def Let_def Pair
      by (auto split: sum.split bool.split prod.split intro: journal_step_trans)
  qed
next
  case (Forget q)
  show ?thesis unfolding Forget journal_act.simps forget_inbound_queue_id_def
    by (rule update_spam_keeps) (auto simp: row_becomes_def undecided_def final_def)
next
  case (Answer q to st relay reply tm)
  show ?thesis unfolding Answer journal_act.simps update_inbound_upstream_def
    by (rule update_spam_keeps) (auto simp: row_becomes_def undecided_def final_def)
next
  case (Expire q tm)
  show ?thesis unfolding Expire journal_act.simps expire_inbound_upstream_def
    by (rule update_spam_keeps) (auto simp: row_becomes_def undecided_def final_def)
next
  case (Prune c k)
  show ?thesis by (simp add: Prune prune_keeps)
next
  case (Delete_domain i)
  show ?thesis unfolding Delete_domain journal_act.simps delete_inbound_domain_def
    by (rule panel_step_keeps)
      (auto intro!: journal_step_map [where f = "\<lambda>r. if sr_domain_id r = Some i then r\<lparr>sr_domain_id := None\<rparr> else r"] simp: row_becomes_def)
qed

lemma journal_acts_keep: "journal_step s (fold journal_act ops s)"
  by (induction ops arbitrary: s) (auto intro: journal_step_trans journal_act_keeps)

text \<open>
  C40. A row of the inbound journal whose upstream server has accepted or bounced the message keeps that
  answer, as long as it exists, through every later operation of the journal.
\<close>

theorem final_answer_stays:
  assumes "spam_wf s" "r \<in> set (ps_spam s)" "final (sr_upstream r)"
    and "r' \<in> set (ps_spam (fold journal_act ops s))" "sr_id r' = sr_id r"
  shows "sr_upstream r' = sr_upstream r \<and> sr_relay r' = sr_relay r \<and> sr_reply r' = sr_reply r \<and>
    sr_from r' = sr_from r \<and> sr_to r' = sr_to r \<and> sr_decision r' = sr_decision r"
proof -
  have "sr_id r < ps_next_spam s" using assms(1,2) by (simp add: spam_wf_def)
  with journal_acts_keep [of s ops] assms(4,5) obtain r0 where r0: "r0 \<in> set (ps_spam s)" "row_becomes r0 r'"
    by (auto simp: journal_step_def)
  then have "sr_id r0 = sr_id r" using assms(5) by (simp add: row_becomes_def)
  with assms(1,2) r0(1) have "r0 = r" by (auto simp: spam_wf_def distinct_map inj_on_def)
  with r0(2) assms(3) show ?thesis by (simp add: row_becomes_def)
qed

section \<open>The journal's cap\<close>

definition journal_bounded :: "panel_store \<Rightarrow> bool" where
  "journal_bounded s \<longleftrightarrow>
     db_faults (ms_db (ps_mail s)) = [] \<and> spam_wf s \<and> ps_writes s < inbound_cap_every \<and>
     length (ps_spam s) \<le> inbound_cap_rows + ps_writes s"

lemma no_faults_step: "db_faults (ms_db (ps_mail s)) = [] \<Longrightarrow> panel_step f s = f s"
  by (simp add: panel_step_def)

lemma newest_first_perm: "mset (newest_first rs) = mset rs"
  by (simp add: newest_first_def)

lemma prune_length:
  assumes "distinct (map sr_id rs)"
  shows "length (filter (\<lambda>r. sr_id r \<notin> set (map sr_id (drop k (newest_first rs)))) rs) \<le> k"
proof -
  let ?n = "newest_first rs"
  have d: "distinct (map sr_id ?n)" using assms newest_first_perm [of rs] by (metis mset_eq_imp_distinct_iff mset_map)
  have "length (filter (\<lambda>r. sr_id r \<notin> set (map sr_id (drop k ?n))) rs) = length (filter (\<lambda>r. sr_id r \<notin> set (map sr_id (drop k ?n))) ?n)"
    using newest_first_perm [of rs] by (metis mset_filter size_mset)
  also have "filter (\<lambda>r. sr_id r \<notin> set (map sr_id (drop k ?n))) ?n =
      filter (\<lambda>r. sr_id r \<notin> set (map sr_id (drop k ?n))) (take k ?n) @ filter (\<lambda>r. sr_id r \<notin> set (map sr_id (drop k ?n))) (drop k ?n)"
    by (metis append_take_drop_id filter_append)
  also have "filter (\<lambda>r. sr_id r \<notin> set (map sr_id (drop k ?n))) (drop k ?n) = []" by (simp add: filter_empty_conv)
  finally show ?thesis by (simp add: le_trans [OF length_filter_le])
qed

lemma prune_bounded:
  assumes "db_faults (ms_db (ps_mail s)) = []" "spam_wf s"
  shows "\<exists>s' n. prune_inbound_spam c k s = (s', Inr n) \<and> db_faults (ms_db (ps_mail s')) = [] \<and> spam_wf s' \<and>
    length (ps_spam s') \<le> k \<and> length (ps_spam s') \<le> length (ps_spam s) \<and> ps_writes s' = ps_writes s"
proof -
  let ?rows = "case c of None \<Rightarrow> ps_spam s | Some c \<Rightarrow> filter (\<lambda>r. \<not> sr_created r < c) (ps_spam s)"
  have wf: "spam_wf (fst (prune_inbound_spam c k s))" using prune_keeps [of s c k] assms(2) by (simp add: journal_step_def)
  have d: "distinct (map sr_id ?rows)" using assms(2) by (auto simp: spam_wf_def distinct_map_filter split: option.split)
  have l: "length ?rows \<le> length (ps_spam s)" by (simp split: option.split)
  from wf d l show ?thesis using assms(1) prune_length [OF d, of k]
    by (auto simp: prune_inbound_spam_def no_faults_step Let_def intro: le_trans [OF length_filter_le])
qed

definition fault_free :: "panel_store \<Rightarrow> bool" where
  "fault_free s \<longleftrightarrow> db_faults (ms_db (ps_mail s)) = []"

lemma count_bounded:
  assumes "fault_free s" "spam_wf s" "ps_writes s < inbound_cap_every" "length (ps_spam s) \<le> inbound_cap_rows + ps_writes s + n"
  shows "\<exists>s'. count_inbound_writes n s = (s', Inr ()) \<and> journal_bounded s'"
proof (cases "n = 0 \<or> ps_writes s + n < inbound_cap_every")
  case True
  then show ?thesis using assms by (auto simp: count_inbound_writes_def journal_bounded_def fault_free_def spam_wf_def)
next
  case False
  let ?s = "s\<lparr>ps_writes := 0\<rparr>"
  have "db_faults (ms_db (ps_mail ?s)) = []" "spam_wf ?s" using assms(1,2) by (simp_all add: fault_free_def spam_wf_def)
  from prune_bounded [OF this, of None inbound_cap_rows] obtain s' k where
    "prune_inbound_spam None inbound_cap_rows ?s = (s', Inr k)" "db_faults (ms_db (ps_mail s')) = []" "spam_wf s'"
    "length (ps_spam s') \<le> inbound_cap_rows" "ps_writes s' = 0" by auto
  with False show ?thesis by (auto simp: count_inbound_writes_def Let_def journal_bounded_def inbound_cap_every_def)
qed

lemma fold_append_facts:
  "length (ps_spam (fold (\<lambda>(d, to). append_spam now (g d to)) rs s)) = length (ps_spam s) + length rs \<and>
   ps_writes (fold (\<lambda>(d, to). append_spam now (g d to)) rs s) = ps_writes s \<and>
   ps_mail (fold (\<lambda>(d, to). append_spam now (g d to)) rs s) = ps_mail s"
  by (induction rs arbitrary: s) (auto simp: append_spam_def)

lemma append_facts [simp]:
  "length (ps_spam (append_spam now e s)) = Suc (length (ps_spam s))" "ps_writes (append_spam now e s) = ps_writes s"
  "ps_mail (append_spam now e s) = ps_mail s"
  by (simp_all add: append_spam_def)

lemma update_bounded: "journal_bounded s \<Longrightarrow> (\<And>r. sr_id (f r) = sr_id r) \<Longrightarrow> journal_bounded (fst (update_spam P f s))"
  by (auto simp: update_spam_def journal_bounded_def no_faults_step spam_wf_def comp_def if_distrib cong: if_cong)

lemma journal_act_bounded:
  assumes "journal_bounded s"
  shows "journal_bounded (journal_act a s)"
proof -
  have b: "fault_free s" "spam_wf s" "ps_writes s < inbound_cap_every" "length (ps_spam s) \<le> inbound_cap_rows + ps_writes s"
    using assms by (simp_all add: journal_bounded_def fault_free_def)
  have ff: "db_faults (ms_db (ps_mail s)) = []" using b(1) by (simp add: fault_free_def)
  have app: "\<exists>s'. count_inbound_writes 1 (append_spam now e s) = (s', Inr ()) \<and> journal_bounded s'" for now e
    by (rule count_bounded) (use b journal_step_append [of s now e] in \<open>auto simp: fault_free_def journal_step_def\<close>)
  show ?thesis
  proof (cases a)
    case (Write_message now e rs)
    let ?s = "fold (\<lambda>(d, to). append_spam now (e\<lparr>se_domain := d, se_to := to\<rparr>)) rs s"
    have "spam_wf ?s" using fold_append_keeps [of s now "\<lambda>d to. e\<lparr>se_domain := d, se_to := to\<rparr>" rs] b(2) by (simp add: journal_step_def)
    then have "\<exists>s'. count_inbound_writes (length rs) ?s = (s', Inr ()) \<and> journal_bounded s'"
      using fold_append_facts [of now "\<lambda>d to. e\<lparr>se_domain := d, se_to := to\<rparr>" rs s] b
      by (intro count_bounded) (auto simp: fault_free_def)
    then show ?thesis using assms ff by (auto simp: Write_message insert_inbound_spam_message_def no_faults_step)
  next
    case (Write_line now e)
    then show ?thesis using app [of now e] ff by (auto simp: insert_inbound_spam_def no_faults_step)
  next
    case (Write_once now e)
    then show ?thesis
      using app [of now "e\<lparr>se_queue_id := [], se_upstream := Up_none, se_at := Some (case se_at e of None \<Rightarrow> zero_time | Some t \<Rightarrow> t)\<rparr>"] ff assms
      by (auto simp: insert_inbound_spam_once_def no_faults_step Let_def split: bool.split)
  next
    case (Forget q)
    then show ?thesis using assms by (simp add: forget_inbound_queue_id_def update_bounded)
  next
    case (Answer q to st relay reply tm)
    then show ?thesis using assms by (simp add: update_inbound_upstream_def update_bounded)
  next
    case (Expire q tm)
    then show ?thesis using assms by (simp add: expire_inbound_upstream_def update_bounded)
  next
    case (Prune c k)
    then show ?thesis using prune_bounded [OF ff b(2), of c k] b(3,4) by (auto simp: journal_bounded_def)
  next
    case (Delete_domain i)
    then show ?thesis using assms
      by (auto simp: delete_inbound_domain_def no_faults_step journal_bounded_def spam_wf_def comp_def if_distrib cong: if_cong)
  qed
qed

text \<open>
  Over any sequence of writes the inbound journal holds fewer rows than its cap and one counting
  interval together.
\<close>

theorem journal_stays_bounded:
  assumes "journal_bounded s"
  shows "length (ps_spam (fold journal_act ops s)) < inbound_cap_rows + inbound_cap_every"
proof -
  have "journal_bounded (fold journal_act ops s)" using assms by (induction ops arbitrary: s) (simp_all add: journal_act_bounded)
  then show ?thesis by (auto simp: journal_bounded_def)
qed

text \<open>A line read a second time writes no second row.\<close>

lemma once_more:
  assumes "insert_inbound_spam_once now e s = (s1, Inr b)" "se_at e = Some t" "fault_free s"
  shows "b \<or> list_ex (same_row t e) (ps_spam s)"
  using assms by (auto simp: insert_inbound_spam_once_def fault_free_def no_faults_step Let_def split: bool.splits prod.splits sum.splits if_splits)

section \<open>Witnesses\<close>

definition ex_row :: spam_row where
  "ex_row = \<lparr>sr_id = 1, sr_domain = ''in.io'', sr_ip = ''192.0.2.1'', sr_from = ''a@b.io'', sr_to = ''c@in.io'', sr_subject = [],
     sr_decision = Accept, sr_engine = Selfpost, sr_detail = [], sr_created = 5, sr_domain_id = Some 1, sr_queue_id = ''4bX'',
     sr_upstream = Up_sent, sr_relay = ''mx.io'', sr_reply = ''250 ok'', sr_at = Some 6\<rparr>"

definition ex_panel :: panel_store where
  "ex_panel = \<lparr>ps_mail = \<lparr>ms_db = empty_db, ms_rows = [], ms_lines = [], ms_next = 1, ms_contradicted = (\<lambda>_. 0)\<rparr>,
     ps_inbound = [], ps_next_inbound = 1, ps_spam = [ex_row], ps_next_spam = 2, ps_writes = 1, ps_filters = [], ps_next_filter = 1,
     ps_log_days = (\<lambda>_. \<lparr>ld_closed = 0, ld_missed = 0, ld_blind = 0, ld_stuck = 0\<rparr>),
     ps_check_days = (\<lambda>_. \<lparr>cd_down = 0, cd_deferred = 0, cd_messages = 0, cd_estimated = False\<rparr>),
     ps_deferred_at = None, ps_counted_place = [], ps_places = (\<lambda>_. None)\<rparr>"

theorem final_answer_stays_witness:
  "map sr_upstream (ps_spam (fold journal_act [Answer ''4bX'' ''C@in.io'' Up_deferred [] ''451 later'' 9] ex_panel)) = [Up_sent]"
proof -
  let ?ops = "[Answer ''4bX'' ''C@in.io'' Up_deferred [] ''451 later'' 9]"
  have r: "\<exists>r'. ps_spam (fold journal_act ?ops ex_panel) = [r'] \<and> sr_id r' = sr_id ex_row"
    by (simp add: update_inbound_upstream_def update_spam_def panel_step_def ex_panel_def empty_db_def ex_row_def undecided_def)
  then obtain r' where r': "ps_spam (fold journal_act ?ops ex_panel) = [r']" "sr_id r' = sr_id ex_row" by blast
  have "spam_wf ex_panel" "ex_row \<in> set (ps_spam ex_panel)" "final (sr_upstream ex_row)"
    by (simp_all add: spam_wf_def ex_panel_def ex_row_def final_def)
  from final_answer_stays [OF this, of r' ?ops] r' show ?thesis by (simp add: ex_row_def)
qed

theorem journal_stays_bounded_witness:
  "length (ps_spam (fold journal_act [Forget ''4bX'', Prune None 7] ex_panel)) < 10500"
  using journal_stays_bounded [of ex_panel "[Forget ''4bX'', Prune None 7]"]
  by (simp add: journal_bounded_def ex_panel_def ex_row_def empty_db_def spam_wf_def inbound_cap_rows_def inbound_cap_every_def
      del: fold.simps)

end
