(* ===== verification/Log_Handlers.thy ===== *)
theory Log_Handlers
  imports Log_Tail Inbound_Store
begin

text \<open>
  What the tailer does with a line of mail.log (\<open>Run\<close> of \<open>logtail.go\<close>): the lines kept for a
  message's page (\<open>lines.go\<close>), the refusals' lines and the refusals to recover (\<open>refusals.go\<close>), the
  panel's own test messages (\<open>awaited.go\<close>), the count of what the sender check cost
  (\<open>sendercheck.go\<close>), the inbound journal (\<open>inbound.go\<close>) and the results on the send log; and the
  reconcile sweep with the readers of the log file. \<open>tailer_hooks\<close> are these as the handlers of
  \<open>Log_Tail\<close>. \<open>clk\<close> is the clock of \<open>line_time\<close>, \<open>ul\<close> is \<open>strings.ToLower\<close> past ASCII, \<open>day\<close> the name
  of a time's day, \<open>pick\<close> the key Go's map iteration meets first. An error of the store is logged and
  passed over, as in the code.

  What the lemmas show: no place past a line something still waits on is saved, so a stop loses no
  refusal; the readers of the log's tail give the last lines of the file. What the handlers keep of
  their memory and of the store is in \<open>Log_Safety\<close>.
\<close>

section \<open>Lines kept for a message\<close>

record keeper =
  k_buf :: "log_line list"
  k_once :: bool
  k_port25 :: "string list"

definition line_batch :: nat where "line_batch = 500"

definition port25_ids :: nat where "port25_ids = 4096"

definition keeper_flush :: "keeper \<times> panel_store \<Rightarrow> keeper \<times> panel_store" where
  "keeper_flush ks =
     (case ks of (k, s) \<Rightarrow>
        if k_buf k = [] then (k, s)
        else (k\<lparr>k_buf := []\<rparr>, fst (in_mail (insert_send_log_lines (k_buf k) (k_once k)) s)))"

definition remember_port25 :: "(string list \<Rightarrow> string) \<Rightarrow> string \<Rightarrow> string list \<Rightarrow> string list" where
  "remember_port25 pick q ids =
     (let ids1 = (if length ids \<ge> port25_ids then removeAll (pick ids) ids else ids)
      in if q \<in> set ids1 then ids1 else ids1 @ [q])"

definition keeper_add ::
  "(nat \<Rightarrow> int \<Rightarrow> string \<Rightarrow> int option) \<Rightarrow> (string list \<Rightarrow> string) \<Rightarrow> string \<Rightarrow> int \<Rightarrow> bool \<Rightarrow>
   keeper \<times> panel_store \<Rightarrow> keeper \<times> panel_store" where
  "keeper_add clk pick line now cu ks =
     (case line_time clk line now of (t, rest) \<Rightarrow>
        (case find_submatch queue_line_re rest of
           None \<Rightarrow> ks
         | Some m \<Rightarrow>
             (let program = group m 1; q = group m 2; msg = group m 3; k = fst ks; s = snd ks;
                  k1 = (if find_submatch smtpd_program_re program \<noteq> None \<and> has_prefix ''client='' msg
                        then (if program = port25_program then k\<lparr>k_port25 := remember_port25 pick q (k_port25 k)\<rparr>
                              else k\<lparr>k_port25 := removeAll q (k_port25 k)\<rparr>)
                        else k)
              in if q \<in> set (k_port25 k1)
                 then (if program = ''postfix/qmgr'' \<and> msg = ''removed'' \<or> program = ''postfix/cleanup'' \<and> has_prefix ''removed ('' msg
                       then k1\<lparr>k_port25 := removeAll q (k_port25 k1)\<rparr> else k1, s)
                 else (let ks2 = (if cu \<noteq> k_once k1 then apfst (\<lambda>k. k\<lparr>k_once := cu\<rparr>) (keeper_flush (k1, s)) else (k1, s));
                           ks3 = apfst (\<lambda>k. k\<lparr>k_buf := k_buf k @ [\<lparr>ll_queue_id = q, ll_at = stamp t, ll_line = line\<rparr>]\<rparr>) ks2
                       in if length (k_buf (fst ks3)) \<ge> line_batch then keeper_flush ks3 else ks3))))"

section \<open>Refusals\<close>

record pending_refusal =
  pr_ip :: string
  pr_login :: string
  pr_from :: string
  pr_line :: string
  pr_at :: int
  pr_until :: int
  pr_start :: place

record pending_recovery =
  pv_entry :: log_entry
  pv_at :: int
  pv_until :: int
  pv_start :: place

record login_line =
  lg_login :: string
  lg_start :: place

record refusals =
  rf_pending :: "pending_refusal list"
  rf_recover :: "pending_recovery list"
  rf_logins :: "string \<Rightarrow> login_line option"
  rf_keys :: "string list"

definition refusal_line_wait :: int where "refusal_line_wait = 30 * second"

definition refusal_logins :: nat where "refusal_logins = 4096"

text \<open>\<open>oldest\<close>: the earliest place in file \<open>fp\<close> something waits on.\<close>

definition waiting_places :: "refusals \<Rightarrow> place list" where
  "waiting_places r = map pr_start (rf_pending r) @ map pv_start (rf_recover r)"

definition earlier :: "string \<Rightarrow> place option \<Rightarrow> place \<Rightarrow> place option" where
  "earlier fp p q =
     (if p_fp q = fp \<and> (case p of None \<Rightarrow> True | Some p \<Rightarrow> p_end q < p_end p) then Some q else p)"

definition oldest :: "refusals \<Rightarrow> string \<Rightarrow> place option" where
  "oldest r fp = foldl (earlier fp) None (waiting_places r)"

text \<open>An error counts as attached: it is not retried.\<close>

definition attach :: "pending_refusal \<Rightarrow> panel_store \<Rightarrow> panel_store \<times> bool" where
  "attach p s =
     (case in_mail (attach_refusal_line (pr_ip p) (pr_login p) (pr_from p) (stamp (pr_at p)) (pr_line p)) s of
        (s1, Inl _) \<Rightarrow> (s1, True)
      | (s1, Inr b) \<Rightarrow> (s1, b))"

definition remember_login :: "string \<Rightarrow> login_line \<Rightarrow> refusals \<Rightarrow> refusals" where
  "remember_login q l r =
     (let r1 = (if rf_logins r q = None
                then (let keys = rf_keys r @ [q]
                      in if length keys > refusal_logins
                         then r\<lparr>rf_logins := (rf_logins r)(hd keys := None), rf_keys := tl keys\<rparr>
                         else r\<lparr>rf_keys := keys\<rparr>)
                else r)
      in r1\<lparr>rf_logins := (rf_logins r1)(q := Some l)\<rparr>)"

definition refusals_handle ::
  "(nat \<Rightarrow> int \<Rightarrow> string \<Rightarrow> int option) \<Rightarrow> (string \<Rightarrow> string) \<Rightarrow> string \<Rightarrow> int \<Rightarrow> place \<Rightarrow>
   refusals \<times> panel_store \<Rightarrow> refusals \<times> panel_store" where
  "refusals_handle clk ul line now start rs =
     (case rs of (r, s) \<Rightarrow> case line_time clk line now of (t, rest) \<Rightarrow>
        (case (case find_submatch client_login_re rest of Some m \<Rightarrow> if group m 1 \<noteq> ''inbound'' then Some m else None | None \<Rightarrow> None) of
           Some m \<Rightarrow> (remember_login (group m 2) \<lparr>lg_login = group m 3, lg_start = start\<rparr> r, s)
         | None \<Rightarrow>
             (case find_submatch from_refusal_re rest of
                Some m \<Rightarrow>
                  (let l = rf_logins r (group m 1);
                       from = (case l of Some l \<Rightarrow> if p_fp (lg_start l) = p_fp start \<and> p_end (lg_start l) < p_end start
                                                    then lg_start l else start
                               | None \<Rightarrow> start);
                       e = \<lparr>le_queue_id = group m 1, le_domain = domain_of ul (group m 5),
                            le_app_login = (case l of Some l \<Rightarrow> lg_login l | None \<Rightarrow> []), le_from = group m 5, le_to = group m 6,
                            le_subject = [], le_reason = Some (if group m 2 = ''Sender'' then Reason_sender else Reason_from),
                            le_header_from = group m 3, le_client_ip = []\<rparr>
                   in (r\<lparr>rf_recover := rf_recover r @ [\<lparr>pv_entry = e, pv_at = t, pv_until = now + refusal_line_wait, pv_start = from\<rparr>]\<rparr>, s))
              | None \<Rightarrow>
                  (case find_submatch refusal_line_re rest of
                     None \<Rightarrow> (r, s)
                   | Some m \<Rightarrow>
                       if group m 1 = ''inbound'' \<or> group m 4 = [] then (r, s)
                       else (case parse_ip (group m 2) of
                               None \<Rightarrow> (r, s)
                             | Some ip \<Rightarrow>
                                 (let p = \<lparr>pr_ip = ip_string ip, pr_login = group m 4, pr_from = group m 3, pr_line = line,
                                           pr_at = t, pr_until = now + refusal_line_wait, pr_start = start\<rparr>
                                  in case attach p s of
                                       (s1, True) \<Rightarrow> (r, s1)
                                     | (s1, False) \<Rightarrow> (r\<lparr>rf_pending := rf_pending r @ [p]\<rparr>, s1)))))))"

fun retry_pending :: "int \<Rightarrow> pending_refusal list \<Rightarrow> panel_store \<Rightarrow> pending_refusal list \<times> panel_store" where
  "retry_pending now [] s = ([], s)"
| "retry_pending now (p # ps) s =
     (case attach p s of (s1, done) \<Rightarrow>
        (case retry_pending now ps s1 of (kept, s2) \<Rightarrow>
           (if done \<or> now > pr_until p then kept else p # kept, s2)))"

fun retry_recover :: "int \<Rightarrow> pending_recovery list \<Rightarrow> panel_store \<Rightarrow> pending_recovery list \<times> panel_store" where
  "retry_recover now [] s = ([], s)"
| "retry_recover now (p # ps) s =
     (if \<not> now > pv_until p then (case retry_recover now ps s of (w, s2) \<Rightarrow> (p # w, s2))
      else retry_recover now ps (fst (in_mail (recover_refusal (pv_entry p) (stamp (pv_at p))) s)))"

definition refusals_retry :: "int \<Rightarrow> refusals \<times> panel_store \<Rightarrow> refusals \<times> panel_store" where
  "refusals_retry now rs =
     (case rs of (r, s) \<Rightarrow>
        (case retry_pending now (rf_pending r) s of (kept, s1) \<Rightarrow>
           (case retry_recover now (rf_recover r) s1 of (w, s2) \<Rightarrow> (r\<lparr>rf_pending := kept, rf_recover := w\<rparr>, s2))))"

section \<open>The panel's own test messages\<close>

definition awaited_ttl :: int where "awaited_ttl = 10 * 60 * second"

type_synonym awaited = "string \<Rightarrow> (nat \<times> int) option"

definition await_message_id :: "int \<Rightarrow> string \<Rightarrow> nat \<Rightarrow> awaited \<Rightarrow> awaited" where
  "await_message_id now mid row aw =
     (\<lambda>k. case aw k of None \<Rightarrow> None | Some v \<Rightarrow> if now - snd v > awaited_ttl then None else Some v)(mid := Some (row, now))"

definition forget_message_id :: "string \<Rightarrow> awaited \<Rightarrow> awaited" where
  "forget_message_id mid aw = aw(mid := None)"

definition take_awaited :: "int \<Rightarrow> string \<Rightarrow> awaited \<Rightarrow> awaited \<times> (string \<times> nat) option" where
  "take_awaited now rest aw =
     (case find_submatch message_id_re rest of
        None \<Rightarrow> (aw, None)
      | Some m \<Rightarrow>
          (case aw (group m 2) of
             None \<Rightarrow> (aw, None)
           | Some (row, since) \<Rightarrow>
               (aw(group m 2 := None), if now - since > awaited_ttl then None else Some (group m 1, row))))"

section \<open>What the sender check cost\<close>

text \<open>\<open>dc_last\<close> is \<open>None\<close> for the zero time.\<close>

record deferred =
  dc_connect :: string
  dc_broken :: string
  dc_failed :: "string list"
  dc_counted :: place
  dc_last :: "int option"

definition sender_check_pids :: nat where "sender_check_pids = 1024"

definition new_deferred :: "(string \<Rightarrow> nat option) \<Rightarrow> string \<Rightarrow> panel_store \<Rightarrow> deferred \<times> panel_store" where
  "new_deferred scan socket s =
     (case sender_check_deferred_at s of (s1, a) \<Rightarrow>
        (case sender_check_counted_place s1 of (s2, b) \<Rightarrow>
           (\<lparr>dc_connect = ''warning: connect to Milter service unix:'' @ socket @ '':'',
             dc_broken = ''warning: milter unix:'' @ socket @ '':'', dc_failed = [],
             dc_counted = parse_place scan (case b of Inl _ \<Rightarrow> [] | Inr p \<Rightarrow> p),
             dc_last = (case a of Inl _ \<Rightarrow> None | Inr t \<Rightarrow> map_option (\<lambda>t. t * 1000) t)\<rparr>, s2)))"

definition counted_already :: "int \<Rightarrow> place \<Rightarrow> deferred \<Rightarrow> bool" where
  "counted_already t p c \<longleftrightarrow>
     (if p_fp p \<noteq> [] \<and> p_fp p = p_fp (dc_counted c) then p_end p \<le> p_end (dc_counted c)
      else (case dc_last c of None \<Rightarrow> False | Some l \<Rightarrow> \<not> t > l))"

definition count_deferred ::
  "(int \<Rightarrow> string) \<Rightarrow> int \<Rightarrow> bool \<Rightarrow> place \<Rightarrow> bool \<Rightarrow> deferred \<times> panel_store \<Rightarrow> deferred \<times> panel_store" where
  "count_deferred day t cu p message cs =
     (case cs of (c, s) \<Rightarrow>
        if cu \<and> counted_already t p c then (c, s)
        else (c\<lparr>dc_last := (case dc_last c of None \<Rightarrow> Some t | Some l \<Rightarrow> Some (if t > l then t else l)), dc_counted := p\<rparr>,
              fst (add_sender_check_deferred (day t) t 1 (place_string p) message s)))"

definition deferred_handle ::
  "(nat \<Rightarrow> int \<Rightarrow> string \<Rightarrow> int option) \<Rightarrow> (int \<Rightarrow> string) \<Rightarrow> string \<Rightarrow> int \<Rightarrow> bool \<Rightarrow> place \<Rightarrow>
   deferred \<times> panel_store \<Rightarrow> deferred \<times> panel_store" where
  "deferred_handle clk day line now cu p cs =
     (case line_time clk line now of (t, rest) \<Rightarrow>
        (case find_submatch milter_line_re rest of
           None \<Rightarrow> cs
         | Some m \<Rightarrow>
             (let program = group m 1; pid = group m 2; msg = group m 3; c = fst cs; s = snd cs
              in if program = ''cleanup'' then (if has_prefix (dc_broken c) msg then count_deferred day t cu p True cs else cs)
                 else if has_prefix ''connect from '' msg then (c\<lparr>dc_failed := removeAll pid (dc_failed c)\<rparr>, s)
                 else if has_prefix (dc_connect c) msg \<or> has_prefix (dc_broken c) msg
                 then (if pid \<in> set (dc_failed c) then cs
                       else count_deferred day t cu p False
                              (c\<lparr>dc_failed := (if length (dc_failed c) \<ge> sender_check_pids then [] else dc_failed c) @ [pid]\<rparr>, s))
                 else cs)))"

section \<open>The inbound journal\<close>

record inbound_journal =
  ij_port25 :: "string \<Rightarrow> nat option"
  ij_order :: "(string \<times> nat) list"
  ij_seq :: nat

definition inbound_detail_max :: nat where "inbound_detail_max = 255"

definition inbound_queue_ids :: nat where "inbound_queue_ids = 4096"

definition new_inbound_journal :: inbound_journal where
  "new_inbound_journal = \<lparr>ij_port25 = (\<lambda>_. None), ij_order = [], ij_seq = 0\<rparr>"

text \<open>The loop over the oldest arrivals: an id opened again since is not dropped with its stale entry.\<close>

fun drop_oldest :: "nat \<Rightarrow> (string \<times> nat) list \<Rightarrow> (string \<Rightarrow> nat option) \<Rightarrow> (string \<times> nat) list \<times> (string \<Rightarrow> nat option)" where
  "drop_oldest bound [] ids = ([], ids)"
| "drop_oldest bound ((q, n) # ord) ids =
     (if length ((q, n) # ord) \<ge> bound then drop_oldest bound ord (if ids q = Some n then ids(q := None) else ids)
      else ((q, n) # ord, ids))"

definition journal_remember :: "string \<Rightarrow> inbound_journal \<Rightarrow> inbound_journal" where
  "journal_remember q j =
     (if ij_port25 j q \<noteq> None then j
      else (case drop_oldest inbound_queue_ids (ij_order j) (ij_port25 j) of
              (ord, ids) \<Rightarrow> \<lparr>ij_port25 = ids(q := Some (ij_seq j + 1)), ij_order = ord @ [(q, ij_seq j + 1)], ij_seq = ij_seq j + 1\<rparr>))"

definition quoted_or_spaced :: "string \<Rightarrow> bool" where
  "quoted_or_spaced a \<longleftrightarrow> contains_any a [CHR 0x22, CHR ''<'', CHR ''>'', CHR '' '']"

text \<open>The row a refusal's line is, once it is known to be the relay's.\<close>

definition refusal_entry :: "caps \<Rightarrow> string \<Rightarrow> int \<Rightarrow> spam_entry" where
  "refusal_entry m dn t =
     \<lparr>se_domain = dn, se_ip = group m 4, se_from = group m 6, se_to = group m 7, se_subject = [],
      se_decision = (if has_prefix ''4'' (group m 5) then Tempfail else Reject),
      se_engine = (if group m 3 = ''reject'' then Postfix_policy else Rspamd),
      se_detail = log_printable (group m 5) inbound_detail_max, se_queue_id = [], se_upstream = Up_none, se_at = Some (stamp t)\<rparr>"

definition journal_handle ::
  "(nat \<Rightarrow> int \<Rightarrow> string \<Rightarrow> int option) \<Rightarrow> (string \<Rightarrow> string) \<Rightarrow> string \<Rightarrow> int \<Rightarrow> bool \<Rightarrow>
   inbound_journal \<times> panel_store \<Rightarrow> inbound_journal \<times> panel_store" where
  "journal_handle clk ul line now cu js =
     (case js of (j, s) \<Rightarrow> case line_time clk line now of (t, rest) \<Rightarrow>
        (case find_submatch inbound_client_re rest of
           Some m \<Rightarrow> (journal_remember (group m 1) j, s)
         | None \<Rightarrow>
             (case find_submatch inbound_forget_re rest of
                Some m \<Rightarrow>
                  (j\<lparr>ij_port25 := (ij_port25 j)(group m 1 @ group m 2 @ group m 3 := None)\<rparr>,
                   if group m 3 \<noteq> [] then fst (forget_inbound_queue_id (group m 3) s) else s)
              | None \<Rightarrow>
                  (case find_submatch inbound_reject_re rest of
                     None \<Rightarrow> (j, s)
                   | Some m \<Rightarrow>
                       if quoted_or_spaced (group m 6) \<or> quoted_or_spaced (group m 7) \<or> contains_text ''; from=<'' (group m 5) then (j, s)
                       else if group m 1 = ''cleanup'' \<and> ij_port25 j (group m 2) = None then (j, s)
                       else (let j1 = (if group m 1 = ''cleanup'' then j\<lparr>ij_port25 := (ij_port25 j)(group m 2 := None)\<rparr> else j);
                                 dn = domain_of ul (group m 7)
                             in if dn = [] then (j1, s)
                                else (case is_inbound_domain ul dn s of
                                        (s1, Inr True) \<Rightarrow>
                                          (j1, if cu then fst (insert_inbound_spam_once now (refusal_entry m dn t) s1)
                                               else fst (insert_inbound_spam now (refusal_entry m dn t) s1))
                                      | (s1, _) \<Rightarrow> (j1, s1)))))))"

definition upstream_of :: "status \<Rightarrow> upstream" where
  "upstream_of st =
     (case st of Status_sent \<Rightarrow> Up_sent | Status_deferred \<Rightarrow> Up_deferred | Status_bounced \<Rightarrow> Up_bounced
      | Status_queued \<Rightarrow> Up_queued | Status_rejected \<Rightarrow> Up_none)"

definition journal_upstream ::
  "(nat \<Rightarrow> int \<Rightarrow> string \<Rightarrow> int option) \<Rightarrow> string \<Rightarrow> int \<Rightarrow> string \<Rightarrow> string \<Rightarrow> status \<Rightarrow> panel_store \<Rightarrow> panel_store" where
  "journal_upstream clk line now q to st s =
     (case line_time clk line now of (t, rest) \<Rightarrow> case delivery_reply rest of (relay, reply) \<Rightarrow>
        fst (update_inbound_upstream q to (upstream_of st) (log_printable (if relay = ''none'' then [] else relay) inbound_detail_max)
               (log_printable reply upstream_reply_max) (stamp t) s))"

definition journal_expired ::
  "(nat \<Rightarrow> int \<Rightarrow> string \<Rightarrow> int option) \<Rightarrow> string \<Rightarrow> int \<Rightarrow> string \<Rightarrow> panel_store \<Rightarrow> panel_store" where
  "journal_expired clk line now q s = fst (expire_inbound_upstream q (stamp (fst (line_time clk line now))) s)"

section \<open>A line of mail.log\<close>

record tailer =
  tw_store :: panel_store
  tw_keeper :: keeper
  tw_refusals :: refusals
  tw_journal :: "inbound_journal option"
  tw_deferred :: "deferred option"
  tw_awaited :: awaited

text \<open>The parts a line goes through, each on its own state and the store.\<close>

definition with_keeper :: "(keeper \<times> panel_store \<Rightarrow> keeper \<times> panel_store) \<Rightarrow> tailer \<Rightarrow> tailer" where
  "with_keeper f w = (case f (tw_keeper w, tw_store w) of (k, s) \<Rightarrow> w\<lparr>tw_keeper := k, tw_store := s\<rparr>)"

definition with_refusals :: "(refusals \<times> panel_store \<Rightarrow> refusals \<times> panel_store) \<Rightarrow> tailer \<Rightarrow> tailer" where
  "with_refusals f w = (case f (tw_refusals w, tw_store w) of (r, s) \<Rightarrow> w\<lparr>tw_refusals := r, tw_store := s\<rparr>)"

definition with_journal :: "(inbound_journal \<times> panel_store \<Rightarrow> inbound_journal \<times> panel_store) \<Rightarrow> tailer \<Rightarrow> tailer" where
  "with_journal f w =
     (case tw_journal w of None \<Rightarrow> w
      | Some j \<Rightarrow> (case f (j, tw_store w) of (j1, s) \<Rightarrow> w\<lparr>tw_journal := Some j1, tw_store := s\<rparr>))"

definition with_deferred :: "(deferred \<times> panel_store \<Rightarrow> deferred \<times> panel_store) \<Rightarrow> tailer \<Rightarrow> tailer" where
  "with_deferred f w =
     (case tw_deferred w of None \<Rightarrow> w
      | Some c \<Rightarrow> (case f (c, tw_store w) of (c1, s) \<Rightarrow> w\<lparr>tw_deferred := Some c1, tw_store := s\<rparr>))"

definition match_awaited :: "int \<Rightarrow> string \<Rightarrow> tailer \<Rightarrow> tailer" where
  "match_awaited now line w =
     (let rest = snd (split_timestamp line)
      in if rest = [] then w
         else (case take_awaited now rest (tw_awaited w) of
                 (aw, None) \<Rightarrow> w\<lparr>tw_awaited := aw\<rparr>
               | (aw, Some (q, row)) \<Rightarrow>
                   w\<lparr>tw_awaited := aw, tw_store := fst (in_mail (set_send_log_queue_id row q) (tw_store w))\<rparr>))"

text \<open>A result: on the send log, or when no row there took it on the inbound journal.\<close>

definition took_none :: "panel_error + nat \<Rightarrow> bool" where
  "took_none r \<longleftrightarrow> (case r of Inl _ \<Rightarrow> True | Inr n \<Rightarrow> n = 0)"

definition deliver_line ::
  "(nat \<Rightarrow> int \<Rightarrow> string \<Rightarrow> int option) \<Rightarrow> (int \<Rightarrow> string) \<Rightarrow> string \<Rightarrow> int \<Rightarrow> tailer \<Rightarrow> tailer" where
  "deliver_line clk day line now w =
     (case parse_delivery line of
        None \<Rightarrow>
          (case parse_expiry line of
             None \<Rightarrow> w
           | Some q \<Rightarrow>
               (case in_mail (expire_message (stamp now) q) (tw_store w) of
                  (s, n) \<Rightarrow> w\<lparr>tw_store := if took_none n \<and> tw_journal w \<noteq> None then journal_expired clk line now q s else s\<rparr>))
      | Some (q, to, st) \<Rightarrow>
          (case in_mail (update_status (stamp now) (day now) q to st) (tw_store w) of
             (s, n) \<Rightarrow> w\<lparr>tw_store := if took_none n \<and> tw_journal w \<noteq> None then journal_upstream clk line now q to st s else s\<rparr>))"

definition tail_line ::
  "(nat \<Rightarrow> int \<Rightarrow> string \<Rightarrow> int option) \<Rightarrow> (string \<Rightarrow> string) \<Rightarrow> (int \<Rightarrow> string) \<Rightarrow> (string list \<Rightarrow> string) \<Rightarrow>
   int \<Rightarrow> bool \<Rightarrow> place \<Rightarrow> nat \<Rightarrow> string \<Rightarrow> tailer \<Rightarrow> tailer" where
  "tail_line clk ul day pick now cu p start line w =
     deliver_line clk day line now
       (match_awaited now line
         (with_refusals (refusals_handle clk ul line now \<lparr>p_fp = p_fp p, p_end = start\<rparr>)
           (with_keeper (keeper_add clk pick line now cu)
             (with_deferred (deferred_handle clk day line now cu p)
               (with_journal (journal_handle clk ul line now cu) w)))))"

definition tail_flush :: "int \<Rightarrow> tailer \<Rightarrow> tailer" where
  "tail_flush now w = with_refusals (refusals_retry now) (with_keeper keeper_flush w)"

text \<open>The handlers \<open>Run\<close> gives to \<open>follow\<close>, for the log at \<open>path\<close>.\<close>

definition tailer_hooks ::
  "(nat \<Rightarrow> int \<Rightarrow> string \<Rightarrow> int option) \<Rightarrow> (string \<Rightarrow> string) \<Rightarrow> (int \<Rightarrow> string) \<Rightarrow> (string list \<Rightarrow> string) \<Rightarrow> string \<Rightarrow>
   tailer hooks" where
  "tailer_hooks clk ul day pick path =
     \<lparr>h_handle = tail_line clk ul day pick,
      h_flush = tail_flush,
      h_hold = (\<lambda>w. oldest (tw_refusals w)),
      h_load = (\<lambda>w. case logtail_state path (tw_store w) of
                      (s, Inl _) \<Rightarrow> (w\<lparr>tw_store := s\<rparr>, None)
                    | (s, Inr p) \<Rightarrow> (w\<lparr>tw_store := s\<rparr>, Some (map_option (\<lambda>p. \<lparr>sp_fp = tp_fp p, sp_offset = tp_offset p, sp_updated = tp_updated p\<rparr>) p))),
      h_save = (\<lambda>p w. case save_logtail_state (sp_updated p * second) path (sp_fp p) (sp_offset p) (tw_store w) of
                      (s, r) \<Rightarrow> (w\<lparr>tw_store := s\<rparr>, r = Inr ())),
      h_blind = (\<lambda>from d w. w\<lparr>tw_store := fst (add_tailer_blind day from d (tw_store w))\<rparr>)\<rparr>"

section \<open>Reading the log file\<close>

definition queue_scan_bytes :: nat where "queue_scan_bytes = 4 * 1024 * 1024"

text \<open>
  \<open>bufio.Scanner\<close> over the last \<open>queue_scan_bytes\<close>: the lines without their \<open>\r\<close>, up to one that
  passes the buffer; the first is dropped when the reading starts inside the file.
\<close>

definition drop_cr :: "string \<Rightarrow> string" where
  "drop_cr l = (if l \<noteq> [] \<and> last l = CHR 0x0D then butlast l else l)"

definition scan_lines :: "string \<Rightarrow> string list" where
  "scan_lines t =
     (let ls = split_on newline t
      in map drop_cr (takeWhile (\<lambda>l. length l < 1024 * 1024) (if last ls = [] then butlast ls else ls)))"

definition scanned_tail :: "string \<Rightarrow> string list" where
  "scanned_tail file =
     (let start = length file - queue_scan_bytes; ls = scan_lines (drop start file)
      in if start > 0 then tl ls else ls)"

text \<open>\<open>resultsInLog\<close> on the files that could be opened, mail.log and the one rotated away.\<close>

definition result_for :: "(string \<Rightarrow> string) \<Rightarrow> string \<Rightarrow> string \<Rightarrow> string \<Rightarrow> bool" where
  "result_for ul q to line \<longleftrightarrow>
     (case parse_delivery line of None \<Rightarrow> False
      | Some (q', r, st) \<Rightarrow> q' = q \<and> to_lower ul r = to_lower ul to \<and> st \<noteq> Status_deferred) \<or>
     parse_expiry line = Some q"

definition results_in_log :: "(string \<Rightarrow> string) \<Rightarrow> string list \<Rightarrow> (nat \<times> string \<times> string) list \<Rightarrow> bool list" where
  "results_in_log ul files rows =
     map (\<lambda>(_, q, to). q \<noteq> [] \<and> list_ex (\<lambda>f. list_ex (result_for ul q to) (scanned_tail f)) files) rows"

text \<open>\<open>QueueLines\<close>: the latest \<open>n\<close> lines about a queue id, kept while reading.\<close>

definition queue_lines :: "string \<Rightarrow> string \<Rightarrow> nat \<Rightarrow> string list" where
  "queue_lines file q n =
     (if q = [] \<or> n = 0 then []
      else foldl (\<lambda>ls l. if mentions_queue_id l q
                          then (let ls' = ls @ [l] in if length ls' > n then tl ls' else ls') else ls) [] (scanned_tail file))"

text \<open>\<open>TailLines\<close>: chunks from the end until they hold more than \<open>n\<close> line feeds.\<close>

definition tail_chunk :: nat where "tail_chunk = 8192"

function tail_offset :: "string \<Rightarrow> nat \<Rightarrow> nat \<Rightarrow> nat" where
  "tail_offset file n offset =
     (if offset > 0 \<and> length (filter (\<lambda>c. c = newline) (drop offset file)) \<le> n
      then tail_offset file n (offset - min tail_chunk offset) else offset)"
  by pat_completeness auto
termination by (relation "measure (\<lambda>(_, _, k). k)") (auto simp: tail_chunk_def)

declare tail_offset.simps [simp del]

definition tail_lines :: "string \<Rightarrow> nat \<Rightarrow> string list" where
  "tail_lines file n =
     (let t = trim_right [newline] (drop (tail_offset file n (length file)) file)
      in if t = [] then []
         else (let ls = split_on newline t in drop (length ls - n) ls))"

section \<open>The reconcile sweep\<close>

text \<open>
  \<open>reconcile\<close>: \<open>held\<close> is what the queue holds (\<open>None\<close> when it could not be read), \<open>files\<close> the log's.
\<close>

fun close_rows :: "int \<Rightarrow> ((nat \<times> string \<times> string) \<times> bool) list \<Rightarrow> panel_store \<Rightarrow> panel_store \<times> nat \<times> nat" where
  "close_rows now [] s = (s, 0, 0)"
| "close_rows now ((row, found) # rows) s =
     (case in_mail (close_unreported (stamp now) (fst row)) s of
        (s1, Inl _) \<Rightarrow> close_rows now rows s1
      | (s1, Inr n) \<Rightarrow>
          (case close_rows now rows s1 of
             (s2, ncl, missed) \<Rightarrow> (s2, n + ncl, (if n > 0 \<and> found then 1 else 0) + missed)))"

definition reconcile ::
  "(string \<Rightarrow> string) \<Rightarrow> (int \<Rightarrow> string) \<Rightarrow> int \<Rightarrow> int \<Rightarrow> string list option \<Rightarrow> string list \<Rightarrow> panel_store \<Rightarrow> panel_store" where
  "reconcile ul day now cutoff held files s =
     (case in_mail (list_open_older_than (stamp cutoff)) s of
        (s1, Inl _) \<Rightarrow> s1
      | (s1, Inr []) \<Rightarrow> s1
      | (s1, Inr rows) \<Rightarrow>
          (case held of None \<Rightarrow> s1
           | Some ids \<Rightarrow>
               (let closing = filter (\<lambda>(_, q, _). q \<notin> set ids) rows;
                    results = results_in_log ul files closing
                in case close_rows now (zip closing results) s1 of
                     (s2, ncl, missed) \<Rightarrow>
                       if ncl > 0
                       then fst (add_reconcile_missed (day now) (int missed) (fst (add_reconcile_closed (day now) (int ncl) s2)))
                       else s2)))"

definition count_stuck :: "(int \<Rightarrow> string) \<Rightarrow> int \<Rightarrow> int \<Rightarrow> panel_store \<Rightarrow> panel_store" where
  "count_stuck day now over_lifetime s =
     (case count_open_older_than (stamp (now - over_lifetime)) s of
        (s1, Inl _) \<Rightarrow> s1
      | (s1, Inr n) \<Rightarrow> fst (set_queued_over_lifetime (day now) (int n) s1))"

text \<open>A tick of \<open>reconcileLoop\<close>, after the tailer has caught up.\<close>

definition reconcile_grace :: int where "reconcile_grace = 2 * 60 * second"

definition reconcile_tick ::
  "(string \<Rightarrow> string) \<Rightarrow> (int \<Rightarrow> string) \<Rightarrow> int \<Rightarrow> int \<Rightarrow> string list option \<Rightarrow> string list \<Rightarrow> panel_store \<Rightarrow> panel_store" where
  "reconcile_tick ul day now over_lifetime held files s =
     fst (in_mail (close_unmatched_test_messages (stamp now) (stamp (now - awaited_ttl)))
       (count_stuck day now over_lifetime (reconcile ul day now (now - reconcile_grace) held files s)))"

section \<open>What waits holds the place back\<close>

lemma earlier_fold:
  "\<exists>p. foldl (earlier fp) (Some q) xs = Some p \<and> p_end p \<le> p_end q \<and> (\<forall>x \<in> set xs. p_fp x = fp \<longrightarrow> p_end p \<le> p_end x)"
proof (induction xs arbitrary: q)
  case (Cons x xs)
  show ?case
  proof (cases "p_fp x = fp \<and> p_end x < p_end q")
    case True
    with Cons [of x] show ?thesis by (auto simp: earlier_def)
  next
    case False
    with Cons [of q] show ?thesis by (fastforce simp: earlier_def)
  qed
qed simp

lemma oldest_before:
  assumes "x \<in> set (waiting_places r)" "p_fp x = fp"
  shows "\<exists>p. oldest r fp = Some p \<and> p_end p \<le> p_end x"
proof -
  have "x \<in> set xs \<Longrightarrow> \<exists>p. foldl (earlier fp) None xs = Some p \<and> p_end p \<le> p_end x" for xs
  proof (induction xs)
    case (Cons y ys)
    show ?case
    proof (cases "p_fp y = fp")
      case True
      then have e: "earlier fp None y = Some y" by (simp add: earlier_def)
      from Cons.prems assms(2) earlier_fold [of fp y ys] show ?thesis by (auto simp: e)
    next
      case False
      with Cons assms(2) show ?thesis by (auto simp: earlier_def)
    qed
  qed simp
  with assms(1) show ?thesis by (simp add: oldest_def)
qed

text \<open>
  A client of the tracker whose \<open>h_hold\<close> names a place no later than anything it waits on: no place
  later than that is saved.
\<close>

locale holding_client =
  fixes hk :: "'s hooks" and waits :: "'s \<Rightarrow> place list" and place_of :: "'s \<Rightarrow> (string \<times> nat) option"
  assumes holds: "x \<in> set (waits s) \<Longrightarrow> p_fp x = fp \<Longrightarrow> \<exists>p. h_hold hk s fp = Some p \<and> p_end p \<le> p_end x"
    and saves: "h_save hk sp s = (s', b) \<Longrightarrow> place_of s' = (if b then Some (sp_fp sp, sp_offset sp) else place_of s)"
begin

lemma record_before_waiting:
  assumes "record_place sha hk now d i off force tr s = (tr', s')" "x \<in> set (waits s)" "p_fp x = t_fp tr"
  shows "place_of s' = place_of s \<or> (\<exists>fp n. place_of s' = Some (fp, n) \<and> n \<le> p_end x \<and> n \<le> off)"
proof -
  obtain p where p: "h_hold hk s (t_fp tr) = Some p" "p_end p \<le> p_end x" using holds [OF assms(2,3)] by blast
  define n where "n = (if p_end p < off then p_end p else off)"
  have n: "n \<le> p_end x" "n \<le> off" using p(2) by (auto simp: n_def)
  define t1 where "t1 = (if t_fp tr = [] then tr\<lparr>t_fp := fingerprint_of sha d i\<rparr> else tr)"
  have "s' = s \<or> (\<exists>b. h_save hk \<lparr>sp_fp = t_fp t1, sp_offset = n, sp_updated = stamp now\<rparr> s = (s', b))"
    using assms(1) p(1) unfolding record_place_def n_def t1_def Let_def
    by (auto split: if_splits prod.splits bool.splits)
  then show ?thesis
  proof (elim disjE exE)
    fix b assume "h_save hk \<lparr>sp_fp = t_fp t1, sp_offset = n, sp_updated = stamp now\<rparr> s = (s', b)"
    from saves [OF this] n show ?thesis by auto
  qed simp
qed

end

definition place_in_store :: "string \<Rightarrow> tailer \<Rightarrow> (string \<times> nat) option" where
  "place_in_store path w = map_option (\<lambda>p. (tp_fp p, tp_offset p)) (ps_places (tw_store w) path)"

interpretation tl: holding_client "tailer_hooks clk ul day pick path" "\<lambda>w. waiting_places (tw_refusals w)" "place_in_store path"
  for clk ul day pick path
proof unfold_locales
  show "\<exists>p. h_hold (tailer_hooks clk ul day pick path) s fp = Some p \<and> p_end p \<le> p_end x"
    if "x \<in> set (waiting_places (tw_refusals s))" "p_fp x = fp" for x s fp
    using oldest_before [OF that] by (simp add: tailer_hooks_def)
  show "place_in_store path s' = (if b then Some (sp_fp sp, sp_offset sp) else place_in_store path s)"
    if "h_save (tailer_hooks clk ul day pick path) sp s = (s', b)" for sp s s' b
    using that by (auto simp: tailer_hooks_def save_logtail_state_def panel_step_def set_faults_def place_in_store_def
        split: list.splits bool.splits)
qed


section \<open>The readers of the file\<close>

lemma split_by_append: "split_by p (a @ b) = butlast (split_by p a) @ (last (split_by p a) @ hd (split_by p b)) # tl (split_by p b)"
proof (induction a)
  case Nil
  show ?case by (cases "split_by p b") simp_all
next
  case (Cons c a)
  then show ?case by (cases "split_by p a") auto
qed

lemma split_by_length: "length (split_by p s) = Suc (length (filter p s))"
  by (induction s) (auto split: list.splits)

lemma tail_offset_le: "tail_offset fl n k \<le> k"
proof (induction fl n k rule: tail_offset.induct)
  case (1 fl n k)
  show ?case
  proof (cases "k > 0 \<and> length (filter (\<lambda>c. c = newline) (drop k fl)) \<le> n")
    case True
    with 1 [OF True] show ?thesis by (subst tail_offset.simps) simp
  next
    case False
    then show ?thesis by (subst tail_offset.simps) auto
  qed
qed

lemma tail_offset_enough:
  "tail_offset fl n k = 0 \<or> n < length (filter (\<lambda>c. c = newline) (drop (tail_offset fl n k) fl))"
proof (induction fl n k rule: tail_offset.induct)
  case (1 fl n k)
  show ?case
  proof (cases "k > 0 \<and> length (filter (\<lambda>c. c = newline) (drop k fl)) \<le> n")
    case True
    with 1 [OF True] show ?thesis by (simp add: tail_offset.simps [of fl n k])
  next
    case False
    then show ?thesis by (subst (1 2) tail_offset.simps) auto
  qed
qed

lemma trim_newline:
  assumes "file = body @ [newline]" "body = [] \<or> last body \<noteq> newline"
  shows "trim_right [newline] file = body"
  using assms by (cases body rule: rev_cases) (auto simp: trim_right_def)

text \<open>
  \<open>TailLines\<close>, which reads a log backwards in chunks until they hold enough line feeds, gives the
  last \<open>n\<close> lines of the whole file, of whatever length (its last line not empty).
\<close>

theorem tail_lines_last:
  assumes "body \<noteq> []" "last body \<noteq> newline"
  shows "tail_lines (body @ [newline]) n = (let ls = split_on newline body in drop (length ls - n) ls)"
proof -
  let ?file = "body @ [newline]" and ?k = "tail_offset (body @ [newline]) n (length (body @ [newline]))"
  let ?nl = "\<lambda>c. c = newline"
  have "?k \<noteq> length ?file"
  proof
    assume k: "?k = length ?file"
    have "?k = 0 \<or> n < length (filter ?nl (drop ?k ?file))" by (rule tail_offset_enough)
    with k show False by simp
  qed
  then have k: "?k \<le> length body" using tail_offset_le [of ?file n "length ?file"] by simp
  have d: "drop ?k ?file = drop ?k body @ [newline]" using k by simp
  have enough: "?k = 0 \<or> n \<le> length (filter ?nl (drop ?k body))"
  proof -
    have "?k = 0 \<or> n < length (filter ?nl (drop ?k body @ [newline]))" using tail_offset_enough [of ?file n "length ?file"] unfolding d .
    then show ?thesis by (elim disjE) (simp_all add: less_Suc_eq_le)
  qed
  show ?thesis
  proof (cases "?k = length body")
    case True
    then have "n = 0" using enough assms(1) by simp
    then show ?thesis unfolding tail_lines_def d using True by (simp add: trim_right_def Let_def)
  next
    case False
    let ?t = "drop ?k body"
    have ne: "?t \<noteq> []" "last ?t \<noteq> newline" using k False assms(2) by (simp_all add: last_drop)
    have tr: "trim_right [newline] (?t @ [newline]) = ?t" by (rule trim_newline) (use ne in simp_all)
    have "split_on newline body = split_on newline (take ?k body @ ?t)" by simp
    also have "\<dots> = butlast (split_on newline (take ?k body)) @ (last (split_on newline (take ?k body)) @ hd (split_on newline ?t)) # tl (split_on newline ?t)"
      unfolding split_on_def by (rule split_by_append)
    finally have s: "split_on newline body = butlast (split_on newline (take ?k body)) @
        (last (split_on newline (take ?k body)) @ hd (split_on newline ?t)) # tl (split_on newline ?t)" .
    have lt: "length (split_on newline ?t) = Suc (length (filter ?nl ?t))" by (simp add: split_on_def split_by_length)
    show ?thesis
    proof (cases "?k = 0")
      case True
      then show ?thesis unfolding tail_lines_def d tr using ne by (simp add: Let_def)
    next
      case k0: False
      with enough have n: "n \<le> length (tl (split_on newline ?t))" using lt by simp
      have "drop (length (split_on newline ?t) - n) (split_on newline ?t) = drop (length (tl (split_on newline ?t)) - n) (tl (split_on newline ?t))"
        using n lt by (cases "split_on newline ?t") (simp_all add: Suc_diff_le)
      moreover have "drop (length (split_on newline body) - n) (split_on newline body) = drop (length (tl (split_on newline ?t)) - n) (tl (split_on newline ?t))"
        unfolding s using n by (simp add: Suc_diff_le)
      ultimately show ?thesis unfolding tail_lines_def d tr using ne by (simp add: Let_def)
    qed
  qed
qed

lemma keep_last:
  "foldl (\<lambda>ls l. if P l then (let ls' = ls @ [l] in if length ls' > n then tl ls' else ls') else ls) ls0 xs =
     drop (length (ls0 @ filter P xs) - n) (ls0 @ filter P xs)" if "length ls0 \<le> n"
  using that
proof (induction xs arbitrary: ls0)
  case (Cons x xs)
  show ?case
  proof (cases "P x")
    case False
    with Cons show ?thesis by simp
  next
    case True
    show ?thesis
    proof (cases "length ls0 = n")
      case True
      with Cons.IH [of "tl (ls0 @ [x])"] \<open>P x\<close> show ?thesis by (cases ls0) (simp_all add: Let_def Suc_diff_le)
    next
      case False
      with Cons.IH [of "ls0 @ [x]"] Cons.prems \<open>P x\<close> show ?thesis by (simp add: Let_def)
    qed
  qed
qed simp

lemma queue_lines_last:
  "q \<noteq> [] \<Longrightarrow> queue_lines file q n =
    (let ls = filter (\<lambda>l. mentions_queue_id l q) (scanned_tail file) in drop (length ls - n) ls)"
  using keep_last [of "[]" n "\<lambda>l. mentions_queue_id l q" "scanned_tail file"]
  by (auto simp: queue_lines_def Let_def)

section \<open>Witnesses\<close>

definition ex_tailer :: tailer where
  "ex_tailer = \<lparr>tw_store = ex_panel, tw_keeper = \<lparr>k_buf = [], k_once = False, k_port25 = []\<rparr>,
     tw_refusals = \<lparr>rf_pending = [\<lparr>pr_ip = ''192.0.2.1'', pr_login = ''app'', pr_from = ''a@b.io'', pr_line = ''x'',
       pr_at = 0, pr_until = 9, pr_start = \<lparr>p_fp = ''f'', p_end = 40\<rparr>\<rparr>], rf_recover = [], rf_logins = (\<lambda>_. None), rf_keys = []\<rparr>,
     tw_journal = None, tw_deferred = None, tw_awaited = (\<lambda>_. None)\<rparr>"


theorem tail_lines_last_witness: "tail_lines (''ab'' @ newline # ''cd'' @ [newline]) 1 = [''cd'']"
  using tail_lines_last [of "''ab'' @ newline # ''cd''" 1]
  by (simp add: newline_def split_on_def)

end
