(* ===== verification/Log_Safety.thy ===== *)
theory Log_Safety
  imports Log_Handlers
begin

text \<open>
  What the handlers of \<open>Log_Handlers\<close> guarantee over any mail.log: which journal row a refusal's line
  becomes (\<open>refusal_row_addresses\<close>, by reading the regular expression backwards from its match), the
  bounds of what the tailer remembers (\<open>tailer_memory_bounded\<close>), the history of the send log
  (\<open>any_log_keeps_history\<close>), and that a delivery Postfix logs reaches its row (\<open>delivery_sets_row\<close>).
\<close>

section \<open>Whose row a refusal becomes\<close>

text \<open>No blank of the text is followed by an \<open>f\<close>, as in \<open> from=<\<close>.\<close>

fun blank_free_f :: "string \<Rightarrow> bool" where
  "blank_free_f [] \<longleftrightarrow> True"
| "blank_free_f (c # s) \<longleftrightarrow> \<not> (c = CHR '' '' \<and> has_prefix ''f'' s) \<and> blank_free_f s"

lemma blank_free_no_from: "blank_free_f s \<Longrightarrow> \<not> contains_text ''; from=<'' s"
  by (induction s) (auto simp: has_prefix_iff)

lemma blank_free_word: "CHR '' '' \<notin> set u \<Longrightarrow> blank_free_f v \<Longrightarrow> blank_free_f (u @ v)"
  by (induction u) fastforce+

lemma blank_free_field:
  assumes "CHR '' '' \<notin> set u" "blank_free_f v" "c \<noteq> CHR ''f''" "c \<noteq> CHR '' ''"
  shows "blank_free_f (CHR '' '' # c # u @ v)"
  using blank_free_word [OF assms(1,2)] assms(3,4) by (simp add: has_prefix_def)

lemma runs_split:
  "((x, cs), y, cs') \<in> runs (seq (as @ b # bs)) \<Longrightarrow> as \<noteq> [] \<Longrightarrow>
    \<exists>z c. ((x, cs), z, c) \<in> runs (seq as) \<and> ((z, c), y, cs') \<in> runs (seq (b # bs))"
proof (induction as arbitrary: x cs)
  case (Cons a as)
  show ?case
  proof (cases as)
    case Nil
    with Cons.prems runs_seq show ?thesis by simp
  next
    case (Cons a' as')
    with Cons.prems obtain z c where z: "((x, cs), z, c) \<in> runs a" "((z, c), y, cs') \<in> runs (seq (as @ b # bs))"
      using runs_seq [of x cs y cs' a a' "as' @ b # bs"] by auto
    from Cons.IH [OF z(2)] Cons obtain z' c' where "((z, c), z', c') \<in> runs (seq as)" "((z', c'), y, cs') \<in> runs (seq (b # bs))" by blast
    with relcompI [OF z(1)] Cons show ?thesis by (intro exI [of _ z'] exI [of _ c']) simp
  qed
qed simp

lemma runs_opt: "((x, cs), y, cs') \<in> runs (opt r) \<Longrightarrow> (y = x \<and> cs' = cs) \<or> ((x, cs), y, cs') \<in> runs r"
  by (auto simp: opt_def)

text \<open>A field of the line's end: a blank, not an \<open>f\<close>, no other blank.\<close>

definition field_re :: "re \<Rightarrow> bool" where
  "field_re r \<longleftrightarrow> (\<forall>x cs y cs'. ((x, cs), y, cs') \<in> runs r \<longrightarrow>
     (\<exists>c u. snd x = CHR '' '' # c # u @ snd y \<and> c \<notin> set '' f'' \<and> CHR '' '' \<notin> set u))"

lemma field_reD: "field_re r \<Longrightarrow> ((x, cs), y, cs') \<in> runs r \<Longrightarrow>
    \<exists>c u. snd x = CHR '' '' # c # u @ snd y \<and> c \<notin> set '' f'' \<and> CHR '' '' \<notin> set u"
  unfolding field_re_def by blast

lemma blank_free_opt:
  assumes "((x, cs), y, cs') \<in> runs (seq (opt r # r' # rs))" "field_re r"
    "\<And>z c. ((z, c), y, cs') \<in> runs (seq (r' # rs)) \<Longrightarrow> blank_free_f (snd z)"
  shows "blank_free_f (snd x)"
proof -
  from runs_seq [OF assms(1)] obtain z c where z: "((x, cs), z, c) \<in> runs (opt r)" "((z, c), y, cs') \<in> runs (seq (r' # rs))"
    by (elim exE conjE)
  from runs_opt [OF z(1)] show ?thesis
  proof
    assume "z = x \<and> c = cs"
    with assms(3) [OF z(2)] show ?thesis by simp
  next
    assume "((x, cs), z, c) \<in> runs r"
    from field_reD [OF assms(2) this] obtain a u where "snd x = CHR '' '' # a # u @ snd z" "a \<notin> set '' f''" "CHR '' '' \<notin> set u"
      by (elim exE conjE)
    with blank_free_field [of u "snd z" a] assms(3) [OF z(2)] show ?thesis by simp
  qed
qed

lemma field_sasl:
  assumes "c \<notin> set '' f''" "CHR '' '' \<notin> set s"
  shows "field_re (Seq (Lit (CHR '' '' # c # s)) (many not_space))"
  unfolding field_re_def
proof (intro allI impI)
  fix x cs y cs'
  assume "((x, cs), y, cs') \<in> runs (Seq (Lit (CHR '' '' # c # s)) (many not_space))"
  from runs_Seq [OF this] obtain z c1 where "((x, cs), z, c1) \<in> runs (Lit (CHR '' '' # c # s))" "((z, c1), y, cs') \<in> runs (many not_space)"
    by (elim exE conjE)
  from runs_Lit [OF this(1)] runs_many [OF this(2)] obtain t where
    "snd x = (CHR '' '' # c # s) @ t @ snd y" "\<forall>a \<in> set t. not_space a" by (elim exE conjE) metis
  with assms show "\<exists>c u. snd x = CHR '' '' # c # u @ snd y \<and> c \<notin> set '' f'' \<and> CHR '' '' \<notin> set u"
    by (intro exI [of _ c] exI [of _ "s @ t"]) (auto simp: not_space_def)
qed

lemma field_helo: "field_re (seq [Lit '' helo=<'', many (\<lambda>c. \<not> neutered c), Lit ''>''])"
  unfolding field_re_def
proof (intro allI impI)
  fix x cs y cs'
  assume a: "((x, cs), y, cs') \<in> runs (seq [Lit '' helo=<'', many (\<lambda>c. \<not> neutered c), Lit ''>''])"
  from runs_seq_Lit [OF a] obtain z where z: "snd x = '' helo=<'' @ snd z"
    "((z, cs), y, cs') \<in> runs (seq [many (\<lambda>c. \<not> neutered c), Lit ''>''])" by blast
  from runs_seq [OF z(2)] obtain z1 c1 where z1: "((z, cs), z1, c1) \<in> runs (many (\<lambda>c. \<not> neutered c))"
    "((z1, c1), y, cs') \<in> runs (Lit ''>'')" by auto
  from runs_many [OF z1(1)] runs_Lit [OF z1(2)] obtain t where
    "snd z = t @ ''>'' @ snd y" "\<forall>a \<in> set t. \<not> neutered a" by (elim exE conjE) metis
  with z(1) show "\<exists>c u. snd x = CHR '' '' # c # u @ snd y \<and> c \<notin> set '' f'' \<and> CHR '' '' \<notin> set u"
    by (intro exI [of _ "CHR ''h''"] exI [of _ "''elo=<'' @ t @ ''>''"]) (auto simp: neutered_def)
qed

definition helo_re :: re where
  "helo_re = seq [Lit '' helo=<'', many (\<lambda>c. \<not> neutered c), Lit ''>'']"

definition sasl_re :: "string \<Rightarrow> re" where
  "sasl_re name = Seq (Lit ('' sasl_'' @ name)) (many not_space)"

definition reject_end :: "re list" where
  "reject_end = [some1 not_space, opt helo_re, opt (sasl_re ''method=''), opt (sasl_re ''username=''), opt (sasl_re ''sender=''), Text_end]"

lemma field_res: "field_re helo_re" "CHR '' '' \<notin> set n \<Longrightarrow> field_re (sasl_re n)"
  using field_helo field_sasl [of "CHR ''s''" "''asl_'' @ n"] by (simp_all only: helo_re_def sasl_re_def) simp_all

lemma reject_end_free:
  assumes "((x, cs), y, cs') \<in> runs (seq reject_end)"
  shows "blank_free_f (snd x)"
proof -
  from runs_seq_some1 [OF assms [unfolded reject_end_def]] obtain s z where s: "s \<noteq> []" "list_all not_space s" "snd x = s @ snd z"
    "((z, cs), y, cs') \<in> runs (seq [opt helo_re, opt (sasl_re ''method=''), opt (sasl_re ''username=''), opt (sasl_re ''sender=''), Text_end])"
    by blast
  have 3: "blank_free_f (snd z)" if "((z, c), y, cs') \<in> runs (seq [opt (sasl_re ''sender=''), Text_end])" for z c
    by (rule blank_free_opt [OF that field_res(2)]) simp_all
  have 2: "blank_free_f (snd z)" if "((z, c), y, cs') \<in> runs (seq [opt (sasl_re ''username=''), opt (sasl_re ''sender=''), Text_end])" for z c
    by (rule blank_free_opt [OF that field_res(2) 3]) simp_all
  have 1: "blank_free_f (snd z)"
    if "((z, c), y, cs') \<in> runs (seq [opt (sasl_re ''method=''), opt (sasl_re ''username=''), opt (sasl_re ''sender=''), Text_end])" for z c
    by (rule blank_free_opt [OF that field_res(2) 2]) simp_all
  have "blank_free_f (snd z)" by (rule blank_free_opt [OF s(4) field_res(1) 1])
  with s show ?thesis by (auto simp: list_all_iff not_space_def intro!: blank_free_word)
qed

text \<open>What a match of \<open>inbound_reject_re\<close> says of the text.\<close>

lemma reject_match:
  assumes "find_submatch inbound_reject_re rest = Some m"
  obtains pre tail where "rest = pre @ group m 5 @ ''; from=<'' @ group m 6 @ ''> to=<'' @ group m 7 @ ''> proto='' @ tail"
    "blank_free_f tail"
proof -
  obtain y where y: "(((CHR 0x0A, rest), []), y, m) \<in> runs inbound_reject_re" using find_runs [OF assms] by blast
  let ?pre = "[some1 not_space, Lit '' postfix/'', Cap 1 (Alt (Lit ''inbound/smtpd'') (Lit ''cleanup'')), Lit ''['', some1 is_digit,
      Lit '']: '', Cap 2 (some1 alnum), Lit '': '', Cap 3 (Alt (Lit ''reject'') (Alt (Lit ''milter-reject'') (Lit ''milter-discard''))),
      Lit '': '', some1 not_space, Lit '' from '', many (\<lambda>c. not_space c \<and> c \<noteq> CHR ''[''), Lit ''['', Cap 4 (some1 address_char),
      Lit '']: '']"
  let ?t6 = "Lit ''> to=<'' # Cap 7 (many (not_in ''>'')) # Lit ''> proto='' # reject_end"
  let ?t5 = "Lit ''; from=<'' # Cap 6 (many (not_in ''>'')) # ?t6"
  have re: "inbound_reject_re = seq (?pre @ Cap 5 (many not_newline) # ?t5)"
    by (simp only: inbound_reject_re_def reject_end_def helo_re_def sasl_re_def append.simps)
  from runs_split [OF y [unfolded re] list.distinct(2)] obtain z0 c0 where 0: "(((CHR 0x0A, rest), []), z0, c0) \<in> runs (seq ?pre)"
    "((z0, c0), y, m) \<in> runs (seq (Cap 5 (many not_newline) # ?t5))" by (elim exE conjE)
  from runs_eats [OF 0(1)] obtain pre where pre: "rest = pre @ snd z0" by auto
  from runs_seq_Cap [OF 0(2)] obtain s5 z1 c1 where 5: "snd z0 = s5 @ snd z1" "((z1, (5, s5) # c1), y, m) \<in> runs (seq ?t5)" by blast
  from runs_seq_Lit [OF 5(2)] obtain z2 where 2: "snd z1 = ''; from=<'' @ snd z2"
    "((z2, (5, s5) # c1), y, m) \<in> runs (seq (Cap 6 (many (not_in ''>'')) # ?t6))" by blast
  from runs_seq_Cap [OF 2(2)] obtain s6 z3 c3 where 6: "(((z2, (5, s5) # c1)), z3, c3) \<in> runs (many (not_in ''>''))"
    "snd z2 = s6 @ snd z3" "((z3, (6, s6) # c3), y, m) \<in> runs (seq ?t6)" by blast
  from runs_many [OF 6(1)] have c3: "c3 = (5, s5) # c1" by blast
  from runs_seq_Lit [OF 6(3)] obtain z4 where 4: "snd z3 = ''> to=<'' @ snd z4"
    "((z4, (6, s6) # c3), y, m) \<in> runs (seq (Cap 7 (many (not_in ''>'')) # Lit ''> proto='' # reject_end))" by blast
  from runs_seq_Cap [OF 4(2)] obtain s7 z5 c5 where 7: "((z4, (6, s6) # c3), z5, c5) \<in> runs (many (not_in ''>''))"
    "snd z4 = s7 @ snd z5" "((z5, (7, s7) # c5), y, m) \<in> runs (seq (Lit ''> proto='' # reject_end))" by blast
  from runs_many [OF 7(1)] have c5: "c5 = (6, s6) # (5, s5) # c1" using c3 by blast
  from 7(3) have "((z5, (7, s7) # c5), y, m) \<in> runs (seq (Lit ''> proto='' # hd reject_end # tl reject_end))" by (simp only: reject_end_def list.sel)
  from runs_seq_Lit [OF this] obtain z6 where 8: "snd z5 = ''> proto='' @ snd z6"
    "((z6, (7, s7) # c5), y, m) \<in> runs (seq (hd reject_end # tl reject_end))" by blast
  have e: "((z6, (7, s7) # c5), y, m) \<in> runs (seq reject_end)" using 8(2) by (simp only: reject_end_def list.sel)
  have g: "5 \<notin> groups (seq reject_end)" "6 \<notin> groups (seq reject_end)" "7 \<notin> groups (seq reject_end)"
    by (simp_all add: reject_end_def helo_re_def sasl_re_def many_def some1_def opt_def)
  have "group m 5 = s5" "group m 6 = s6" "group m 7 = s7"
    using runs_keeps [OF e g(1)] runs_keeps [OF e g(2)] runs_keeps [OF e g(3)] c5 by (simp_all add: group_def)
  with pre 5(1) 2(1) 6(2) 4(1) 7(2) 8(1) reject_end_free [OF e] show thesis by (intro that [of pre "snd z6"]) simp_all
qed


lemma reject_row_free:
  assumes "find_submatch inbound_reject_re rest = Some m" "\<not> quoted_or_spaced (group m 6)" "\<not> quoted_or_spaced (group m 7)"
  obtains pre tail where
    "rest = pre @ ''; from=<'' @ group m 6 @ ''> to=<'' @ group m 7 @ ''> proto='' @ tail"
    "\<not> contains_text ''; from=<'' (group m 6 @ ''> to=<'' @ group m 7 @ ''> proto='' @ tail)"
proof -
  from reject_match [OF assms(1)] obtain pre tail where r:
    "rest = pre @ group m 5 @ ''; from=<'' @ group m 6 @ ''> to=<'' @ group m 7 @ ''> proto='' @ tail" "blank_free_f tail" by blast
  have nb: "CHR '' '' \<notin> set (group m 6)" "CHR '' '' \<notin> set (group m 7)"
    using assms(2,3) by (auto simp: quoted_or_spaced_def contains_any_iff)
  have "blank_free_f (group m 7 @ ''> proto='' @ tail)"
    by (rule blank_free_word [OF nb(2)]) (use r(2) in \<open>simp add: has_prefix_def\<close>)
  then have "blank_free_f (''> to=<'' @ group m 7 @ ''> proto='' @ tail)"
    using blank_free_word [of "''>''"] blank_free_field [of "''o=<''" "group m 7 @ ''> proto='' @ tail" "CHR ''t''"] by simp
  then have "blank_free_f (group m 6 @ ''> to=<'' @ group m 7 @ ''> proto='' @ tail)" by (rule blank_free_word [OF nb(1)])
  from blank_free_no_from [OF this] r(1) show thesis by (intro that [of "pre @ group m 5" tail]) simp_all
qed

text \<open>The rows an insertion adds are of its entry.\<close>

definition row_ids :: "panel_store \<Rightarrow> nat set" where "row_ids s = sr_id ` set (ps_spam s)"

definition adds_only :: "(spam_row \<Rightarrow> bool) \<Rightarrow> panel_store \<Rightarrow> panel_store \<Rightarrow> bool" where
  "adds_only P s s' \<longleftrightarrow> (\<forall>r \<in> set (ps_spam s'). sr_id r \<in> row_ids s \<or> P r)"

lemma adds_only_refl [simp]: "ps_spam s' = ps_spam s \<Longrightarrow> adds_only P s s'"
  by (simp add: adds_only_def row_ids_def)

lemma prune_adds: "adds_only P s s1 \<Longrightarrow> adds_only P s (fst (prune_inbound_spam c k s1))"
  by (auto simp: prune_inbound_spam_def panel_step_def set_faults_def adds_only_def Let_def split: list.splits bool.splits option.splits)

lemma count_adds: "adds_only P s s1 \<Longrightarrow> adds_only P s (fst (count_inbound_writes n s1))"
  using prune_adds [of P s "s1\<lparr>ps_writes := 0\<rparr>" None inbound_cap_rows]
  by (auto simp: count_inbound_writes_def Let_def adds_only_def split: prod.splits sum.splits)

definition row_of :: "spam_entry \<Rightarrow> spam_row \<Rightarrow> bool" where
  "row_of e r \<longleftrightarrow> sr_domain r = se_domain e \<and> sr_ip r = se_ip e \<and> sr_from r = se_from e \<and> sr_to r = se_to e \<and>
     sr_decision r = se_decision e \<and> sr_engine r = se_engine e \<and> sr_detail r = se_detail e"

lemma append_adds: "ps_spam s1 = ps_spam s \<Longrightarrow> adds_only (row_of e) s (append_spam now (e\<lparr>se_queue_id := q, se_upstream := u, se_at := t\<rparr>) s1)"
  "ps_spam s1 = ps_spam s \<Longrightarrow> adds_only (row_of e) s (append_spam now e s1)"
  by (auto simp: adds_only_def append_spam_def spam_row_of_def row_of_def row_ids_def)

lemma panel_step_cases:
  obtains s1 where "panel_step f s = (s1, Inl Store_error)" "ps_spam s1 = ps_spam s" "ps_inbound s1 = ps_inbound s"
  | s1 where "panel_step f s = f s1" "ps_spam s1 = ps_spam s" "ps_inbound s1 = ps_inbound s"
proof (cases "db_faults (ms_db (ps_mail s))")
  case Nil
  then show ?thesis by (intro that(2) [of s]) (simp_all add: panel_step_def)
next
  case (Cons a fs)
  then show ?thesis using that(1) [of "set_faults fs s"] that(2) [of "set_faults fs s"]
    by (cases a) (simp_all add: panel_step_def set_faults_def)
qed

lemma count_fst: "fst (case count_inbound_writes n s of (s2, Inl err) \<Rightarrow> (s2, Inl err) | (s2, Inr x) \<Rightarrow> (s2, Inr y)) = fst (count_inbound_writes n s)"
  by (simp split: prod.split sum.split)

lemma insert_adds: "adds_only (row_of e) s (fst (insert_inbound_spam now e s))"
proof (cases rule: panel_step_cases [of "\<lambda>s. (append_spam now e s, Inr () :: panel_error + unit)" s])
  case 1
  then show ?thesis by (simp add: insert_inbound_spam_def)
next
  case (2 s1)
  then show ?thesis using count_adds [OF append_adds(2) [OF 2(2)]] by (simp add: insert_inbound_spam_def)
qed

lemma insert_once_adds: "adds_only (row_of e) s (fst (insert_inbound_spam_once now e s))"
proof -
  let ?t = "case se_at e of None \<Rightarrow> zero_time | Some t \<Rightarrow> t"
  show ?thesis
  proof (cases rule: panel_step_cases [of "\<lambda>s. if list_ex (same_row ?t e) (ps_spam s) then (s, Inr False)
      else (append_spam now (e\<lparr>se_queue_id := [], se_upstream := Up_none, se_at := Some ?t\<rparr>) s, Inr True :: panel_error + bool)" s])
    case 1
    then show ?thesis by (simp add: insert_inbound_spam_once_def Let_def)
  next
    case (2 s1)
    then show ?thesis using count_adds [OF append_adds(1) [OF 2(2)]]
      by (auto simp: insert_inbound_spam_once_def Let_def count_fst)
  qed
qed

lemma forget_adds: "adds_only P s (fst (forget_inbound_queue_id q s))"
proof -
  have "adds_only P s (fst (update_spam Q f s))" if "\<And>r. sr_id (f r) = sr_id r" for Q f
    unfolding update_spam_def
  proof (cases rule: panel_step_cases [of "\<lambda>s. (s\<lparr>ps_spam := map (\<lambda>r. if Q r then f r else r) (ps_spam s)\<rparr>,
      Inr (length (filter Q (ps_spam s))) :: panel_error + nat)" s])
    case (2 s1)
    then show "adds_only P s (fst (panel_step (\<lambda>s. (s\<lparr>ps_spam := map (\<lambda>r. if Q r then f r else r) (ps_spam s)\<rparr>,
        Inr (length (filter Q (ps_spam s))))) s))" using that by (auto simp: adds_only_def row_ids_def)
  qed simp
  then show ?thesis by (simp add: forget_inbound_queue_id_def)
qed

lemma journal_new_row:
  assumes "journal_handle clk ul line now cu (j, s) = (j', s')" "\<not> adds_only (\<lambda>_. False) s s'"
  obtains m s1 where "find_submatch inbound_reject_re (snd (line_time clk line now)) = Some m"
    "\<not> quoted_or_spaced (group m 6)" "\<not> quoted_or_spaced (group m 7)"
    "is_inbound_domain ul (domain_of ul (group m 7)) s = (s1, Inr True)"
    "adds_only (row_of (refusal_entry m (domain_of ul (group m 7)) (fst (line_time clk line now)))) s1 s'"
proof -
  obtain t rest where t: "line_time clk line now = (t, rest)" by fastforce
  note h = assms(1) [unfolded journal_handle_def prod.case t]
  have c: "find_submatch inbound_client_re rest = None" using h assms(2) by (cases "find_submatch inbound_client_re rest") auto
  have f: "find_submatch inbound_forget_re rest = None"
  proof (cases "find_submatch inbound_forget_re rest")
    case (Some m)
    with h c have "s' = s \<or> s' = fst (forget_inbound_queue_id (group m 3) s)" by (auto split: if_splits)
    with assms(2) forget_adds show ?thesis by auto
  qed
  obtain m where m: "find_submatch inbound_reject_re rest = Some m"
    using h c f assms(2) by (cases "find_submatch inbound_reject_re rest") auto
  let ?dn = "domain_of ul (group m 7)" and ?e = "refusal_entry m (domain_of ul (group m 7)) t"
  have q: "\<not> quoted_or_spaced (group m 6)" "\<not> quoted_or_spaced (group m 7)"
    using h c f m assms(2) by (auto split: if_splits)
  obtain s1 b where i: "is_inbound_domain ul ?dn s = (s1, b)" by fastforce
  have s1: "ps_spam s1 = ps_spam s" using i unfolding is_inbound_domain_def
    by (cases rule: panel_step_cases [of "\<lambda>s. (s, Inr (list_ex (\<lambda>d. i_name d = to_lower ul ?dn) (ps_inbound s)) :: panel_error + bool)" s]) auto
  have "b = Inr True \<and> (s' = fst (insert_inbound_spam_once now ?e s1) \<or> s' = fst (insert_inbound_spam now ?e s1))"
  proof (rule ccontr)
    assume n: "\<not> ?thesis"
    then have "s' = s \<or> s' = s1" using h c f m q i
      by (auto simp: Let_def split: if_splits sum.splits bool.splits)
    with assms(2) s1 show False by auto
  qed
  with insert_adds insert_once_adds have "b = Inr True" "adds_only (row_of ?e) s1 s'" by auto
  with i m q t show thesis by (intro that [of m s1]) simp_all
qed

text \<open>
  C24. A refusal in mail.log becomes a row of the inbound journal only for the last \<open>from=<...> to=<...>\<close>
  of its line, which Postfix writes itself, and only for a recipient in an inbound domain: what a
  stranger puts into the text of the refusal (a reply, a name) does not choose the row's addresses.
\<close>

theorem refusal_row_addresses:
  assumes "journal_handle clk ul line now cu (j, s) = (j', s')" "r \<in> set (ps_spam s')" "sr_id r \<notin> sr_id ` set (ps_spam s)"
  shows "(\<exists>pre tail. snd (line_time clk line now) = pre @ ''; from=<'' @ sr_from r @ ''> to=<'' @ sr_to r @ ''> proto='' @ tail \<and>
      \<not> contains_text ''; from=<'' (sr_from r @ ''> to=<'' @ sr_to r @ ''> proto='' @ tail)) \<and>
    sr_domain r = domain_of ul (sr_to r) \<and> (\<exists>d \<in> set (ps_inbound s). i_name d = to_lower ul (sr_domain r))"
proof -
  have "\<not> adds_only (\<lambda>_. False) s s'" using assms(2,3) by (auto simp: adds_only_def row_ids_def)
  from journal_new_row [OF assms(1) this] obtain m s1 where m: "find_submatch inbound_reject_re (snd (line_time clk line now)) = Some m"
    "\<not> quoted_or_spaced (group m 6)" "\<not> quoted_or_spaced (group m 7)"
    "is_inbound_domain ul (domain_of ul (group m 7)) s = (s1, Inr True)"
    "adds_only (row_of (refusal_entry m (domain_of ul (group m 7)) (fst (line_time clk line now)))) s1 s'" by blast
  have s1: "ps_spam s1 = ps_spam s \<and> (\<exists>d \<in> set (ps_inbound s). i_name d = to_lower ul (domain_of ul (group m 7)))"
    using m(4) unfolding is_inbound_domain_def
    by (cases rule: panel_step_cases [of "\<lambda>s. (s, Inr (list_ex (\<lambda>d. i_name d = to_lower ul (domain_of ul (group m 7))) (ps_inbound s))
        :: panel_error + bool)" s]) (auto simp: list_ex_iff)
  with m(5) assms(2,3) have "row_of (refusal_entry m (domain_of ul (group m 7)) (fst (line_time clk line now))) r"
    by (auto simp: adds_only_def row_ids_def)
  then have r: "sr_from r = group m 6" "sr_to r = group m 7" "sr_domain r = domain_of ul (group m 7)"
    by (simp_all add: row_of_def refusal_entry_def)
  from reject_row_free [OF m(1-3)] s1 show ?thesis unfolding r by metis
qed

section \<open>Witness of the journal row\<close>

definition ex_refused :: string where
  "ex_refused = ''h postfix/inbound/smtpd[1]: N: reject: R from u[::]: 5; from=<a@b> to=<c@in.io> proto=S''"

definition ex_inbound :: panel_store where
  "ex_inbound = ex_panel\<lparr>ps_inbound := [\<lparr>i_id = 1, i_name = ''in.io'', i_mode = ''list'', i_host = [], i_port = 25,
     i_tls = ''may'', i_recipients = [], i_created = 0\<rparr>], ps_spam := []\<rparr>"

lemma ex_refused_read:
  "find_submatch inbound_reject_re ex_refused =
     Some [(7, ''c@in.io''), (6, ''a@b''), (5, ''5''), (4, ''::''), (3, ''reject''), (2, ''N''), (1, ''inbound/smtpd'')]"
  by (simp add: find_submatch_def ex_refused_def inbound_reject_re_def many_def some1_def opt_def not_space_def space_char_def
      not_newline_def not_in_def address_char_def is_digit_def alnum_def is_upper_def is_lower_def neutered_def)

lemma ex_refused_other:
  "find_submatch stamp_re ex_refused = None" "find_submatch inbound_client_re ex_refused = None"
  "find_submatch inbound_forget_re ex_refused = None"
  by code_simp+

lemma ex_journal_row:
  "\<exists>j' s' r. journal_handle (\<lambda>_ _ _. None) id ex_refused 9 False (new_inbound_journal, ex_inbound) = (j', s') \<and>
     ps_spam s' = [r] \<and> sr_from r = ''a@b'' \<and> sr_to r = ''c@in.io''"
proof -
  define m :: caps where "m = [(7, ''c@in.io''), (6, ''a@b''), (5, ''5''), (4, ''::''), (3, ''reject''), (2, ''N''), (1, ''inbound/smtpd'')]"
  have g: "group m (Suc 0) = ''inbound/smtpd''" "group m 5 = ''5''" "group m 6 = ''a@b''" "group m 7 = ''c@in.io''" by (simp_all add: group_def m_def)
  note rd = ex_refused_read [folded m_def]
  have lt: "line_time (\<lambda>_ _ _. None) ex_refused 9 = (9, ex_refused)" by (simp add: line_time_def ex_refused_other)
  have q: "\<not> quoted_or_spaced ''a@b''" "\<not> quoted_or_spaced ''c@in.io''" "\<not> contains_text ''; from=<'' ''5''"
    "domain_of id ''c@in.io'' = ''in.io''" by code_simp+
  have i: "is_inbound_domain id ''in.io'' ex_inbound = (ex_inbound, Inr True)"
  proof -
    have "to_lower id ''in.io'' = ''in.io''" by code_simp
    then show ?thesis by (simp add: is_inbound_domain_def panel_step_def ex_inbound_def ex_panel_def empty_db_def)
  qed
  have "\<exists>s'. fst (insert_inbound_spam 9 (refusal_entry m ''in.io'' 9) ex_inbound) = s' \<and>
      ps_spam s' = [spam_row_of 9 ex_inbound (refusal_entry m ''in.io'' 9) (ps_next_spam ex_inbound)]"
    by (simp add: insert_inbound_spam_def panel_step_def count_inbound_writes_def ex_inbound_def ex_panel_def empty_db_def append_spam_def
        inbound_cap_every_def spam_row_of_def)
  then obtain s' where s': "fst (insert_inbound_spam 9 (refusal_entry m ''in.io'' 9) ex_inbound) = s'"
    "ps_spam s' = [spam_row_of 9 ex_inbound (refusal_entry m ''in.io'' 9) (ps_next_spam ex_inbound)]" by blast
  have "journal_handle (\<lambda>_ _ _. None) id ex_refused 9 False (new_inbound_journal, ex_inbound) = (new_inbound_journal, s')"
    using s'(1) q i by (simp add: journal_handle_def lt ex_refused_other rd g Let_def)
  with s'(2) show ?thesis by (simp add: spam_row_of_def refusal_entry_def g)
qed

theorem refusal_row_addresses_witness:
  "\<exists>tail. \<not> contains_text ''; from=<'' (''a@b'' @ ''> to=<'' @ ''c@in.io'' @ ''> proto='' @ tail)"
proof -
  from ex_journal_row obtain j' s' r where r: "journal_handle (\<lambda>_ _ _. None) id ex_refused 9 False (new_inbound_journal, ex_inbound) = (j', s')"
    "ps_spam s' = [r]" "sr_from r = ''a@b''" "sr_to r = ''c@in.io''" by (elim exE conjE)
  have "r \<in> set (ps_spam s')" "sr_id r \<notin> sr_id ` set (ps_spam ex_inbound)" using r(2) by (simp_all add: ex_inbound_def)
  from refusal_row_addresses [OF r(1) this] r(3,4) show ?thesis by metis
qed

section \<open>A run of the tailer\<close>

text \<open>What the follower calls: a line with its time, place and start, or the end of a pass.\<close>

datatype tail_event = Line int bool place nat string | Pass int

fun tail_act ::
  "(nat \<Rightarrow> int \<Rightarrow> string \<Rightarrow> int option) \<Rightarrow> (string \<Rightarrow> string) \<Rightarrow> (int \<Rightarrow> string) \<Rightarrow> (string list \<Rightarrow> string) \<Rightarrow>
   tail_event \<Rightarrow> tailer \<Rightarrow> tailer" where
  "tail_act clk ul day pick (Line now cu p start line) w = tail_line clk ul day pick now cu p start line w"
| "tail_act clk ul day pick (Pass now) w = tail_flush now w"

section \<open>The tailer's memory\<close>

definition keeper_bounded :: "keeper \<Rightarrow> bool" where
  "keeper_bounded k \<longleftrightarrow> length (k_buf k) < line_batch \<and> length (k_port25 k) \<le> port25_ids \<and> distinct (k_port25 k)"

definition logins_bounded :: "refusals \<Rightarrow> bool" where
  "logins_bounded r \<longleftrightarrow> length (rf_keys r) \<le> refusal_logins \<and> dom (rf_logins r) \<subseteq> set (rf_keys r)"

definition journal_ids_bounded :: "inbound_journal \<Rightarrow> bool" where
  "journal_ids_bounded j \<longleftrightarrow> length (ij_order j) \<le> inbound_queue_ids \<and> (\<forall>q n. ij_port25 j q = Some n \<longrightarrow> (q, n) \<in> set (ij_order j))"

definition pids_bounded :: "deferred \<Rightarrow> bool" where
  "pids_bounded c \<longleftrightarrow> length (dc_failed c) \<le> sender_check_pids"

definition tailer_bounded :: "tailer \<Rightarrow> bool" where
  "tailer_bounded w \<longleftrightarrow> keeper_bounded (tw_keeper w) \<and> logins_bounded (tw_refusals w) \<and>
     pred_option journal_ids_bounded (tw_journal w) \<and> pred_option pids_bounded (tw_deferred w)"

lemmas memory_defs = keeper_bounded_def logins_bounded_def journal_ids_bounded_def pids_bounded_def
  line_batch_def port25_ids_def refusal_logins_def inbound_queue_ids_def sender_check_pids_def

lemma removeAll_bound: "length ids \<le> n \<Longrightarrow> length (removeAll q ids) \<le> n"
  unfolding removeAll_filter_not_eq by (rule order_trans [OF length_filter_le])

lemma flush_bounded: "keeper_bounded k \<Longrightarrow> keeper_bounded (fst (keeper_flush (k, s)))"
  by (auto simp: keeper_flush_def memory_defs)

lemma flush_empty: "k_buf (fst (keeper_flush (k, s))) = []" "k_port25 (fst (keeper_flush (k, s))) = k_port25 k"
  by (simp_all add: keeper_flush_def)

lemma remember_bounded:
  assumes "length ids \<le> port25_ids" "distinct ids" "\<And>ids. ids \<noteq> [] \<Longrightarrow> pick ids \<in> set ids"
  shows "length (remember_port25 pick q ids) \<le> port25_ids \<and> distinct (remember_port25 pick q ids)"
proof (cases "length ids \<ge> port25_ids")
  case True
  then have "ids \<noteq> []" by (auto simp: port25_ids_def)
  with assms have "pick ids \<in> set ids" by blast
  then have "length (removeAll (pick ids) ids) < length ids" by (rule length_removeAll_less)
  with assms(1,2) show ?thesis by (auto simp: remember_port25_def Let_def distinct_removeAll)
next
  case False
  with assms(1,2) show ?thesis by (auto simp: remember_port25_def Let_def)
qed

lemma keeper_add_bounded:
  assumes "keeper_bounded k" "\<And>ids. ids \<noteq> [] \<Longrightarrow> pick ids \<in> set ids"
  shows "keeper_bounded (fst (keeper_add clk pick line now cu (k, s)))"
proof -
  obtain t rest where t: "line_time clk line now = (t, rest)" by fastforce
  show ?thesis
  proof (cases "find_submatch queue_line_re rest")
    case None
    with assms t show ?thesis by (simp add: keeper_add_def)
  next
    case (Some m)
    define k1 where "k1 = (if find_submatch smtpd_program_re (group m 1) \<noteq> None \<and> has_prefix ''client='' (group m 3)
        then (if group m 1 = port25_program then k\<lparr>k_port25 := remember_port25 pick (group m 2) (k_port25 k)\<rparr>
              else k\<lparr>k_port25 := removeAll (group m 2) (k_port25 k)\<rparr>) else k)"
    have k1: "keeper_bounded k1" using assms remember_bounded [of "k_port25 k" pick]
      by (auto simp: k1_def keeper_bounded_def distinct_removeAll removeAll_bound)
    have fl: "keeper_bounded (fst (keeper_flush (k', s')))" if "distinct (k_port25 k')" "length (k_port25 k') \<le> port25_ids" for k' s'
      using that by (simp add: keeper_bounded_def flush_empty line_batch_def)
    have tail: "keeper_bounded (fst (if length (k_buf (fst x)) \<ge> line_batch then keeper_flush x else x))"
      if "distinct (k_port25 (fst x))" "length (k_port25 (fst x)) \<le> port25_ids" for x
      using that fl [of "fst x" "snd x"] by (auto simp: keeper_bounded_def)
    have add: "keeper_add clk pick line now cu (k, s) =
      (if group m 2 \<in> set (k_port25 k1)
       then (if group m 1 = ''postfix/qmgr'' \<and> group m 3 = ''removed'' \<or> group m 1 = ''postfix/cleanup'' \<and> has_prefix ''removed ('' (group m 3)
             then k1\<lparr>k_port25 := removeAll (group m 2) (k_port25 k1)\<rparr> else k1, s)
       else (let ks2 = (if cu \<noteq> k_once k1 then apfst (\<lambda>k. k\<lparr>k_once := cu\<rparr>) (keeper_flush (k1, s)) else (k1, s));
                 ks3 = apfst (\<lambda>k. k\<lparr>k_buf := k_buf k @ [\<lparr>ll_queue_id = group m 2, ll_at = stamp t, ll_line = line\<rparr>]\<rparr>) ks2
             in if length (k_buf (fst ks3)) \<ge> line_batch then keeper_flush ks3 else ks3))"
      by (simp add: keeper_add_def t Some k1_def Let_def)
    have p: "k_port25 (fst (apfst (\<lambda>k. k\<lparr>k_buf := b k\<rparr>) x)) = k_port25 (fst x)"
      "k_port25 (fst (apfst (\<lambda>k. k\<lparr>k_once := cu\<rparr>) x)) = k_port25 (fst x)" for b x by (cases x; simp)+
    show ?thesis
    proof (cases "group m 2 \<in> set (k_port25 k1)")
      case True
      then show ?thesis unfolding add using k1
        by (auto simp: keeper_bounded_def distinct_removeAll removeAll_bound)
    next
      case False
      then show ?thesis unfolding add Let_def if_not_P [OF False]
        by (intro tail) (use k1 in \<open>simp_all add: p flush_empty keeper_bounded_def split: if_split\<close>)
    qed
  qed
qed

lemma login_bounded: "logins_bounded r \<Longrightarrow> logins_bounded (remember_login q l r)"
proof (cases "rf_logins r q = None \<and> length (rf_keys r @ [q]) > refusal_logins")
  case True
  assume b: "logins_bounded r"
  then obtain h ks where h: "rf_keys r = h # ks" using True by (cases "rf_keys r") (auto simp: memory_defs)
  with True b show ?thesis
    by (auto simp: remember_login_def Let_def logins_bounded_def refusal_logins_def split: if_splits)
next
  case False
  assume b: "logins_bounded r"
  with False show ?thesis
    by (auto simp: remember_login_def Let_def logins_bounded_def)
qed

lemma refusals_handle_bounded:
  assumes "logins_bounded r"
  shows "logins_bounded (fst (refusals_handle clk ul line now start (r, s)))"
  using assms login_bounded
  by (simp add: refusals_handle_def Let_def logins_bounded_def split: prod.split option.split bool.split)

lemma retry_bounded: "logins_bounded r \<Longrightarrow> logins_bounded (fst (refusals_retry now (r, s)))"
  by (simp add: refusals_retry_def logins_bounded_def split: prod.split)

lemma drop_oldest_bounded:
  assumes "\<And>q n. ids q = Some n \<Longrightarrow> (q, n) \<in> set ord" "drop_oldest bound ord ids = (ord', ids')" "0 < bound"
  shows "length ord' < bound \<and> (\<forall>q n. ids' q = Some n \<longrightarrow> (q, n) \<in> set ord')"
  using assms
proof (induction bound ord ids rule: drop_oldest.induct)
  case (2 bound q n ord ids)
  show ?case
  proof (cases "length ((q, n) # ord) \<ge> bound")
    case True
    let ?ids = "if ids q = Some n then ids(q := None) else ids"
    have "?ids q' = Some n' \<Longrightarrow> (q', n') \<in> set ord" for q' n' using "2.prems"(1) [of q' n'] by (auto split: if_splits)
    with 2 True show ?thesis by simp
  next
    case False
    with "2.prems" show ?thesis by auto
  qed
qed fastforce

lemma journal_remember_bounded: "journal_ids_bounded j \<Longrightarrow> journal_ids_bounded (journal_remember q j)"
  using drop_oldest_bounded [of "ij_port25 j" "ij_order j" inbound_queue_ids]
  by (auto simp: journal_remember_def journal_ids_bounded_def inbound_queue_ids_def split: prod.split)

lemma journal_handle_bounded:
  assumes "journal_ids_bounded j"
  shows "journal_ids_bounded (fst (journal_handle clk ul line now cu (j, s)))"
proof -
  have rm: "journal_ids_bounded (j\<lparr>ij_port25 := (ij_port25 j)(q := None)\<rparr>)" for q
    using assms by (auto simp: journal_ids_bounded_def)
  show ?thesis using assms journal_remember_bounded [OF assms] rm
    by (simp add: journal_handle_def Let_def split: prod.split option.split sum.split bool.split)
qed

lemma count_pids: "dc_failed (fst (count_deferred day t cu p b (c, s))) = dc_failed c"
  by (simp add: count_deferred_def)

lemma deferred_bounded:
  assumes "pids_bounded c"
  shows "pids_bounded (fst (deferred_handle clk day line now cu p (c, s)))"
  using assms
  by (auto simp: deferred_handle_def Let_def pids_bounded_def count_pids sender_check_pids_def removeAll_bound
      split: prod.split option.split)

lemma deliver_line_fields:
  "tw_keeper (deliver_line clk day line now w) = tw_keeper w" "tw_refusals (deliver_line clk day line now w) = tw_refusals w"
  "tw_journal (deliver_line clk day line now w) = tw_journal w" "tw_deferred (deliver_line clk day line now w) = tw_deferred w"
  by (simp_all add: deliver_line_def split: option.split prod.split)

lemma match_awaited_fields:
  "tw_keeper (match_awaited now line w) = tw_keeper w" "tw_refusals (match_awaited now line w) = tw_refusals w"
  "tw_journal (match_awaited now line w) = tw_journal w" "tw_deferred (match_awaited now line w) = tw_deferred w"
  by (simp_all add: match_awaited_def Let_def split: option.split prod.split)

lemma with_fields:
  "tw_refusals (with_keeper f w) = tw_refusals w" "tw_journal (with_keeper f w) = tw_journal w" "tw_deferred (with_keeper f w) = tw_deferred w"
  "tw_keeper (with_refusals g w) = tw_keeper w" "tw_journal (with_refusals g w) = tw_journal w" "tw_deferred (with_refusals g w) = tw_deferred w"
  "tw_keeper (with_journal h w) = tw_keeper w" "tw_refusals (with_journal h w) = tw_refusals w" "tw_deferred (with_journal h w) = tw_deferred w"
  "tw_keeper (with_deferred e w) = tw_keeper w" "tw_refusals (with_deferred e w) = tw_refusals w" "tw_journal (with_deferred e w) = tw_journal w"
  "tw_keeper (with_keeper f w) = fst (f (tw_keeper w, tw_store w))" "tw_refusals (with_refusals g w) = fst (g (tw_refusals w, tw_store w))"
  "tw_journal (with_journal h w) = map_option (\<lambda>j. fst (h (j, tw_store w))) (tw_journal w)"
  "tw_deferred (with_deferred e w) = map_option (\<lambda>j. fst (e (j, tw_store w))) (tw_deferred w)"
  by (simp_all add: with_keeper_def with_refusals_def with_journal_def with_deferred_def split: option.split prod.split)


section \<open>What lines do to the send log\<close>

text \<open>An operation of the store that keeps the log's rows to their messages.\<close>

definition store_keeps :: "panel_store \<Rightarrow> panel_store \<Rightarrow> bool" where
  "store_keeps s s' \<longleftrightarrow> (log_inv (ps_mail s) \<longrightarrow> log_inv (ps_mail s') \<and> log_moves (ps_mail s) (ps_mail s'))"

lemma store_keeps_refl [simp]: "store_keeps s s"
  by (simp add: store_keeps_def)

lemma store_keeps_trans: "store_keeps s s' \<Longrightarrow> store_keeps s' s'' \<Longrightarrow> store_keeps s s''"
  unfolding store_keeps_def using log_moves_trans by blast

lemma in_mail_keeps: "log_keeps f \<Longrightarrow> store_keeps s (fst (in_mail f s))"
  using log_keepsD [of f "ps_mail s"] by (auto simp: in_mail_def store_keeps_def split: prod.split sum.split)

lemma set_faults_keeps [simp]: "store_keeps s (set_faults fs s)"
  by (simp add: store_keeps_def set_faults_def)

lemma panel_step_store:
  assumes "\<And>s. ps_mail (fst (f s)) = ps_mail s"
  shows "store_keeps s (fst (panel_step f s))"
proof -
  have "store_keeps s (fst (f s))" for s using assms by (simp add: store_keeps_def)
  then have "store_keeps s (fst (f (set_faults fs s)))" for fs by (blast intro: store_keeps_trans set_faults_keeps)
  with assms show ?thesis by (simp add: panel_step_def store_keeps_def split: list.split bool.split)
qed

lemma insert_lines_keeps: "log_keeps (insert_send_log_lines ls once)"
proof (cases "ls = []")
  case False
  have "log_keeps (log_step (\<lambda>s. let (rows, n) = insert_lines once ls (ms_lines s) 0 in (s\<lparr>ms_lines := rows\<rparr>, Inr n)))"
    by (rule log_keeps_step) (auto simp: log_keeps_def log_inv_def log_moves_def split: prod.split intro: row_moves_refl)
  with False show ?thesis by (simp add: insert_send_log_lines_def)
qed (simp add: insert_send_log_lines_def log_keeps_def)


lemma update_spam_store [intro]: "store_keeps s (fst (update_spam P f s))"
  unfolding update_spam_def by (rule panel_step_store) simp

lemma prune_store: "store_keeps s (fst (prune_inbound_spam c k s))"
proof -
  let ?f = "\<lambda>s. (s\<lparr>ps_spam := (case c of None \<Rightarrow> ps_spam s | Some c \<Rightarrow> filter (\<lambda>r. \<not> sr_created r < c) (ps_spam s))\<rparr>, Inr (length (ps_spam s)))
    :: panel_store \<times> (panel_error + nat)"
  have 1: "store_keeps s (fst (panel_step ?f s))" by (rule panel_step_store) simp
  have 2: "store_keeps s (fst (panel_step (\<lambda>s. (let gone = set (map sr_id (drop k (newest_first (ps_spam s))));
      rows = filter (\<lambda>r. sr_id r \<notin> gone) (ps_spam s) in (s\<lparr>ps_spam := rows\<rparr>, Inr (n - length rows)))) s))" for s n
    by (rule panel_step_store) (simp add: Let_def)
  obtain s1 r where r: "panel_step ?f s = (s1, r)" by fastforce
  show ?thesis using 1 store_keeps_trans [OF 1 2] unfolding prune_inbound_spam_def r by (cases r) simp_all
qed

lemma count_store: "store_keeps s (fst (count_inbound_writes n s))"
proof -
  have w: "store_keeps s (s\<lparr>ps_writes := x\<rparr>)" for x by (simp add: store_keeps_def)
  obtain s2 r where "prune_inbound_spam None inbound_cap_rows (s\<lparr>ps_writes := 0\<rparr>) = (s2, r)" by fastforce
  moreover from this store_keeps_trans [OF w prune_store [of "s\<lparr>ps_writes := 0\<rparr>" None inbound_cap_rows]] have "store_keeps s s2" by simp
  ultimately show ?thesis using w
    by (auto simp add: count_inbound_writes_def Let_def split: prod.split sum.split)
qed

lemma insert_spam_store: "store_keeps s (fst (insert_inbound_spam now e s))"
proof -
  have 1: "store_keeps s (fst (panel_step (\<lambda>s. (append_spam now e s, Inr () :: panel_error + unit)) s))"
    by (rule panel_step_store) simp
  obtain s1 r where r: "panel_step (\<lambda>s. (append_spam now e s, Inr () :: panel_error + unit)) s = (s1, r)" by fastforce
  show ?thesis using 1 store_keeps_trans [OF 1 count_store] unfolding insert_inbound_spam_def r by (cases r) simp_all
qed

lemma insert_once_store: "store_keeps s (fst (insert_inbound_spam_once now e s))"
proof -
  let ?t = "case se_at e of None \<Rightarrow> zero_time | Some t \<Rightarrow> t"
  let ?f = "\<lambda>s. if list_ex (same_row ?t e) (ps_spam s) then (s, Inr False)
      else (append_spam now (e\<lparr>se_queue_id := [], se_upstream := Up_none, se_at := Some ?t\<rparr>) s, Inr True :: panel_error + bool)"
  have 1: "store_keeps s (fst (panel_step ?f s))" by (rule panel_step_store) simp
  obtain s1 r where r: "panel_step ?f s = (s1, r)" by fastforce
  show ?thesis using 1 store_keeps_trans [OF 1 count_store] unfolding insert_inbound_spam_once_def Let_def r
    by (auto simp: count_fst split: sum.split bool.split)
qed

lemma handlers_store:
  "store_keeps s (fst (forget_inbound_queue_id q s))" "store_keeps s (fst (is_inbound_domain ul n s))"
  "store_keeps s (fst (update_inbound_upstream q to u relay reply t s))" "store_keeps s (fst (expire_inbound_upstream q t s))"
  "store_keeps s (fst (add_sender_check_deferred d t k p b s))"
  by (auto simp: forget_inbound_queue_id_def update_inbound_upstream_def expire_inbound_upstream_def is_inbound_domain_def
      add_sender_check_deferred_def intro!: panel_step_store split: if_splits)

lemma journal_handle_store: "store_keeps s (snd (journal_handle clk ul line now cu (j, s)))"
proof -
  have i: "store_keeps s s1" if "is_inbound_domain ul n s = (s1, r)" for n s1 r
    using handlers_store(2) [of s ul n] that by simp
  have o: "store_keeps s (fst (insert_inbound_spam_once now e s1))" "store_keeps s (fst (insert_inbound_spam now e s1))"
    if "is_inbound_domain ul n s = (s1, r)" for n s1 r e
    using store_keeps_trans [OF i [OF that] insert_once_store] store_keeps_trans [OF i [OF that] insert_spam_store] by simp_all
  show ?thesis using o i handlers_store(1)
    by (auto simp: journal_handle_def Let_def split: prod.split option.split sum.split bool.split)
qed

lemma deferred_store: "store_keeps s (snd (deferred_handle clk day line now cu p (c, s)))"
proof -
  have "store_keeps s (snd (count_deferred day t cu p b (c, s)))" for t b c
    using handlers_store(5) by (simp add: count_deferred_def)
  then show ?thesis by (simp add: deferred_handle_def Let_def split: prod.split option.split)
qed

lemma flush_store: "store_keeps s (snd (keeper_flush (k, s)))"
  using in_mail_keeps [OF insert_lines_keeps] by (simp add: keeper_flush_def)

lemma keeper_add_form:
  obtains k1 where "snd (keeper_add clk pick line now cu (k, s)) = s"
  | k1 b g h where "keeper_add clk pick line now cu (k, s) =
      (let ks2 = (if b then apfst g (keeper_flush (k1, s)) else (k1, s)); ks3 = apfst h ks2
       in if length (k_buf (fst ks3)) \<ge> line_batch then keeper_flush ks3 else ks3)"
proof -
  obtain t rest where t: "line_time clk line now = (t, rest)" by fastforce
  show thesis
  proof (cases "find_submatch queue_line_re rest")
    case None
    with t show thesis by (intro that(1)) (simp add: keeper_add_def)
  next
    case (Some m)
    define k1 where "k1 = (if find_submatch smtpd_program_re (group m 1) \<noteq> None \<and> has_prefix ''client='' (group m 3)
        then (if group m 1 = port25_program then k\<lparr>k_port25 := remember_port25 pick (group m 2) (k_port25 k)\<rparr>
              else k\<lparr>k_port25 := removeAll (group m 2) (k_port25 k)\<rparr>) else k)"
    show thesis
    proof (cases "group m 2 \<in> set (k_port25 k1)")
      case True
      then show thesis by (intro that(1))
        (simp only: keeper_add_def t Some Let_def prod.case option.case fst_conv snd_conv if_True flip: k1_def)
    next
      case False
      then show thesis by (intro that(2) [of "cu \<noteq> k_once k1" "\<lambda>k. k\<lparr>k_once := cu\<rparr>" k1
          "\<lambda>k. k\<lparr>k_buf := k_buf k @ [\<lparr>ll_queue_id = group m 2, ll_at = stamp t, ll_line = line\<rparr>]\<rparr>"])
        (simp only: keeper_add_def t Some Let_def prod.case option.case fst_conv snd_conv if_False flip: k1_def)
    qed
  qed
qed

lemma keeper_store: "store_keeps s (snd (keeper_add clk pick line now cu (k, s)))"
proof (cases rule: keeper_add_form [of clk pick line now cu k s])
  case (2 k1 b g h)
  have f: "store_keeps (snd x) (snd (keeper_flush x))" for x using flush_store [of "snd x" "fst x"] by simp
  have ap: "snd (apfst g x) = snd x" for g and x :: "keeper \<times> panel_store" by (cases x) simp
  define ks2 where "ks2 = (if b then apfst g (keeper_flush (k1, s)) else (k1, s))"
  have k2: "store_keeps s (snd ks2)" using f [of "(k1, s)"] by (simp add: ks2_def ap)
  have "store_keeps s (snd (keeper_flush (apfst h ks2)))" using store_keeps_trans [OF k2 f [of "apfst h ks2", unfolded ap]] .
  with k2 show ?thesis unfolding 2 Let_def ks2_def [symmetric] by (simp add: ap)
qed simp

lemma attach_store: "store_keeps s (fst (attach p s))"
  using in_mail_keeps [OF attach_keeps] by (simp add: attach_def split: prod.split sum.split) (metis fst_conv)

lemma refusals_store: "store_keeps s (snd (refusals_handle clk ul line now start (r, s)))"
proof -
  have "store_keeps s s1" if "attach p s = (s1, b)" for p s1 b using attach_store [of s p] that by simp
  then show ?thesis by (simp add: refusals_handle_def Let_def split: prod.split option.split bool.split)
qed

lemma retry_pending_store: "store_keeps s (snd (retry_pending now ps s))"
proof (induction ps arbitrary: s)
  case (Cons p ps)
  obtain s1 b where b: "attach p s = (s1, b)" by fastforce
  from store_keeps_trans [OF _ Cons [of s1]] attach_store [of s p] show ?case by (simp add: b split: prod.split) (metis snd_conv)
qed simp

lemma retry_recover_store: "store_keeps s (snd (retry_recover now ps s))"
proof (induction ps arbitrary: s)
  case (Cons p ps)
  from store_keeps_trans [OF in_mail_keeps [OF recover_keeps] Cons] Cons show ?case
    by (simp split: prod.split) (metis snd_conv)
qed simp

lemma retry_store: "store_keeps s (snd (refusals_retry now (r, s)))"
proof -
  obtain kept s1 where k: "retry_pending now (rf_pending r) s = (kept, s1)" by fastforce
  obtain w s2 where w: "retry_recover now (rf_recover r) s1 = (w, s2)" by fastforce
  from store_keeps_trans [of s s1 s2] retry_pending_store [of s now "rf_pending r"] retry_recover_store [of s1 now "rf_recover r"]
  show ?thesis by (simp add: refusals_retry_def k w)
qed

lemma parsed_not_rejected: "parse_delivery line = Some (q, to, st) \<Longrightarrow> st \<noteq> Status_rejected"
  by (auto simp: parse_delivery_def status_word_def split: option.splits if_splits)

lemma deliver_line_store: "store_keeps (tw_store w) (tw_store (deliver_line clk day line now w))"
proof (cases "parse_delivery line")
  case None
  show ?thesis
  proof (cases "parse_expiry line")
    case (Some q)
    obtain s n where m: "in_mail (expire_message (stamp now) q) (tw_store w) = (s, n)" by fastforce
    have 1: "store_keeps (tw_store w) s" using in_mail_keeps [OF expire_message_keeps] m by (metis fst_conv)
    then show ?thesis using store_keeps_trans [OF 1 handlers_store(4)]
      by (simp add: deliver_line_def None Some m journal_expired_def)
  qed (simp add: deliver_line_def None)
next
  case (Some r)
  obtain q to st where r: "r = (q, to, st)" by (cases r)
  obtain s n where m: "in_mail (update_status (stamp now) (day now) q to st) (tw_store w) = (s, n)" by fastforce
  have "st \<noteq> Status_rejected" using parsed_not_rejected Some r by simp
  then have 1: "store_keeps (tw_store w) s" using in_mail_keeps [OF update_status_keeps] m by (metis fst_conv)
  then show ?thesis using store_keeps_trans [OF 1 handlers_store(3)]
    by (simp add: deliver_line_def Some r m journal_upstream_def split: prod.split)
qed

lemma match_store: "store_keeps (tw_store w) (tw_store (match_awaited now line w))"
  using in_mail_keeps [OF set_send_log_queue_id_keeps] by (simp add: match_awaited_def Let_def split: prod.split option.split)

lemma with_store:
  "(\<And>k s. store_keeps s (snd (f (k, s)))) \<Longrightarrow> store_keeps (tw_store w) (tw_store (with_keeper f w))"
  "(\<And>k s. store_keeps s (snd (g (k, s)))) \<Longrightarrow> store_keeps (tw_store w) (tw_store (with_refusals g w))"
  "(\<And>k s. store_keeps s (snd (h (k, s)))) \<Longrightarrow> store_keeps (tw_store w) (tw_store (with_journal h w))"
  "(\<And>k s. store_keeps s (snd (e (k, s)))) \<Longrightarrow> store_keeps (tw_store w) (tw_store (with_deferred e w))"
  by (simp_all add: with_keeper_def with_refusals_def with_journal_def with_deferred_def split: option.split prod.split) (metis snd_conv)+

lemma tail_act_store: "store_keeps (tw_store w) (tw_store (tail_act clk ul day pick e w))"
proof (cases e)
  case (Line now cu p start line)
  show ?thesis unfolding Line tail_act.simps tail_line_def
    by (rule store_keeps_trans [OF _ deliver_line_store] store_keeps_trans [OF _ match_store]
        store_keeps_trans [OF _ with_store(2)] store_keeps_trans [OF _ with_store(1)] store_keeps_trans [OF _ with_store(4)]
        with_store(3) journal_handle_store deferred_store keeper_store refusals_store)+
next
  case (Pass now)
  show ?thesis unfolding Pass tail_act.simps tail_flush_def
    by (rule store_keeps_trans [OF _ with_store(2)] with_store(1) flush_store retry_store)+
qed

text \<open>
  C25. Whatever is written to mail.log, forged or not, the send log keeps its history: ids stay distinct,
  a row keeps its message, a refused message's row is never turned into a delivered one nor another
  into a refused one, and an attached refusal line stays.
\<close>

theorem any_log_keeps_history:
  assumes "log_inv (ps_mail (tw_store w))"
    "r' \<in> set (ms_rows (ps_mail (tw_store (fold (tail_act clk ul day pick) es w))))" "lr_id r' < ms_next (ps_mail (tw_store w))"
  shows "log_inv (ps_mail (tw_store (fold (tail_act clk ul day pick) es w))) \<and>
    (\<exists>r \<in> set (ms_rows (ps_mail (tw_store w))). row_moves r r')"
proof -
  have "store_keeps (tw_store w) (tw_store (fold (tail_act clk ul day pick) es w))"
    by (induction es arbitrary: w) (simp_all, blast intro: store_keeps_trans tail_act_store)
  with assms show ?thesis by (auto simp: store_keeps_def log_moves_def)
qed

section \<open>From a line to its row\<close>

lemma update_status_row:
  assumes "db_faults (ms_db s) = []" "r \<in> set (ms_rows s)" "newest q to s r"
  shows "\<exists>s' n. update_status now day q to st s = (s', Inr n) \<and> n > 0 \<and>
    (\<exists>r' \<in> set (ms_rows s'). lr_id r' = lr_id r \<and> lr_status r' = st \<and> lr_updated r' = now \<and> lr_queue_id r' = q)"
proof -
  define g where "g = (\<lambda>r. if newest q to s r \<and> lr_reason r = Some Reason_reconcile then r\<lparr>lr_reason := Some Reason_contradicted\<rparr> else r)"
  define s1 where "s1 = update_rows (\<lambda>r. newest q to s r \<and> lr_reason r = Some Reason_reconcile) (\<lambda>r. r\<lparr>lr_reason := Some Reason_contradicted\<rparr>) s"
  have rows: "ms_rows s1 = map g (ms_rows s)" by (simp add: s1_def update_rows_def g_def)
  have g: "lr_id (g x) = lr_id x" "lr_queue_id (g x) = lr_queue_id x" "lr_to (g x) = lr_to x" "lr_status (g x) = lr_status x" for x
    by (simp_all add: g_def)
  have n: "newest q to s1 (g r)" using assms(3) by (auto simp: newest_def Let_def list_all_iff rows g)
  have in1: "g r \<in> set (ms_rows s1)" using assms(2) by (simp add: rows)
  define s2 where "s2 = update_rows (newest q to s1) (\<lambda>r. r\<lparr>lr_status := st, lr_updated := now\<rparr>) s1"
  have in2: "(g r)\<lparr>lr_status := st, lr_updated := now\<rparr> \<in> set (ms_rows s2)"
    using in1 n by (auto simp: s2_def in_update_rows intro!: bexI [of _ "g r"])
  have pos: "count_rows (newest q to s1) s1 > 0" using in1 n by (auto simp: count_rows_def length_greater_0_conv filter_empty_conv)
  have q: "lr_queue_id r = q" using assms(3) by (simp add: newest_def Let_def)
  obtain s3 where s3: "update_status now day q to st s = (s3, Inr (count_rows (newest q to s1) s1))" "ms_rows s3 = ms_rows s2"
    using assms(1) by (auto simp: update_status_def log_step_def Let_def s1_def s2_def)
  show ?thesis
    by (rule exI [of _ s3], rule exI [of _ "count_rows (newest q to s1) s1"])
      (use s3 pos in2 g q in \<open>auto intro!: bexI [of _ "(g r)\<lparr>lr_status := st, lr_updated := now\<rparr>"]\<close>)
qed



text \<open>A test message's queue id is taken once, and never after its time.\<close>

lemma awaited_once:
  assumes "take_awaited now rest aw = (aw1, Some (q, row))"
  obtains mid since where "aw mid = Some (row, since)" "now - since \<le> awaited_ttl" "aw1 = aw(mid := None)"
  using assms by (auto simp: take_awaited_def split: option.splits prod.splits if_splits)

section \<open>Witnesses of the tailer's run\<close>

definition ex_row_queued :: log_row where
  "ex_row_queued = \<lparr>lr_id = 1, lr_queue_id = ''4bX'', lr_domain = ''b.io'', lr_domain_id = None, lr_login = ''app'', lr_from = ''x@b.io'',
     lr_to = ''a@b'', lr_subject = [], lr_status = Status_queued, lr_reason = None, lr_header_from = [], lr_client_ip = [],
     lr_refusal_line = [], lr_recovered = False, lr_created = 0, lr_updated = 0\<rparr>"

definition ex_logged :: tailer where
  "ex_logged = ex_tailer\<lparr>tw_store := ex_panel\<lparr>ps_mail := (ps_mail ex_panel)\<lparr>ms_rows := [ex_row_queued], ms_next := 2\<rparr>\<rparr>\<rparr>"

definition ex_result :: string where
  "ex_result = ''Sep  1 10:11:12'' @ '' '' @ delivery_line ''mx'' ''smtp'' ''42'' ''4bX'' ''a@b'' None ''none'' '', dsn=2.0.0, '' ''sent''
     ('' ('' @ ''250 ok'' @ '')'')"



theorem any_log_keeps_history_witness:
  "\<exists>r \<in> set (ms_rows (ps_mail (tw_store ex_logged))). row_moves r (hd (ms_rows (ps_mail (tw_store
     (fold (tail_act (\<lambda>_ _ _. None) id (\<lambda>_. []) hd) [Pass 0] ex_logged)))))"
proof -
  have i: "log_inv (ps_mail (tw_store ex_logged))" by (simp add: ex_logged_def log_inv_def ex_row_queued_def refusal_lines_def)
  have r: "hd (ms_rows (ps_mail (tw_store (fold (tail_act (\<lambda>_ _ _. None) id (\<lambda>_. []) hd) [Pass 0] ex_logged)))) \<in>
      set (ms_rows (ps_mail (tw_store (fold (tail_act (\<lambda>_ _ _. None) id (\<lambda>_. []) hd) [Pass 0] ex_logged))))"
    "lr_id (hd (ms_rows (ps_mail (tw_store (fold (tail_act (\<lambda>_ _ _. None) id (\<lambda>_. []) hd) [Pass 0] ex_logged))))) < ms_next (ps_mail (tw_store ex_logged))"
    by (code_simp, code_simp)
  from any_log_keeps_history [OF i r] show ?thesis by blast
qed

end
