(* ===== verification/Inbound_Service.thy ===== *)
theory Inbound_Service
  imports App_Service Inbound_Store Postfix_Time
begin

text \<open>
  The inbound domains: \<open>internal/postfix/inbound.go\<close>, which renders the four lookup tables of the
  relay, and \<open>internal/inbound/service.go\<close>, which keeps them in step with the registry. The tables on
  disk are \<open>iw_files\<close>, by name; what Postfix has taken up at its last reload is \<open>iw_live\<close>. A write or a
  reload fails as \<open>iw_faults\<close> says, a statement as the store's own faults do.

  What the lemmas show: the tables route exactly the domains that have an upstream, each to its own,
  with one TLS policy for a next hop; a change that succeeds leaves disk and Postfix with the tables
  of the registry; domains with one upstream share its TLS mode. A change that fails after its first
  statement is not undone (only a new domain is), so the rows may run ahead of the tables until the
  next resync.
\<close>

section \<open>The tables\<close>

record inbound_route =
  ro_domain :: string
  ro_host :: string
  ro_port :: int
  ro_tls :: string
  ro_mode :: string
  ro_recipients :: "string list"

datatype map_error = Bad_token token_error | Bad_port int | Bad_tls string | Bad_mode string

definition texthash_forbidden :: string where
  "texthash_forbidden = [CHR '' '', CHR 0x09, CHR 0x0D, CHR 0x0A, CHR '','', CHR 0x5C]"

definition assert_map_token :: "string \<Rightarrow> string \<Rightarrow> map_error option" where
  "assert_map_token v what = map_option Bad_token (config_token what v texthash_forbidden)"

fun first_fault :: "'e option list \<Rightarrow> 'e option" where
  "first_fault [] = None"
| "first_fault (Some e # es) = Some e"
| "first_fault (None # es) = first_fault es"

definition assert_inbound_route_safe :: "inbound_route \<Rightarrow> map_error option" where
  "assert_inbound_route_safe r =
     first_fault ([assert_map_token (ro_domain r) ''domain'', assert_map_token (ro_host r) ''host'',
       if ro_port r < 1 \<or> ro_port r > 65535 then Some (Bad_port (ro_port r)) else None,
       if ro_tls r \<notin> set tls_modes then Some (Bad_tls (ro_tls r)) else None,
       if ro_mode r \<noteq> ''list'' \<and> ro_mode r \<noteq> ''any'' then Some (Bad_mode (ro_mode r)) else None] @
       map (\<lambda>a. assert_map_token a ''recipient'') (ro_recipients r))"

definition inbound_nexthop :: "string \<Rightarrow> int \<Rightarrow> string" where
  "inbound_nexthop host port = ''['' @ host @ '']:'' @ show_nat (nat port)"

definition table_line :: "string \<Rightarrow> string \<Rightarrow> string" where
  "table_line k v = k @ '' '' @ v @ [newline]"

definition recipient_lines :: "inbound_route \<Rightarrow> string" where
  "recipient_lines r =
     (if ro_mode r = ''any'' then table_line (''@'' @ ro_domain r) ''OK''
      else concat (map (\<lambda>a. table_line a ''OK'') (sort (ro_recipients r))))"

text \<open>The loop over the sorted routes; \<open>seen\<close> are the next hops with a TLS line already.\<close>

fun render_routes :: "string list \<Rightarrow> inbound_route list \<Rightarrow> map_error + (string \<times> string \<times> string \<times> string)" where
  "render_routes seen [] = Inr ([], [], [], [])"
| "render_routes seen (r # rs) =
     (if trim_space (ro_host r) = [] then render_routes seen rs
      else (case assert_inbound_route_safe r of
              Some e \<Rightarrow> Inl e
            | None \<Rightarrow>
                (let hop = inbound_nexthop (ro_host r) (ro_port r)
                 in case render_routes (if hop \<in> set seen then seen else hop # seen) rs of
                      Inl e \<Rightarrow> Inl e
                    | Inr (relay, transport, recip, tls) \<Rightarrow>
                        Inr (table_line (ro_domain r) ''OK'' @ relay,
                             table_line (ro_domain r) (''smtp:'' @ hop) @ transport,
                             recipient_lines r @ recip,
                             (if hop \<in> set seen then [] else table_line hop (ro_tls r)) @ tls))))"

definition render_inbound_maps :: "inbound_route list \<Rightarrow> map_error + (string \<times> string \<times> string \<times> string)" where
  "render_inbound_maps routes = render_routes [] (sort_key ro_domain routes)"

section \<open>Writing them\<close>

record inbound_world =
  iw_store :: panel_store
  iw_files :: "string \<Rightarrow> string option"
  iw_live :: "string \<Rightarrow> string option"
  iw_faults :: "bool list"

datatype inbound_error =
    Refused verror
  | Panel panel_error
  | Unsafe map_error
  | Upstream_shared string string string
  | Failed_command

type_synonym 'a in_op = "inbound_world \<Rightarrow> inbound_world \<times> (inbound_error + 'a)"

definition on_panel :: "'a panel_op \<Rightarrow> 'a in_op" where
  "on_panel f w =
     (case f (iw_store w) of
        (s, Inl e) \<Rightarrow> (w\<lparr>iw_store := s\<rparr>, Inl (Panel e))
      | (s, Inr x) \<Rightarrow> (w\<lparr>iw_store := s\<rparr>, Inr x))"

definition in_command :: "(inbound_world \<Rightarrow> inbound_world) \<Rightarrow> unit in_op" where
  "in_command f w =
     (case iw_faults w of
        [] \<Rightarrow> (f w, Inr ())
      | True # fs \<Rightarrow> (w\<lparr>iw_faults := fs\<rparr>, Inl Failed_command)
      | False # fs \<Rightarrow> (f (w\<lparr>iw_faults := fs\<rparr>), Inr ()))"

text \<open>\<open>writeChanged\<close>: each file that holds something else; the first failure ends it.\<close>

fun write_changed :: "(string \<times> string) list \<Rightarrow> bool in_op" where
  "write_changed [] w = (w, Inr False)"
| "write_changed ((path, data) # fs) w =
     (if iw_files w path = Some data then write_changed fs w
      else andthen (in_command (\<lambda>w. w\<lparr>iw_files := (iw_files w)(path := Some data)\<rparr>))
             (\<lambda>_. andthen (write_changed fs) (\<lambda>_ w. (w, Inr True))) w)"

definition map_files :: "string \<times> string \<times> string \<times> string \<Rightarrow> (string \<times> string) list" where
  "map_files t =
     (case t of (relay, transport, recip, tls) \<Rightarrow>
        [(''relay_domains'', relay), (''transport'', transport), (''relay_recipients'', recip), (''tls_policy'', tls)])"

definition rebuild_inbound_maps :: "inbound_route list \<Rightarrow> unit in_op" where
  "rebuild_inbound_maps routes w =
     (case render_inbound_maps routes of
        Inl e \<Rightarrow> (w, Inl (Unsafe e))
      | Inr t \<Rightarrow> andthen (write_changed (map_files t))
           (\<lambda>changed w. if changed then in_command (\<lambda>w. w\<lparr>iw_live := iw_files w\<rparr>) w else (w, Inr ())) w)"

section \<open>The service\<close>

definition route_of :: "inbound_domain \<Rightarrow> inbound_route" where
  "route_of d = \<lparr>ro_domain = i_name d, ro_host = i_host d, ro_port = i_port d, ro_tls = i_tls d,
     ro_mode = i_mode d, ro_recipients = i_recipients d\<rparr>"

fun get_each :: "inbound_domain list \<Rightarrow> inbound_route list in_op" where
  "get_each [] w = (w, Inr [])"
| "get_each (d # ds) w =
     andthen (on_panel (get_inbound_domain (i_id d)))
       (\<lambda>full. andthen (get_each ds) (\<lambda>rs w. (w, Inr (route_of full # rs)))) w"

definition resync_inbound :: "unit in_op" where
  "resync_inbound = andthen (on_panel list_inbound_domains) (\<lambda>ds. andthen (get_each ds) rebuild_inbound_maps)"

definition refuse :: "verror option \<Rightarrow> unit in_op" where
  "refuse e w = (case e of Some e \<Rightarrow> (w, Inl (Refused e)) | None \<Rightarrow> (w, Inr ()))"

definition add_inbound :: "(string \<Rightarrow> string) \<Rightarrow> int \<Rightarrow> string \<Rightarrow> inbound_domain in_op" where
  "add_inbound ul now raw =
     (let name = normalize_domain ul raw
      in andthen (refuse (check_inbound_domain name)) (\<lambda>_. andthen (on_panel (add_inbound_domain now name)) (\<lambda>d w.
           case resync_inbound w of
             (w1, Inl e) \<Rightarrow> (quietly (on_panel (delete_inbound_domain (i_id d))) w1, Inl e)
           | (w1, Inr _) \<Rightarrow> (w1, Inr d))))"

text \<open>The other domains of the same upstream that have another mode; one that may not change refuses all.\<close>

definition shares_upstream :: "(string \<Rightarrow> string) \<Rightarrow> nat \<Rightarrow> string \<Rightarrow> int \<Rightarrow> string \<Rightarrow> inbound_domain \<Rightarrow> bool" where
  "shares_upstream ul i host port tls d \<longleftrightarrow>
     i_id d \<noteq> i \<and> i_port d = port \<and> normalize_host ul (i_host d) = host \<and> i_tls d \<noteq> tls"

fun sharing ::
  "(inbound_domain \<Rightarrow> bool) \<Rightarrow> (inbound_domain \<Rightarrow> bool) \<Rightarrow> string \<Rightarrow> inbound_domain list \<Rightarrow> inbound_error + inbound_domain list" where
  "sharing shares may hop [] = Inr []"
| "sharing shares may hop (d # ds) =
     (if \<not> shares d then sharing shares may hop ds
      else if \<not> may d then Inl (Upstream_shared hop (i_tls d) (i_name d))
      else (case sharing shares may hop ds of Inl e \<Rightarrow> Inl e | Inr os \<Rightarrow> Inr (d # os)))"

fun update_others :: "string \<Rightarrow> inbound_domain list \<Rightarrow> unit in_op" where
  "update_others tls [] w = (w, Inr ())"
| "update_others tls (d # ds) w =
     andthen (on_panel (update_inbound_transport (i_id d) (i_host d) (i_port d) tls)) (\<lambda>_. update_others tls ds) w"

definition set_transport_as ::
  "(string \<Rightarrow> string) \<Rightarrow> nat \<Rightarrow> string \<Rightarrow> string \<Rightarrow> string \<Rightarrow> (inbound_domain \<Rightarrow> bool) \<Rightarrow> nat in_op" where
  "set_transport_as ul i host0 port_raw tls may =
     andthen (on_panel (get_inbound_domain i)) (\<lambda>_.
       let host = normalize_host ul host0
       in andthen (refuse (check_host host)) (\<lambda>_ w.
            case parse_port port_raw of
              Inl e \<Rightarrow> (w, Inl (Refused e))
            | Inr port \<Rightarrow>
                andthen (refuse (check_tls_mode tls)) (\<lambda>_. andthen (refuse (check_secure_host host tls)) (\<lambda>_.
                andthen (on_panel list_inbound_domains) (\<lambda>ds w.
                  case sharing (shares_upstream ul i host (int port) tls) may (inbound_nexthop host (int port)) ds of
                    Inl e \<Rightarrow> (w, Inl e)
                  | Inr others \<Rightarrow>
                      andthen (on_panel (update_inbound_transport i host (int port) tls)) (\<lambda>_.
                      andthen (update_others tls others) (\<lambda>_.
                      andthen resync_inbound (\<lambda>_ w. (w, Inr (length others))))) w))) w))"

definition set_transport :: "(string \<Rightarrow> string) \<Rightarrow> nat \<Rightarrow> string \<Rightarrow> string \<Rightarrow> string \<Rightarrow> unit in_op" where
  "set_transport ul i host port_raw tls =
     andthen (set_transport_as ul i host port_raw tls (\<lambda>_. True)) (\<lambda>_ w. (w, Inr ()))"

fun recipient_loop :: "(string \<Rightarrow> string) \<Rightarrow> string \<Rightarrow> string list \<Rightarrow> string list \<Rightarrow> verror + string list" where
  "recipient_loop ul domain out [] = Inr out"
| "recipient_loop ul domain out (r # raw) =
     (let addr = to_lower ul (trim_space r)
      in if addr = [] then recipient_loop ul domain out raw
         else (case check_mailbox addr domain of
                 Some e \<Rightarrow> Inl e
               | None \<Rightarrow> recipient_loop ul domain (if addr \<in> set out then out else out @ [addr]) raw))"

definition parse_recipient_addresses :: "(string \<Rightarrow> string) \<Rightarrow> string list \<Rightarrow> string \<Rightarrow> verror + string list" where
  "parse_recipient_addresses ul raw domain =
     (case recipient_loop ul domain [] raw of
        Inl e \<Rightarrow> Inl e
      | Inr [] \<Rightarrow> Inl (Msg ''listed-recipients mode requires at least one address'')
      | Inr out \<Rightarrow> Inr out)"

definition set_recipients :: "(string \<Rightarrow> string) \<Rightarrow> nat \<Rightarrow> string \<Rightarrow> string list \<Rightarrow> unit in_op" where
  "set_recipients ul i mode raw =
     andthen (on_panel (get_inbound_domain i)) (\<lambda>d. andthen (refuse (check_recipient_mode mode)) (\<lambda>_ w.
       case (if mode = ''list'' then parse_recipient_addresses ul raw (i_name d) else Inr []) of
         Inl e \<Rightarrow> (w, Inl (Refused e))
       | Inr addrs \<Rightarrow> andthen (on_panel (update_inbound_recipients i mode addrs)) (\<lambda>_. resync_inbound) w))"

definition delete_inbound :: "nat \<Rightarrow> unit in_op" where
  "delete_inbound i = andthen (on_panel (delete_inbound_domain i)) (\<lambda>_. resync_inbound)"

section \<open>Reading a table\<close>

text \<open>
  A reader of the files as Postfix takes a texthash table: a line is a key, a blank and a value, and
  of two lines with one key the first stands.
\<close>

definition table_entry :: "string \<Rightarrow> string \<times> string" where
  "table_entry l = (case index_of CHR '' '' l of None \<Rightarrow> (l, []) | Some n \<Rightarrow> (take n l, drop (n + 1) l))"

definition table_value :: "string \<Rightarrow> string \<Rightarrow> string option" where
  "table_value t k = map_of (map table_entry (split_on newline t)) k"

definition plain_pair :: "string \<times> string \<Rightarrow> bool" where
  "plain_pair kv \<longleftrightarrow> fst kv \<noteq> [] \<and> newline \<notin> set (fst kv) \<and> CHR '' '' \<notin> set (fst kv) \<and> newline \<notin> set (snd kv)"

lemma blank_not_newline [simp]: "newline \<noteq> CHR '' ''" "CHR '' '' \<noteq> newline"
  by (simp_all add: newline_def)

lemma index_of_blank: "CHR '' '' \<notin> set k \<Longrightarrow> index_of CHR '' '' (k @ CHR '' '' # v) = Some (length k)"
  by (induction k) auto

lemma table_value_lines:
  assumes "list_all plain_pair kvs" "k \<noteq> []"
  shows "table_value (concat (map (\<lambda>kv. table_line (fst kv) (snd kv)) kvs)) k = map_of kvs k"
  using assms(1)
proof (induction kvs)
  case Nil
  show ?case using assms(2) by (simp add: table_value_def split_on_def table_entry_def)
next
  case (Cons kv kvs)
  have l: "table_line (fst kv) (snd kv) = (fst kv @ '' '' @ snd kv) @ [newline]" by (simp add: table_line_def)
  have "newline \<notin> set (fst kv @ '' '' @ snd kv)" using Cons.prems by (auto simp: plain_pair_def)
  from split_on_append [OF this] have s: "split_on newline (table_line (fst kv) (snd kv) @ t) = (fst kv @ '' '' @ snd kv) # split_on newline t" for t
    by (simp add: l)
  have e: "table_entry (fst kv @ '' '' @ snd kv) = kv"
    using Cons.prems by (simp add: table_entry_def plain_pair_def index_of_blank)
  have ih: "table_value (concat (map (\<lambda>kv. table_line (fst kv) (snd kv)) kvs)) k = map_of kvs k" using Cons by simp
  have "table_value (table_line (fst kv) (snd kv) @ concat (map (\<lambda>kv. table_line (fst kv) (snd kv)) kvs)) k =
      (if k = fst kv then Some (snd kv) else map_of kvs k)"
    unfolding table_value_def s list.map e ih [unfolded table_value_def, symmetric] by (cases kv) simp
  then show ?case by (cases kv) simp
qed

section \<open>What is rendered\<close>

definition has_upstream :: "inbound_route \<Rightarrow> bool" where
  "has_upstream r \<longleftrightarrow> trim_space (ro_host r) \<noteq> []"

abbreviation hop :: "inbound_route \<Rightarrow> string" where
  "hop r \<equiv> inbound_nexthop (ro_host r) (ro_port r)"

fun policies :: "string list \<Rightarrow> inbound_route list \<Rightarrow> (string \<times> string) list" where
  "policies seen [] = []"
| "policies seen (r # rs) =
     (if hop r \<in> set seen then policies seen rs else (hop r, ro_tls r) # policies (hop r # seen) rs)"

definition recipient_pairs :: "inbound_route \<Rightarrow> (string \<times> string) list" where
  "recipient_pairs r =
     (if ro_mode r = ''any'' then [(''@'' @ ro_domain r, ''OK'')] else map (\<lambda>a. (a, ''OK'')) (sort (ro_recipients r)))"

abbreviation lines_of :: "(string \<times> string) list \<Rightarrow> string" where
  "lines_of kvs \<equiv> concat (map (\<lambda>kv. table_line (fst kv) (snd kv)) kvs)"

lemma first_fault_None: "first_fault es = None \<longleftrightarrow> (\<forall>e \<in> set es. e = None)"
  by (induction es rule: first_fault.induct) auto

definition safe_route :: "inbound_route \<Rightarrow> bool" where
  "safe_route r \<longleftrightarrow> assert_inbound_route_safe r = None"

lemma safe_tokens:
  "safe_route r \<longleftrightarrow> (\<forall>v \<in> set (ro_domain r # ro_host r # ro_recipients r). v \<noteq> [] \<and> set v \<inter> set texthash_forbidden = {}) \<and>
     1 \<le> ro_port r \<and> ro_port r \<le> 65535 \<and> ro_tls r \<in> set tls_modes \<and> ro_mode r \<in> set recipient_modes"
  by (auto simp: safe_route_def assert_inbound_route_safe_def first_fault_None assert_map_token_def config_token_None recipient_modes_def)

lemma render_routes_Inr:
  "render_routes seen rs = Inr t \<longleftrightarrow>
     (let hs = filter has_upstream rs in list_all safe_route hs \<and>
      t = (lines_of (map (\<lambda>r. (ro_domain r, ''OK'')) hs), lines_of (map (\<lambda>r. (ro_domain r, ''smtp:'' @ hop r)) hs),
           lines_of (concat (map recipient_pairs hs)), lines_of (policies seen hs)))"
proof (induction seen rs arbitrary: t rule: render_routes.induct)
  case (2 seen r rs)
  show ?case
  proof (cases "has_upstream r")
    case False
    with 2(1) show ?thesis by (simp add: has_upstream_def)
  next
    case True
    show ?thesis
    proof (cases "assert_inbound_route_safe r")
      case (Some e)
      with True show ?thesis by (simp add: has_upstream_def safe_route_def)
    next
      case None
      have rl: "lines_of (recipient_pairs r) = recipient_lines r"
        by (simp add: recipient_pairs_def recipient_lines_def comp_def)
      have cl: "lines_of (a @ b) = lines_of a @ lines_of b" for a b by simp
      note ih = 2(2) [OF _ None refl]
      have t: "trim_space (ro_host r) \<noteq> []" using True by (simp add: has_upstream_def)
      let ?seen = "if hop r \<in> set seen then seen else hop r # seen"
      show ?thesis
      proof (cases "render_routes ?seen rs")
        case (Inl e)
        then have "\<not> list_all safe_route (filter has_upstream rs)" using ih [of "(_, _, _, _)"] t by (auto simp: Let_def)
        with Inl None t True show ?thesis by (simp add: Let_def)
      next
        case (Inr u)
        with ih [of u] t None True show ?thesis
          by (cases u) (auto simp: Let_def safe_route_def rl)
      qed
    qed
  qed
qed auto


lemma token_plain:
  assumes "set v \<inter> set texthash_forbidden = {}"
  shows "newline \<notin> set v" "CHR '' '' \<notin> set v"
  using assms by (auto simp: texthash_forbidden_def newline_def)

lemma hop_plain:
  assumes "safe_route r"
  shows "newline \<notin> set (hop r)" "CHR '' '' \<notin> set (hop r)" "hop r \<noteq> []"
proof -
  have "set (ro_host r) \<inter> set texthash_forbidden = {}" using assms by (simp add: safe_tokens)
  from token_plain [OF this] show "newline \<notin> set (hop r)" and "CHR '' '' \<notin> set (hop r)" and "hop r \<noteq> []"
    using show_nat_digits [of newline "nat (ro_port r)"] show_nat_digits [of "CHR '' ''" "nat (ro_port r)"]
    by (auto simp: inbound_nexthop_def newline_def is_digit_def)
qed

lemma pairs_plain:
  assumes "safe_route r"
  shows "plain_pair (ro_domain r, ''OK'')" "plain_pair (ro_domain r, ''smtp:'' @ hop r)" "list_all plain_pair (recipient_pairs r)"
    "plain_pair (hop r, ro_tls r)"
proof -
  have d: "ro_domain r \<noteq> []" "set (ro_domain r) \<inter> set texthash_forbidden = {}" using assms by (simp_all add: safe_tokens)
  have a: "a \<noteq> [] \<and> newline \<notin> set a \<and> CHR '' '' \<notin> set a" if "a \<in> set (ro_recipients r)" for a
    using assms that token_plain [of a] by (simp add: safe_tokens)
  have t: "newline \<notin> set (ro_tls r)" using assms by (auto simp: safe_tokens tls_modes_def newline_def)
  note p = d(1) token_plain [OF d(2)] hop_plain [OF assms]
  show "plain_pair (ro_domain r, ''OK'')" "plain_pair (ro_domain r, ''smtp:'' @ hop r)" "plain_pair (hop r, ro_tls r)"
    using p t by (auto simp: plain_pair_def newline_def)
  show "list_all plain_pair (recipient_pairs r)"
    using p a by (auto simp: recipient_pairs_def plain_pair_def list_all_iff newline_def)
qed

lemma policies_sub: "set (policies seen rs) \<subseteq> (\<lambda>r. (hop r, ro_tls r)) ` set rs"
  by (induction seen rs rule: policies.induct) auto

lemma policies_map: "map_of (policies seen rs) h = (if h \<in> set seen then None else map_of (map (\<lambda>r. (hop r, ro_tls r)) rs) h)"
  by (induction seen rs rule: policies.induct) auto

lemma policies_once: "distinct (map fst (policies seen rs)) \<and> fst ` set (policies seen rs) \<inter> set seen = {}"
  by (induction seen rs rule: policies.induct) auto

lemma first_least:
  assumes "sorted (map f xs)" "x \<in> set xs" "P x"
  obtains y where "y \<in> set xs" "P y" "find P xs = Some y" "\<forall>z \<in> set xs. P z \<longrightarrow> f y \<le> f z"
  using assms
proof (induction xs arbitrary: thesis)
  case (Cons a xs)
  show ?case
  proof (cases "P a")
    case True
    with Cons.prems(2) show ?thesis by (intro Cons.prems(1) [of a]) auto
  next
    case False
    with Cons.prems have "x \<in> set xs" "sorted (map f xs)" by auto
    from Cons.IH [OF _ this(2,1) Cons.prems(4)] obtain y where "y \<in> set xs" "P y" "find P xs = Some y" "\<forall>z \<in> set xs. P z \<longrightarrow> f y \<le> f z" by blast
    with False show ?thesis by (intro Cons.prems(1) [of y]) auto
  qed
qed simp

lemma map_of_find: "map_of (map (\<lambda>r. (f r, g r)) rs) h = map_option g (find (\<lambda>r. f r = h) rs)"
  by (induction rs) auto

lemma rendered_tables:
  assumes "render_inbound_maps routes = Inr (relay, transport, recip, tls)"
  defines "hs \<equiv> filter has_upstream (sort_key ro_domain routes)"
  shows "list_all safe_route hs"
    and "d \<noteq> [] \<Longrightarrow> table_value relay d = map_of (map (\<lambda>r. (ro_domain r, ''OK'')) hs) d"
    and "d \<noteq> [] \<Longrightarrow> table_value transport d = map_of (map (\<lambda>r. (ro_domain r, ''smtp:'' @ hop r)) hs) d"
    and "d \<noteq> [] \<Longrightarrow> table_value recip d = map_of (concat (map recipient_pairs hs)) d"
    and "d \<noteq> [] \<Longrightarrow> table_value tls d = map_option ro_tls (find (\<lambda>r. hop r = d) hs)"
proof -
  from assms(1) have r: "list_all safe_route hs" "relay = lines_of (map (\<lambda>r. (ro_domain r, ''OK'')) hs)"
    "transport = lines_of (map (\<lambda>r. (ro_domain r, ''smtp:'' @ hop r)) hs)" "recip = lines_of (concat (map recipient_pairs hs))"
    "tls = lines_of (policies [] hs)" by (simp_all add: render_inbound_maps_def render_routes_Inr hs_def Let_def)
  show "list_all safe_route hs" by (rule r(1))
  have safe: "safe_route r" if "r \<in> set hs" for r using r(1) that by (simp add: list_all_iff)
  show "d \<noteq> [] \<Longrightarrow> table_value relay d = map_of (map (\<lambda>r. (ro_domain r, ''OK'')) hs) d"
    unfolding r(2) by (rule table_value_lines) (use safe pairs_plain(1) in \<open>simp_all add: list_all_iff\<close>)
  show "d \<noteq> [] \<Longrightarrow> table_value transport d = map_of (map (\<lambda>r. (ro_domain r, ''smtp:'' @ hop r)) hs) d"
    unfolding r(3) by (rule table_value_lines) (use safe pairs_plain(2) in \<open>simp_all add: list_all_iff\<close>)
  have "list_all plain_pair (concat (map recipient_pairs hs))"
    using safe pairs_plain(3) by (auto simp: list_all_iff)
  then show "d \<noteq> [] \<Longrightarrow> table_value recip d = map_of (concat (map recipient_pairs hs)) d"
    unfolding r(4) by (rule table_value_lines)
  have "list_all plain_pair (policies [] hs)" unfolding list_all_iff using policies_sub [of "[]" hs] safe pairs_plain(4) by blast
  from table_value_lines [OF this, of d] show "d \<noteq> [] \<Longrightarrow> table_value tls d = map_option ro_tls (find (\<lambda>r. hop r = d) hs)"
    unfolding r(5) by (simp add: policies_map map_of_find)
qed

lemma in_hosted: "r \<in> set (filter has_upstream (sort_key ro_domain routes)) \<longleftrightarrow> r \<in> set routes \<and> has_upstream r"
  by simp

lemma hosted_domains:
  assumes "distinct (map ro_domain routes)"
  shows "distinct (map ro_domain (filter has_upstream (sort_key ro_domain routes)))"
proof -
  have "distinct (map ro_domain (sort_key ro_domain routes))" using assms by (metis distinct_map distinct_sort set_sort)
  then show ?thesis by (simp add: distinct_map_filter)
qed

lemma recipient_known:
  "map_of (concat (map recipient_pairs hs)) a \<noteq> None \<longleftrightarrow>
    (\<exists>r \<in> set hs. if ro_mode r = ''any'' then a = ''@'' @ ro_domain r else a \<in> set (ro_recipients r))"
proof -
  have p: "a \<in> fst ` set (recipient_pairs r) \<longleftrightarrow> (if ro_mode r = ''any'' then a = ''@'' @ ro_domain r else a \<in> set (ro_recipients r))" for r
    by (simp add: recipient_pairs_def image_image)
  have "map_of (concat (map recipient_pairs hs)) a \<noteq> None \<longleftrightarrow> (\<exists>r \<in> set hs. a \<in> fst ` set (recipient_pairs r))"
    by (simp add: map_of_eq_None_iff image_UN)
  then show ?thesis by (simp add: p)
qed


section \<open>The tables on disk and the registry\<close>

definition inbound_wf :: "panel_store \<Rightarrow> bool" where
  "inbound_wf s \<longleftrightarrow> distinct (map i_id (ps_inbound s)) \<and> distinct (map i_name (ps_inbound s)) \<and>
     (\<forall>d \<in> set (ps_inbound s). i_id d < ps_next_inbound s)"

text \<open>The routes of a registry: its domains by name, their recipients sorted.\<close>

definition routes_of :: "panel_store \<Rightarrow> inbound_route list" where
  "routes_of s = map (\<lambda>d. route_of (d\<lparr>i_recipients := sort (i_recipients d)\<rparr>)) (sort_key i_name (ps_inbound s))"

definition tables_current :: "inbound_world \<Rightarrow> bool" where
  "tables_current w \<longleftrightarrow> (\<exists>t. render_inbound_maps (routes_of (iw_store w)) = Inr t \<and> (\<forall>(p, c) \<in> set (map_files t). iw_files w p = Some c))"

lemma andthen_Inr: "andthen f g w = (w', Inr y) \<longleftrightarrow> (\<exists>w1 x. f w = (w1, Inr x) \<and> g x w1 = (w', Inr y))"
  by (auto simp: andthen_def split: prod.splits sum.splits)

text \<open>What an operation leaves alone.\<close>

definition same_inbound :: "panel_store \<Rightarrow> panel_store \<Rightarrow> bool" where
  "same_inbound s s' \<longleftrightarrow> ps_inbound s' = ps_inbound s \<and> ps_next_inbound s' = ps_next_inbound s"

lemma same_inbound_refl [simp]: "same_inbound s s" "same_inbound s (set_faults fs s)"
  by (simp_all add: same_inbound_def set_faults_def)

lemma same_inbound_trans: "same_inbound s s' \<Longrightarrow> same_inbound s' s'' \<Longrightarrow> same_inbound s s''"
  by (simp add: same_inbound_def)

lemma panel_step_run:
  obtains fs where "panel_step f s = (set_faults fs s, Inl Store_error)"
  | s1 where "panel_step f s = f s1" "ps_inbound s1 = ps_inbound s" "ps_next_inbound s1 = ps_next_inbound s"
proof (cases "db_faults (ms_db (ps_mail s))")
  case Nil
  then show ?thesis by (intro that(2) [of s]) (simp_all add: panel_step_def)
next
  case (Cons a fs)
  then show ?thesis using that(1) [of fs] that(2) [of "set_faults fs s"]
    by (cases a) (simp_all add: panel_step_def set_faults_def)
qed

lemma panel_step_read:
  assumes "\<And>s. same_inbound s (fst (f s))"
  shows "same_inbound s (fst (panel_step f s))"
  by (cases rule: panel_step_run [of f s]) (use assms in \<open>auto simp: same_inbound_def set_faults_def\<close>)

lemma list_inbound_Inr: "list_inbound_domains s = (s', Inr ds) \<Longrightarrow> ds = sort_key i_name (ps_inbound s) \<and> same_inbound s s'"
  unfolding list_inbound_domains_def
  by (cases rule: panel_step_run [of "\<lambda>s. (s, Inr (sort_key i_name (ps_inbound s)) :: panel_error + inbound_domain list)" s])
    (auto simp: same_inbound_def)

lemma get_inbound_same: "same_inbound s (fst (get_inbound_domain i s))"
proof -
  let ?f = "\<lambda>s. case find (\<lambda>d. i_id d = i) (ps_inbound s) of None \<Rightarrow> (s, Inl Entry_not_found) | Some d \<Rightarrow> (s, Inr d :: panel_error + inbound_domain)"
  obtain s1 r where r: "panel_step ?f s = (s1, r)" by fastforce
  have 1: "same_inbound s s1" using panel_step_read [of ?f s] r by (simp split: option.split)
  have 2: "same_inbound s1 (fst (panel_step (\<lambda>s. (s, Inr (d\<lparr>i_recipients := sort (i_recipients d)\<rparr>) :: panel_error + inbound_domain)) s1))" for d
    by (rule panel_step_read) simp
  show ?thesis using 1 same_inbound_trans [OF 1 2] unfolding get_inbound_domain_def r by (cases r) simp_all
qed

lemma get_inbound_Inr:
  assumes "get_inbound_domain i s = (s', Inr d')"
  shows "\<exists>d \<in> set (ps_inbound s). i_id d = i \<and> d' = d\<lparr>i_recipients := sort (i_recipients d)\<rparr>"
proof -
  let ?f = "\<lambda>s. case find (\<lambda>d. i_id d = i) (ps_inbound s) of None \<Rightarrow> (s, Inl Entry_not_found) | Some d \<Rightarrow> (s, Inr d :: panel_error + inbound_domain)"
  obtain s1 r where r: "panel_step ?f s = (s1, r)" by fastforce
  with assms obtain d where d: "r = Inr d" "panel_step (\<lambda>s. (s, Inr (d\<lparr>i_recipients := sort (i_recipients d)\<rparr>))) s1 = (s', Inr d')"
    unfolding get_inbound_domain_def by (cases r) auto
  have "find (\<lambda>d. i_id d = i) (ps_inbound s) = Some d"
    using r d(1) by (cases rule: panel_step_run [of ?f s]) (auto split: option.splits)
  then have "d \<in> set (ps_inbound s)" "i_id d = i" by (auto simp: find_Some_iff)
  moreover have "d' = d\<lparr>i_recipients := sort (i_recipients d)\<rparr>"
    using d(2) by (cases rule: panel_step_run [of "\<lambda>s. (s, Inr (d\<lparr>i_recipients := sort (i_recipients d)\<rparr>) :: panel_error + inbound_domain)" s1]) auto
  ultimately show ?thesis by blast
qed

lemma on_panel_Inr: "on_panel f w = (w', Inr x) \<longleftrightarrow> (\<exists>s. f (iw_store w) = (s, Inr x) \<and> w' = w\<lparr>iw_store := s\<rparr>)"
  by (auto simp: on_panel_def split: prod.splits sum.splits)

lemma on_panel_fields [simp]:
  "iw_files (fst (on_panel f w)) = iw_files w" "iw_live (fst (on_panel f w)) = iw_live w"
  "iw_faults (fst (on_panel f w)) = iw_faults w" "iw_store (fst (on_panel f w)) = fst (f (iw_store w))"
  by (simp_all add: on_panel_def split: prod.split sum.split)

lemma get_each_Inr:
  assumes "get_each ds w = (w', Inr rs)" "distinct (map i_id (ps_inbound (iw_store w)))" "set ds \<subseteq> set (ps_inbound (iw_store w))"
  shows "rs = map (\<lambda>d. route_of (d\<lparr>i_recipients := sort (i_recipients d)\<rparr>)) ds \<and> same_inbound (iw_store w) (iw_store w') \<and>
    iw_files w' = iw_files w \<and> iw_live w' = iw_live w \<and> iw_faults w' = iw_faults w"
  using assms
proof (induction ds arbitrary: w rs)
  case (Cons d ds)
  from Cons.prems(1) obtain s d' rs' where g: "get_inbound_domain (i_id d) (iw_store w) = (s, Inr d')"
    "get_each ds (w\<lparr>iw_store := s\<rparr>) = (w', Inr rs')" "rs = route_of d' # rs'"
    by (auto simp: andthen_Inr on_panel_Inr)
  have same: "same_inbound (iw_store w) s" using get_inbound_same [of "iw_store w" "i_id d"] g(1) by simp
  from get_inbound_Inr [OF g(1)] obtain x where x: "x \<in> set (ps_inbound (iw_store w))" "i_id x = i_id d"
    "d' = x\<lparr>i_recipients := sort (i_recipients x)\<rparr>" by blast
  have "x = d" using Cons.prems(2,3) x(1,2) by (simp add: distinct_map inj_on_def)
  with Cons.IH [OF g(2)] Cons.prems(2,3) g(3) x(3) same show ?case by (auto simp: same_inbound_def)
qed simp

lemma in_command_Inr: "in_command f w = (w', Inr x) \<Longrightarrow> \<exists>fs. w' = f (w\<lparr>iw_faults := fs\<rparr>) \<and> (iw_faults w = [] \<longrightarrow> fs = [])"
  by (cases w) (auto simp: in_command_def split: list.splits bool.splits)

lemma write_changed_Inr:
  assumes "write_changed fs w = (w', Inr b)" "distinct (map fst fs)"
  shows "iw_store w' = iw_store w \<and> iw_live w' = iw_live w \<and> (\<forall>(p, c) \<in> set fs. iw_files w' p = Some c) \<and>
    (\<forall>p. p \<notin> fst ` set fs \<longrightarrow> iw_files w' p = iw_files w p) \<and> (\<not> b \<longrightarrow> iw_files w' = iw_files w)"
  using assms
proof (induction fs w arbitrary: b rule: write_changed.induct)
  case (2 path data fs w)
  show ?case
  proof (cases "iw_files w path = Some data")
    case True
    with 2 show ?thesis by (auto simp: image_iff)
  next
    case False
    with "2.prems"(1) obtain w1 b1 where w1: "in_command (\<lambda>w. w\<lparr>iw_files := (iw_files w)(path := Some data)\<rparr>) w = (w1, Inr ())"
      "write_changed fs w1 = (w', Inr b1)" "b" by (auto simp: andthen_Inr)
    have e: "iw_store w1 = iw_store w" "iw_live w1 = iw_live w" "iw_files w1 = (iw_files w)(path := Some data)"
      using in_command_Inr [OF w1(1)] by auto
    from "2.IH"(2) [OF False w1(2)] "2.prems"(2) e w1(3) show ?thesis by (auto simp: image_iff)
  qed
qed simp

lemma map_files_distinct: "distinct (map fst (map_files t))"
  by (cases t) (simp add: map_files_def)

lemma rebuild_Inr:
  assumes "rebuild_inbound_maps routes w = (w', Inr ())"
  shows "\<exists>t. render_inbound_maps routes = Inr t \<and> (\<forall>(p, c) \<in> set (map_files t). iw_files w' p = Some c) \<and>
    iw_store w' = iw_store w \<and> (iw_live w = iw_files w \<longrightarrow> iw_live w' = iw_files w')"
proof -
  from assms obtain t b w1 where t: "render_inbound_maps routes = Inr t" "write_changed (map_files t) w = (w1, Inr b)"
    "(if b then in_command (\<lambda>w. w\<lparr>iw_live := iw_files w\<rparr>) w1 else (w1, Inr ())) = (w', Inr ())"
    by (auto simp: rebuild_inbound_maps_def andthen_Inr split: sum.splits)
  note wc = write_changed_Inr [OF t(2) map_files_distinct]
  show ?thesis
  proof (cases b)
    case True
    with t(3) in_command_Inr [of "\<lambda>w. w\<lparr>iw_live := iw_files w\<rparr>" w1 w'] wc t(1) show ?thesis by auto
  next
    case False
    with t wc show ?thesis by auto
  qed
qed

lemma resync_Inr:
  assumes "resync_inbound w = (w', Inr ())" "distinct (map i_id (ps_inbound (iw_store w)))"
  shows "tables_current w' \<and> same_inbound (iw_store w) (iw_store w') \<and> (iw_live w = iw_files w \<longrightarrow> iw_live w' = iw_files w')"
proof -
  from assms(1) obtain s ds w1 rs where r: "list_inbound_domains (iw_store w) = (s, Inr ds)"
    "get_each ds (w\<lparr>iw_store := s\<rparr>) = (w1, Inr rs)" "rebuild_inbound_maps rs w1 = (w', Inr ())"
    by (auto simp: resync_inbound_def andthen_Inr on_panel_Inr)
  from list_inbound_Inr [OF r(1)] have ds: "ds = sort_key i_name (ps_inbound (iw_store w))" "same_inbound (iw_store w) s" by auto
  have "rs = map (\<lambda>d. route_of (d\<lparr>i_recipients := sort (i_recipients d)\<rparr>)) ds \<and> same_inbound s (iw_store w1) \<and>
      iw_files w1 = iw_files w \<and> iw_live w1 = iw_live w"
    using get_each_Inr [OF r(2)] ds assms(2) by (simp add: same_inbound_def)
  with rebuild_Inr [OF r(3)] ds show ?thesis
    by (auto simp: tables_current_def routes_of_def same_inbound_def)
qed

section \<open>An upstream's name has one form\<close>

definition addr_char :: "char \<Rightarrow> bool" where
  "addr_char c \<longleftrightarrow> hex_val c \<noteq> None \<or> c = CHR '':'' \<or> c = CHR ''.''"

lemma decimal_chars: "decimal_from n s = Some m \<Longrightarrow> \<forall>c \<in> set s. is_digit c"
  by (induction s arbitrary: n) (auto simp: digit_val_def split: option.splits if_splits)

lemma digit_addr: "is_digit c \<Longrightarrow> addr_char c"
  by (simp add: addr_char_def hex_val_def)

lemma ipv4_chars:
  assumes "ipv4_fields s = Some q"
  shows "\<forall>c \<in> set s. addr_char c"
proof
  fix c assume c: "c \<in> set s"
  obtain a b d e where "map octet (split_on CHR ''.'' s) = [Some a, Some b, Some d, Some e]"
    using assms by (auto simp: ipv4_fields_def split: list.splits option.splits)
  then have "\<forall>o' \<in> set (map octet (split_on CHR ''.'' s)). o' \<noteq> None" by simp
  then have o: "octet w \<noteq> None" if "w \<in> set (split_on CHR ''.'' s)" for w using that by (metis imageI set_map)
  have d: "\<forall>x \<in> set w. is_digit x" if "octet w \<noteq> None" for w
    using that decimal_chars by (auto simp: octet_def split: if_splits option.splits)
  from split_on_chars [OF c, of "CHR ''.''"] show "addr_char c"
  proof
    assume "c = CHR ''.''"
    then show ?thesis by (simp add: addr_char_def)
  next
    assume "\<exists>w \<in> set (split_on CHR ''.'' s). c \<in> set w"
    with d o digit_addr show ?thesis by blast
  qed
qed

lemma hex_group_chars: "hex_group off acc s = Some (off', acc', rest) \<Longrightarrow> \<exists>p. s = p @ rest \<and> (\<forall>c \<in> set p. addr_char c)"
proof (induction off acc s rule: hex_group.induct)
  case (2 off acc c cs)
  show ?case
  proof (cases "hex_val c")
    case None
    with 2(2) show ?thesis by simp
  next
    case (Some d)
    with 2 obtain p where "cs = p @ rest" "\<forall>c \<in> set p. addr_char c" by (auto split: if_splits)
    with Some show ?thesis by (intro exI [of _ "c # p"]) (simp add: addr_char_def)
  qed
qed simp

lemma ipv6_loop_chars: "ipv6_loop n bytes ell s = Some (b, e, rest) \<Longrightarrow> rest = [] \<Longrightarrow> \<forall>c \<in> set s. addr_char c"
proof (induction n bytes ell s rule: ipv6_loop.induct)
  case (2 n bytes ell s)
  from "2.prems"(1) obtain off acc r where g: "hex_group 0 0 s = Some (off, acc, r)" "off \<noteq> 0"
    by (auto split: option.splits if_splits)
  from hex_group_chars [OF g(1)] obtain p where p: "s = p @ r" "\<forall>c \<in> set p. addr_char c" by blast
  show ?case
  proof (cases "r \<noteq> [] \<and> hd r = CHR ''.''")
    case True
    with "2.prems" g obtain q where "ipv4_fields s = Some q" by (auto split: option.splits if_splits)
    then show ?thesis by (rule ipv4_chars)
  next
    case False
    show ?thesis
    proof (cases r)
      case Nil
      with p show ?thesis by simp
    next
      case (Cons c cs)
      have c: "c = CHR '':''" "cs \<noteq> []" using "2.prems" g False Cons by (auto simp: Let_def split: if_splits)
      let ?b = "bytes @ [acc div 256, acc mod 256]"
      have "\<forall>x \<in> set cs. addr_char x"
      proof (cases "hd cs = CHR '':''")
        case True
        show ?thesis
        proof (cases "tl cs = []")
          case True
          with \<open>hd cs = CHR '':''\<close> c(2) show ?thesis by (cases cs) (auto simp: addr_char_def)
        next
          case tl: False
          have "ipv6_loop n ?b (Some (length ?b)) (tl cs) = Some (b, e, rest)"
            using "2.prems"(1) g False Cons c True tl by (auto simp: Let_def split: if_splits)
          with "2.IH"(1) [OF g(1) refl refl g(2) False refl Cons _ True _ tl] c "2.prems" g False Cons True
          have "\<forall>x \<in> set (tl cs). addr_char x" by (auto simp: Let_def split: if_splits)
          with True c(2) show ?thesis by (cases cs) (auto simp: addr_char_def)
        qed
      next
        case hd: False
        have "ipv6_loop n ?b ell cs = Some (b, e, rest)"
          using "2.prems"(1) g False Cons c hd by (auto simp: Let_def split: if_splits)
        with "2.IH"(2) [OF g(1) refl refl g(2) False refl Cons _ hd] c "2.prems"(2) show ?thesis by simp
      qed
      with p Cons c show ?thesis by (auto simp: addr_char_def)
    qed
  qed
qed simp

lemma parse_ip_chars:
  assumes "parse_ip s = Some a"
  shows "s \<noteq> [] \<and> (\<forall>c \<in> set s. addr_char c)"
proof -
  have v6: "\<forall>c \<in> set s. addr_char c" if "ipv6_bytes s = Some b" for b
  proof (cases "take 2 s = ''::''")
    case True
    then have s: "s = ''::'' @ drop 2 s" by (metis append_take_drop_id)
    show ?thesis
    proof (cases "drop 2 s = []")
      case True
      with s have "s = ''::''" by simp
      then show ?thesis by (simp add: addr_char_def)
    next
      case False
      with that True obtain bs e where "ipv6_loop 8 [] (Some 0) (drop 2 s) = Some (bs, e, [])"
        by (auto simp: ipv6_bytes_def Let_def split: option.splits if_splits)
      then have "\<forall>c \<in> set (drop 2 s). addr_char c" by (rule ipv6_loop_chars) simp
      with s show ?thesis by (metis Un_iff addr_char_def insert_iff list.set(2) set_append empty_iff empty_set)
    qed
  next
    case False
    with that obtain bs e where "ipv6_loop 8 [] None s = Some (bs, e, [])"
      by (auto simp: ipv6_bytes_def Let_def split: option.splits if_splits)
    then show ?thesis by (rule ipv6_loop_chars) simp
  qed
  show ?thesis using assms v6 ipv4_chars
    by (cases s) (auto simp: parse_ip_def split: option.splits if_splits)
qed

definition host_char :: "char \<Rightarrow> bool" where
  "host_char c \<longleftrightarrow> addr_char c \<or> domain_char c"

lemma host_char_facts: "host_char c \<Longrightarrow> is_ascii_char c \<and> visible c \<and> c \<noteq> CHR ''[''"
  by (auto simp: host_char_def addr_char_def hex_val_def domain_char_def label_char_def is_ascii_char_def visible_def
      is_digit_def is_lower_def Let_def split: if_splits)

lemma check_host_chars:
  assumes "check_host h = None"
  shows "h \<noteq> [] \<and> (\<forall>c \<in> set h. host_char c)"
proof (cases "parse_ip h")
  case None
  with assms have "\<forall>l \<in> set (split_on CHR ''.'' h). domain_label l = None" "h \<noteq> []"
    by (auto simp: check_host_def check_label_None split: if_splits)
  with labels_chars show ?thesis by (auto simp: host_char_def)
next
  case (Some a)
  with parse_ip_chars show ?thesis by (auto simp: host_char_def)
qed

lemma normalize_host_valid:
  assumes "check_host (normalize_host ul raw) = None" "\<And>s. list_all (\<lambda>c. \<not> is_upper c) (ul s)"
  shows "normalize_host ul (normalize_host ul raw) = normalize_host ul raw"
proof -
  define h where "h = normalize_host ul raw"
  have c: "h \<noteq> []" "\<forall>c \<in> set h. host_char c" using check_host_chars assms(1) by (simp_all add: h_def)
  have low: "\<not> is_upper c" if "c \<in> set (to_lower ul s)" for c s
    using that assms(2) [of s] by (auto simp: to_lower_def list_all_iff ascii_lower_def split: if_splits)
  have "set h \<subseteq> set (to_lower ul (trim_space raw))"
    unfolding h_def normalize_host_def Let_def
    by (auto dest: in_set_butlastD list.set_sel(2) [rotated])
  with low have nu: "\<forall>c \<in> set h. \<not> is_upper c" by blast
  have asc: "is_ascii h" using c host_char_facts by (auto simp: is_ascii_def list_all_iff)
  have "ascii_lower h = h" using nu by (simp add: ascii_lower_def map_idI lower_char_id)
  then have l: "to_lower ul h = h" using asc by simp
  have t: "trim_space h = h" by (rule trim_space_visible) (use c host_char_facts in auto)
  have "hd h \<noteq> CHR ''[''" using c host_char_facts by auto
  then show ?thesis unfolding h_def [symmetric] by (simp add: normalize_host_def t l)
qed

section \<open>What each statement does to the rows\<close>

lemma add_row:
  assumes "add_inbound_domain now name s = (s', r)"
  shows "(\<exists>e. r = Inl e) \<and> same_inbound s s' \<or>
    (\<exists>d. r = Inr d \<and> ps_inbound s' = ps_inbound s @ [d] \<and> ps_next_inbound s' = ps_next_inbound s + 1 \<and>
       i_id d = ps_next_inbound s \<and> i_name d = name \<and> i_host d = [] \<and> name \<notin> i_name ` set (ps_inbound s))"
  using assms unfolding add_inbound_domain_def
  by (cases rule: panel_step_run [of "\<lambda>s. if list_ex (\<lambda>d. i_name d = name) (ps_inbound s) then (s, Inl Entry_exists)
     else (let d = \<lparr>i_id = ps_next_inbound s, i_name = name, i_mode = ''list'', i_host = [], i_port = 25,
                    i_tls = ''may'', i_recipients = [], i_created = stamp now\<rparr>
           in (s\<lparr>ps_inbound := ps_inbound s @ [d], ps_next_inbound := ps_next_inbound s + 1\<rparr>, Inr d))" s])
    (auto simp: same_inbound_def set_faults_def Let_def list_ex_iff split: if_splits)

lemma update_row:
  assumes "update_inbound_transport i host port tls s = (s', r)"
  shows "(\<exists>e. r = Inl e) \<and> same_inbound s s' \<or>
    r = Inr () \<and> ps_inbound s' = map (\<lambda>d. if i_id d = i then d\<lparr>i_host := host, i_port := port, i_tls := tls\<rparr> else d) (ps_inbound s) \<and>
      ps_next_inbound s' = ps_next_inbound s"
  using assms unfolding update_inbound_transport_def
  by (cases rule: panel_step_run [of "\<lambda>s. if \<not> known_domain i s then (s, Inl Entry_not_found)
     else if \<not> (1 \<le> port \<and> port \<le> 65535 \<and> tls \<in> set tls_modes) then (s, Inl Store_error)
     else (update_domain i (\<lambda>d. d\<lparr>i_host := host, i_port := port, i_tls := tls\<rparr>) s, Inr ())" s])
    (auto simp: same_inbound_def set_faults_def update_domain_def split: if_splits)

lemma recipients_row:
  assumes "update_inbound_recipients i mode addrs s = (s', r)"
  shows "(\<exists>e. r = Inl e) \<and> same_inbound s s' \<or>
    r = Inr () \<and> ps_inbound s' = map (\<lambda>d. if i_id d = i then d\<lparr>i_mode := mode, i_recipients := if mode = ''list'' then addrs else []\<rparr> else d) (ps_inbound s) \<and>
      ps_next_inbound s' = ps_next_inbound s"
  using assms unfolding update_inbound_recipients_def
  by (cases rule: panel_step_run [of "\<lambda>s. if known_domain i s \<and> mode \<notin> set recipient_modes then (s, Inl Store_error)
     else if \<not> known_domain i s then (s, Inl Entry_not_found)
     else if mode = ''list'' \<and> \<not> distinct addrs then (s, Inl Store_error)
     else (update_domain i (\<lambda>d. d\<lparr>i_mode := mode, i_recipients := if mode = ''list'' then addrs else []\<rparr>) s, Inr ())" s])
    (auto simp: same_inbound_def set_faults_def update_domain_def split: if_splits)

lemma delete_row:
  assumes "delete_inbound_domain i s = (s', r)"
  shows "(\<exists>e. r = Inl e) \<and> same_inbound s s' \<or>
    r = Inr () \<and> ps_inbound s' = filter (\<lambda>d. i_id d \<noteq> i) (ps_inbound s) \<and> ps_next_inbound s' = ps_next_inbound s"
  using assms unfolding delete_inbound_domain_def
  by (cases rule: panel_step_run [of "\<lambda>s. if \<not> known_domain i s then (s, Inl Entry_not_found)
     else (s\<lparr>ps_inbound := filter (\<lambda>d. i_id d \<noteq> i) (ps_inbound s),
             ps_spam := map (\<lambda>r. if sr_domain_id r = Some i then r\<lparr>sr_domain_id := None\<rparr> else r) (ps_spam s)\<rparr>, Inr ())" s])
    (auto simp: same_inbound_def set_faults_def split: if_splits)

text \<open>A change of rows that keeps ids and names, or drops rows.\<close>

lemma inbound_wf_same: "same_inbound s s' \<Longrightarrow> inbound_wf s' \<longleftrightarrow> inbound_wf s"
  by (simp add: same_inbound_def inbound_wf_def)

lemma inbound_wf_map:
  assumes "inbound_wf s" "ps_inbound s' = map f (ps_inbound s)" "ps_next_inbound s' = ps_next_inbound s"
    "\<And>d. i_id (f d) = i_id d \<and> i_name (f d) = i_name d"
  shows "inbound_wf s'"
  using assms by (simp add: inbound_wf_def comp_def)

lemma inbound_wf_filter:
  assumes "inbound_wf s" "ps_inbound s' = filter p (ps_inbound s)" "ps_next_inbound s' = ps_next_inbound s"
  shows "inbound_wf s'"
  using assms by (auto simp: inbound_wf_def distinct_map_filter)

lemma inbound_wf_add: "inbound_wf s \<Longrightarrow> add_inbound_domain now name s = (s', r) \<Longrightarrow> inbound_wf s'"
  using add_row [of now name s s' r] by (auto simp: inbound_wf_same) (auto simp: inbound_wf_def)

lemma inbound_wf_update: "inbound_wf s \<Longrightarrow> update_inbound_transport i host port tls s = (s', r) \<Longrightarrow> inbound_wf s'"
  using update_row [of i host port tls s s' r] by (auto simp: inbound_wf_same intro: inbound_wf_map)

lemma inbound_wf_recipients: "inbound_wf s \<Longrightarrow> update_inbound_recipients i mode addrs s = (s', r) \<Longrightarrow> inbound_wf s'"
  using recipients_row [of i mode addrs s s' r] by (auto simp: inbound_wf_same intro: inbound_wf_map)

lemma inbound_wf_delete: "inbound_wf s \<Longrightarrow> delete_inbound_domain i s = (s', r) \<Longrightarrow> inbound_wf s'"
  using delete_row [of i s s' r] by (auto simp: inbound_wf_same intro: inbound_wf_filter)

section \<open>A change that succeeds reaches Postfix\<close>

datatype inbound_change =
    Add_domain string
  | Set_transport nat string string string
  | Set_recipients nat string "string list"
  | Delete_domain nat
  | Resync

fun inbound_act :: "(string \<Rightarrow> string) \<Rightarrow> int \<Rightarrow> inbound_change \<Rightarrow> unit in_op" where
  "inbound_act ul now (Add_domain n) = andthen (add_inbound ul now n) (\<lambda>_ w. (w, Inr ()))"
| "inbound_act ul now (Set_transport i host port tls) = set_transport ul i host port tls"
| "inbound_act ul now (Set_recipients i mode raw) = set_recipients ul i mode raw"
| "inbound_act ul now (Delete_domain i) = delete_inbound i"
| "inbound_act ul now Resync = resync_inbound"

text \<open>Before its last step a change has touched nothing outside the store, and the store is well-formed.\<close>

definition untouched :: "inbound_world \<Rightarrow> inbound_world \<Rightarrow> bool" where
  "untouched w w1 \<longleftrightarrow> inbound_wf (iw_store w1) \<and> iw_files w1 = iw_files w \<and> iw_live w1 = iw_live w"

lemma untouched_panel:
  assumes "untouched w w1" "on_panel f w1 = (w2, r)" "\<And>s s' r. inbound_wf s \<Longrightarrow> f s = (s', r) \<Longrightarrow> inbound_wf s'"
  shows "untouched w w2"
  using assms by (auto simp: untouched_def on_panel_def split: prod.splits sum.splits)

lemma read_wf: "(\<And>s. same_inbound s (fst (f s))) \<Longrightarrow> inbound_wf s \<Longrightarrow> f s = (s', r) \<Longrightarrow> inbound_wf s'"
  using inbound_wf_same by (metis fst_conv)

lemma list_same: "same_inbound s (fst (list_inbound_domains s))"
  unfolding list_inbound_domains_def by (rule panel_step_read) simp

lemma refuse_Inr: "refuse e w = (w', Inr x) \<longleftrightarrow> e = None \<and> w' = w"
  by (auto simp: refuse_def split: option.splits)

lemma update_others_untouched: "untouched w w1 \<Longrightarrow> update_others tls ds w1 = (w2, r) \<Longrightarrow> untouched w w2"
proof (induction ds arbitrary: w1)
  case (Cons d ds)
  obtain w3 x where u: "on_panel (update_inbound_transport (i_id d) (i_host d) (i_port d) tls) w1 = (w3, x)" by fastforce
  have "untouched w w3" by (rule untouched_panel [OF Cons.prems(1) u inbound_wf_update])
  with Cons.IH Cons.prems(2) u show ?case by (auto simp: andthen_def split: sum.splits)
qed simp

lemma refuse_then: "andthen (refuse e) g w = (w', Inr x) \<longleftrightarrow> e = None \<and> g () w = (w', Inr x)"
  by (auto simp: andthen_Inr refuse_Inr)

lemma set_transport_as_Inr:
  assumes "set_transport_as ul i host port tls may w = (w', Inr n)"
  shows "\<exists>w1 w2 w3 w4 x ds p os. on_panel (get_inbound_domain i) w = (w1, Inr x) \<and> check_host (normalize_host ul host) = None \<and>
    parse_port port = Inr p \<and> check_tls_mode tls = None \<and> on_panel list_inbound_domains w1 = (w2, Inr ds) \<and>
    sharing (shares_upstream ul i (normalize_host ul host) (int p) tls) may (inbound_nexthop (normalize_host ul host) (int p)) ds = Inr os \<and>
    on_panel (update_inbound_transport i (normalize_host ul host) (int p) tls) w2 = (w3, Inr ()) \<and>
    update_others tls os w3 = (w4, Inr ()) \<and> resync_inbound w4 = (w', Inr ())"
proof -
  let ?h = "normalize_host ul host"
  from assms obtain w1 x where 1: "on_panel (get_inbound_domain i) w = (w1, Inr x)" "check_host ?h = None" and
    p: "(case parse_port port of
              Inl e \<Rightarrow> (w1, Inl (Refused e))
            | Inr port \<Rightarrow>
                andthen (refuse (check_tls_mode tls)) (\<lambda>_. andthen (refuse (check_secure_host ?h tls)) (\<lambda>_.
                andthen (on_panel list_inbound_domains) (\<lambda>ds w.
                  case sharing (shares_upstream ul i ?h (int port) tls) may (inbound_nexthop ?h (int port)) ds of
                    Inl e \<Rightarrow> (w, Inl e)
                  | Inr others \<Rightarrow>
                      andthen (on_panel (update_inbound_transport i ?h (int port) tls)) (\<lambda>_.
                      andthen (update_others tls others) (\<lambda>_.
                      andthen resync_inbound (\<lambda>_ w. (w, Inr (length others))))) w))) w1) = (w', Inr n)"
    unfolding set_transport_as_def andthen_Inr [of "on_panel (get_inbound_domain i)"] Let_def refuse_then by (elim exE conjE)
  then obtain q where q: "parse_port port = Inr q" by (cases "parse_port port") auto
  from p [unfolded q sum.case refuse_then andthen_Inr [of "on_panel list_inbound_domains"]]
  obtain w2 ds where 2: "check_tls_mode tls = None" "on_panel list_inbound_domains w1 = (w2, Inr ds)" and
    s: "(case sharing (shares_upstream ul i ?h (int q) tls) may (inbound_nexthop ?h (int q)) ds of
                    Inl e \<Rightarrow> (w2, Inl e)
                  | Inr others \<Rightarrow>
                      andthen (on_panel (update_inbound_transport i ?h (int q) tls)) (\<lambda>_.
                      andthen (update_others tls others) (\<lambda>_.
                      andthen resync_inbound (\<lambda>_ w. (w, Inr (length others))))) w2) = (w', Inr n)" by (elim exE conjE)
  then obtain os where os: "sharing (shares_upstream ul i ?h (int q) tls) may (inbound_nexthop ?h (int q)) ds = Inr os"
    by (cases "sharing (shares_upstream ul i ?h (int q) tls) may (inbound_nexthop ?h (int q)) ds") auto
  from s [unfolded os sum.case andthen_Inr] 1 2 q os show ?thesis by auto
qed

lemma last_resync:
  assumes "inbound_act ul now a w = (w', Inr ())" "inbound_wf (iw_store w)"
  obtains w1 where "untouched w w1" "resync_inbound w1 = (w', Inr ())"
proof -
  have u0: "untouched w w" using assms(2) by (simp add: untouched_def)
  note get_wf = read_wf [OF get_inbound_same] and ls_wf = read_wf [OF list_same]
  show thesis
  proof (cases a)
    case (Add_domain n)
    with assms(1) obtain w1 d d' where a: "on_panel (add_inbound_domain now (normalize_domain ul n)) w = (w1, Inr d)"
      "(case resync_inbound w1 of (w1, Inl e) \<Rightarrow> (quietly (on_panel (delete_inbound_domain (i_id d))) w1, Inl e)
         | (w1, Inr _) \<Rightarrow> (w1, Inr d)) = (w', Inr d')"
      unfolding Add_domain inbound_act.simps add_inbound_def Let_def andthen_Inr refuse_Inr by blast
    then have "resync_inbound w1 = (w', Inr ())" by (auto split: prod.splits sum.splits)
    with a(1) have "on_panel (add_inbound_domain now (normalize_domain ul n)) w = (w1, Inr d)" "resync_inbound w1 = (w', Inr ())" by simp_all
    from that [OF untouched_panel [OF u0 this(1) inbound_wf_add] this(2)] show thesis by simp
  next
    case (Set_transport i host port tls)
    with assms(1) obtain n where "set_transport_as ul i host port tls (\<lambda>_. True) w = (w', Inr n)"
      by (auto simp: set_transport_def andthen_Inr)
    from set_transport_as_Inr [OF this] obtain w1 w2 w3 w4 x p os where
      1: "on_panel (get_inbound_domain i) w = (w1, Inr x)" and 2: "\<exists>ds. on_panel list_inbound_domains w1 = (w2, Inr ds)" and
      3: "on_panel (update_inbound_transport i (normalize_host ul host) (int p) tls) w2 = (w3, Inr ())" and
      4: "update_others tls os w3 = (w4, Inr ())" "resync_inbound w4 = (w', Inr ())"
      by metis
    have "untouched w w1" by (rule untouched_panel [OF u0 1 get_wf])
    moreover from 2 obtain ds where "on_panel list_inbound_domains w1 = (w2, Inr ds)" by blast
    ultimately have "untouched w w2" by (rule untouched_panel [OF _ _ ls_wf])
    then have "untouched w w3" by (rule untouched_panel [OF _ 3 inbound_wf_update])
    from update_others_untouched [OF this 4(1)] 4(2) show thesis by (rule that)
  next
    case (Set_recipients i mode raw)
    from assms(1) [unfolded Set_recipients inbound_act.simps set_recipients_def andthen_Inr [of "on_panel (get_inbound_domain i)"] refuse_then]
    obtain w1 x where 1: "on_panel (get_inbound_domain i) w = (w1, Inr x)" and
      p: "(case if mode = ''list'' then parse_recipient_addresses ul raw (i_name x) else Inr [] of
             Inl e \<Rightarrow> (w1, Inl (Refused e))
           | Inr addrs \<Rightarrow> andthen (on_panel (update_inbound_recipients i mode addrs)) (\<lambda>_. resync_inbound) w1) = (w', Inr ())"
      by (elim exE conjE)
    then obtain as where "(if mode = ''list'' then parse_recipient_addresses ul raw (i_name x) else Inr []) = Inr as"
      by (cases "if mode = ''list'' then parse_recipient_addresses ul raw (i_name x) else Inr []") auto
    with p have 2: "\<exists>w2. on_panel (update_inbound_recipients i mode as) w1 = (w2, Inr ()) \<and> resync_inbound w2 = (w', Inr ())"
      by (auto simp: andthen_Inr)
    have "untouched w w1" by (rule untouched_panel [OF u0 1 get_wf])
    with 2 show thesis by (blast intro: that untouched_panel inbound_wf_recipients)
  next
    case (Delete_domain i)
    with assms(1) obtain w1 where "on_panel (delete_inbound_domain i) w = (w1, Inr ())" "resync_inbound w1 = (w', Inr ())"
      by (auto simp: delete_inbound_def andthen_Inr)
    with untouched_panel [OF u0 this(1) inbound_wf_delete] show thesis by (intro that)
  next
    case Resync
    with assms(1) u0 show thesis by (intro that [of w]) simp_all
  qed
qed

text \<open>
  C27. Refinement: after a change of the inbound domains that reports success, the four tables on disk are
  the ones the registry denotes, and if Postfix had taken up the tables on disk before, it has taken
  up these: the files are a function of the rows.
\<close>

theorem inbound_tables_follow:
  assumes "inbound_act ul now a w = (w', Inr ())" "inbound_wf (iw_store w)"
  shows "inbound_wf (iw_store w') \<and> tables_current w' \<and> (iw_live w = iw_files w \<longrightarrow> iw_live w' = iw_files w')"
proof -
  from last_resync [OF assms] obtain w1 where w1: "untouched w w1" "resync_inbound w1 = (w', Inr ())" .
  from resync_Inr [OF w1(2)] w1(1) show ?thesis by (auto simp: untouched_def inbound_wf_def same_inbound_def)
qed


section \<open>One TLS mode for an upstream\<close>

definition one_mode :: "(string \<Rightarrow> string) \<Rightarrow> inbound_domain list \<Rightarrow> bool" where
  "one_mode ul ds \<longleftrightarrow> (\<forall>d \<in> set ds. \<forall>d' \<in> set ds.
     normalize_host ul (i_host d) \<noteq> [] \<and> normalize_host ul (i_host d) = normalize_host ul (i_host d') \<and> i_port d = i_port d' \<longrightarrow>
     i_tls d = i_tls d')"

lemma one_mode_sub: "one_mode ul ds \<Longrightarrow> set ds' \<subseteq> set ds \<Longrightarrow> one_mode ul ds'"
  unfolding one_mode_def by blast

lemma one_mode_new: "one_mode ul ds \<Longrightarrow> i_host d = [] \<Longrightarrow> one_mode ul (ds @ [d])"
proof -
  assume "one_mode ul ds" "i_host d = []"
  moreover have "normalize_host ul [] = []" by code_simp
  ultimately show ?thesis unfolding one_mode_def by auto
qed

lemma one_mode_same:
  assumes "one_mode ul ds" "\<And>d. i_host (f d) = i_host d \<and> i_port (f d) = i_port d \<and> i_tls (f d) = i_tls d"
  shows "one_mode ul (map f ds)"
  using assms unfolding one_mode_def by auto

text \<open>All domains of the upstream take the mode, the one saved and the others.\<close>

definition retarget :: "(string \<Rightarrow> string) \<Rightarrow> nat \<Rightarrow> string \<Rightarrow> int \<Rightarrow> string \<Rightarrow> inbound_domain \<Rightarrow> inbound_domain" where
  "retarget ul i host port tls d =
     (if i_id d = i then d\<lparr>i_host := host, i_port := port, i_tls := tls\<rparr>
      else if shares_upstream ul i host port tls d then d\<lparr>i_tls := tls\<rparr> else d)"

definition upstream_key :: "(string \<Rightarrow> string) \<Rightarrow> inbound_domain \<Rightarrow> string \<times> int" where
  "upstream_key ul d = (normalize_host ul (i_host d), i_port d)"

lemma one_mode_key:
  "one_mode ul ds \<longleftrightarrow> (\<forall>d \<in> set ds. \<forall>d' \<in> set ds. fst (upstream_key ul d) \<noteq> [] \<and> upstream_key ul d = upstream_key ul d' \<longrightarrow> i_tls d = i_tls d')"
  by (simp add: one_mode_def upstream_key_def conj_assoc)

lemma retarget_key:
  assumes "normalize_host ul host = host"
  shows "upstream_key ul (retarget ul i host port tls d) = (if i_id d = i then (host, port) else upstream_key ul d)"
    "i_tls (retarget ul i host port tls d) = (if i_id d = i \<or> upstream_key ul d = (host, port) then tls else i_tls d)"
  using assms by (simp_all add: retarget_def upstream_key_def shares_upstream_def)

lemma one_mode_retarget:
  assumes "one_mode ul ds" "normalize_host ul host = host"
  shows "one_mode ul (map (retarget ul i host port tls) ds)"
  unfolding one_mode_key set_map ball_simps retarget_key [OF assms(2)]
proof (intro ballI impI, elim conjE)
  fix d d' let ?k = "\<lambda>d. if i_id d = i then (host, port) else upstream_key ul d"
  assume d: "d \<in> set ds" "d' \<in> set ds" and ne: "fst (?k d) \<noteq> []" and k: "?k d = ?k d'"
  have "i_tls d = i_tls d'" if "i_id d \<noteq> i" "i_id d' \<noteq> i"
    using assms(1) [unfolded one_mode_key, rule_format, OF d] ne k that by simp
  with k show "(if i_id d = i \<or> upstream_key ul d = (host, port) then tls else i_tls d) =
      (if i_id d' = i \<or> upstream_key ul d' = (host, port) then tls else i_tls d')"
    by (cases "i_id d = i"; cases "i_id d' = i") auto
qed

lemma quiet_step: "fault_free s \<Longrightarrow> panel_step f s = f s"
  by (simp add: fault_free_def panel_step_def)

text \<open>On a database that answers: the rows after each call.\<close>

lemma others_rows:
  assumes "fault_free (iw_store w)" "distinct (map i_id (ps_inbound (iw_store w)))" "distinct (map i_id ds)"
    "set ds \<subseteq> set (ps_inbound (iw_store w))" "tls \<in> set tls_modes" "\<forall>d \<in> set ds. 1 \<le> i_port d \<and> i_port d \<le> 65535"
  shows "\<exists>s. update_others tls ds w = (w\<lparr>iw_store := s\<rparr>, Inr ()) \<and> fault_free s \<and>
    ps_inbound s = map (\<lambda>d. if i_id d \<in> i_id ` set ds then d\<lparr>i_tls := tls\<rparr> else d) (ps_inbound (iw_store w))"
  using assms
proof (induction ds arbitrary: w)
  case Nil
  then show ?case by (intro exI [of _ "iw_store w"]) simp
next
  case (Cons d ds)
  let ?f = "\<lambda>x. if i_id x = i_id d then x\<lparr>i_tls := tls\<rparr> else x"
  let ?s = "update_domain (i_id d) (\<lambda>x. x\<lparr>i_host := i_host d, i_port := i_port d, i_tls := tls\<rparr>) (iw_store w)"
  have k: "known_domain (i_id d) (iw_store w)" using Cons.prems(4) by (auto simp: known_domain_def list_ex_iff)
  have u: "on_panel (update_inbound_transport (i_id d) (i_host d) (i_port d) tls) w = (w\<lparr>iw_store := ?s\<rparr>, Inr ())"
    using Cons.prems(1,5,6) k by (simp add: on_panel_def update_inbound_transport_def quiet_step)
  have rows: "ps_inbound ?s = map ?f (ps_inbound (iw_store w))"
    unfolding update_domain_def using Cons.prems(2,4)
    by (auto simp: distinct_map inj_on_def)
  have sub: "set ds \<subseteq> set (ps_inbound ?s)"
  proof
    fix x assume x: "x \<in> set ds"
    then have "i_id x \<noteq> i_id d" using Cons.prems(3) by (simp, metis image_eqI)
    with x Cons.prems(4) show "x \<in> set (ps_inbound ?s)" unfolding rows by (auto intro!: image_eqI [of _ _ x])
  qed
  have "fault_free ?s" "distinct (map i_id (ps_inbound ?s))" using Cons.prems(1,2)
    by (simp_all add: update_domain_def fault_free_def comp_def if_distrib cong: if_cong)
  with Cons.IH [of "w\<lparr>iw_store := ?s\<rparr>"] Cons.prems(3,5,6) sub obtain s where
    s: "update_others tls ds (w\<lparr>iw_store := ?s\<rparr>) = (w\<lparr>iw_store := s\<rparr>, Inr ())" "fault_free s"
    "ps_inbound s = map (\<lambda>d. if i_id d \<in> i_id ` set ds then d\<lparr>i_tls := tls\<rparr> else d) (ps_inbound ?s)" by auto
  have "map (\<lambda>d. if i_id d \<in> i_id ` set ds then d\<lparr>i_tls := tls\<rparr> else d) (map ?f xs) =
      map (\<lambda>x. if i_id x \<in> i_id ` set (d # ds) then x\<lparr>i_tls := tls\<rparr> else x) xs" for xs by simp
  with s u rows show ?case by (intro exI [of _ s]) (simp add: andthen_def)
qed

lemma sharing_Inr: "sharing P may h ds = Inr os \<Longrightarrow> os = filter P ds"
  by (induction P may h ds arbitrary: os rule: sharing.induct) (auto split: if_splits sum.splits)

lemma parse_port_range: "parse_port s = Inr p \<Longrightarrow> 1 \<le> p \<and> p \<le> 65535"
  by (auto simp: parse_port_def Let_def split: if_splits option.splits)

lemma get_quiet:
  assumes "fault_free (iw_store w)"
  shows "\<exists>r. on_panel (get_inbound_domain i) w = (w, r)"
  using assms by (cases "find (\<lambda>d. i_id d = i) (ps_inbound (iw_store w))")
    (auto simp: on_panel_def get_inbound_domain_def quiet_step)

lemma get_each_quiet: "fault_free (iw_store w) \<Longrightarrow> \<exists>r. get_each ds w = (w, r)"
proof (induction ds)
  case (Cons d ds)
  obtain r where r: "on_panel (get_inbound_domain (i_id d)) w = (w, r)" using get_quiet [OF Cons.prems] by blast
  obtain r' where r': "get_each ds w = (w, r')" using Cons by blast
  show ?case by (cases r; cases r') (simp_all add: andthen_def r r')
qed simp

lemma in_command_store: "(\<And>w. iw_store (f w) = iw_store w) \<Longrightarrow> iw_store (fst (in_command f w)) = iw_store w"
  by (simp add: in_command_def split: list.split bool.split)

lemma write_changed_store: "iw_store (fst (write_changed fs w)) = iw_store w"
proof (induction fs w rule: write_changed.induct)
  case (2 path data fs w)
  obtain w1 r where c: "in_command (\<lambda>w. w\<lparr>iw_files := (iw_files w)(path := Some data)\<rparr>) w = (w1, r)" by fastforce
  have s: "iw_store w1 = iw_store w" using in_command_store [of "\<lambda>w. w\<lparr>iw_files := (iw_files w)(path := Some data)\<rparr>" w] c by simp
  show ?case
  proof (cases "iw_files w path = Some data")
    case True
    with 2 show ?thesis by simp
  next
    case False
    then show ?thesis using "2.IH"(2) [OF False, of w1] s
      by (cases r; cases "write_changed fs w1"; cases "snd (write_changed fs w1)") (simp_all add: andthen_def c)
  qed
qed simp

lemma rebuild_store: "iw_store (fst (rebuild_inbound_maps rs w)) = iw_store w"
proof (cases "render_inbound_maps rs")
  case (Inr t)
  obtain w1 b where b: "write_changed (map_files t) w = (w1, b)" by fastforce
  have "iw_store w1 = iw_store w" using write_changed_store [of "map_files t" w] b by simp
  with in_command_store [of "\<lambda>w. w\<lparr>iw_live := iw_files w\<rparr>" w1] show ?thesis
    by (cases b) (simp_all add: rebuild_inbound_maps_def Inr andthen_def b)
qed (simp add: rebuild_inbound_maps_def)

lemma resync_quiet:
  assumes "fault_free (iw_store w)"
  shows "iw_store (fst (resync_inbound w)) = iw_store w"
proof -
  have l: "on_panel list_inbound_domains w = (w, Inr (sort_key i_name (ps_inbound (iw_store w))))"
    using assms by (simp add: on_panel_def list_inbound_domains_def quiet_step)
  obtain r where r: "get_each (sort_key i_name (ps_inbound (iw_store w))) w = (w, r)" using get_each_quiet [OF assms] by blast
  show ?thesis using rebuild_store by (cases r) (simp_all add: resync_inbound_def andthen_def l r)
qed


lemma set_transport_rows:
  assumes "fault_free (iw_store w)" "inbound_wf (iw_store w)" "\<And>s. list_all (\<lambda>c. \<not> is_upper c) (ul s)"
  shows "ps_inbound (iw_store (fst (set_transport_as ul i host port tls may w))) = ps_inbound (iw_store w) \<or>
    (\<exists>h p. normalize_host ul h = h \<and>
      ps_inbound (iw_store (fst (set_transport_as ul i host port tls may w))) = map (retarget ul i h p tls) (ps_inbound (iw_store w)))"
proof -
  let ?h = "normalize_host ul host" and ?S = "\<lambda>w. ps_inbound (iw_store w)"
  obtain r where g: "on_panel (get_inbound_domain i) w = (w, r)" using get_quiet [OF assms(1)] by blast
  have l: "on_panel list_inbound_domains w = (w, Inr (sort_key i_name (?S w)))"
    using assms(1) by (simp add: on_panel_def list_inbound_domains_def quiet_step)
  show ?thesis
  proof (cases r)
    case (Inl e)
    then show ?thesis by (simp add: set_transport_as_def andthen_def g)
  next
    case (Inr x)
    show ?thesis
    proof (cases "check_host ?h = None \<and> check_tls_mode tls = None \<and> check_secure_host ?h tls = None")
      case False
      then show ?thesis
        by (cases "check_host ?h"; cases "parse_port port"; cases "check_tls_mode tls"; cases "check_secure_host ?h tls")
          (simp_all add: set_transport_as_def andthen_def g Inr refuse_def Let_def)
    next
      case ok: True
      show ?thesis
      proof (cases "parse_port port")
        case (Inl e)
        with ok show ?thesis by (simp add: set_transport_as_def andthen_def g Inr refuse_def Let_def)
      next
        case p: (Inr p)
        let ?sh = "shares_upstream ul i ?h (int p) tls"
        show ?thesis
        proof (cases "sharing ?sh may (inbound_nexthop ?h (int p)) (sort_key i_name (?S w))")
          case (Inl e)
          with ok p show ?thesis by (simp add: set_transport_as_def andthen_def g Inr refuse_def Let_def l)
        next
          case os: (Inr os)
          have osf: "set os = {d \<in> set (?S w). ?sh d}" "os = filter ?sh (sort_key i_name (?S w))" using sharing_Inr [OF os] by auto
          have tls: "tls \<in> set tls_modes" using ok by (auto simp: check_tls_mode_def tls_modes_def split: if_splits)
          note pr = parse_port_range [OF p]
          obtain w1 u where u: "on_panel (update_inbound_transport i ?h (int p) tls) w = (w1, u)" by fastforce
          show ?thesis
          proof (cases u)
            case (Inl e)
            have "?S w1 = ?S w" using u Inl assms(1) by (auto simp: on_panel_def update_inbound_transport_def quiet_step split: if_splits)
            with ok p os show ?thesis by (simp add: set_transport_as_def andthen_def g Inr refuse_def Let_def l u Inl)
          next
            case ui: (Inr y)
            let ?f = "\<lambda>d. if i_id d = i then d\<lparr>i_host := ?h, i_port := int p, i_tls := tls\<rparr> else d"
            have w1: "?S w1 = map ?f (?S w)" "fault_free (iw_store w1)"
              using u ui assms(1) by (auto simp: on_panel_def update_inbound_transport_def quiet_step update_domain_def fault_free_def split: if_splits)
            have ids: "map i_id (?S w1) = map i_id (?S w)" by (simp add: w1 comp_def if_distrib cong: if_cong)
            have sub: "set os \<subseteq> set (?S w1)"
              unfolding w1 osf(1) by (auto simp: shares_upstream_def intro!: image_eqI)
            have dist: "distinct (map i_id os)" "distinct (map i_id (?S w1))"
              unfolding osf(2) using assms(2) ids by (simp_all add: inbound_wf_def distinct_map_filter) (metis distinct_map distinct_map_filter distinct_sort set_sort)
            have ports: "\<forall>d \<in> set os. 1 \<le> i_port d \<and> i_port d \<le> 65535" using pr by (auto simp: osf(1) shares_upstream_def)
            from others_rows [OF w1(2) dist(2,1) sub tls ports] obtain s where
              s: "update_others tls os w1 = (w1\<lparr>iw_store := s\<rparr>, Inr ())" "fault_free s"
              "ps_inbound s = map (\<lambda>d. if i_id d \<in> i_id ` set os then d\<lparr>i_tls := tls\<rparr> else d) (?S w1)" by blast
            have mem: "i_id (?f d) \<in> i_id ` set os \<longleftrightarrow> ?sh d" if "d \<in> set (?S w)" for d
            proof -
              have "d' = d" if "d' \<in> set (?S w)" "i_id d' = i_id d" for d'
                using that \<open>d \<in> set (?S w)\<close> assms(2) by (simp add: inbound_wf_def distinct_map inj_on_def)
              then show ?thesis using that unfolding osf(1) by auto
            qed
            have rows: "ps_inbound s = map (retarget ul i ?h (int p) tls) (?S w)"
              unfolding s(3) w1(1) map_map using mem
              by (auto simp: retarget_def shares_upstream_def)
            have "iw_store (fst (resync_inbound (w1\<lparr>iw_store := s\<rparr>))) = s" using resync_quiet [of "w1\<lparr>iw_store := s\<rparr>"] s(2) by simp
            moreover have "fst (set_transport_as ul i host port tls may w) = fst (resync_inbound (w1\<lparr>iw_store := s\<rparr>))"
              using ok p os by (simp add: set_transport_as_def andthen_def g Inr refuse_def Let_def l u ui s(1) split: prod.split sum.split)
            moreover have "normalize_host ul ?h = ?h" by (rule normalize_host_valid) (use ok assms(3) in simp_all)
            ultimately show ?thesis using rows by (intro disjI2 exI [of _ ?h] exI [of _ "int p"]) simp
          qed
        qed
      qed
    qed
  qed
qed

lemma transport_store: "fst (set_transport ul i host port tls w) = fst (set_transport_as ul i host port tls (\<lambda>_. True) w)"
  by (simp add: set_transport_def andthen_def split: prod.split sum.split)

lemma quiet_resync_fst:
  "fault_free (iw_store w1) \<Longrightarrow> ps_inbound (iw_store (fst (resync_inbound w1))) = ps_inbound (iw_store w1)"
  by (simp add: resync_quiet)

lemma on_panel_quiet:
  assumes "on_panel f w = (w1, r)" "f (iw_store w) = (s1, q)"
  shows "iw_store w1 = s1" "\<forall>x. r = Inr x \<longrightarrow> q = Inr x"
  using assms by (auto simp: on_panel_def split: sum.splits)

lemma add_quiet: "fault_free s \<Longrightarrow> fault_free (fst (add_inbound_domain now n s))"
  "fault_free s \<Longrightarrow> fault_free (fst (update_inbound_recipients i mode addrs s))"
  "fault_free s \<Longrightarrow> fault_free (fst (delete_inbound_domain i s))"
  by (auto simp: fault_free_def panel_step_def add_inbound_domain_def update_inbound_recipients_def delete_inbound_domain_def update_domain_def Let_def)

lemma read_quiet:
  assumes "fault_free (iw_store w)"
  obtains r where "on_panel (get_inbound_domain i) w = (w, r)"
  using get_quiet [OF assms] by blast

lemma add_one_mode:
  assumes "fault_free (iw_store w)" "one_mode ul (ps_inbound (iw_store w))"
  shows "one_mode ul (ps_inbound (iw_store (fst (add_inbound ul now n w))))"
proof -
  let ?n = "normalize_domain ul n"
  obtain s r where a: "add_inbound_domain now ?n (iw_store w) = (s, r)" by fastforce
  have ff: "fault_free s" using add_quiet(1) [OF assms(1), of now ?n] a by simp
  show ?thesis
  proof (cases "check_inbound_domain ?n")
    case (Some e)
    with assms(2) show ?thesis by (simp add: add_inbound_def Let_def andthen_def refuse_def)
  next
    case None
    show ?thesis
    proof (cases r)
      case (Inl e)
      with add_row [OF a] None assms(2) show ?thesis
        by (simp add: add_inbound_def Let_def andthen_def refuse_def on_panel_def a same_inbound_def)
    next
      case (Inr d)
      from add_row [OF a] Inr have rows: "ps_inbound s = ps_inbound (iw_store w) @ [d]" "i_host d = []" by auto
      then have om: "one_mode ul (ps_inbound s)" using one_mode_new [OF assms(2)] by simp
      let ?w = "w\<lparr>iw_store := s\<rparr>"
      obtain w1 q where w1: "resync_inbound ?w = (w1, q)" by fastforce
      with resync_quiet [of ?w] ff have s1: "iw_store w1 = s" by simp
      show ?thesis
      proof (cases q)
        case (Inl e)
        obtain s2 t where d: "delete_inbound_domain (i_id d) s = (s2, t)" by fastforce
        from delete_row [OF d] have "set (ps_inbound s2) \<subseteq> set (ps_inbound s)" by (auto simp: same_inbound_def)
        with one_mode_sub [OF om] have "one_mode ul (ps_inbound s2)" .
        moreover have "iw_store (fst (add_inbound ul now n w)) = s2"
          using None w1 Inl s1 by (cases t) (simp_all add: add_inbound_def Let_def andthen_def refuse_def on_panel_def a Inr quietly_def d)
        ultimately show ?thesis by simp
      next
        case Inr': (Inr u)
        with None w1 s1 om show ?thesis by (simp add: add_inbound_def Let_def andthen_def refuse_def on_panel_def a Inr)
      qed
    qed
  qed
qed

lemma recipients_one_mode:
  assumes "fault_free (iw_store w)" "one_mode ul (ps_inbound (iw_store w))"
  shows "one_mode ul (ps_inbound (iw_store (fst (set_recipients ul i mode raw w))))"
proof -
  obtain r where g: "on_panel (get_inbound_domain i) w = (w, r)" by (rule read_quiet [OF assms(1)])
  have step: "one_mode ul (ps_inbound (iw_store (fst (andthen (on_panel (update_inbound_recipients i mode as)) (\<lambda>_. resync_inbound) w))))" for as
  proof -
    obtain s q where u: "update_inbound_recipients i mode as (iw_store w) = (s, q)" by fastforce
    have ff: "fault_free s" using add_quiet(2) [OF assms(1), of i mode as] u by simp
    have "one_mode ul (ps_inbound s)" using recipients_row [OF u]
    proof
      assume "(\<exists>e. q = Inl e) \<and> same_inbound (iw_store w) s"
      with assms(2) show ?thesis by (simp add: same_inbound_def)
    next
      assume "q = Inr () \<and> ps_inbound s = map (\<lambda>d. if i_id d = i then d\<lparr>i_mode := mode, i_recipients := if mode = ''list'' then as else []\<rparr> else d)
          (ps_inbound (iw_store w)) \<and> ps_next_inbound s = ps_next_inbound (iw_store w)"
      then show ?thesis using one_mode_same [OF assms(2), of "\<lambda>d. if i_id d = i then d\<lparr>i_mode := mode, i_recipients := if mode = ''list'' then as else []\<rparr> else d"]
        by simp
    qed
    with ff show ?thesis by (cases q) (simp_all add: andthen_def on_panel_def u resync_quiet)
  qed
  show ?thesis
  proof (cases r)
    case (Inl e)
    with assms(2) g show ?thesis by (simp add: set_recipients_def andthen_def)
  next
    case (Inr d)
    show ?thesis
    proof (cases "if mode = ''list'' then parse_recipient_addresses ul raw (i_name d) else Inr []")
      case p: (Inl e)
      show ?thesis unfolding set_recipients_def andthen_def g Inr sum.case prod.case p
        using assms(2) by (cases "check_recipient_mode mode") (simp_all add: refuse_def)
    next
      case p: (Inr as)
      show ?thesis
      proof (cases "check_recipient_mode mode")
        case None
        have "set_recipients ul i mode raw w = andthen (on_panel (update_inbound_recipients i mode as)) (\<lambda>_. resync_inbound) w"
          unfolding set_recipients_def andthen_def g Inr sum.case prod.case p refuse_def None option.case by simp
        with step show ?thesis by simp
      next
        case (Some e)
        with assms(2) show ?thesis unfolding set_recipients_def by (simp add: andthen_def g Inr refuse_def)
      qed
    qed
  qed
qed

lemma delete_one_mode:
  assumes "fault_free (iw_store w)" "one_mode ul (ps_inbound (iw_store w))"
  shows "one_mode ul (ps_inbound (iw_store (fst (delete_inbound i w))))"
proof -
  obtain s q where u: "delete_inbound_domain i (iw_store w) = (s, q)" by fastforce
  have ff: "fault_free s" using add_quiet(3) [OF assms(1), of i] u by simp
  have "set (ps_inbound s) \<subseteq> set (ps_inbound (iw_store w))" using delete_row [OF u] by (auto simp: same_inbound_def)
  with one_mode_sub [OF assms(2)] have "one_mode ul (ps_inbound s)" .
  with ff show ?thesis by (cases q) (simp_all add: delete_inbound_def andthen_def on_panel_def u resync_quiet)
qed


section \<open>Witnesses\<close>

definition ex_route :: inbound_route where
  "ex_route = \<lparr>ro_domain = ''in.io'', ro_host = ''mx.io'', ro_port = 25, ro_tls = ''may'', ro_mode = ''list'', ro_recipients = [''a@in.io'']\<rparr>"

definition ex_gateway :: inbound_world where
  "ex_gateway = \<lparr>iw_store = ex_panel\<lparr>ps_inbound :=
       [\<lparr>i_id = 0, i_name = ''in.io'', i_mode = ''list'', i_host = ''mx.io'', i_port = 25, i_tls = ''may'',
          i_recipients = [''a@in.io''], i_created = 0\<rparr>]\<rparr>,
     iw_files = (\<lambda>_. None), iw_live = (\<lambda>_. None), iw_faults = []\<rparr>"

lemma ex_route_renders:
  "render_inbound_maps [ex_route] = Inr (''in.io OK'' @ [newline], ''in.io smtp:[mx.io]:25'' @ [newline], ''a@in.io OK'' @ [newline], ''[mx.io]:25 may'' @ [newline])"
  by code_simp


lemma ex_gateway_act:
  "snd (inbound_act ascii_lower 0 (Set_transport 0 ''[192.0.2.1]'' ''2525'' ''encrypt'') ex_gateway) = Inr ()"
  by code_simp

theorem inbound_tables_follow_witness:
  "tables_current (fst (inbound_act ascii_lower 0 (Set_transport 0 ''[192.0.2.1]'' ''2525'' ''encrypt'') ex_gateway))"
proof -
  have "inbound_act ascii_lower 0 (Set_transport 0 ''[192.0.2.1]'' ''2525'' ''encrypt'') ex_gateway =
      (fst (inbound_act ascii_lower 0 (Set_transport 0 ''[192.0.2.1]'' ''2525'' ''encrypt'') ex_gateway), Inr ())"
    using ex_gateway_act by (metis prod.collapse)
  from inbound_tables_follow [OF this] show ?thesis by (simp add: inbound_wf_def ex_gateway_def ex_panel_def)
qed


end
