(* ===== verification/Inbound_Milter.thy ===== *)
theory Inbound_Milter
  imports Inbound_Store Go_Regexp Journal
begin

text \<open>
  The journal milter of port 25 (\<open>internal/milter/inbound.go\<close>): the callbacks of one connection over
  the panel's store, the filter's signature, and what is kept of the filter's verdict. The session is
  the record \<open>in_session\<close>; \<open>now\<close> is the time a callback runs at. Parameters: \<open>ul\<close> is \<open>strings.ToLower\<close>
  past ASCII, \<open>ef\<close> is \<open>strings.EqualFold\<close>, \<open>wd\<close> the decoder of encoded-words, \<open>mac\<close> the HMAC-SHA256
  of a key and a text. Log output is left out.

  What the lemmas show: a row names the filter only for a message signed with its key and queue id; a
  message is one row for each of its recipients at an inbound domain; a verdict kept is short and
  printable whatever the headers hold; the symbols of the filter lists come first.
\<close>

section \<open>The verdict\<close>

definition verdict_max_symbols :: nat where "verdict_max_symbols = 6"

definition verdict_max_bytes :: nat where "verdict_max_bytes = 255"

definition list_symbol_prefix :: string where "list_symbol_prefix = ''SELFPOST_''"

text \<open>\<open>-?[0-9]+(?:\.[0-9]+)?\<close>\<close>

definition number_re :: re where
  "number_re = seq [opt (Lit ''-''), some1 is_digit, opt (Seq (Lit ''.'') (some1 is_digit))]"

definition rspamd_score :: re where
  "rspamd_score = seq [Lit ''['', Cap 1 number_re, Lit '' / '', Cap 2 number_re, Lit '']'']"

definition symbol_char :: "char \<Rightarrow> bool" where
  "symbol_char c \<longleftrightarrow> is_upper c \<or> is_digit c \<or> c = CHR ''_''"

definition rspamd_symbol :: re where
  "rspamd_symbol = seq [Cap 1 (seq [Cls is_upper, Cls symbol_char, upto_times 62 (Cls symbol_char)]),
     Lit ''('', Cap 2 number_re, Lit '')'']"

text \<open>
  A pattern without \<open>^\<close>: the leftmost match, with what follows it. Group 0 is the match itself. Then
  all matches, each sought after the one before; the pattern matches no empty text.
\<close>

fun search_re :: "re \<Rightarrow> char \<Rightarrow> string \<Rightarrow> (caps \<times> string) option" where
  "search_re r p s =
     (case run (Cap 0 r) (p, s) [] (\<lambda>_ cs. Some cs) of
        Some cs \<Rightarrow> Some (cs, drop (length (group cs 0)) s)
      | None \<Rightarrow> (case s of [] \<Rightarrow> None | c # t \<Rightarrow> search_re r c t))"

declare search_re.simps [simp del]

function find_all :: "re \<Rightarrow> char \<Rightarrow> string \<Rightarrow> caps list" where
  "find_all r p s =
     (case search_re r p s of
        None \<Rightarrow> []
      | Some (cs, rest) \<Rightarrow>
          if length rest < length s then cs # find_all r (last (p # take (length s - length rest) s)) rest else [])"
  by pat_completeness auto
termination by (relation "measure (\<lambda>(r, p, s). length s)") auto

declare find_all.simps [simp del]

definition verdict_action :: "(string \<Rightarrow> string) \<Rightarrow> string \<Rightarrow> string" where
  "verdict_action ul h =
     (let a = to_lower ul (trim_space h)
      in if \<not> list_all (\<lambda>c. is_lower c \<or> c = CHR '' '') a \<or> length a > 32 then [] else a)"

definition symbol_text :: "caps \<Rightarrow> string" where
  "symbol_text m = group m 1 @ ''('' @ group m 2 @ '')''"

text \<open>The loop over the symbols: those of the filter lists, at most six, and the rest; weight zero is neither.\<close>

fun pick_symbols :: "caps list \<Rightarrow> string list \<Rightarrow> string list \<Rightarrow> string list \<times> string list" where
  "pick_symbols [] symbols rest = (symbols, rest)"
| "pick_symbols (m # ms) symbols rest =
     (if trim ''-0.'' (group m 2) = [] then pick_symbols ms symbols rest
      else if has_prefix list_symbol_prefix (group m 1)
        then pick_symbols ms (if length symbols < verdict_max_symbols then symbols @ [symbol_text m] else symbols) rest
      else pick_symbols ms symbols (rest @ [symbol_text m]))"

definition verdict_symbols :: "string \<Rightarrow> string list" where
  "verdict_symbols h =
     (let (symbols, rest) = pick_symbols (find_all rspamd_symbol (CHR 0x0A) h) [] []
      in symbols @ take (verdict_max_symbols - length symbols) rest)"

definition rspamd_verdict :: "(string \<Rightarrow> string) \<Rightarrow> string \<Rightarrow> string \<Rightarrow> string \<times> string" where
  "rspamd_verdict ul action_header result_header =
     (let action = verdict_action ul action_header;
          parts = (if action \<noteq> [] then [action] else []) @
            (case search_re rspamd_score (CHR 0x0A) result_header of
               Some (m, _) \<Rightarrow> [''score '' @ group m 1 @ '' / '' @ group m 2] | None \<Rightarrow> []);
          detail = join '', '' parts;
          symbols = verdict_symbols result_header;
          detail1 = (if symbols \<noteq> [] then (if detail \<noteq> [] then detail @ ''; '' else detail) @ join '' '' symbols else detail)
      in (action, take verdict_max_bytes detail1))"

section \<open>The session\<close>

record in_session =
  is_key :: string
  is_client_ip :: string
  is_from :: string
  is_rcpts :: "string list"
  is_subject :: string
  is_action :: string
  is_result :: string
  is_seen :: bool
  is_sig :: string

definition new_in_session :: "string \<Rightarrow> in_session" where
  "new_in_session key = \<lparr>is_key = key, is_client_ip = [], is_from = [], is_rcpts = [], is_subject = [],
     is_action = [], is_result = [], is_seen = False, is_sig = []\<rparr>"

definition in_reset :: "in_session \<Rightarrow> in_session" where
  "in_reset s = s\<lparr>is_from := [], is_rcpts := [], is_subject := [], is_action := [], is_result := [],
     is_seen := False, is_sig := []\<rparr>"

definition in_connect :: "ip option \<Rightarrow> in_session \<Rightarrow> in_session \<times> response" where
  "in_connect addr s =
     (case addr of None \<Rightarrow> (s, Continue) | Some a \<Rightarrow> (s\<lparr>is_client_ip := ip_string a\<rparr>, Continue))"

definition in_mail_from :: "string \<Rightarrow> macros \<Rightarrow> in_session \<Rightarrow> in_session \<times> response" where
  "in_mail_from from m s0 =
     (let s = in_reset s0;
          s1 = (if client_addr m \<noteq> [] then s\<lparr>is_client_ip := client_addr m\<rparr> else s)
      in (s1\<lparr>is_from := clean_address from\<rparr>, Continue))"

definition in_rcpt_to :: "(string \<Rightarrow> string \<Rightarrow> bool) \<Rightarrow> string \<Rightarrow> in_session \<Rightarrow> in_session \<times> response" where
  "in_rcpt_to ef rcpt s =
     (let to = recipient_as_logged rcpt
      in if list_ex (\<lambda>have. ef have to) (is_rcpts s) then (s, Continue)
         else (s\<lparr>is_rcpts := is_rcpts s @ [to]\<rparr>, Continue))"

text \<open>The name of the filter's header as \<open>CanonicalMIMEHeaderKey\<close> spells it.\<close>

definition signature_header :: string where
  "signature_header = canonical_key ''X-SelfPost-Filter''"

definition in_header :: "(string \<Rightarrow> string option) \<Rightarrow> string \<Rightarrow> string \<Rightarrow> in_session \<Rightarrow> in_session \<times> response" where
  "in_header wd name val s =
     (let key = canonical_key name
      in (if key = ''Subject'' then (if is_subject s = [] then s\<lparr>is_subject := decode_subject wd val\<rparr> else s)
          else if key = ''X-Rspamd-Action'' then s\<lparr>is_action := val, is_seen := True\<rparr>
          else if key = ''X-Spamd-Result'' then s\<lparr>is_result := val, is_seen := True\<rparr>
          else if key = signature_header then s\<lparr>is_sig := trim_space val\<rparr>
          else s,
          Continue))"

definition hex_encode :: "string \<Rightarrow> string" where
  "hex_encode s = concat (map (\<lambda>c. [hex_digit (byte_code c div 16), hex_digit (byte_code c mod 16)]) s)"

definition filter_signature :: "(string \<Rightarrow> string \<Rightarrow> string) \<Rightarrow> string \<Rightarrow> string \<Rightarrow> string" where
  "filter_signature mac key queue_id = hex_encode (mac key queue_id)"

definition signed :: "(string \<Rightarrow> string) \<Rightarrow> (string \<Rightarrow> string \<Rightarrow> string) \<Rightarrow> string \<Rightarrow> in_session \<Rightarrow> bool" where
  "signed ul mac queue_id s \<longleftrightarrow>
     \<not> (is_key s = [] \<or> queue_id = [] \<or> is_sig s = []) \<and>
     to_lower ul (is_sig s) = filter_signature mac (is_key s) queue_id"

definition in_entry :: "(string \<Rightarrow> string) \<Rightarrow> string \<Rightarrow> in_session \<Rightarrow> spam_entry" where
  "in_entry ul queue_id s =
     (let (action, detail) = rspamd_verdict ul (is_action s) (is_result s);
          decision = (if is_seen s \<and> action = ''quarantine'' then Quarantine else Accept)
      in \<lparr>se_domain = [], se_ip = is_client_ip s, se_from = is_from s, se_to = [], se_subject = is_subject s,
          se_decision = decision, se_engine = (if is_seen s then Rspamd else Selfpost),
          se_detail = (if is_seen s then detail else []), se_queue_id = queue_id,
          se_upstream = (if queue_id = [] then Up_none else if decision = Quarantine then Up_held else Up_queued),
          se_at = None\<rparr>)"

text \<open>The look-up of each recipient's domain; one that fails is skipped.\<close>

fun in_rows :: "(string \<Rightarrow> string) \<Rightarrow> string list \<Rightarrow> panel_store \<Rightarrow> panel_store \<times> (string \<times> string) list" where
  "in_rows ul [] w = (w, [])"
| "in_rows ul (to # tos) w =
     (case is_inbound_domain ul (domain_of ul to) w of
        (w1, r) \<Rightarrow> (case in_rows ul tos w1 of
           (w2, rows) \<Rightarrow> (w2, if r = Inr True then (domain_of ul to, to) # rows else rows)))"

definition in_record :: "(string \<Rightarrow> string) \<Rightarrow> int \<Rightarrow> string \<Rightarrow> in_session \<Rightarrow> panel_store \<Rightarrow> panel_store" where
  "in_record ul now queue_id s w =
     (let w1 = (if queue_id \<noteq> [] then fst (forget_inbound_queue_id queue_id w) else w);
          (w2, rows) = in_rows ul (is_rcpts s) w1
      in fst (insert_inbound_spam_message now (in_entry ul queue_id s) rows w2))"

definition in_body ::
  "(string \<Rightarrow> string) \<Rightarrow> (string \<Rightarrow> string \<Rightarrow> string) \<Rightarrow> int \<Rightarrow> macros \<Rightarrow> in_session \<Rightarrow> panel_store \<Rightarrow>
   in_session \<times> panel_store \<times> response" where
  "in_body ul mac now m s w =
     (let queue_id = macro m ''i'';
          s1 = (if signed ul mac queue_id s then s else s\<lparr>is_seen := False\<rparr>)
      in (in_reset s1, in_record ul now queue_id s1 w, Continue))"

definition in_abort :: "in_session \<Rightarrow> in_session" where
  "in_abort = in_reset"

section \<open>What a match holds\<close>

text \<open>All a pattern can eat lies in a class.\<close>

primrec re_in :: "(char \<Rightarrow> bool) \<Rightarrow> re \<Rightarrow> bool" where
  "re_in P Eps \<longleftrightarrow> True"
| "re_in P (Lit s) \<longleftrightarrow> list_all P s"
| "re_in P (Cls Q) \<longleftrightarrow> (\<forall>c. Q c \<longrightarrow> P c)"
| "re_in P (Seq a b) \<longleftrightarrow> re_in P a \<and> re_in P b"
| "re_in P (Alt a b) \<longleftrightarrow> re_in P a \<and> re_in P b"
| "re_in P (Star g a) \<longleftrightarrow> re_in P a"
| "re_in P (Cap i a) \<longleftrightarrow> re_in P a"
| "re_in P Word_b \<longleftrightarrow> True"
| "re_in P Text_end \<longleftrightarrow> True"

lemma runs_in:
  assumes "re_in P r" "(u, v) \<in> runs r"
  shows "\<exists>t. snd (fst u) = t @ snd (fst v) \<and> list_all P t"
  using assms
proof (induction r arbitrary: u v)
  case (Seq a b)
  from Seq.prems obtain w where w: "(u, w) \<in> runs a" "(w, v) \<in> runs b" by auto
  from Seq.IH(1) [OF _ w(1)] Seq.prems(1) obtain s where s: "snd (fst u) = s @ snd (fst w)" "list_all P s" by auto
  from Seq.IH(2) [OF _ w(2)] Seq.prems(1) obtain t where t: "snd (fst w) = t @ snd (fst v)" "list_all P t" by auto
  from s t show ?case by (intro exI [of _ "s @ t"]) simp
next
  case (Star g a)
  then have a: "re_in P a" and "(u, v) \<in> (runs a \<inter> shorter)\<^sup>*" by simp_all
  from this(2) show ?case
  proof (induction rule: rtrancl_induct)
    case (step w v)
    then obtain s where s: "snd (fst u) = s @ snd (fst w)" "list_all P s" by blast
    from step.hyps(2) have "(w, v) \<in> runs a" by blast
    from Star.IH [OF a this] obtain t where t: "snd (fst w) = t @ snd (fst v)" "list_all P t" by blast
    from s t show ?case by (intro exI [of _ "s @ t"]) simp
  qed simp
next
  case (Alt a b)
  then have "(u, v) \<in> runs a \<or> (u, v) \<in> runs b" "re_in P a" "re_in P b" by auto
  with Alt.IH show ?case by blast
qed (auto simp: list_all_iff)

lemma upto_times_in [simp]: "re_in P (upto_times n r) \<longleftrightarrow> n = 0 \<or> re_in P r"
  by (induction n) (auto simp: opt_def)

lemma upto_times_groups [simp]: "groups (upto_times n r) = (if n = 0 then {} else groups r)"
  by (induction n) (auto simp: opt_def)

text \<open>A group of a sequence: what its place in the sequence has eaten.\<close>

lemma runs_group:
  assumes "(u, v) \<in> runs (Seq (Cap i a) b)" "re_in P a" "i \<notin> groups b"
  shows "\<exists>t. map_of (snd v) i = Some t \<and> list_all P t"
proof -
  from assms(1) obtain w where w: "(u, w) \<in> runs (Cap i a)" "(w, v) \<in> runs b" by auto
  then obtain cs where c: "(u, (fst w, cs)) \<in> runs a" and e: "snd w = (i, take (length (snd (fst u)) - length (snd (fst w))) (snd (fst u))) # cs"
    by (cases u; cases w) auto
  from runs_in [OF assms(2) c] obtain t where t: "snd (fst u) = t @ snd (fst w)" "list_all P t" by auto
  moreover have "map_of (snd v) i = map_of (snd w) i" using runs_step [OF w(2)] assms(3) by blast
  ultimately show ?thesis using e by simp
qed

lemma runs_later: "(u, v) \<in> runs (Seq a b) \<Longrightarrow> \<exists>w. (w, v) \<in> runs b"
  by auto

definition number_char :: "char \<Rightarrow> bool" where
  "number_char c \<longleftrightarrow> is_digit c \<or> c = CHR ''-'' \<or> c = CHR ''.''"

lemma number_in [simp]: "re_in number_char number_re" "groups number_re = {}"
  by (auto simp: number_re_def opt_def some1_def many_def number_char_def)

lemma score_groups:
  assumes "(u, v) \<in> runs rspamd_score"
  shows "\<exists>t. map_of (snd v) 1 = Some t \<and> list_all number_char t" "\<exists>t. map_of (snd v) 2 = Some t \<and> list_all number_char t"
proof -
  from assms obtain w1 where "(w1, v) \<in> runs (Seq (Cap 1 number_re) (Seq (Lit '' / '') (Seq (Cap 2 number_re) (Lit '']''))))"
    unfolding rspamd_score_def seq.simps by (blast dest: runs_later)
  from runs_group [OF this] show "\<exists>t. map_of (snd v) 1 = Some t \<and> list_all number_char t" by simp
  from assms obtain w2 where "(w2, v) \<in> runs (Seq (Cap 2 number_re) (Lit '']''))"
    unfolding rspamd_score_def seq.simps by (blast dest: runs_later)
  from runs_group [OF this] show "\<exists>t. map_of (snd v) 2 = Some t \<and> list_all number_char t" by simp
qed

lemma symbol_groups:
  assumes "(u, v) \<in> runs rspamd_symbol"
  shows "\<exists>t. map_of (snd v) 1 = Some t \<and> list_all symbol_char t" "\<exists>t. map_of (snd v) 2 = Some t \<and> list_all number_char t"
proof -
  show "\<exists>t. map_of (snd v) 1 = Some t \<and> list_all symbol_char t"
    using assms unfolding rspamd_symbol_def seq.simps
    by (rule runs_group) (auto simp: symbol_char_def)
  from assms obtain w2 where "(w2, v) \<in> runs (Seq (Cap 2 number_re) (Lit '')''))"
    unfolding rspamd_symbol_def seq.simps by (blast dest: runs_later)
  from runs_group [OF this] show "\<exists>t. map_of (snd v) 2 = Some t \<and> list_all number_char t" by simp
qed

text \<open>A match found anywhere is a match of the pattern there.\<close>

lemma search_runs:
  assumes "search_re r p s = Some (cs, rest)"
  shows "\<exists>u v. (u, v) \<in> runs r \<and> (\<forall>i. i \<noteq> 0 \<longrightarrow> map_of cs i = map_of (snd v) i)"
  using assms
proof (induction r p s rule: search_re.induct)
  case (1 r p s)
  show ?case
  proof (cases "run (Cap 0 r) (p, s) [] (\<lambda>_ cs. Some cs)")
    case None
    then have e: "search_re r p s = (case s of [] \<Rightarrow> None | c # t \<Rightarrow> search_re r c t)" by (subst search_re.simps) simp
    show ?thesis
    proof (cases s)
      case Nil
      with e "1.prems" show ?thesis by simp
    next
      case (Cons c t)
      with e "1.prems" "1.IH" [OF None Cons] show ?thesis by simp
    qed
  next
    case (Some c)
    with "1.prems" have c: "c = cs" by (subst (asm) search_re.simps) simp
    from run_sound [OF Some] obtain y where "(((p, s), []), y, cs) \<in> runs (Cap 0 r)" by (auto simp: c)
    from runs_Cap [OF this] obtain t cs1 where "(((p, s), []), y, cs1) \<in> runs r" "cs = (0, t) # cs1" by blast
    then show ?thesis by (intro exI [of _ "((p, s), [])"] exI [of _ "(y, cs1)"]) simp
  qed
qed

lemma find_all_runs:
  assumes "m \<in> set (find_all r p s)"
  shows "\<exists>u v. (u, v) \<in> runs r \<and> (\<forall>i. i \<noteq> 0 \<longrightarrow> map_of m i = map_of (snd v) i)"
  using assms
proof (induction r p s rule: find_all.induct)
  case (1 r p s)
  show ?case
  proof (cases "search_re r p s")
    case None
    with "1.prems" show ?thesis by (subst (asm) find_all.simps) simp
  next
    case (Some x)
    obtain cs rest where x: "x = (cs, rest)" by fastforce
    from "1.prems" Some x have "m = cs \<or> length rest < length s \<and> m \<in> set (find_all r (last (p # take (length s - length rest) s)) rest)"
      by (subst (asm) find_all.simps) (auto split: if_splits)
    then show ?thesis
    proof
      assume "m = cs"
      from Some x have "search_re r p s = Some (cs, rest)" by simp
      from search_runs [OF this] \<open>m = cs\<close> show ?thesis by blast
    next
      assume "length rest < length s \<and> m \<in> set (find_all r (last (p # take (length s - length rest) s)) rest)"
      with "1.IH" [OF Some x [symmetric]] show ?thesis by (elim conjE)
    qed
  qed
qed

section \<open>What is kept of a verdict\<close>

definition verdict_char :: "char \<Rightarrow> bool" where
  "verdict_char c \<longleftrightarrow> is_lower c \<or> is_upper c \<or> is_digit c \<or> c \<in> set '' _-./,;()''"

lemma char_classes:
  "number_char c \<Longrightarrow> verdict_char c" "symbol_char c \<Longrightarrow> verdict_char c" "is_lower c \<Longrightarrow> verdict_char c" "verdict_char CHR '' ''"
  by (auto simp: number_char_def symbol_char_def verdict_char_def)

lemma group_in: "\<exists>t. map_of cs i = Some t \<and> list_all P t \<Longrightarrow> list_all P (group cs i)"
  by (auto simp: group_def)

lemma list_all_join: "list_all P sep \<Longrightarrow> (\<And>w. w \<in> set ws \<Longrightarrow> list_all P w) \<Longrightarrow> list_all P (join sep ws)"
  by (induction sep ws rule: join.induct) auto

lemma score_printable:
  assumes "search_re rspamd_score p h = Some (m, rest)"
  shows "list_all number_char (group m 1)" "list_all number_char (group m 2)"
proof -
  from search_runs [OF assms] obtain u v where "(u, v) \<in> runs rspamd_score" "\<forall>i. i \<noteq> 0 \<longrightarrow> map_of m i = map_of (snd v) i" by auto
  with score_groups [of u v] show "list_all number_char (group m 1)" "list_all number_char (group m 2)" by (auto simp: group_def)
qed

lemma symbol_printable:
  assumes "m \<in> set (find_all rspamd_symbol p h)"
  shows "list_all symbol_char (group m 1)" "list_all number_char (group m 2)"
proof -
  from find_all_runs [OF assms] obtain u v where "(u, v) \<in> runs rspamd_symbol" "\<forall>i. i \<noteq> 0 \<longrightarrow> map_of m i = map_of (snd v) i" by auto
  with symbol_groups [of u v] show "list_all symbol_char (group m 1)" "list_all number_char (group m 2)" by (auto simp: group_def)
qed

lemma symbol_text_printable:
  assumes "m \<in> set (find_all rspamd_symbol p h)"
  shows "list_all verdict_char (symbol_text m)"
proof -
  have "list_all verdict_char (group m 1)" "list_all verdict_char (group m 2)"
    using symbol_printable [OF assms] char_classes(1,2) by (auto simp: list_all_iff)
  then show ?thesis by (simp add: symbol_text_def verdict_char_def)
qed

text \<open>The symbols that weigh, those of the lists first.\<close>

definition weighs :: "caps \<Rightarrow> bool" where
  "weighs m \<longleftrightarrow> trim ''-0.'' (group m 2) \<noteq> []"

definition of_list :: "caps \<Rightarrow> bool" where
  "of_list m \<longleftrightarrow> has_prefix list_symbol_prefix (group m 1)"

lemma pick_symbols_spec:
  "length symbols \<le> verdict_max_symbols \<Longrightarrow> pick_symbols ms symbols rest =
     (take verdict_max_symbols (symbols @ map symbol_text (filter (\<lambda>m. weighs m \<and> of_list m) ms)),
      rest @ map symbol_text (filter (\<lambda>m. weighs m \<and> \<not> of_list m) ms))"
  by (induction ms symbols rest rule: pick_symbols.induct) (auto simp: weighs_def of_list_def take_Cons' Suc_diff_Suc)

text \<open>
  Of the filter's symbols the first six that carry weight are kept, those of the filter lists before
  any other, each group in the order the filter wrote it.
\<close>

theorem list_symbols_first:
  "verdict_symbols h =
     (let ms = filter weighs (find_all rspamd_symbol (CHR 0x0A) h)
      in take 6 (map symbol_text (filter of_list ms @ filter (\<lambda>m. \<not> of_list m) ms)))"
  by (simp add: verdict_symbols_def pick_symbols_spec verdict_max_symbols_def Let_def conj_commute min_def)

text \<open>
  Whatever the two headers hold, what is kept of them is at most 255 bytes, all of them letters,
  digits, blanks or the punctuation of the summary: no control character, no line end and no byte
  above ASCII reaches the journal.
\<close>

theorem verdict_kept:
  "length (snd (rspamd_verdict ul a h)) \<le> 255 \<and> list_all verdict_char (snd (rspamd_verdict ul a h)) \<and>
   length (fst (rspamd_verdict ul a h)) \<le> 32 \<and> list_all (\<lambda>c. is_lower c \<or> c = CHR '' '') (fst (rspamd_verdict ul a h))"
proof -
  let ?parts = "(if verdict_action ul a \<noteq> [] then [verdict_action ul a] else []) @
            (case search_re rspamd_score (CHR 0x0A) h of
               Some (m, _) \<Rightarrow> [''score '' @ group m 1 @ '' / '' @ group m 2] | None \<Rightarrow> [])"
  have act: "list_all (\<lambda>c. is_lower c \<or> c = CHR '' '') (verdict_action ul a)" "length (verdict_action ul a) \<le> 32"
    by (auto simp: verdict_action_def Let_def)
  then have va: "list_all verdict_char (verdict_action ul a)" using char_classes(3,4) by (auto simp: list_all_iff)
  have vs: "list_all verdict_char (''score '' @ group m 1 @ '' / '' @ group m 2)"
    if "search_re rspamd_score (CHR 0x0A) h = Some (m, rest)" for m rest
  proof -
    have "list_all verdict_char (group m 1)" "list_all verdict_char (group m 2)"
      using score_printable [OF that] char_classes(1) by (auto simp: list_all_iff)
    moreover have "list_all verdict_char ''score ''" "list_all verdict_char '' / ''" by (code_simp+)
    ultimately show ?thesis by simp
  qed
  have "list_all verdict_char w" if "w \<in> set ?parts" for w
  proof (cases "search_re rspamd_score (CHR 0x0A) h")
    case None
    with that va show ?thesis by (simp split: if_splits)
  next
    case (Some x)
    obtain m rest where x: "x = (m, rest)" by fastforce
    with that Some have "w = verdict_action ul a \<or> w = ''score '' @ group m 1 @ '' / '' @ group m 2" by (auto split: if_splits)
    with va vs [of m rest] Some x show ?thesis by (elim disjE) simp_all
  qed
  moreover have "list_all verdict_char '', ''" by code_simp
  ultimately have d: "list_all verdict_char (join '', '' ?parts)" by (intro list_all_join)
  have "list_all verdict_char w" if "w \<in> set (verdict_symbols h)" for w
    using that unfolding list_symbols_first Let_def by (auto dest!: in_set_takeD intro: symbol_text_printable)
  moreover have sep: "list_all verdict_char '' ''" "list_all verdict_char ''; ''" by (code_simp+)
  ultimately have s: "list_all verdict_char (join '' '' (verdict_symbols h))" by (intro list_all_join)
  have tk: "list_all verdict_char t \<Longrightarrow> list_all verdict_char (take n t)" for n t
    by (auto simp: list_all_iff dest: in_set_takeD)
  have "list_all verdict_char (snd (rspamd_verdict ul a h))"
    unfolding rspamd_verdict_def Let_def snd_conv using d s sep by (intro tk) simp
  moreover have "length (snd (rspamd_verdict ul a h)) \<le> 255"
    by (simp add: rspamd_verdict_def Let_def verdict_max_bytes_def)
  ultimately show ?thesis using act by (simp add: rspamd_verdict_def Let_def)
qed

section \<open>What a message leaves in the journal\<close>

datatype in_callback = Ev_rcpt string | Ev_header string string

fun in_event :: "(string \<Rightarrow> string \<Rightarrow> bool) \<Rightarrow> (string \<Rightarrow> string option) \<Rightarrow> in_callback \<Rightarrow> in_session \<Rightarrow> in_session" where
  "in_event ef wd (Ev_rcpt a) s = fst (in_rcpt_to ef a s)"
| "in_event ef wd (Ev_header n v) s = fst (in_header wd n v s)"

text \<open>A session at end-of-message: what MAIL FROM began, after the recipients and headers.\<close>

definition in_message ::
  "(string \<Rightarrow> string \<Rightarrow> bool) \<Rightarrow> (string \<Rightarrow> string option) \<Rightarrow> string \<Rightarrow> macros \<Rightarrow> in_callback list \<Rightarrow> in_session \<Rightarrow> in_session" where
  "in_message ef wd sender m evs s = fold (in_event ef wd) evs (fst (in_mail_from sender m s))"

lemma fold_in_event:
  "is_key (fold (in_event ef wd) evs s) = is_key s \<and>
   (is_sig (fold (in_event ef wd) evs s) = is_sig s \<or>
    (\<exists>n v. Ev_header n v \<in> set evs \<and> canonical_key n = signature_header \<and> is_sig (fold (in_event ef wd) evs s) = trim_space v))"
proof (induction evs arbitrary: s)
  case (Cons e evs)
  have "is_key (in_event ef wd e s) = is_key s \<and> (is_sig (in_event ef wd e s) = is_sig s \<or>
      (\<exists>n v. e = Ev_header n v \<and> canonical_key n = signature_header \<and> is_sig (in_event ef wd e s) = trim_space v))"
    by (cases e) (auto simp: in_rcpt_to_def in_header_def Let_def)
  with Cons [of "in_event ef wd e s"] show ?case unfolding fold_simps by (metis list.set_intros)
qed simp

lemma mail_from_fields: "is_key (fst (in_mail_from sender m s)) = is_key s" "is_sig (fst (in_mail_from sender m s)) = []"
  "is_rcpts (fst (in_mail_from sender m s)) = []"
  by (simp_all add: in_mail_from_def in_reset_def Let_def)

lemma message_key [simp]: "is_key (in_message ef wd sender m evs s) = is_key s"
  using fold_in_event [of ef wd evs "fst (in_mail_from sender m s)"] by (simp add: in_message_def mail_from_fields)

lemma message_sig:
  "is_sig (in_message ef wd sender m evs s) = [] \<or>
   (\<exists>n v. Ev_header n v \<in> set evs \<and> canonical_key n = signature_header \<and> is_sig (in_message ef wd sender m evs s) = trim_space v)"
  using fold_in_event [of ef wd evs "fst (in_mail_from sender m s)"] unfolding in_message_def mail_from_fields by blast

text \<open>A row of the journal after a message is one from before, or one of its entry.\<close>

definition row_of_entry :: "spam_entry \<Rightarrow> spam_row \<Rightarrow> bool" where
  "row_of_entry e r \<longleftrightarrow> sr_engine r = se_engine e \<and> sr_decision r = se_decision e \<and> sr_detail r = se_detail e \<and>
     sr_queue_id r = se_queue_id e \<and> sr_from r = se_from e \<and> sr_upstream r = se_upstream e"

lemma fold_append_rows:
  "r \<in> set (ps_spam (fold (\<lambda>(d, to). append_spam now (e\<lparr>se_domain := d, se_to := to\<rparr>)) rs s)) \<Longrightarrow> r \<in> set (ps_spam s) \<or> row_of_entry e r"
proof (induction rs arbitrary: s)
  case (Cons x rs)
  obtain d to where x: "x = (d, to)" by fastforce
  from Cons.prems have "r \<in> set (ps_spam (append_spam now (e\<lparr>se_domain := d, se_to := to\<rparr>) s)) \<or> row_of_entry e r"
    by (intro Cons.IH) (simp add: x)
  then show ?case by (auto simp: append_spam_def spam_row_of_def row_of_entry_def)
qed simp

lemma prune_rows: "set (ps_spam (fst (prune_inbound_spam c k s))) \<subseteq> set (ps_spam s)"
  by (auto simp: prune_inbound_spam_def panel_step_def set_faults_def Let_def split: prod.splits sum.splits list.splits bool.splits option.splits if_splits)

lemma count_rows: "set (ps_spam (fst (count_inbound_writes n s))) \<subseteq> set (ps_spam s)"
  using prune_rows [of None inbound_cap_rows "s\<lparr>ps_writes := 0\<rparr>"]
  by (auto simp: count_inbound_writes_def Let_def split: prod.splits sum.splits)

lemma insert_message_rows:
  assumes "r \<in> set (ps_spam (fst (insert_inbound_spam_message now e rs s)))"
  shows "r \<in> set (ps_spam s) \<or> row_of_entry e r"
proof -
  let ?f = "\<lambda>s. (fold (\<lambda>(d, to). append_spam now (e\<lparr>se_domain := d, se_to := to\<rparr>)) rs s, Inr ()) :: panel_store \<times> (panel_error + unit)"
  obtain s1 x where p: "panel_step ?f s = (s1, x)" by fastforce
  have s1: "r \<in> set (ps_spam s1) \<Longrightarrow> r \<in> set (ps_spam s) \<or> row_of_entry e r"
    using p fold_append_rows [of r now e rs] by (auto simp: panel_step_def set_faults_def split: list.splits bool.splits) force+
  from assms count_rows [of "length rs" s1] show ?thesis
    using s1 by (cases "rs = []"; cases x) (auto simp: insert_inbound_spam_message_def p)
qed

lemma in_rows_keep: "in_rows ul tos w = (w', rows) \<Longrightarrow> ps_spam w' = ps_spam w"
proof (induction tos arbitrary: w w' rows)
  case (Cons to tos)
  obtain w1 r where i: "is_inbound_domain ul (domain_of ul to) w = (w1, r)" by fastforce
  then have "ps_spam w1 = ps_spam w" by (auto simp: is_inbound_domain_def panel_step_def set_faults_def split: list.splits bool.splits)
  with Cons i show ?case by (auto split: prod.splits)
qed simp

lemma forget_rows:
  "r \<in> set (ps_spam (fst (forget_inbound_queue_id q w))) \<Longrightarrow> sr_id r \<in> sr_id ` set (ps_spam w)"
  by (auto simp: forget_inbound_queue_id_def update_spam_def panel_step_def set_faults_def split: list.splits bool.splits if_splits)

lemma record_rows:
  assumes "r \<in> set (ps_spam (in_record ul now q s w))" "sr_id r \<notin> sr_id ` set (ps_spam w)"
  shows "row_of_entry (in_entry ul q s) r"
proof -
  define w1 where "w1 = (if q \<noteq> [] then fst (forget_inbound_queue_id q w) else w)"
  obtain w2 rows where i: "in_rows ul (is_rcpts s) w1 = (w2, rows)" by fastforce
  have "r \<notin> set (ps_spam w1)" using forget_rows [of r q w] assms(2) by (auto simp: w1_def split: if_splits)
  with in_rows_keep [OF i] have "r \<notin> set (ps_spam w2)" by simp
  moreover have "r \<in> set (ps_spam (fst (insert_inbound_spam_message now (in_entry ul q s) rows w2)))"
    using assms(1) i by (simp add: in_record_def Let_def w1_def)
  ultimately show ?thesis using insert_message_rows by blast
qed

text \<open>
  C34. A new row of the journal shows a verdict - the filter as its engine, a decision other than to accept,
  or a detail - only when a key is shared with the filter and, of the headers of that very message, one
  is the filter's signature of its queue id under that key. What a sender writes into the verdict
  headers while the filter is away is not shown.
\<close>

theorem verdict_needs_signature:
  assumes "in_body ul mac now m (in_message ef wd sender m0 evs s0) w = (s', w', c)"
    "row \<in> set (ps_spam w')" "sr_id row \<notin> sr_id ` set (ps_spam w)"
    "\<not> (sr_engine row = Selfpost \<and> sr_decision row = Accept \<and> sr_detail row = [])"
  shows "is_key s0 \<noteq> [] \<and> macro m ''i'' \<noteq> [] \<and> sr_queue_id row = macro m ''i'' \<and>
    (\<exists>n v. Ev_header n v \<in> set evs \<and> canonical_key n = signature_header \<and>
       to_lower ul (trim_space v) = filter_signature mac (is_key s0) (macro m ''i''))"
proof -
  let ?s = "in_message ef wd sender m0 evs s0" and ?q = "macro m ''i''"
  let ?s1 = "if signed ul mac ?q ?s then ?s else ?s\<lparr>is_seen := False\<rparr>"
  from assms(1,2) have "row \<in> set (ps_spam (in_record ul now ?q ?s1 w))" by (simp add: in_body_def Let_def split: if_splits)
  from record_rows [OF this assms(3)] have e: "row_of_entry (in_entry ul ?q ?s1) row" .
  have "is_seen ?s1"
  proof (rule ccontr)
    assume "\<not> is_seen ?s1"
    with e assms(4) show False by (auto simp: row_of_entry_def in_entry_def Let_def split: prod.splits)
  qed
  then have sg: "signed ul mac ?q ?s" by (simp split: if_splits)
  then have "is_sig ?s \<noteq> []" "is_key s0 \<noteq> []" "?q \<noteq> []" "to_lower ul (is_sig ?s) = filter_signature mac (is_key s0) ?q"
    by (auto simp: signed_def)
  moreover from this(1) message_sig [of ef wd sender m0 evs s0] obtain n v where
    "Ev_header n v \<in> set evs" "canonical_key n = signature_header" "is_sig ?s = trim_space v" by blast
  moreover have "sr_queue_id row = ?q" using e by (simp add: row_of_entry_def in_entry_def Let_def split: prod.splits)
  ultimately show ?thesis by auto
qed

text \<open>The recipients a session keeps: none twice in any case, and every one given is among them.\<close>

lemma in_rcpt_keeps: "r \<in> set (is_rcpts s) \<Longrightarrow> r \<in> set (is_rcpts (in_event ef wd e s))"
  by (cases e) (auto simp: in_rcpt_to_def in_header_def Let_def)

lemma in_rcpts_distinct:
  "sorted_wrt (\<lambda>a b. \<not> ef a b) (is_rcpts s) \<Longrightarrow> sorted_wrt (\<lambda>a b. \<not> ef a b) (is_rcpts (fold (in_event ef wd) evs s))"
proof (induction evs arbitrary: s)
  case (Cons e evs)
  have "sorted_wrt (\<lambda>a b. \<not> ef a b) (is_rcpts (in_event ef wd e s))"
    using Cons.prems by (cases e) (auto simp: in_rcpt_to_def in_header_def Let_def list_ex_iff sorted_wrt_append)
  from Cons.IH [OF this] show ?case by simp
qed simp

lemma in_rcpts_cover:
  "Ev_rcpt a \<in> set evs \<Longrightarrow>
   \<exists>r \<in> set (is_rcpts (fold (in_event ef wd) evs s)). r = recipient_as_logged a \<or> ef r (recipient_as_logged a)"
proof (induction evs arbitrary: s)
  case (Cons e evs)
  have keep: "r \<in> set (is_rcpts t) \<Longrightarrow> r \<in> set (is_rcpts (fold (in_event ef wd) evs t))" for r t
    by (induction evs arbitrary: t) (auto intro: in_rcpt_keeps)
  show ?case
  proof (cases "e = Ev_rcpt a")
    case True
    have "\<exists>r \<in> set (is_rcpts (in_event ef wd e s)). r = recipient_as_logged a \<or> ef r (recipient_as_logged a)"
      using True by (auto simp: in_rcpt_to_def Let_def list_ex_iff)
    with keep show ?thesis by auto
  next
    case False
    with Cons show ?thesis by auto
  qed
qed simp

lemma in_rcpts_length: "length (is_rcpts (fold (in_event ef wd) evs s)) \<le> length (is_rcpts s) + length evs"
proof (induction evs arbitrary: s)
  case (Cons e evs)
  have "length (is_rcpts (in_event ef wd e s)) \<le> Suc (length (is_rcpts s))"
    by (cases e) (auto simp: in_rcpt_to_def in_header_def Let_def)
  with Cons [of "in_event ef wd e s"] show ?case by simp
qed simp

text \<open>A recipient that is the relay's.\<close>

definition relayed :: "(string \<Rightarrow> string) \<Rightarrow> panel_store \<Rightarrow> string \<Rightarrow> bool" where
  "relayed ul w to \<longleftrightarrow> list_ex (\<lambda>d. i_name d = to_lower ul (domain_of ul to)) (ps_inbound w)"

lemma in_rows_quiet:
  "fault_free w \<Longrightarrow> in_rows ul tos w = (w, map (\<lambda>to. (domain_of ul to, to)) (filter (relayed ul w) tos))"
proof (induction tos)
  case (Cons to tos)
  then have "is_inbound_domain ul (domain_of ul to) w = (w, Inr (relayed ul w to))"
    by (auto simp: is_inbound_domain_def no_faults_step fault_free_def relayed_def)
  with Cons show ?case by simp
qed simp

lemma fold_append_new:
  "\<exists>ns. length ns = length rs \<and> ps_spam (fold (\<lambda>(d, to). append_spam now (e\<lparr>se_domain := d, se_to := to\<rparr>)) rs s) =
     ps_spam s @ map (\<lambda>((d, to), n). spam_row_of now s (e\<lparr>se_domain := d, se_to := to\<rparr>) n) (zip rs ns)"
proof (induction rs arbitrary: s)
  case (Cons x rs)
  obtain d to where x: "x = (d, to)" by fastforce
  let ?e = "e\<lparr>se_domain := d, se_to := to\<rparr>"
  from Cons [of "append_spam now ?e s"] obtain ns where
    ns: "length ns = length rs" "ps_spam (fold (\<lambda>(d, to). append_spam now (e\<lparr>se_domain := d, se_to := to\<rparr>)) rs (append_spam now ?e s)) =
     ps_spam (append_spam now ?e s) @ map (\<lambda>((d, to), n). spam_row_of now (append_spam now ?e s) (e\<lparr>se_domain := d, se_to := to\<rparr>) n) (zip rs ns)" by blast
  have row: "spam_row_of now (append_spam now ?e s) = spam_row_of now s"
    by (simp add: spam_row_of_def append_spam_def fun_eq_iff)
  have "ps_spam (append_spam now ?e s) = ps_spam s @ [spam_row_of now s ?e (ps_next_spam s)]" by (simp add: append_spam_def)
  with ns show ?case by (intro exI [of _ "ps_next_spam s # ns"]) (simp add: x row)
qed simp

lemma map_zip_fst: "length ns = length rs \<Longrightarrow> map (\<lambda>(r, n). f r) (zip rs ns) = map f rs"
  by (induction rs ns rule: list_induct2') auto

lemma insert_message_quiet:
  assumes "fault_free w" "ps_writes w + length rs < inbound_cap_every"
  shows "\<exists>new. ps_spam (fst (insert_inbound_spam_message now e rs w)) = ps_spam w @ new \<and>
    map (\<lambda>r. (sr_domain r, sr_to r)) new = rs \<and> (\<forall>r \<in> set new. row_of_entry e r)"
proof (cases "rs = []")
  case True
  then show ?thesis by (simp add: insert_inbound_spam_message_def)
next
  case False
  let ?s = "fold (\<lambda>(d, to). append_spam now (e\<lparr>se_domain := d, se_to := to\<rparr>)) rs w"
  from fold_append_new [of rs now e w] obtain ns where ns: "length ns = length rs" "ps_spam ?s =
     ps_spam w @ map (\<lambda>((d, to), n). spam_row_of now w (e\<lparr>se_domain := d, se_to := to\<rparr>) n) (zip rs ns)" by blast
  define new where "new = map (\<lambda>((d, to), n). spam_row_of now w (e\<lparr>se_domain := d, se_to := to\<rparr>) n) (zip rs ns)"
  have wr: "ps_writes ?s = ps_writes w" using fold_append_facts [of now "\<lambda>d to. e\<lparr>se_domain := d, se_to := to\<rparr>" rs w] by simp
  have "map (\<lambda>r. (sr_domain r, sr_to r)) new = map (\<lambda>(r, n). r) (zip rs ns)"
    unfolding new_def by (auto simp: spam_row_of_def)
  also have "\<dots> = rs" using map_zip_fst [OF ns(1), of "\<lambda>r. r"] by simp
  finally have "map (\<lambda>r. (sr_domain r, sr_to r)) new = rs" .
  moreover have "\<forall>r \<in> set new. row_of_entry e r"
    by (auto simp: new_def row_of_entry_def spam_row_of_def)
  moreover have "ps_spam (fst (insert_inbound_spam_message now e rs w)) = ps_spam ?s"
    using False assms wr by (simp add: insert_inbound_spam_message_def no_faults_step fault_free_def count_inbound_writes_def)
  ultimately show ?thesis unfolding ns(2) new_def by blast
qed


section \<open>Witnesses\<close>

definition ex_relay :: panel_store where
  "ex_relay = ex_panel\<lparr>ps_inbound := [\<lparr>i_id = 0, i_name = ''in.io'', i_mode = ''any'', i_host = ''mx.io'', i_port = 25,
     i_tls = ''may'', i_recipients = [], i_created = 0\<rparr>]\<rparr>"

definition ex_mac :: "string \<Rightarrow> string \<Rightarrow> string" where
  "ex_mac k q = take 2 (k @ q)"

definition ex_events :: "in_callback list" where
  "ex_events = [Ev_rcpt ''<a@in.io>'', Ev_header ''x-rspamd-action'' ''quarantine'',
     Ev_header ''X-Spamd-Result'' ''[7.2 / 9]'',
     Ev_header ''x-selfpost-filter'' '' 6B34 '', Ev_rcpt ''<A@IN.io>'', Ev_rcpt ''b@other.io'']"

definition ex_queue :: macros where
  "ex_queue = [''i'' \<mapsto> ''4bY'']"

abbreviation ex_message :: in_session where
  "ex_message \<equiv> in_message (\<lambda>a b. ascii_lower a = ascii_lower b) (\<lambda>_. None) ''x@y.io'' (\<lambda>_. None) ex_events (new_in_session ''k'')"

lemma ex_message_session:
  "ex_message = \<lparr>is_key = ''k'', is_client_ip = [], is_from = ''x@y.io'', is_rcpts = [''a@in.io'', ''b@other.io''], is_subject = [],
     is_action = ''quarantine'', is_result = ''[7.2 / 9]'', is_seen = True, is_sig = ''6B34''\<rparr>"
  by code_simp

text \<open>Without a capital letter there is no symbol.\<close>

lemma no_symbols: "list_all (\<lambda>c. \<not> is_upper c) h \<Longrightarrow> search_re rspamd_symbol p h = None"
proof (induction h arbitrary: p)
  case Nil
  show ?case by (subst search_re.simps) (simp add: rspamd_symbol_def)
next
  case (Cons c h)
  have "run (Cap 0 rspamd_symbol) (p, c # h) [] (\<lambda>_ cs. Some cs) = None"
    using Cons.prems by (simp add: rspamd_symbol_def)
  with Cons show ?case by (subst search_re.simps) simp
qed

lemma ex_verdict: "rspamd_verdict ascii_lower ''quarantine'' ''[7.2 / 9]'' = (''quarantine'', ''quarantine, score 7.2 / 9'')"
proof -
  have "search_re rspamd_score (CHR 0x0A) ''[7.2 / 9]'' = Some ([(0, ''[7.2 / 9]''), (2, ''9''), (1, ''7.2'')], [])"
    "verdict_action ascii_lower ''quarantine'' = ''quarantine''" by (code_simp+)
  moreover have "verdict_symbols ''[7.2 / 9]'' = []"
    by (simp add: verdict_symbols_def find_all.simps no_symbols is_upper_def)
  ultimately show ?thesis by (simp add: rspamd_verdict_def Let_def group_def verdict_max_bytes_def)
qed

abbreviation ex_after :: panel_store where
  "ex_after \<equiv> fst (snd (in_body ascii_lower ex_mac 0 ex_queue ex_message ex_relay))"

definition ex_held :: spam_row where
  "ex_held = \<lparr>sr_id = 2, sr_domain = ''in.io'', sr_ip = [], sr_from = ''x@y.io'', sr_to = ''a@in.io'', sr_subject = [],
      sr_decision = Quarantine, sr_engine = Rspamd, sr_detail = ''quarantine, score 7.2 / 9'', sr_created = 0, sr_domain_id = Some 0,
      sr_queue_id = ''4bY'', sr_upstream = Up_held, sr_relay = [], sr_reply = [], sr_at = None\<rparr>"

lemma ex_body: "ps_spam ex_after = [ex_row, ex_held]"
proof -
  have sg: "signed ascii_lower ex_mac ''4bY'' ex_message" "macro ex_queue ''i'' = ''4bY''" by (code_simp+)
  have ff: "fault_free ex_relay" by (simp add: fault_free_def ex_relay_def ex_panel_def empty_db_def)
  have e: "in_entry ascii_lower ''4bY'' ex_message = \<lparr>se_domain = [], se_ip = [], se_from = ''x@y.io'', se_to = [], se_subject = [],
      se_decision = Quarantine, se_engine = Rspamd, se_detail = ''quarantine, score 7.2 / 9'', se_queue_id = ''4bY'', se_upstream = Up_held, se_at = None\<rparr>"
    by (simp add: in_entry_def ex_message_session ex_verdict)
  have f: "fst (forget_inbound_queue_id ''4bY'' ex_relay) = ex_relay"
    using ff by (simp add: forget_inbound_queue_id_def update_spam_def no_faults_step fault_free_def)
      (simp add: ex_relay_def ex_panel_def ex_row_def)
  have r: "in_rows ascii_lower (is_rcpts ex_message) ex_relay = (ex_relay, [(''in.io'', ''a@in.io'')])"
  proof -
    have "filter (relayed ascii_lower ex_relay) [''a@in.io'', ''b@other.io''] = [''a@in.io'']" "domain_of ascii_lower ''a@in.io'' = ''in.io''"
      by (code_simp+)
    then show ?thesis by (simp add: in_rows_quiet [OF ff] ex_message_session)
  qed
  have rc: "in_record ascii_lower 0 ''4bY'' ex_message ex_relay =
      fst (insert_inbound_spam_message 0 (in_entry ascii_lower ''4bY'' ex_message) [(''in.io'', ''a@in.io'')] ex_relay)"
    by (simp add: in_record_def f r)
  show ?thesis unfolding in_body_def sg(2) Let_def if_P [OF sg(1)] fst_conv snd_conv rc e
    by (simp add: insert_inbound_spam_message_def no_faults_step count_inbound_writes_def append_spam_def spam_row_of_def
        ex_relay_def ex_panel_def ex_row_def ex_held_def empty_db_def stamp_def inbound_cap_every_def)
qed

theorem verdict_needs_signature_witness:
  "\<exists>n v. Ev_header n v \<in> set ex_events \<and> canonical_key n = signature_header \<and>
     to_lower ascii_lower (trim_space v) = filter_signature ex_mac ''k'' ''4bY''"
proof -
  have q: "macro ex_queue ''i'' = ''4bY''" "is_key (new_in_session ''k'') = ''k''" by (code_simp+)
  have "ex_held \<in> set (ps_spam ex_after)" unfolding ex_body by simp
  moreover have "sr_id ex_held \<notin> sr_id ` set (ps_spam ex_relay)" by (simp add: ex_held_def ex_relay_def ex_panel_def ex_row_def)
  moreover have "\<not> (sr_engine ex_held = Selfpost \<and> sr_decision ex_held = Accept \<and> sr_detail ex_held = [])" by (simp add: ex_held_def)
  moreover obtain s' c where "in_body ascii_lower ex_mac 0 ex_queue ex_message ex_relay = (s', ex_after, c)"
    by (metis prod.collapse)
  ultimately show ?thesis using verdict_needs_signature [of ascii_lower ex_mac 0 ex_queue _ _ _ _ _ _ ex_relay _ ex_after _ ex_held] q by metis
qed


end
