(* ===== verification/Filter_Lists.thy ===== *)
theory Filter_Lists
  imports Inbound_Service
begin

text \<open>
  The allow and deny lists of the spam filter (\<open>internal/inbound/lists.go\<close>): what may be put on a
  list, the six map files written from the rows, the changes with their rollback, the count of the
  messages an entry decided, and the key the filter signs with. The package \<open>net/netip\<close> as the code
  uses it is modelled first.

  The files are \<open>lw_files\<close>, by name. \<open>MkdirAll\<close> and each write fail as \<open>lw_faults\<close> says (a write is
  atomic: \<open>internal/atomicfile\<close>), a statement as the store's own faults do. Go ranges over a map in
  any order: \<open>lw_orders\<close> holds the order of the file names at each rewrite.

  What the lemmas show: a stored value is one token of a map line; after a change that succeeds the
  files hold the rows; a change that fails on the files leaves the rows as they were; an entry's count
  is that of the rows it fits; the key read back is the key written.
\<close>

section \<open>net/netip\<close>

datatype naddr = V4 "nat list" | V6 "nat list" string

definition parse_addr :: "string \<Rightarrow> naddr option" where
  "parse_addr s =
     (case find (\<lambda>c. c \<in> set ''.:%'') s of
        None \<Rightarrow> None
      | Some c \<Rightarrow>
          (if c = CHR ''.'' then map_option V4 (ipv4_fields s)
           else if c = CHR '':'' then
             (case index_of CHR ''%'' s of
                None \<Rightarrow> map_option (\<lambda>b. V6 b []) (ipv6_bytes s)
              | Some i \<Rightarrow> if drop (i + 1) s = [] then None
                          else map_option (\<lambda>b. V6 b (drop (i + 1) s)) (ipv6_bytes (take i s)))
           else None))"

fun is_4in6 :: "naddr \<Rightarrow> bool" where
  "is_4in6 (V4 q) = False"
| "is_4in6 (V6 b z) = is_v4 b"

fun unmap_addr :: "naddr \<Rightarrow> naddr" where
  "unmap_addr (V4 q) = V4 q"
| "unmap_addr (V6 b z) = (if is_v4 b then V4 (drop 12 b) else V6 b z)"

fun addr_zone :: "naddr \<Rightarrow> string" where
  "addr_zone (V4 q) = []"
| "addr_zone (V6 b z) = z"

fun bit_len :: "naddr \<Rightarrow> nat" where
  "bit_len (V4 q) = 32"
| "bit_len (V6 b z) = 128"

definition dotted :: "nat list \<Rightarrow> string" where
  "dotted q = join ''.'' (map show_nat q)"

fun addr_string :: "naddr \<Rightarrow> string" where
  "addr_string (V4 q) = dotted q"
| "addr_string (V6 b z) =
     (if is_v4 b then ''::ffff:'' @ dotted (drop 12 b) else ipv6_string (ipv6_groups b)) @ (if z = [] then [] else CHR ''%'' # z)"

text \<open>The length after the last \<open>/\<close>: no sign, no leading zero.\<close>

definition parse_prefix :: "string \<Rightarrow> (naddr \<times> nat) option" where
  "parse_prefix s =
     (case last_index CHR ''/'' s of
        None \<Rightarrow> None
      | Some i \<Rightarrow>
          (case parse_addr (take i s) of
             None \<Rightarrow> None
           | Some a \<Rightarrow>
               (let bits = drop (i + 1) s
                in if addr_zone a \<noteq> [] \<or> (length bits > 1 \<and> (hd bits = CHR ''0'' \<or> \<not> is_digit (hd bits))) then None
                   else (case atoi bits of
                           None \<Rightarrow> None
                         | Some n \<Rightarrow> if n < 0 \<or> n > int (bit_len a) then None else Some (a, nat n)))))"

fun masked :: "naddr \<times> nat \<Rightarrow> naddr \<times> nat" where
  "masked (V4 q, n) = (V4 (mask_bytes n q), n)"
| "masked (V6 b z, n) = (V6 (mask_bytes n b) [], n)"

definition prefix_string :: "naddr \<times> nat \<Rightarrow> string" where
  "prefix_string p = addr_string (fst p) @ ''/'' @ show_nat (snd p)"

fun prefix_contains :: "naddr \<times> nat \<Rightarrow> naddr \<Rightarrow> bool" where
  "prefix_contains (V4 p, n) (V4 q) = bits_agree n p q"
| "prefix_contains (V6 p _, n) (V6 b z) = (z = [] \<and> bits_agree n p b)"
| "prefix_contains _ _ = False"

section \<open>What may be put on a list\<close>

definition list_local_char :: "char \<Rightarrow> bool" where
  "list_local_char c \<longleftrightarrow> is_lower c \<or> is_digit c \<or> c \<in> set ''._+-=''"

definition normalize_list_address :: "string \<Rightarrow> verror + string" where
  "normalize_list_address v =
     (if v = [] then Inl (Msg ''sender address is required'')
      else if length v > 254 then Inl (Msg ''sender address must be at most 254 characters'')
      else (case last_index CHR ''@'' v of
              None \<Rightarrow> Inl (Quoted v ''is not a valid email address'')
            | Some pos \<Rightarrow>
                if pos = 0 \<or> pos \<ge> length v - 1 then Inl (Quoted v ''is not a valid email address'')
                else (let local = take pos v; host = drop (pos + 1) v
                      in if hd local = CHR ''.'' \<or> last local = CHR ''.'' \<or> length local > 64
                           then Inl (Quoted v ''invalid local part'')
                         else if \<not> list_all list_local_char local
                           then Inl (Quoted v ''local part contains invalid characters'')
                         else (case check_inbound_domain host of Some e \<Rightarrow> Inl e | None \<Rightarrow> Inr v))))"

definition normalize_list_network :: "string \<Rightarrow> verror + string" where
  "normalize_list_network v =
     (case parse_prefix v of
        None \<Rightarrow> Inl (Quoted v ''is not a network in CIDR form (e.g. 192.0.2.0/24)'')
      | Some (a, n) \<Rightarrow>
          if is_4in6 a then Inl (Quoted v ''write an IPv4 network as IPv4 (e.g. 192.0.2.0/24)'')
          else if n = 0 then Inl (Quoted v ''is every address there is'')
          else if n = bit_len a then Inr (addr_string a)
          else Inr (prefix_string (masked (a, n))))"

definition normalize_list_ip :: "string \<Rightarrow> verror + string" where
  "normalize_list_ip v =
     (if v = [] then Inl (Msg ''address or network is required'')
      else if CHR ''/'' \<in> set v then normalize_list_network v
      else (case parse_addr v of
              None \<Rightarrow> Inl (Quoted v ''is not an IP address or a network in CIDR form'')
            | Some a \<Rightarrow> if addr_zone a \<noteq> [] then Inl (Quoted v ''is not an IP address or a network in CIDR form'')
                        else Inr (addr_string (unmap_addr a))))"

definition normalize_list_value :: "(string \<Rightarrow> string) \<Rightarrow> string \<Rightarrow> string \<Rightarrow> verror + string" where
  "normalize_list_value ul kind raw =
     (let v = to_lower ul (trim_space raw)
      in if kind = ''address'' then normalize_list_address v
         else if kind = ''domain'' then
           (let d = (if has_prefix ''@'' v then drop 1 v else v)
            in case check_inbound_domain d of Some e \<Rightarrow> Inl e | None \<Rightarrow> Inr d)
         else if kind = ''ip'' then normalize_list_ip v
         else Inl (Msg ''choose what the entry is: a sender address, a sender domain or a client address''))"

definition listable :: "(string \<Rightarrow> string) \<Rightarrow> string \<Rightarrow> string \<Rightarrow> bool" where
  "listable ul kind v \<longleftrightarrow> \<not> isl (normalize_list_value ul kind v)"

definition note_max_runes :: nat where "note_max_runes = 200"

text \<open>A control character, or what a byte that is no UTF-8 decodes to.\<close>

fun bad_note_rune :: "rune \<Rightarrow> bool" where
  "bad_note_rune (Bad c) = True"
| "bad_note_rune (Rune [c]) = (byte_code c < 0x20 \<or> byte_code c = 0x7F)"
| "bad_note_rune (Rune bs) = (bs = [CHR 0xEF, CHR 0xBF, CHR 0xBD])"

definition normalize_note :: "string \<Rightarrow> verror + string" where
  "normalize_note raw =
     (let note = trim_space raw
      in if rune_count note > note_max_runes then Inl (Msg ''note must be at most 200 characters'')
         else if list_ex bad_note_rune (runes note) then Inl (Msg ''note must be one line of plain text'')
         else Inr note)"

section \<open>The map files\<close>

record lists_world =
  lw_store :: panel_store
  lw_files :: "string \<Rightarrow> string option"
  lw_faults :: "bool list"
  lw_orders :: "string list list"

datatype lists_error =
    List_refused verror
  | List_panel panel_error
  | Unknown_list nat string string
  | Unsafe_entry token_error
  | Write_failed

type_synonym 'a lists_op = "lists_world \<Rightarrow> lists_world \<times> (lists_error + 'a)"

definition on_lists :: "'a panel_op \<Rightarrow> 'a lists_op" where
  "on_lists f w =
     (case f (lw_store w) of
        (s, Inl e) \<Rightarrow> (w\<lparr>lw_store := s\<rparr>, Inl (List_panel e))
      | (s, Inr x) \<Rightarrow> (w\<lparr>lw_store := s\<rparr>, Inr x))"

definition on_disk :: "(lists_world \<Rightarrow> lists_world) \<Rightarrow> unit lists_op" where
  "on_disk f w =
     (case lw_faults w of
        [] \<Rightarrow> (f w, Inr ())
      | True # fs \<Rightarrow> (w\<lparr>lw_faults := fs\<rparr>, Inl Write_failed)
      | False # fs \<Rightarrow> (f (w\<lparr>lw_faults := fs\<rparr>), Inr ()))"

definition list_file :: "string \<Rightarrow> string \<Rightarrow> string option" where
  "list_file ls kind = map_of
     [((''allow'', ''ip''), ''allow_ip.map''), ((''allow'', ''address''), ''allow_from.map''),
      ((''allow'', ''domain''), ''allow_domain.map''), ((''deny'', ''ip''), ''deny_ip.map''),
      ((''deny'', ''address''), ''deny_from.map''), ((''deny'', ''domain''), ''deny_domain.map'')] (ls, kind)"

definition list_file_names :: "string list" where
  "list_file_names = [''allow_ip.map'', ''allow_from.map'', ''allow_domain.map'',
     ''deny_ip.map'', ''deny_from.map'', ''deny_domain.map'']"

definition list_token_forbidden :: string where
  "list_token_forbidden = [CHR '' '', CHR 0x09, CHR 0x0D, CHR 0x0A, CHR ''#'']"

definition entry_fault :: "filter_entry \<Rightarrow> lists_error option" where
  "entry_fault e =
     (case list_file (fe_list e) (fe_kind e) of
        None \<Rightarrow> Some (Unknown_list (fe_id e) (fe_list e) (fe_kind e))
      | Some _ \<Rightarrow> map_option Unsafe_entry (config_token ''filter list entry'' (fe_value e) list_token_forbidden))"

definition list_head :: string where
  "list_head = ''# Written by SelfPost (Inbound > Filter lists). Do not edit: the next change in the panel replaces this file.'' @ [CHR 0x0A]"

definition list_text :: "filter_entry list \<Rightarrow> string \<Rightarrow> string" where
  "list_text es name = list_head @
     concat (map (\<lambda>v. v @ [CHR 0x0A]) (sort (map fe_value (filter (\<lambda>e. list_file (fe_list e) (fe_kind e) = Some name) es))))"

fun write_lists :: "filter_entry list \<Rightarrow> string list \<Rightarrow> unit lists_op" where
  "write_lists es [] w = (w, Inr ())"
| "write_lists es (n # ns) w =
     andthen (on_disk (\<lambda>w. w\<lparr>lw_files := (lw_files w)(n := Some (list_text es n))\<rparr>)) (\<lambda>_. write_lists es ns) w"

definition next_order :: "lists_world \<Rightarrow> lists_world \<times> string list" where
  "next_order w = (case lw_orders w of [] \<Rightarrow> (w, list_file_names) | ns # os \<Rightarrow> (w\<lparr>lw_orders := os\<rparr>, ns))"

definition sync_lists :: "unit lists_op" where
  "sync_lists =
     andthen (on_lists list_spam_list_entries) (\<lambda>es w.
       case first_error entry_fault es of
         Some e \<Rightarrow> (w, Inl e)
       | None \<Rightarrow> andthen (on_disk (\<lambda>w. w)) (\<lambda>_ w. case next_order w of (w1, ns) \<Rightarrow> write_lists es ns w1) w)"

section \<open>Changes\<close>

definition add_list_entry ::
  "(string \<Rightarrow> string) \<Rightarrow> int \<Rightarrow> string \<Rightarrow> string \<Rightarrow> string \<Rightarrow> string \<Rightarrow> filter_entry lists_op" where
  "add_list_entry ul now ls kind raw raw_note w =
     (if ls \<noteq> ''allow'' \<and> ls \<noteq> ''deny'' then (w, Inl (List_refused (Msg ''choose the allow or the deny list'')))
      else (case normalize_list_value ul kind raw of
              Inl e \<Rightarrow> (w, Inl (List_refused e))
            | Inr v \<Rightarrow>
                (case normalize_note raw_note of
                   Inl e \<Rightarrow> (w, Inl (List_refused e))
                 | Inr note \<Rightarrow>
                     andthen (on_lists (add_spam_list_entry now ls kind v note)) (\<lambda>e w.
                       case sync_lists w of
                         (w1, Inl err) \<Rightarrow>
                           (quietly sync_lists (quietly (on_lists (delete_spam_list_entry (fe_id e))) w1), Inl err)
                       | (w1, Inr _) \<Rightarrow> (w1, Inr e)) w)))"

text \<open>The loop keeps the last entry of the id.\<close>

definition delete_list_entry :: "nat \<Rightarrow> unit lists_op" where
  "delete_list_entry i =
     andthen (on_lists list_spam_list_entries) (\<lambda>es.
       let gone = find (\<lambda>e. fe_id e = i) (rev es)
       in andthen (on_lists (delete_spam_list_entry i)) (\<lambda>_ w.
            case sync_lists w of
              (w1, Inl err) \<Rightarrow>
                (quietly sync_lists (case gone of None \<Rightarrow> w1 | Some e \<Rightarrow> quietly (on_lists (restore_spam_list_entry e)) w1), Inl err)
            | (w1, Inr _) \<Rightarrow> (w1, Inr ())))"

text \<open>The newest modification time of the six files, as \<open>os.Stat\<close> gives them.\<close>

definition last_written :: "(string \<Rightarrow> int option) \<Rightarrow> int" where
  "last_written stat =
     foldl (\<lambda>newest n. case stat n of None \<Rightarrow> newest | Some t \<Rightarrow> if t > newest then t else newest) zero_time list_file_names"

section \<open>Usage\<close>

definition deny_reply_mark :: string where
  "deny_reply_mark = ''this server'' @ [CHR 0x27] @ ''s deny list''"

definition allow_mark :: string where "allow_mark = ''SELFPOST_ALLOW_''"

definition allow_symbol :: "string \<Rightarrow> string" where
  "allow_symbol kind =
     (if kind = ''ip'' then ''SELFPOST_ALLOW_IP('' else if kind = ''address'' then ''SELFPOST_ALLOW_FROM(''
      else if kind = ''domain'' then ''SELFPOST_ALLOW_DOMAIN('' else [])"

record usage =
  us_hits :: nat
  us_last :: int

definition no_usage :: usage where "no_usage = \<lparr>us_hits = 0, us_last = zero_time\<rparr>"

text \<open>An entry with the network it stands for; one that is no network is left out.\<close>

definition matcher_of :: "filter_entry \<Rightarrow> (filter_entry \<times> (naddr \<times> nat) option) option" where
  "matcher_of e =
     (if fe_kind e \<noteq> ''ip'' then Some (e, None)
      else (case parse_prefix (fe_value e) of
              Some p \<Rightarrow> Some (e, Some p)
            | None \<Rightarrow> (case parse_addr (fe_value e) of
                Some a \<Rightarrow> Some (e, Some (a, bit_len a)) | None \<Rightarrow> None)))"

definition row_decided :: "filter_entry \<Rightarrow> spam_row \<Rightarrow> bool" where
  "row_decided e h \<longleftrightarrow>
     (if fe_list e = ''deny'' then sr_decision h \<noteq> Accept \<and> contains_text deny_reply_mark (sr_detail h)
      else if fe_list e = ''allow'' then sr_decision h = Accept \<and> contains_text (allow_symbol (fe_kind e)) (sr_detail h)
      else True)"

definition row_fits :: "(string \<Rightarrow> string) \<Rightarrow> filter_entry \<times> (naddr \<times> nat) option \<Rightarrow> spam_row \<Rightarrow> bool" where
  "row_fits ul m h =
     (let sender = to_lower ul (sr_from h);
          domain = (case last_index CHR ''@'' sender of Some i \<Rightarrow> drop (i + 1) sender | None \<Rightarrow> []);
          kind = fe_kind (fst m)
      in if kind = ''address'' then sender = fe_value (fst m)
         else if kind = ''domain'' then domain = fe_value (fst m)
         else if kind = ''ip'' then
           (case (snd m, parse_addr (sr_ip h)) of
              (Some p, Some a) \<Rightarrow> prefix_contains p (unmap_addr a) | _ \<Rightarrow> False)
         else False)"

definition usage_step ::
  "(string \<Rightarrow> string) \<Rightarrow> spam_row \<Rightarrow> filter_entry \<times> (naddr \<times> nat) option \<Rightarrow> (nat \<Rightarrow> usage option) \<Rightarrow> nat \<Rightarrow> usage option" where
  "usage_step ul h m out =
     (if row_decided (fst m) h \<and> row_fits ul m h then
        (let u = (case out (fe_id (fst m)) of Some u \<Rightarrow> u | None \<Rightarrow> no_usage)
         in out(fe_id (fst m) := Some \<lparr>us_hits = us_hits u + 1, us_last = (if sr_created h > us_last u then sr_created h else us_last u)\<rparr>))
      else out)"

definition list_usage :: "(string \<Rightarrow> string) \<Rightarrow> (nat \<Rightarrow> usage option) panel_op" where
  "list_usage ul s =
     (case list_spam_list_entries s of
        (s1, Inl e) \<Rightarrow> (s1, Inl e)
      | (s1, Inr es) \<Rightarrow>
          (if es = [] then (s1, Inr (\<lambda>_. None))
           else (case list_spam_list_hits [deny_reply_mark, allow_mark] s1 of
                   (s2, Inl e) \<Rightarrow> (s2, Inl e)
                 | (s2, Inr hits) \<Rightarrow>
                     (s2, Inr (fold (\<lambda>h out. fold (usage_step ul h) (List.map_filter matcher_of es) out) hits (\<lambda>_. None))))))"

section \<open>The filter's key\<close>

datatype key_file = Key_text string | Key_absent | Key_unreadable

text \<open>
  \<open>FilterKey\<close>: what the file holds, whether the directory can be made, the random bytes (\<open>None\<close> for
  an error) and whether the write succeeds; the file after it, and the key.
\<close>

definition filter_key ::
  "key_file \<Rightarrow> bool \<Rightarrow> string option \<Rightarrow> bool \<Rightarrow> key_file \<times> string option" where
  "filter_key file mkdir_ok rnd write_ok =
     (let fresh = (if \<not> mkdir_ok then (file, None)
                   else (case rnd of
                           None \<Rightarrow> (file, None)
                         | Some bytes \<Rightarrow>
                             if \<not> write_ok then (file, None)
                             else (let key = concat (map (\<lambda>c. [hex_digit (byte_code c div 16), hex_digit (byte_code c mod 16)]) bytes)
                                   in (Key_text (key @ [CHR 0x0A]), Some key))))
      in case file of
           Key_unreadable \<Rightarrow> (file, None)
         | Key_absent \<Rightarrow> fresh
         | Key_text raw \<Rightarrow>
             (let key = trim_space raw
              in if length key \<ge> 32 \<and> \<not> contains_any key [CHR '' '', CHR 0x09, CHR 0x0D, CHR 0x0A] then (file, Some key)
                 else fresh))"

section \<open>A value of a list is a token\<close>

definition token_safe :: "char \<Rightarrow> bool" where
  "token_safe c \<longleftrightarrow> c \<notin> set list_token_forbidden"

lemma token_safe_chars:
  "is_lower c \<Longrightarrow> token_safe c" "is_digit c \<Longrightarrow> token_safe c" "list_local_char c \<Longrightarrow> token_safe c"
  "domain_char c \<Longrightarrow> token_safe c" "token_safe CHR ''.''" "token_safe CHR '':''" "token_safe CHR ''/''" "token_safe CHR ''@''"
  by (auto simp: token_safe_def list_token_forbidden_def list_local_char_def is_lower_def is_digit_def dest!: domain_char_facts)

lemma safe_join: "list_all P sep \<Longrightarrow> (\<And>w. w \<in> set ws \<Longrightarrow> list_all P w) \<Longrightarrow> list_all P (join sep ws)"
  by (induction sep ws rule: join.induct) auto

lemma safe_number: "list_all token_safe (show_nat n)"
  using show_nat_digits token_safe_chars(2) by (auto simp: list_all_iff)

lemma safe_hex_digit: "n < 16 \<Longrightarrow> token_safe (hex_digit n)"
proof -
  have "\<forall>n \<in> set [0..<16]. token_safe (hex_digit n)" by code_simp
  then show "n < 16 \<Longrightarrow> ?thesis" by simp
qed

lemma safe_hex: "list_all token_safe (show_hex n)"
proof (induction n rule: show_hex.induct)
  case (1 n)
  then show ?case by (cases "n < 16") (auto simp: show_hex.simps [of n] safe_hex_digit)
qed

lemma safe_dotted: "list_all token_safe (dotted q)"
  unfolding dotted_def by (rule safe_join) (auto simp: token_safe_chars safe_number)

lemma safe_groups: "list_all token_safe (ipv6_string gs)"
proof -
  have "list_all token_safe (join '':'' (map show_hex hs))" for hs
    by (rule safe_join) (auto simp: token_safe_chars safe_hex)
  then show ?thesis by (simp add: ipv6_string_def token_safe_chars split: prod.split)
qed

lemma safe_addr: "addr_zone a = [] \<Longrightarrow> list_all token_safe (addr_string a)"
  by (cases a) (auto simp: safe_dotted safe_groups token_safe_chars safe_hex_digit is_lower_def intro: token_safe_chars(1))

text \<open>An address read has four or sixteen bytes, so its text is not empty.\<close>

fun full_addr :: "naddr \<Rightarrow> bool" where
  "full_addr (V4 q) = (q \<noteq> [])"
| "full_addr (V6 b z) = (length b \<ge> 16)"

lemma ipv6_bytes_length: "ipv6_bytes s = Some b \<Longrightarrow> length b \<ge> 16"
proof -
  assume b: "ipv6_bytes s = Some b"
  define p where "p = (if take 2 s = ''::'' then (Some (0 :: nat), drop 2 s) else (None, s))"
  have b': "(if fst p = Some 0 \<and> snd p = [] then Some (replicate 16 0)
         else (case ipv6_loop 8 [] (fst p) (snd p) of
           None \<Rightarrow> None
         | Some (bytes, ell, rest) \<Rightarrow>
             (if rest \<noteq> [] then None
              else if length bytes < 16 then
                (case ell of
                   None \<Rightarrow> None
                 | Some e \<Rightarrow> Some (take e bytes @ replicate (16 - length bytes) 0 @ drop e bytes))
              else if ell \<noteq> None then None
              else Some bytes))) = Some b"
    using b unfolding ipv6_bytes_def p_def [symmetric] Let_def by (cases p) (simp only: prod.case fst_conv snd_conv)
  obtain o' where o: "ipv6_loop 8 [] (fst p) (snd p) = o'" by blast
  show ?thesis using b' unfolding o by (auto split: if_splits option.splits prod.splits)
qed

lemma v4_full: "map_option V4 (ipv4_fields s) = Some a \<Longrightarrow> full_addr a"
  using ipv4_fields_length [of s] by (cases "ipv4_fields s") auto

lemma v6_full: "map_option (\<lambda>b. V6 b z) (ipv6_bytes s) = Some a \<Longrightarrow> full_addr a"
  using ipv6_bytes_length [of s] by (cases "ipv6_bytes s") auto

lemma parse_addr_full: "parse_addr s = Some a \<Longrightarrow> full_addr a"
proof -
  assume p: "parse_addr s = Some a"
  define f where "f = find (\<lambda>c. c \<in> set ''.:%'') s"
  note p = p [unfolded parse_addr_def f_def [symmetric]]
  then obtain c where f: "f = Some c" by (cases f) auto
  note p = p [unfolded f option.case]
  show ?thesis
  proof (cases "c = CHR ''.''")
    case True
    from p [unfolded if_P [OF True]] show ?thesis by (rule v4_full)
  next
    case False
    note p = p [unfolded if_not_P [OF False]]
    then have c: "c = CHR '':''" by (simp split: if_splits)
    note p = p [unfolded if_P [OF c]]
    show ?thesis
    proof (cases "index_of CHR ''%'' s")
      case None
      from p [unfolded None option.case] show ?thesis by (rule v6_full)
    next
      case (Some i)
      with p have "map_option (\<lambda>b. V6 b (drop (i + 1) s)) (ipv6_bytes (take i s)) = Some a"
        by (cases "drop (i + 1) s = []") (simp_all only: option.case if_True if_False refl option.distinct)
      then show ?thesis by (rule v6_full)
    qed
  qed
qed

lemma mask_bytes_length [simp]: "length (mask_bytes n b) = length b"
  by (induction n b rule: mask_bytes.induct) auto

lemma mask_bytes_Nil [simp]: "mask_bytes n b = [] \<longleftrightarrow> b = []"
  using mask_bytes_length [of n b] by (metis length_0_conv)

lemma full_masked: "full_addr a \<Longrightarrow> full_addr (fst (masked (a, n))) \<and> addr_zone (fst (masked (a, n))) = []"
  by (cases a) auto

lemma full_unmap: "full_addr a \<Longrightarrow> full_addr (unmap_addr a)"
  by (cases a) auto

lemma join_nonempty: "ws \<noteq> [] \<Longrightarrow> \<forall>w \<in> set ws. w \<noteq> [] \<Longrightarrow> join sep ws \<noteq> []"
  by (induction sep ws rule: join.induct) auto

lemma show_hex_nonempty: "show_hex n \<noteq> []"
  by (subst show_hex.simps) simp

lemma ipv6_string_nonempty: "gs \<noteq> [] \<Longrightarrow> ipv6_string gs \<noteq> []"
  using join_nonempty [of "map show_hex gs" "'':''"]
  by (auto simp: ipv6_string_def show_hex_nonempty split: prod.split)

lemma addr_string_nonempty: "full_addr a \<Longrightarrow> addr_string a \<noteq> []"
proof (cases a)
  case (V4 q)
  then show "full_addr a \<Longrightarrow> ?thesis" using join_nonempty [of "map show_nat q" "''.''"] show_nat_neq_Nil by (auto simp: dotted_def)
next
  case (V6 b z)
  show ?thesis if "full_addr a"
  proof -
    from that V6 have "length b \<ge> 16" by simp
    then obtain x y bs where "b = x # y # bs" by (cases b rule: ipv6_groups.cases) auto
    then show ?thesis using V6 ipv6_string_nonempty [of "ipv6_groups b"] by auto
  qed
qed

definition list_token :: "string \<Rightarrow> bool" where
  "list_token v \<longleftrightarrow> config_token ''filter list entry'' v list_token_forbidden = None"

lemma list_token_iff: "list_token v \<longleftrightarrow> v \<noteq> [] \<and> list_all token_safe v"
  by (auto simp: list_token_def config_token_None list_all_iff token_safe_def)

lemma address_token: "normalize_list_address v = Inr x \<Longrightarrow> list_token x"
proof -
  assume n: "normalize_list_address v = Inr x"
  then obtain pos where p: "last_index CHR ''@'' v = Some pos" and x: "x = v" "v \<noteq> []"
    and l: "list_all list_local_char (take pos v)" and d: "check_inbound_domain (drop (pos + 1) v) = None"
    by (auto simp: normalize_list_address_def Let_def split: if_splits option.splits)
  from d have "domain_check (drop (pos + 1) v) = None" by (simp add: check_inbound_domain_None)
  from domain_check_None(3) [OF this] have "list_all token_safe (drop (pos + 1) v)" using token_safe_chars(4) by (auto simp: list_all_iff)
  moreover from l have "list_all token_safe (take pos v)" using token_safe_chars(3) by (auto simp: list_all_iff)
  ultimately have "list_all token_safe (take pos v @ CHR ''@'' # drop (Suc pos) v)" using token_safe_chars(8) by simp
  with last_index_split(1) [OF p] x show ?thesis by (simp add: list_token_iff)
qed

lemma network_token: "normalize_list_network v = Inr x \<Longrightarrow> list_token x"
proof -
  assume n: "normalize_list_network v = Inr x"
  then obtain a k where p: "parse_prefix v = Some (a, k)" and x: "x = addr_string a \<or> x = prefix_string (masked (a, k))"
    by (auto simp: normalize_list_network_def split: option.splits if_splits)
  from p have f: "full_addr a" "addr_zone a = []"
    by (auto simp: parse_prefix_def Let_def split: option.splits if_splits dest: parse_addr_full)
  from x show ?thesis
  proof
    assume "x = addr_string a"
    with f show ?thesis by (simp add: list_token_iff addr_string_nonempty safe_addr)
  next
    assume "x = prefix_string (masked (a, k))"
    with full_masked [OF f(1), of k] show ?thesis
      by (simp add: list_token_iff prefix_string_def addr_string_nonempty safe_addr safe_number token_safe_chars)
  qed
qed

lemma ip_token: "normalize_list_ip v = Inr x \<Longrightarrow> list_token x"
proof -
  assume n: "normalize_list_ip v = Inr x"
  show ?thesis
  proof (cases "CHR ''/'' \<in> set v")
    case True
    with n network_token show ?thesis by (auto simp: normalize_list_ip_def split: if_splits)
  next
    case False
    with n obtain a where a: "parse_addr v = Some a" "addr_zone a = []" "x = addr_string (unmap_addr a)"
      by (auto simp: normalize_list_ip_def split: if_splits option.splits)
    have "addr_zone (unmap_addr a) = []" using a(2) by (cases a) auto
    with full_unmap [OF parse_addr_full [OF a(1)]] a(3) show ?thesis by (simp add: list_token_iff addr_string_nonempty safe_addr)
  qed
qed

lemma domain_token: "check_inbound_domain d = None \<Longrightarrow> list_token d"
  using domain_check_None(1,3) [of d] token_safe_chars(4) by (auto simp: check_inbound_domain_None list_token_iff list_all_iff)

lemma list_value_token: "normalize_list_value ul kind raw = Inr v \<Longrightarrow> list_token v \<and> kind \<in> set list_kinds"
  using address_token ip_token domain_token
  by (auto simp: normalize_list_value_def Let_def list_kinds_def split: if_splits option.splits)

section \<open>What the rows hold, always\<close>

definition lists_wf :: "panel_store \<Rightarrow> bool" where
  "lists_wf s \<longleftrightarrow> distinct (map fe_id (ps_filters s)) \<and>
     distinct (map (\<lambda>e. (fe_list e, fe_kind e, fe_value e)) (ps_filters s)) \<and>
     (\<forall>e \<in> set (ps_filters s). fe_id e < ps_next_filter s \<and> fe_list e \<in> set filter_lists \<and> fe_kind e \<in> set list_kinds \<and> list_token (fe_value e))"

lemma list_file_known: "ls \<in> set filter_lists \<Longrightarrow> k \<in> set list_kinds \<Longrightarrow> \<exists>n \<in> set list_file_names. list_file ls k = Some n"
  by (auto simp: filter_lists_def list_kinds_def list_file_def list_file_names_def)

lemma no_entry_fault: "lists_wf s \<Longrightarrow> e \<in> set (ps_filters s) \<Longrightarrow> entry_fault e = None"
  using list_file_known [of "fe_list e" "fe_kind e"] by (auto simp: entry_fault_def lists_wf_def list_token_def)

section \<open>Rewriting the files\<close>

definition same_filters :: "panel_store \<Rightarrow> panel_store \<Rightarrow> bool" where
  "same_filters s s' \<longleftrightarrow> ps_filters s' = ps_filters s \<and> ps_next_filter s' = ps_next_filter s \<and> (fault_free s \<longrightarrow> s' = s)"

lemma filters_step:
  obtains s1 where "panel_step f s = (s1, Inl Store_error)" "same_filters s s1"
  | s1 where "panel_step f s = f s1" "same_filters s s1"
proof (cases "db_faults (ms_db (ps_mail s))")
  case Nil
  then show ?thesis by (intro that(2) [of s]) (simp_all add: panel_step_def same_filters_def)
next
  case (Cons a fs)
  then have "\<not> fault_free s" by (simp add: fault_free_def)
  with Cons that(1) [of "set_faults fs s"] that(2) [of "set_faults fs s"] show ?thesis
    by (cases a) (simp_all add: panel_step_def set_faults_def same_filters_def)
qed

lemma list_entries:
  assumes "list_spam_list_entries s = (s', r)"
  shows "same_filters s s' \<and> (\<forall>es. r = Inr es \<longrightarrow> es = sort_key (\<lambda>e. (fe_list e, fe_kind e, fe_value e)) (ps_filters s)) \<and>
    (fault_free s \<longrightarrow> isl r = False)"
  using assms unfolding list_spam_list_entries_def
  by (cases rule: filters_step [of "\<lambda>s. (s, Inr (sort_key (\<lambda>e. (fe_list e, fe_kind e, fe_value e)) (ps_filters s)))" s])
    (auto simp: same_filters_def fault_free_def no_faults_step)

lemma list_text_perm: "mset es = mset es' \<Longrightarrow> list_text es n = list_text es' n"
proof -
  assume m: "mset es = mset es'"
  have "mset (map fe_value (filter (\<lambda>e. list_file (fe_list e) (fe_kind e) = Some n) es)) =
      mset (map fe_value (filter (\<lambda>e. list_file (fe_list e) (fe_kind e) = Some n) es'))"
    using m by (simp add: mset_filter)
  then have "sort (map fe_value (filter (\<lambda>e. list_file (fe_list e) (fe_kind e) = Some n) es)) =
      sort (map fe_value (filter (\<lambda>e. list_file (fe_list e) (fe_kind e) = Some n) es'))"
    by (intro properties_for_sort) simp_all
  then show ?thesis unfolding list_text_def by metis
qed

definition disk_faults :: "lists_world \<Rightarrow> nat" where
  "disk_faults w = length (filter id (lw_faults w))"

lemma on_disk_run:
  assumes "on_disk f w = (w', r)"
  shows "r = Inr () \<and> (\<exists>w1. w' = f w1 \<and> disk_faults w1 = disk_faults w \<and> lw_store w1 = lw_store w \<and> lw_files w1 = lw_files w \<and> lw_orders w1 = lw_orders w) \<or>
    isl r \<and> disk_faults w' < disk_faults w \<and> lw_store w' = lw_store w \<and> lw_files w' = lw_files w \<and> lw_orders w' = lw_orders w"
proof (cases "lw_faults w")
  case Nil
  with assms show ?thesis by (auto simp: on_disk_def)
next
  case (Cons a fs)
  have "disk_faults (w\<lparr>lw_faults := fs\<rparr>) + (if a then 1 else 0) = disk_faults w" using Cons by (simp add: disk_faults_def)
  with assms Cons show ?thesis by (cases a) (auto simp: on_disk_def intro!: exI [of _ "w\<lparr>lw_faults := fs\<rparr>"])
qed

lemma disk_faults_files [simp]: "disk_faults (w\<lparr>lw_files := f\<rparr>) = disk_faults w" "disk_faults (w\<lparr>lw_orders := os\<rparr>) = disk_faults w"
  "disk_faults (w\<lparr>lw_store := s\<rparr>) = disk_faults w"
  by (simp_all add: disk_faults_def)

text \<open>Every file holds what it held or the new text; when the loop ends, all hold the new text.\<close>

definition rewritten :: "filter_entry list \<Rightarrow> string list \<Rightarrow> lists_world \<Rightarrow> lists_world \<Rightarrow> lists_error + unit \<Rightarrow> bool" where
  "rewritten es ns w w' r \<longleftrightarrow>
     lw_store w' = lw_store w \<and>
     (\<forall>n. lw_files w' n = lw_files w n \<or> n \<in> set ns \<and> lw_files w' n = Some (list_text es n)) \<and>
     (r = Inr () \<longrightarrow> disk_faults w' = disk_faults w \<and> (\<forall>n \<in> set ns. lw_files w' n = Some (list_text es n))) \<and>
     (isl r \<longrightarrow> disk_faults w' < disk_faults w)"

lemma write_lists_run: "write_lists es ns w = (w', r) \<Longrightarrow> rewritten es ns w w' r \<and> lw_orders w' = lw_orders w"
proof (induction ns arbitrary: w)
  case Nil
  then show ?case by (auto simp: rewritten_def)
next
  case (Cons n ns)
  obtain w1 x where d: "on_disk (\<lambda>w. w\<lparr>lw_files := (lw_files w)(n := Some (list_text es n))\<rparr>) w = (w1, x)" by fastforce
  show ?case
  proof (cases x)
    case (Inl e)
    with on_disk_run [OF d] Cons.prems d show ?thesis by (auto simp: rewritten_def andthen_def)
  next
    case (Inr u)
    with on_disk_run [OF d] have w1: "disk_faults w1 = disk_faults w" "lw_store w1 = lw_store w" "lw_orders w1 = lw_orders w"
      "lw_files w1 = (lw_files w)(n := Some (list_text es n))" by auto
    from Cons.prems d Inr have "write_lists es ns w1 = (w', r)" by (simp add: andthen_def)
    from Cons.IH [OF this] have R: "rewritten es ns w1 w' r" "lw_orders w' = lw_orders w1" by simp_all
    have files: "lw_files w' m = lw_files w m \<or> m \<in> set (n # ns) \<and> lw_files w' m = Some (list_text es m)" for m
    proof -
      from R(1) have "lw_files w' m = lw_files w1 m \<or> m \<in> set ns \<and> lw_files w' m = Some (list_text es m)"
        unfolding rewritten_def by blast
      with w1(4) show ?thesis by (cases "m = n") auto
    qed
    have all: "\<forall>m \<in> set (n # ns). lw_files w' m = Some (list_text es m)" if "r = Inr ()"
    proof
      fix m assume m: "m \<in> set (n # ns)"
      show "lw_files w' m = Some (list_text es m)"
      proof (cases "m \<in> set ns")
        case True
        with R(1) that show ?thesis unfolding rewritten_def by blast
      next
        case False
        with m R(1) have "m = n" "lw_files w' m = lw_files w1 m" unfolding rewritten_def by (auto simp del: fun_upd_apply)
        with w1(4) show ?thesis by simp
      qed
    qed
    from R w1 files all show ?thesis unfolding rewritten_def by auto
  qed
qed

definition orders_ok :: "lists_world \<Rightarrow> bool" where
  "orders_ok w \<longleftrightarrow> (\<forall>ns \<in> set (lw_orders w). set ns = set list_file_names)"

lemma next_order_ok:
  assumes "next_order w = (w1, ns)" "orders_ok w"
  shows "set ns = set list_file_names" "orders_ok w1" "lw_store w1 = lw_store w" "lw_files w1 = lw_files w" "disk_faults w1 = disk_faults w"
  using assms by (auto simp: next_order_def orders_ok_def split: list.splits)

text \<open>One rewrite, whatever fails: of the store only fault marks are used up.\<close>

definition synced :: "lists_world \<Rightarrow> lists_world \<Rightarrow> lists_error + unit \<Rightarrow> bool" where
  "synced w w' r \<longleftrightarrow>
     same_filters (lw_store w) (lw_store w') \<and> orders_ok w' \<and>
     (\<forall>n. lw_files w' n = lw_files w n \<or> n \<in> set list_file_names \<and> lw_files w' n = Some (list_text (ps_filters (lw_store w)) n)) \<and>
     (r = Inr () \<longrightarrow> disk_faults w' = disk_faults w \<and>
        (\<forall>n \<in> set list_file_names. lw_files w' n = Some (list_text (ps_filters (lw_store w)) n))) \<and>
     (isl r \<and> fault_free (lw_store w) \<and> lists_wf (lw_store w) \<longrightarrow> disk_faults w' < disk_faults w) \<and>
     disk_faults w' \<le> disk_faults w"

lemma same_filters_refl [simp]: "same_filters s s"
  by (simp add: same_filters_def)

lemma sync_run:
  assumes "sync_lists w = (w', r)" "orders_ok w"
  shows "synced w w' r"
proof -
  obtain s1 q where l: "list_spam_list_entries (lw_store w) = (s1, q)" by fastforce
  note le = list_entries [OF l]
  define w1 where "w1 = w\<lparr>lw_store := s1\<rparr>"
  have w1: "lw_files w1 = lw_files w" "lw_orders w1 = lw_orders w" "lw_store w1 = s1" "disk_faults w1 = disk_faults w" "orders_ok w1"
    using assms(2) by (simp_all add: w1_def orders_ok_def)
  show ?thesis
  proof (cases q)
    case (Inl e)
    with assms(1) l have "w' = w1" "r = Inl (List_panel e)" by (simp_all add: sync_lists_def andthen_def on_lists_def w1_def)
    with le Inl w1 show ?thesis by (simp add: synced_def)
  next
    case q: (Inr es)
    have es: "es = sort_key (\<lambda>e. (fe_list e, fe_kind e, fe_value e)) (ps_filters (lw_store w))" using le q by simp
    then have tx: "list_text es n = list_text (ps_filters (lw_store w)) n" for n by (intro list_text_perm) simp
    show ?thesis
    proof (cases "first_error entry_fault es")
      case (Some e)
      with assms(1) l q have "w' = w1" "r = Inl e" by (simp_all add: sync_lists_def andthen_def on_lists_def w1_def)
      moreover have "\<not> lists_wf (lw_store w)"
      proof
        assume wf: "lists_wf (lw_store w)"
        have "\<forall>e \<in> set es. entry_fault e = None" using no_entry_fault [OF wf] es by simp
        with Some show False by (metis first_error_None option.distinct(1))
      qed
      ultimately show ?thesis using le w1 by (simp add: synced_def)
    next
      case None
      have sl: "sync_lists w = andthen (on_disk (\<lambda>w. w)) (\<lambda>_ w. case next_order w of (w1, ns) \<Rightarrow> write_lists es ns w1) w1"
        by (simp del: first_error_None add: sync_lists_def andthen_def on_lists_def l q None w1_def)
      obtain w2 x where d: "on_disk (\<lambda>w. w) w1 = (w2, x)" by fastforce
      show ?thesis
      proof (cases x)
        case (Inl e)
        with assms(1) d have "w' = w2" "r = Inl e" by (simp_all add: sl andthen_def)
        with on_disk_run [OF d] Inl le w1 show ?thesis by (auto simp: synced_def orders_ok_def)
      next
        case (Inr u)
        with on_disk_run [OF d] w1 have w2: "disk_faults w2 = disk_faults w" "lw_store w2 = s1" "lw_files w2 = lw_files w" "orders_ok w2"
          by (auto simp: orders_ok_def)
        obtain w3 ns where n: "next_order w2 = (w3, ns)" by fastforce
        note no = next_order_ok [OF n w2(4)]
        from assms(1) d Inr n have wr: "write_lists es ns w3 = (w', r)" by (simp add: sl andthen_def)
        from write_lists_run [OF wr] no w2 le show ?thesis
          unfolding synced_def rewritten_def tx by (cases r) (auto simp: orders_ok_def)
      qed
    qed
  qed
qed

section \<open>The rows after each statement\<close>

lemma fault_free_fields [simp]: "fault_free (s\<lparr>ps_filters := x\<rparr>) = fault_free s" "fault_free (s\<lparr>ps_next_filter := n\<rparr>) = fault_free s"
  by (simp_all add: fault_free_def)

lemma add_entry_row:
  assumes "add_spam_list_entry now ls kind v note s = (s', r)"
  shows "isl r \<and> same_filters s s' \<or>
    (\<exists>e. r = Inr e \<and> ps_filters s' = ps_filters s @ [e] \<and> ps_next_filter s' = ps_next_filter s + 1 \<and>
       fe_id e = ps_next_filter s \<and> fe_list e = ls \<and> fe_kind e = kind \<and> fe_value e = v \<and>
       \<not> list_ex (same_entry ls kind v) (ps_filters s) \<and> (fault_free s \<longrightarrow> fault_free s'))"
  using assms unfolding add_spam_list_entry_def
  by (cases rule: filters_step [of "\<lambda>s. if ls \<notin> set filter_lists \<or> kind \<notin> set list_kinds then (s, Inl Store_error)
     else if list_ex (same_entry ls kind v) (ps_filters s) then (s, Inl Entry_exists)
     else (let e = \<lparr>fe_id = ps_next_filter s, fe_list = ls, fe_kind = kind, fe_value = v, fe_note = note, fe_created = stamp now\<rparr>
           in (s\<lparr>ps_filters := ps_filters s @ [e], ps_next_filter := ps_next_filter s + 1\<rparr>, Inr e))" s])
    (auto simp: same_filters_def Let_def split: if_splits)

lemma delete_entry_row:
  assumes "delete_spam_list_entry i s = (s', r)"
  shows "isl r \<and> same_filters s s' \<and> (fault_free s \<longrightarrow> \<not> list_ex (\<lambda>e. fe_id e = i) (ps_filters s)) \<or>
    r = Inr () \<and> list_ex (\<lambda>e. fe_id e = i) (ps_filters s) \<and> ps_filters s' = filter (\<lambda>e. fe_id e \<noteq> i) (ps_filters s) \<and>
      ps_next_filter s' = ps_next_filter s \<and> (fault_free s \<longrightarrow> fault_free s')"
  using assms unfolding delete_spam_list_entry_def
  by (cases rule: filters_step [of "\<lambda>s. if list_ex (\<lambda>e. fe_id e = i) (ps_filters s)
       then (s\<lparr>ps_filters := filter (\<lambda>e. fe_id e \<noteq> i) (ps_filters s)\<rparr>, Inr ()) else (s, Inl Entry_not_found)" s])
    (auto simp: same_filters_def no_faults_step fault_free_def split: if_splits)

lemma restore_entry_row:
  assumes "restore_spam_list_entry e s = (s', r)"
  shows "isl r \<and> same_filters s s' \<and>
      (fault_free s \<longrightarrow> list_ex (\<lambda>x. fe_id x = fe_id e \<or> same_entry (fe_list e) (fe_kind e) (fe_value e) x) (ps_filters s) \<or>
        fe_list e \<notin> set filter_lists \<or> fe_kind e \<notin> set list_kinds) \<or>
    r = Inr () \<and> ps_filters s' = ps_filters s @ [e] \<and> ps_next_filter s' = max (ps_next_filter s) (fe_id e + 1) \<and>
      (fault_free s \<longrightarrow> fault_free s') \<and>
      \<not> list_ex (\<lambda>x. fe_id x = fe_id e \<or> same_entry (fe_list e) (fe_kind e) (fe_value e) x) (ps_filters s)"
  using assms unfolding restore_spam_list_entry_def
  by (cases rule: filters_step [of "\<lambda>s. if list_ex (\<lambda>x. fe_id x = fe_id e \<or> same_entry (fe_list e) (fe_kind e) (fe_value e) x) (ps_filters s) \<or>
        fe_list e \<notin> set filter_lists \<or> fe_kind e \<notin> set list_kinds then (s, Inl Store_error)
     else (s\<lparr>ps_filters := ps_filters s @ [e], ps_next_filter := max (ps_next_filter s) (fe_id e + 1)\<rparr>, Inr ())" s])
    (auto simp: same_filters_def no_faults_step fault_free_def split: if_splits)

abbreviation entry_key :: "filter_entry \<Rightarrow> string \<times> string \<times> string" where
  "entry_key e \<equiv> (fe_list e, fe_kind e, fe_value e)"

definition sound_entry :: "filter_entry \<Rightarrow> bool" where
  "sound_entry e \<longleftrightarrow> fe_list e \<in> set filter_lists \<and> fe_kind e \<in> set list_kinds \<and> list_token (fe_value e)"

lemma lists_wf_same: "same_filters s s' \<Longrightarrow> lists_wf s' = lists_wf s"
  by (simp add: same_filters_def lists_wf_def)

lemma lists_wf_append:
  assumes "lists_wf s" "ps_filters s' = ps_filters s @ [e]" "ps_next_filter s \<le> ps_next_filter s'" "fe_id e < ps_next_filter s'"
    "fe_id e \<notin> fe_id ` set (ps_filters s)" "\<not> list_ex (same_entry (fe_list e) (fe_kind e) (fe_value e)) (ps_filters s)" "sound_entry e"
  shows "lists_wf s'"
proof -
  have "entry_key e \<notin> entry_key ` set (ps_filters s)"
    using assms(6) by (auto simp: list_ex_iff same_entry_def)
  then show ?thesis using assms by (auto simp: lists_wf_def sound_entry_def)
qed

lemma lists_wf_filter:
  "lists_wf s \<Longrightarrow> ps_filters s' = filter p (ps_filters s) \<Longrightarrow> ps_next_filter s' = ps_next_filter s \<Longrightarrow> lists_wf s'"
  by (auto simp: lists_wf_def distinct_map_filter)

lemma lists_wf_sound: "lists_wf s \<Longrightarrow> e \<in> set (ps_filters s) \<Longrightarrow> sound_entry e \<and> fe_id e < ps_next_filter s"
  by (simp add: lists_wf_def sound_entry_def)

lemma add_wf:
  assumes "lists_wf s" "add_spam_list_entry now ls kind v note s = (s', r)" "ls \<in> set filter_lists" "kind \<in> set list_kinds" "list_token v"
  shows "lists_wf s'"
  using add_entry_row [OF assms(2)]
proof
  assume "isl r \<and> same_filters s s'"
  with assms(1) lists_wf_same show ?thesis by blast
next
  assume "\<exists>e. r = Inr e \<and> ps_filters s' = ps_filters s @ [e] \<and> ps_next_filter s' = ps_next_filter s + 1 \<and>
       fe_id e = ps_next_filter s \<and> fe_list e = ls \<and> fe_kind e = kind \<and> fe_value e = v \<and>
       \<not> list_ex (same_entry ls kind v) (ps_filters s) \<and> (fault_free s \<longrightarrow> fault_free s')"
  then obtain e where e: "ps_filters s' = ps_filters s @ [e]" "ps_next_filter s' = ps_next_filter s + 1"
    "fe_id e = ps_next_filter s" "fe_list e = ls" "fe_kind e = kind" "fe_value e = v" "\<not> list_ex (same_entry ls kind v) (ps_filters s)"
    by blast
  have "fe_id e \<notin> fe_id ` set (ps_filters s)" using assms(1) e(3) by (auto simp: lists_wf_def)
  with assms e show ?thesis by (intro lists_wf_append [of s s' e]) (simp_all add: sound_entry_def)
qed

lemma delete_wf: "lists_wf s \<Longrightarrow> delete_spam_list_entry i s = (s', r) \<Longrightarrow> lists_wf s'"
  using delete_entry_row [of i s s' r] by (auto simp: lists_wf_same intro: lists_wf_filter)

lemma restore_wf:
  assumes "lists_wf s" "restore_spam_list_entry e s = (s', r)" "sound_entry e"
  shows "lists_wf s'"
  using restore_entry_row [OF assms(2)]
proof
  assume "isl r \<and> same_filters s s' \<and>
      (fault_free s \<longrightarrow> list_ex (\<lambda>x. fe_id x = fe_id e \<or> same_entry (fe_list e) (fe_kind e) (fe_value e) x) (ps_filters s) \<or>
        fe_list e \<notin> set filter_lists \<or> fe_kind e \<notin> set list_kinds)"
  with assms(1) lists_wf_same show ?thesis by blast
next
  assume r: "r = Inr () \<and> ps_filters s' = ps_filters s @ [e] \<and> ps_next_filter s' = max (ps_next_filter s) (fe_id e + 1) \<and>
      (fault_free s \<longrightarrow> fault_free s') \<and>
      \<not> list_ex (\<lambda>x. fe_id x = fe_id e \<or> same_entry (fe_list e) (fe_kind e) (fe_value e) x) (ps_filters s)"
  then have "fe_id e \<notin> fe_id ` set (ps_filters s)" "\<not> list_ex (same_entry (fe_list e) (fe_kind e) (fe_value e)) (ps_filters s)"
    by (auto simp: list_ex_iff)
  with assms r show ?thesis by (intro lists_wf_append [of s s' e]) simp_all
qed

section \<open>The changes\<close>

datatype list_change =
    Add_entry string string string string
  | Delete_entry nat
  | Sync

fun lists_act :: "(string \<Rightarrow> string) \<Rightarrow> int \<Rightarrow> list_change \<Rightarrow> unit lists_op" where
  "lists_act ul now (Add_entry ls kind v note) = andthen (add_list_entry ul now ls kind v note) (\<lambda>_ w. (w, Inr ()))"
| "lists_act ul now (Delete_entry i) = delete_list_entry i"
| "lists_act ul now Sync = sync_lists"

lemma on_lists_run: "on_lists f w = (w', r) \<Longrightarrow> f (lw_store w) = (s, q) \<Longrightarrow>
   w' = w\<lparr>lw_store := s\<rparr> \<and> (case q of Inl e \<Rightarrow> r = Inl (List_panel e) | Inr x \<Rightarrow> r = Inr x)"
  by (auto simp: on_lists_def split: sum.splits)

lemma quiet_sync:
  assumes "orders_ok w"
  obtains r where "synced w (quietly sync_lists w) r"
  using sync_run [of w "fst (sync_lists w)" "snd (sync_lists w)"] assms that by (simp add: quietly_def)

text \<open>What an addition that is not refused goes through.\<close>

lemma add_entry_steps:
  assumes "add_list_entry ul now ls kind raw raw_note w = (w', r)" "orders_ok w"
  obtains (refused) "isl r" "w' = w"
  | (no_row) s where "isl r" "w' = w\<lparr>lw_store := s\<rparr>" "same_filters (lw_store w) s"
  | (added) v nt s e where "ls \<in> set filter_lists" "kind \<in> set list_kinds" "list_token v"
      "add_spam_list_entry now ls kind v nt (lw_store w) = (s, Inr e)" "sync_lists (w\<lparr>lw_store := s\<rparr>) = (w', Inr ())" "r = Inr e"
  | (undone) v nt s e w1 x where "ls \<in> set filter_lists" "kind \<in> set list_kinds" "list_token v"
      "add_spam_list_entry now ls kind v nt (lw_store w) = (s, Inr e)" "sync_lists (w\<lparr>lw_store := s\<rparr>) = (w1, Inl x)"
      "w' = quietly sync_lists (quietly (on_lists (delete_spam_list_entry (fe_id e))) w1)" "r = Inl x"
proof (cases "ls \<noteq> ''allow'' \<and> ls \<noteq> ''deny''")
  case True
  with assms show ?thesis by (intro refused) (auto simp: add_list_entry_def)
next
  case ls: False
  then have l: "ls \<in> set filter_lists" by (auto simp: filter_lists_def)
  show ?thesis
  proof (cases "normalize_list_value ul kind raw")
    case (Inl e)
    with assms ls show ?thesis by (intro refused) (auto simp: add_list_entry_def)
  next
    case v: (Inr v)
    note k = list_value_token [OF v]
    show ?thesis
    proof (cases "normalize_note raw_note")
      case (Inl e)
      with assms ls v show ?thesis by (intro refused) (auto simp: add_list_entry_def)
    next
      case n: (Inr nt)
      obtain s q where a: "add_spam_list_entry now ls kind v nt (lw_store w) = (s, q)" by fastforce
      have run: "add_list_entry ul now ls kind raw raw_note w = andthen (on_lists (add_spam_list_entry now ls kind v nt)) (\<lambda>e w.
                       case sync_lists w of
                         (w1, Inl err) \<Rightarrow>
                           (quietly sync_lists (quietly (on_lists (delete_spam_list_entry (fe_id e))) w1), Inl err)
                       | (w1, Inr _) \<Rightarrow> (w1, Inr e)) w"
        using ls v n by (auto simp: add_list_entry_def)
      show ?thesis
      proof (cases q)
        case (Inl e)
        have "same_filters (lw_store w) s" using add_entry_row [OF a] Inl by auto
        with assms Inl a show ?thesis by (intro no_row [of s]) (auto simp: run andthen_def on_lists_def)
      next
        case e: (Inr e)
        obtain w1 x where sy: "sync_lists (w\<lparr>lw_store := s\<rparr>) = (w1, x)" by fastforce
        show ?thesis
        proof (cases x)
          case (Inl err)
          with assms e a sy l k show ?thesis by (intro undone [of v nt s e w1 err]) (auto simp: run andthen_def on_lists_def)
        next
          case (Inr u)
          with assms e a sy l k show ?thesis by (intro added [of v nt s e]) (auto simp: run andthen_def on_lists_def)
        qed
      qed
    qed
  qed
qed

lemma delete_entry_steps:
  assumes "delete_list_entry i w = (w', r)"
  obtains (no_row) s where "isl r" "w' = w\<lparr>lw_store := s\<rparr>" "same_filters (lw_store w) s"
  | (gone) s1 s where "same_filters (lw_store w) s1" "delete_spam_list_entry i s1 = (s, Inr ())"
      "sync_lists (w\<lparr>lw_store := s\<rparr>) = (w', Inr ())" "r = Inr ()"
  | (undone) s1 s w1 x e where "same_filters (lw_store w) s1" "delete_spam_list_entry i s1 = (s, Inr ())"
      "sync_lists (w\<lparr>lw_store := s\<rparr>) = (w1, Inl x)" "e \<in> set (ps_filters (lw_store w))" "fe_id e = i"
      "w' = quietly sync_lists (quietly (on_lists (restore_spam_list_entry e)) w1)" "r = Inl x"
proof -
  obtain s1 q where l: "list_spam_list_entries (lw_store w) = (s1, q)" by fastforce
  note le = list_entries [OF l]
  show ?thesis
  proof (cases q)
    case (Inl e)
    then have "delete_list_entry i w = (w\<lparr>lw_store := s1\<rparr>, Inl (List_panel e))"
      by (simp add: delete_list_entry_def andthen_def on_lists_def l)
    with assms have "isl r" "w' = w\<lparr>lw_store := s1\<rparr>" by auto
    with le show ?thesis by (intro no_row [of s1]) simp_all
  next
    case es: (Inr es)
    then have set: "set es = set (ps_filters (lw_store w))" using le by simp
    obtain s p where d: "delete_spam_list_entry i s1 = (s, p)" by fastforce
    note dr = delete_entry_row [OF d]
    show ?thesis
    proof (cases p)
      case (Inl e)
      then have "same_filters s1 s" using dr by simp
      then have "same_filters (lw_store w) s" using le by (auto simp: same_filters_def)
      moreover have "delete_list_entry i w = (w\<lparr>lw_store := s\<rparr>, Inl (List_panel e))"
        by (simp add: delete_list_entry_def andthen_def on_lists_def l es d Inl Let_def)
      then have "isl r" "w' = w\<lparr>lw_store := s\<rparr>" using assms by auto
      ultimately show ?thesis by (intro no_row [of s])
    next
      case p: (Inr u)
      with dr have "list_ex (\<lambda>e. fe_id e = i) (ps_filters s1)" by simp
      with le have "\<exists>e \<in> set (rev es). fe_id e = i" using set by (simp add: same_filters_def list_ex_iff)
      then have "find (\<lambda>e. fe_id e = i) (rev es) \<noteq> None" unfolding find_None_iff by blast
      then obtain e where f: "find (\<lambda>e. fe_id e = i) (rev es) = Some e" by blast
      have "find P xs = Some x \<Longrightarrow> x \<in> set xs \<and> P x" for P xs and x :: filter_entry
        by (induction xs) (auto split: if_splits)
      from this [OF f] have "e \<in> set (rev es)" "fe_id e = i" by simp_all
      with set have e: "e \<in> set (ps_filters (lw_store w))" "fe_id e = i" by simp_all
      obtain w1 x where sy: "sync_lists (w\<lparr>lw_store := s\<rparr>) = (w1, x)" by fastforce
      have run: "delete_list_entry i w = (case x of Inl err \<Rightarrow> (quietly sync_lists (quietly (on_lists (restore_spam_list_entry e)) w1), Inl err)
          | Inr _ \<Rightarrow> (w1, Inr ()))"
        by (simp add: delete_list_entry_def andthen_def on_lists_def l es d p f sy Let_def split: sum.split)
      show ?thesis
      proof (cases x)
        case (Inl err)
        with assms run sy d p le e show ?thesis by (intro undone [of s1 s w1 err e]) simp_all
      next
        case (Inr u)
        with assms run sy d p le show ?thesis by (intro gone [of s1 s]) simp_all
      qed
    qed
  qed
qed

lemma sync_wf: "sync_lists w = (w', r) \<Longrightarrow> orders_ok w \<Longrightarrow> lists_wf (lw_store w') = lists_wf (lw_store w)"
  using sync_run [of w w' r] by (simp add: synced_def lists_wf_same)

lemma sync_orders: "sync_lists w = (w', r) \<Longrightarrow> orders_ok w \<Longrightarrow> orders_ok w'"
  using sync_run [of w w' r] by (simp add: synced_def)

lemma orders_ok_store [simp]: "orders_ok (w\<lparr>lw_store := s\<rparr>) = orders_ok w"
  by (simp add: orders_ok_def)

lemma quietly_wf: "orders_ok w \<Longrightarrow> lists_wf (lw_store (quietly sync_lists w)) = lists_wf (lw_store w)"
  unfolding quietly_def by (rule sync_wf [of w _ "snd (sync_lists w)"]) simp_all

lemma quietly_on_lists: "quietly (on_lists f) w = w\<lparr>lw_store := fst (f (lw_store w))\<rparr>"
  by (simp add: quietly_def on_lists_def split: prod.split sum.split)

text \<open>
  C38. Whatever a change is given, and whatever fails in the database or on disk, every row of the two lists
  stays on a known list, of a known kind, its value one token of a map line - not empty, no blank, no
  line end, no comment sign - and no two rows say the same: the guard of the writer never refuses.
\<close>

theorem rows_stay_tokens:
  assumes "lists_wf (lw_store w)" "orders_ok w" "lists_act ul now a w = (w', r)"
  shows "lists_wf (lw_store w') \<and> (\<forall>e \<in> set (ps_filters (lw_store w')). entry_fault e = None)"
proof -
  have wf: "lists_wf (lw_store w')"
  proof (cases a)
    case (Add_entry ls kind raw nt0)
    obtain q where "add_list_entry ul now ls kind raw nt0 w = (w', q)"
      using assms(3) Add_entry by (cases "add_list_entry ul now ls kind raw nt0 w"; cases "snd (add_list_entry ul now ls kind raw nt0 w)")
        (auto simp: andthen_def)
    from this assms(2) show ?thesis
    proof (cases rule: add_entry_steps)
      case refused
      with assms(1) show ?thesis by simp
    next
      case (no_row s)
      with assms(1) show ?thesis by (simp add: lists_wf_same)
    next
      case (added v nt s e)
      from add_wf [OF assms(1) added(4,1,2,3)] sync_wf [OF added(5)] assms(2) show ?thesis by simp
    next
      case (undone v nt s e w1 x)
      have w1: "lists_wf (lw_store w1)" "orders_ok w1"
        using add_wf [OF assms(1) undone(4,1,2,3)] sync_wf [OF undone(5)] sync_orders [OF undone(5)] assms(2) by simp_all
      have "lists_wf (fst (delete_spam_list_entry (fe_id e) (lw_store w1)))" by (rule delete_wf [OF w1(1) prod.collapse [symmetric]])
      with w1(2) show ?thesis unfolding undone(6) quietly_on_lists by (simp add: quietly_wf)
    qed
  next
    case (Delete_entry i)
    with assms(3) have "delete_list_entry i w = (w', r)" by simp
    then show ?thesis
    proof (cases rule: delete_entry_steps)
      case (no_row s)
      with assms(1) show ?thesis by (simp add: lists_wf_same)
    next
      case (gone s1 s)
      have "lists_wf s1" using gone(1) assms(1) by (simp add: lists_wf_same)
      from delete_wf [OF this gone(2)] sync_wf [OF gone(3)] assms(2) show ?thesis by simp
    next
      case (undone s1 s w1 x e)
      have "lists_wf s1" using undone(1) assms(1) by (simp add: lists_wf_same)
      from delete_wf [OF this undone(2)] sync_wf [OF undone(3)] sync_orders [OF undone(3)] assms(2)
      have w1: "lists_wf (lw_store w1)" "orders_ok w1" by simp_all
      have "sound_entry e" using lists_wf_sound [OF assms(1) undone(4)] by simp
      from restore_wf [OF w1(1) _ this] have "lists_wf (fst (restore_spam_list_entry e (lw_store w1)))" by (metis prod.collapse)
      with w1(2) show ?thesis unfolding undone(6) quietly_on_lists by (simp add: quietly_wf)
    qed
  next
    case Sync
    with assms sync_wf show ?thesis by simp
  qed
  with no_entry_fault show ?thesis by blast
qed

text \<open>
  C36. Refinement: after a change of the lists that reports success each of the six files holds the values
  of its list and kind, sorted, one a line, and no other file is touched.
\<close>

theorem lists_follow:
  assumes "lists_act ul now a w = (w', Inr ())" "orders_ok w"
  shows "\<forall>n. lw_files w' n = (if n \<in> set list_file_names then Some (list_text (ps_filters (lw_store w')) n) else lw_files w n)"
proof -
  have sync: "\<forall>n. lw_files w2 n = (if n \<in> set list_file_names then Some (list_text (ps_filters (lw_store w2)) n) else lw_files w1 n)"
    if "sync_lists w1 = (w2, Inr ())" "orders_ok w1" for w1 w2
  proof -
    from sync_run [OF that] have "ps_filters (lw_store w2) = ps_filters (lw_store w1)"
      "\<forall>n. lw_files w2 n = lw_files w1 n \<or> n \<in> set list_file_names \<and> lw_files w2 n = Some (list_text (ps_filters (lw_store w1)) n)"
      "\<forall>n \<in> set list_file_names. lw_files w2 n = Some (list_text (ps_filters (lw_store w1)) n)"
      by (simp_all add: synced_def same_filters_def)
    then show ?thesis by metis
  qed
  show ?thesis
  proof (cases a)
    case (Add_entry ls kind raw nt0)
    with assms(1) obtain e where "add_list_entry ul now ls kind raw nt0 w = (w', Inr e)" by (auto simp: andthen_Inr)
    from this assms(2) show ?thesis
    proof (cases rule: add_entry_steps)
      case (added v nt s e)
      with sync [OF added(5)] assms(2) show ?thesis by simp
    qed simp_all
  next
    case (Delete_entry i)
    with assms(1) have "delete_list_entry i w = (w', Inr ())" by simp
    then show ?thesis
    proof (cases rule: delete_entry_steps)
      case (gone s1 s)
      with sync [OF gone(3)] assms(2) show ?thesis by simp
    qed simp_all
  next
    case Sync
    with sync assms show ?thesis by simp
  qed
qed

text \<open>The rows of an entry taken out and put back are the same rows.\<close>

lemma put_back:
  assumes "distinct (map fe_id es)" "e \<in> set es"
  shows "mset (filter (\<lambda>x. fe_id x \<noteq> fe_id e) es @ [e]) = mset es"
proof -
  have "filter (\<lambda>x. fe_id x = fe_id e) es = [e]"
    using assms by (induction es) (auto simp: filter_empty_conv image_iff)
  moreover have "mset es = mset (filter (\<lambda>x. fe_id x \<noteq> fe_id e) es) + mset (filter (\<lambda>x. fe_id x = fe_id e) es)"
    using multiset_partition [of "mset es" "\<lambda>x. fe_id x \<noteq> fe_id e"] by simp
  ultimately show ?thesis by simp
qed

text \<open>A rewrite after the rows were put right, with no fault left: all files are right too.\<close>

definition files_right :: "filter_entry list \<Rightarrow> lists_world \<Rightarrow> lists_world \<Rightarrow> bool" where
  "files_right es w w' \<longleftrightarrow> (\<forall>n. lw_files w' n = lw_files w n \<or> lw_files w' n = Some (list_text es n))"

lemma last_sync:
  assumes "orders_ok w2" "fault_free (lw_store w2)" "lists_wf (lw_store w2)" "disk_faults w2 = 0"
    "mset (ps_filters (lw_store w2)) = mset es"
    "\<forall>n. n \<notin> set list_file_names \<longrightarrow> lw_files w2 n = lw_files w n"
  shows "files_right es w (quietly sync_lists w2)"
proof -
  obtain w3 r where s: "sync_lists w2 = (w3, r)" by fastforce
  from sync_run [OF s assms(1)] assms(2-4) have "\<not> isl r" by (auto simp: synced_def)
  then have "r = Inr ()" by (cases r) simp_all
  with sync_run [OF s assms(1)] list_text_perm [OF assms(5)] assms(6) show ?thesis
    unfolding synced_def files_right_def quietly_def s fst_conv by (metis)
qed

lemma entry_ids: "lists_wf s \<Longrightarrow> distinct (map fe_id (ps_filters s))"
  by (simp add: lists_wf_def)


section \<open>How often an entry decided\<close>

definition decided_rows :: "(string \<Rightarrow> string) \<Rightarrow> panel_store \<Rightarrow> filter_entry \<times> (naddr \<times> nat) option \<Rightarrow> spam_row list" where
  "decided_rows ul s m = filter (\<lambda>h. sr_engine h = Rspamd \<and> row_decided (fst m) h \<and> row_fits ul m h) (ps_spam s)"

definition usage_of :: "spam_row list \<Rightarrow> usage option" where
  "usage_of hs = (if hs = [] then None else Some \<lparr>us_hits = length hs, us_last = foldl max zero_time (map sr_created hs)\<rparr>)"

text \<open>The text of a mark holds the text of a longer one.\<close>

lemma contains_text_append: "contains_text (m @ t) s \<Longrightarrow> contains_text m s"
proof (induction s)
  case (Cons c s)
  then show ?case by (auto simp: has_prefix_iff)
qed simp

lemma decided_is_hit:
  assumes "row_decided e h" "sound_entry e"
  shows "list_ex (\<lambda>m. contains_text m (sr_detail h)) [deny_reply_mark, allow_mark]"
proof (cases "fe_list e = ''deny''")
  case True
  with assms(1) show ?thesis by (simp add: row_decided_def)
next
  case False
  with assms(2) have a: "fe_list e = ''allow''" by (auto simp: sound_entry_def filter_lists_def)
  with assms(1) have c: "contains_text (allow_symbol (fe_kind e)) (sr_detail h)" by (simp add: row_decided_def)
  from assms(2) have "\<exists>t. allow_symbol (fe_kind e) = allow_mark @ t"
    by (auto simp: sound_entry_def list_kinds_def allow_symbol_def allow_mark_def)
  with c contains_text_append show ?thesis by auto
qed

text \<open>The matchers have ids of their own, so a step for one leaves the others' counts.\<close>

lemma usage_other: "fe_id (fst m) \<noteq> i \<Longrightarrow> usage_step ul h m out i = out i"
  by (simp add: usage_step_def Let_def)

lemma fold_usage_other: "\<forall>m \<in> set ms. fe_id (fst m) \<noteq> i \<Longrightarrow> fold (usage_step ul h) ms out i = out i"
proof (induction ms arbitrary: out)
  case (Cons m ms)
  then show ?case using usage_other [of m i ul h out] by simp
qed simp

lemma fold_usage_own:
  assumes "distinct (map (fe_id \<circ> fst) ms)" "m \<in> set ms"
  shows "fold (usage_step ul h) ms out (fe_id (fst m)) = usage_step ul h m out (fe_id (fst m))"
  using assms
proof (induction ms arbitrary: out)
  case (Cons x ms)
  show ?case
  proof (cases "x = m")
    case True
    with Cons.prems have "\<forall>y \<in> set ms. fe_id (fst y) \<noteq> fe_id (fst m)" by (auto simp: image_iff)
    from fold_usage_other [OF this, of ul h "usage_step ul h m out"] True show ?thesis by simp
  next
    case False
    with Cons.prems have m: "m \<in> set ms" and ne: "fe_id (fst x) \<noteq> fe_id (fst m)" by (auto simp: image_iff)
    have "usage_step ul h m (usage_step ul h x out) (fe_id (fst m)) = usage_step ul h m out (fe_id (fst m))"
      using usage_other [OF ne, of ul h out] by (simp add: usage_step_def Let_def)
    with Cons.IH [OF _ m] Cons.prems show ?thesis by simp
  qed
qed simp

lemma usage_of_snoc:
  "usage_of (hs @ [h]) = Some \<lparr>us_hits = us_hits (case usage_of hs of Some u \<Rightarrow> u | None \<Rightarrow> no_usage) + 1,
     us_last = (let l = us_last (case usage_of hs of Some u \<Rightarrow> u | None \<Rightarrow> no_usage) in if sr_created h > l then sr_created h else l)\<rparr>"
  by (auto simp: usage_of_def no_usage_def Let_def max_def)

lemma fold_usage:
  assumes "distinct (map (fe_id \<circ> fst) ms)" "m \<in> set ms" "out (fe_id (fst m)) = usage_of hs0"
  shows "fold (\<lambda>h out. fold (usage_step ul h) ms out) hs out (fe_id (fst m)) =
    usage_of (hs0 @ filter (\<lambda>h. row_decided (fst m) h \<and> row_fits ul m h) hs)"
  using assms(3)
proof (induction hs arbitrary: out hs0)
  case (Cons h hs)
  let ?out = "fold (usage_step ul h) ms out" and ?p = "row_decided (fst m) h \<and> row_fits ul m h"
  have "?out (fe_id (fst m)) = usage_of (hs0 @ (if ?p then [h] else []))"
    unfolding fold_usage_own [OF assms(1,2)] using Cons.prems
    by (auto simp: usage_step_def usage_of_snoc Let_def)
  from Cons.IH [of ?out, OF this] show ?case by simp
qed simp

lemma panel_read:
  assumes "panel_step (\<lambda>s. (s, Inr (g s))) s = (s', Inr x)"
  shows "ps_filters s' = ps_filters s \<and> ps_spam s' = ps_spam s \<and> x = g s'"
  using assms by (auto simp: panel_step_def set_faults_def split: list.splits bool.splits)

lemma matcher_fst: "matcher_of e = Some m \<Longrightarrow> fst m = e"
  by (auto simp: matcher_of_def split: if_splits option.splits)

lemma matchers_ids:
  "distinct (map fe_id es) \<Longrightarrow> distinct (map (fe_id \<circ> fst) (List.map_filter matcher_of es)) \<and>
     (\<forall>m \<in> set (List.map_filter matcher_of es). fst m \<in> set es)"
proof (induction es)
  case Nil
  then show ?case by (simp add: List.map_filter_def)
next
  case (Cons e es)
  then have ih: "distinct (map (fe_id \<circ> fst) (List.map_filter matcher_of es))" "\<forall>m \<in> set (List.map_filter matcher_of es). fst m \<in> set es" by (auto simp: comp_def)
  show ?case
  proof (cases "matcher_of e")
    case None
    with ih show ?thesis by (auto simp: List.map_filter_simps comp_def)
  next
    case (Some m)
    have ne: "fe_id (fst x) \<noteq> fe_id e" if "x \<in> set (List.map_filter matcher_of es)" for x
    proof -
      from ih(2) that have "fe_id (fst x) \<in> fe_id ` set es" by blast
      with Cons.prems show ?thesis by auto
    qed
    then have "fe_id e \<notin> (fe_id \<circ> fst) ` set (List.map_filter matcher_of es)" by (metis (no_types, lifting) comp_apply image_iff)
    with ih matcher_fst [OF Some] show ?thesis by (simp add: List.map_filter_simps Some comp_def)
  qed
qed

lemma in_matchers: "m \<in> set (List.map_filter matcher_of es) \<longleftrightarrow> (\<exists>e \<in> set es. matcher_of e = Some m)"
  by (induction es) (auto simp: List.map_filter_simps split: option.splits)

text \<open>
  C39. The count of an entry is that of the rows of the filter that its list decided and it fits, and the
  time is that of the latest of them, though only rows with one of the two marks are fetched; an entry
  that fits no row, or whose value is no network, has none.
\<close>

theorem list_usage_counts:
  assumes "list_usage ul s = (s', Inr u)" "lists_wf s" "e \<in> set (ps_filters s)"
  shows "u (fe_id e) = (case matcher_of e of None \<Rightarrow> None | Some m \<Rightarrow> usage_of (decided_rows ul s m))"
proof -
  obtain s1 q where l: "list_spam_list_entries s = (s1, q)" by fastforce
  with assms(1) obtain es where q: "q = Inr es" by (cases q) (auto simp: list_usage_def)
  from panel_read [OF l [unfolded q list_spam_list_entries_def]]
  have s1: "ps_filters s1 = ps_filters s" "ps_spam s1 = ps_spam s" and es: "es = sort_key entry_key (ps_filters s)" by auto
  have ne: "es \<noteq> []" using assms(3) by (auto simp: es simp flip: set_empty)
  obtain s2 p where h: "list_spam_list_hits [deny_reply_mark, allow_mark] s1 = (s2, p)" by fastforce
  with assms(1) l q ne obtain hits where p: "p = Inr hits" by (cases p) (auto simp: list_usage_def)
  let ?ms = "List.map_filter matcher_of es"
  have u: "u = fold (\<lambda>h out. fold (usage_step ul h) ?ms out) hits (\<lambda>_. None)"
    using assms(1) l q ne h p by (simp add: list_usage_def)
  have "hits = filter (\<lambda>r. sr_engine r = Rspamd \<and> list_ex (\<lambda>m. contains_text m (sr_detail r)) [deny_reply_mark, allow_mark]) (ps_spam s2)"
    and s2: "ps_spam s2 = ps_spam s1"
    using panel_read [of "\<lambda>s. filter (\<lambda>r. sr_engine r = Rspamd \<and> list_ex (\<lambda>m. contains_text m (sr_detail r)) [deny_reply_mark, allow_mark]) (ps_spam s)" s1 s2 hits]
      h p by (simp_all add: list_spam_list_hits_def)
  then have hits: "hits = filter (\<lambda>r. sr_engine r = Rspamd \<and> list_ex (\<lambda>m. contains_text m (sr_detail r)) [deny_reply_mark, allow_mark]) (ps_spam s)"
    using s1 by simp
  have ids: "distinct (map fe_id es)"
    using entry_ids [OF assms(2)] by (simp add: es distinct_map)
  have e: "e \<in> set es" using assms(3) by (simp add: es)
  show ?thesis
  proof (cases "matcher_of e")
    case (Some m)
    then have m: "m \<in> set ?ms" "fst m = e" using e by (auto simp: in_matchers matcher_fst)
    have "u (fe_id (fst m)) = usage_of ([] @ filter (\<lambda>h. row_decided (fst m) h \<and> row_fits ul m h) hits)"
      unfolding u by (rule fold_usage) (use matchers_ids [OF ids] m in \<open>auto simp: usage_of_def\<close>)
    moreover have "filter (\<lambda>h. row_decided (fst m) h \<and> row_fits ul m h) hits = decided_rows ul s m"
      unfolding hits decided_rows_def filter_filter m(2)
      using decided_is_hit lists_wf_sound [OF assms(2,3)] by (intro filter_cong refl) blast
    ultimately show ?thesis using Some m(2) by simp
  next
    case None
    have "\<forall>m \<in> set ?ms. fe_id (fst m) \<noteq> fe_id e"
    proof
      fix m assume m: "m \<in> set ?ms"
      then obtain x where x: "x \<in> set es" "matcher_of x = Some m" by (auto simp: in_matchers)
      show "fe_id (fst m) \<noteq> fe_id e"
      proof
        assume "fe_id (fst m) = fe_id e"
        with x e ids matcher_fst [OF x(2)] have "x = e" by (auto simp: distinct_map inj_on_def)
        with x None show False by simp
      qed
    qed
    then have step: "fold (usage_step ul h) ?ms out (fe_id e) = out (fe_id e)" for h out by (rule fold_usage_other)
    have "fold (\<lambda>h out. fold (usage_step ul h) ?ms out) hs out (fe_id e) = out (fe_id e)" for hs out
      by (induction hs arbitrary: out) (simp_all add: step)
    with None show ?thesis by (simp add: u)
  qed
qed

section \<open>The key is read back\<close>

lemma hex_key_chars:
  assumes "c \<in> set (concat (map (\<lambda>c. [hex_digit (byte_code c div 16), hex_digit (byte_code c mod 16)]) bytes))"
  shows "visible c \<and> c \<notin> set [CHR '' '', CHR 0x09, CHR 0x0D, CHR 0x0A]"
proof -
  have h: "\<forall>n \<in> set [0..<16]. visible (hex_digit n) \<and> hex_digit n \<notin> set [CHR '' '', CHR 0x09, CHR 0x0D, CHR 0x0A]" by code_simp
  have "byte_code c div 16 < 16" for c :: char
    using nat_of_char_less_256 [of c] by (simp add: less_mult_imp_div_less)
  with assms h show ?thesis by auto
qed

text \<open>
  A key that is returned has at least the 32 characters asked for (the random source giving its 32
  bytes), no white space, and is in the file: whatever happens at the next call, it is the key again.
\<close>

theorem filter_key_read_back:
  assumes "filter_key file mkdir_ok rnd write_ok = (file', Some key)" "\<And>bytes. rnd = Some bytes \<Longrightarrow> length bytes = 32"
  shows "length key \<ge> 32 \<and> \<not> contains_any key [CHR '' '', CHR 0x09, CHR 0x0D, CHR 0x0A] \<and>
    filter_key file' mkdir_ok' rnd' write_ok' = (file', Some key)"
proof -
  let ?bad = "[CHR '' '', CHR 0x09, CHR 0x0D, CHR 0x0A]"
  let ?hex = "\<lambda>bytes. concat (map (\<lambda>c. [hex_digit (byte_code c div 16), hex_digit (byte_code c mod 16)]) bytes)"
  show ?thesis
  proof (cases "\<exists>raw. file = Key_text raw \<and> length (trim_space raw) \<ge> 32 \<and> \<not> contains_any (trim_space raw) ?bad")
    case True
    with assms(1) show ?thesis by (auto simp: filter_key_def Let_def)
  next
    case False
    with assms(1) obtain bytes where b: "rnd = Some bytes" "key = ?hex bytes" "file' = Key_text (key @ [CHR 0x0A])"
      by (auto simp: filter_key_def Let_def split: key_file.splits if_splits option.splits)
    have l: "length (?hex bs) = 2 * length bs" for bs by (induction bs) auto
    have len: "length key = 64" using l [of bytes] assms(2) [OF b(1)] b(2) by simp
    then have ne: "key \<noteq> []" by auto
    have vis: "visible c \<and> c \<notin> set ?bad" if "c \<in> set key" for c using that hex_key_chars [of c bytes] unfolding b(2) by blast
    then have nb: "\<not> contains_any key ?bad" by (auto simp: contains_any_iff)
    have d1: "drop_runes space_runes (key @ [CHR 0x0A]) = key @ [CHR 0x0A]"
      by (rule drop_runes_keeps [OF space_runes_invisible(1)]) (use vis ne in \<open>simp add: hd_append\<close>)
    have "rev (key @ [CHR 0x0A]) = CHR 0x0A # rev key" by simp
    moreover have "drop_runes (map rev space_runes) (CHR 0x0A # rev key) = drop_runes (map rev space_runes) (rev key)"
      by (subst drop_runes.simps) (simp add: space_runes_def)
    moreover have "drop_runes (map rev space_runes) (rev key) = rev key"
      by (rule drop_runes_keeps [OF space_runes_invisible(2)]) (use vis ne in \<open>simp add: hd_rev\<close>)
    ultimately have "trim_space (key @ [CHR 0x0A]) = key" by (simp add: trim_space_def d1)
    with len nb b(3) show ?thesis by (simp add: filter_key_def Let_def)
  qed
qed

section \<open>Witnesses\<close>

definition ex_entry :: filter_entry where
  "ex_entry = \<lparr>fe_id = 1, fe_list = ''deny'', fe_kind = ''domain'', fe_value = ''b.io'', fe_note = [], fe_created = 0\<rparr>"

definition ex_denied :: spam_row where
  "ex_denied = ex_row\<lparr>sr_decision := Reject, sr_engine := Rspamd, sr_detail := ''554 this server'' @ [CHR 0x27] @ ''s deny list''\<rparr>"

definition ex_lists :: lists_world where
  "ex_lists = \<lparr>lw_store = ex_panel\<lparr>ps_filters := [ex_entry], ps_next_filter := 2, ps_spam := [ex_denied]\<rparr>,
     lw_files = (\<lambda>_. None), lw_faults = [False, False, True], lw_orders = []\<rparr>"

lemma ex_lists_ok: "lists_wf (lw_store ex_lists)" "orders_ok ex_lists" "fault_free (lw_store ex_lists)" "disk_faults ex_lists = 1"
  by (simp_all add: lists_wf_def orders_ok_def fault_free_def ex_lists_def ex_entry_def ex_panel_def empty_db_def disk_faults_def
      filter_lists_def list_kinds_def list_token_def config_token_def contains_any_def list_token_forbidden_def)

theorem rows_stay_tokens_witness:
  "lists_wf (lw_store (fst (lists_act ascii_lower 0 (Add_entry ''allow'' ''ip'' ''192.0.2.7/24'' []) ex_lists)))"
  using rows_stay_tokens [OF ex_lists_ok(1,2) prod.collapse [symmetric]] by blast


theorem lists_follow_witness:
  "lw_files (fst (lists_act ascii_lower 0 Sync (ex_lists\<lparr>lw_faults := []\<rparr>))) ''deny_domain.map'' = Some (list_text [ex_entry] ''deny_domain.map'')"
proof -
  have "snd (lists_act ascii_lower 0 Sync (ex_lists\<lparr>lw_faults := []\<rparr>)) = Inr ()" by code_simp
  then have "lists_act ascii_lower 0 Sync (ex_lists\<lparr>lw_faults := []\<rparr>) = (fst (lists_act ascii_lower 0 Sync (ex_lists\<lparr>lw_faults := []\<rparr>)), Inr ())"
    by (metis prod.collapse)
  note f = lists_follow [OF this]
  have "orders_ok (ex_lists\<lparr>lw_faults := []\<rparr>)" using ex_lists_ok(2) by (simp add: orders_ok_def)
  from f [OF this] have "lw_files (fst (lists_act ascii_lower 0 Sync (ex_lists\<lparr>lw_faults := []\<rparr>))) ''deny_domain.map'' =
      Some (list_text (ps_filters (lw_store (fst (lists_act ascii_lower 0 Sync (ex_lists\<lparr>lw_faults := []\<rparr>))))) ''deny_domain.map'')"
    by (simp add: list_file_names_def)
  moreover have "ps_filters (lw_store (fst (lists_act ascii_lower 0 Sync (ex_lists\<lparr>lw_faults := []\<rparr>)))) = [ex_entry]"
    by code_simp
  ultimately show ?thesis by simp
qed


theorem list_usage_counts_witness:
  "\<exists>s u. list_usage ascii_lower (lw_store ex_lists) = (s, Inr u) \<and> u 1 = Some \<lparr>us_hits = 1, us_last = 5\<rparr>"
proof -
  obtain s u where u: "list_usage ascii_lower (lw_store ex_lists) = (s, Inr u)"
    by (simp add: list_usage_def list_spam_list_entries_def list_spam_list_hits_def panel_step_def ex_lists_def ex_panel_def empty_db_def)
  have m: "matcher_of ex_entry = Some (ex_entry, None)" by code_simp
  have "row_decided ex_entry ex_denied" "row_fits ascii_lower (ex_entry, None) ex_denied" by (code_simp+)
  then have "decided_rows ascii_lower (lw_store ex_lists) (ex_entry, None) = [ex_denied]"
    by (simp add: decided_rows_def ex_lists_def ex_denied_def)
  with list_usage_counts [OF u ex_lists_ok(1), of ex_entry] m have "u 1 = Some \<lparr>us_hits = 1, us_last = 5\<rparr>"
    by (simp add: usage_of_def ex_lists_def ex_entry_def ex_denied_def ex_row_def zero_time_def)
  with u show ?thesis by blast
qed

theorem filter_key_read_back_witness:
  "filter_key (Key_text (replicate 40 CHR ''a'')) False None False = (Key_text (replicate 40 CHR ''a''), Some (replicate 40 CHR ''a''))"
proof -
  have "filter_key (Key_text (replicate 40 CHR ''a'')) True None True = (Key_text (replicate 40 CHR ''a''), Some (replicate 40 CHR ''a''))"
    by code_simp
  from filter_key_read_back [OF this] show ?thesis by simp
qed

end
