(* ===== verification/Accounts.thy ===== *)
theory Accounts
  imports Registry
begin

text \<open>
  Users of the panel, their login sessions and their one-time links: \<open>internal/store/users.go\<close>,
  \<open>sessions.go\<close> and \<open>userlinks.go\<close>. A table is a list of rows in the order they were written; a
  statement, and a transaction as a whole, is one step that the next fault mark may fail with nothing
  changed. A stored time is in whole seconds, as its text is; \<open>None\<close> stands for the empty text.
  \<open>ac_domains\<close> and \<open>ac_inbounds\<close> are the ids of the two tables of domains the assignments refer to.

  What the lemmas show: every operation keeps the tables consistent and never removes the last global
  administrator; a link is taken at most once; a password is set from a link only while the account's
  address is the confirmed one the link was sent to.
\<close>

section \<open>The tables\<close>

record user_row =
  u_id :: nat
  u_name :: string
  u_hash :: string
  u_role :: string
  u_email :: string
  u_confirmed :: "int option"
  u_all_domains :: bool
  u_all_inbound :: bool
  u_notify :: bool
  u_created :: int

record session_row =
  sn_hash :: string
  sn_user :: nat
  sn_created :: int
  sn_expires :: int

record user_link =
  lk_hash :: string
  lk_user :: nat
  lk_purpose :: string
  lk_email :: string
  lk_created :: int
  lk_expires :: int

record accounts =
  ac_users :: "user_row list"
  ac_next_user :: nat
  ac_user_domains :: "(nat \<times> nat) list"
  ac_user_inbound :: "(nat \<times> nat) list"
  ac_sessions :: "session_row list"
  ac_links :: "user_link list"
  ac_domains :: "nat list"
  ac_inbounds :: "nat list"
  ac_faults :: "bool list"

datatype account_error =
    User_not_found | User_exists | No_such_domain | Last_global | Empty_reach
  | Unknown_role string | Users_exist | Not_domain_role | No_link | Account_failed

type_synonym 'a account_op = "accounts \<Rightarrow> accounts \<times> (account_error + 'a)"

text \<open>A statement or a transaction: it fails as the next fault mark says; one that fails changes nothing else.\<close>

definition acct_step :: "'a account_op \<Rightarrow> 'a account_op" where
  "acct_step f s =
     (case ac_faults s of
        [] \<Rightarrow> (case f s of (s', Inl e) \<Rightarrow> (s, Inl e) | (s', Inr x) \<Rightarrow> (s', Inr x))
      | True # fs \<Rightarrow> (s\<lparr>ac_faults := fs\<rparr>, Inl Account_failed)
      | False # fs \<Rightarrow>
          (case f (s\<lparr>ac_faults := fs\<rparr>) of (s', Inl e) \<Rightarrow> (s\<lparr>ac_faults := fs\<rparr>, Inl e) | (s', Inr x) \<Rightarrow> (s', Inr x)))"

definition role_global :: string where "role_global = ''global''"
definition role_domain :: string where "role_domain = ''domain''"

record reach =
  re_all_domains :: bool
  re_domains :: "nat list"
  re_all_inbound :: bool
  re_inbound :: "nat list"

definition no_reach :: reach where
  "no_reach = \<lparr>re_all_domains = False, re_domains = [], re_all_inbound = False, re_inbound = []\<rparr>"

definition reach_empty :: "reach \<Rightarrow> bool" where
  "reach_empty r \<longleftrightarrow> \<not> re_all_domains r \<and> re_domains r = [] \<and> \<not> re_all_inbound r \<and> re_inbound r = []"

text \<open>A \<open>User\<close>: its row and the ids it is assigned.\<close>

record full_user = user_row +
  fu_domains :: "nat list"
  fu_inbound :: "nat list"

definition full_of :: "user_row \<Rightarrow> nat list \<Rightarrow> nat list \<Rightarrow> full_user" where
  "full_of u ds ins = \<lparr>u_id = u_id u, u_name = u_name u, u_hash = u_hash u, u_role = u_role u, u_email = u_email u,
     u_confirmed = u_confirmed u, u_all_domains = u_all_domains u, u_all_inbound = u_all_inbound u,
     u_notify = u_notify u, u_created = u_created u, fu_domains = ds, fu_inbound = ins\<rparr>"

definition user_reach :: "full_user \<Rightarrow> reach" where
  "user_reach u = \<lparr>re_all_domains = u_all_domains u, re_domains = fu_domains u,
     re_all_inbound = u_all_inbound u, re_inbound = fu_inbound u\<rparr>"

section \<open>Users\<close>

definition user_exists :: "bool account_op" where
  "user_exists = acct_step (\<lambda>s. (s, Inr (ac_users s \<noteq> [])))"

definition new_user :: "nat \<Rightarrow> string \<Rightarrow> string \<Rightarrow> string \<Rightarrow> string \<Rightarrow> int \<Rightarrow> user_row" where
  "new_user i name h role email now = \<lparr>u_id = i, u_name = name, u_hash = h, u_role = role, u_email = email,
     u_confirmed = None, u_all_domains = False, u_all_inbound = False, u_notify = True, u_created = stamp now\<rparr>"

definition create_global_user :: "int \<Rightarrow> string \<Rightarrow> string \<Rightarrow> unit account_op" where
  "create_global_user now name h = acct_step (\<lambda>s.
     if ac_users s \<noteq> [] then (s, Inl Users_exist)
     else (s\<lparr>ac_users := [new_user (ac_next_user s) name h role_global [] now], ac_next_user := ac_next_user s + 1\<rparr>, Inr ()))"

definition list_user_domain_ids :: "nat \<Rightarrow> nat list account_op" where
  "list_user_domain_ids i = acct_step (\<lambda>s. (s, Inr (sort (map snd (filter (\<lambda>p. fst p = i) (ac_user_domains s))))))"

definition list_user_inbound_ids :: "nat \<Rightarrow> nat list account_op" where
  "list_user_inbound_ids i = acct_step (\<lambda>s. (s, Inr (sort (map snd (filter (\<lambda>p. fst p = i) (ac_user_inbound s))))))"

text \<open>Three statements: the row, then the two lists.\<close>

definition load_user :: "(user_row \<Rightarrow> bool) \<Rightarrow> full_user account_op" where
  "load_user p s =
     (case acct_step (\<lambda>s. (s, case find p (ac_users s) of None \<Rightarrow> Inl User_not_found | Some u \<Rightarrow> Inr u)) s of
        (s1, Inl e) \<Rightarrow> (s1, Inl e)
      | (s1, Inr u) \<Rightarrow>
          (case list_user_domain_ids (u_id u) s1 of
             (s2, Inl e) \<Rightarrow> (s2, Inl e)
           | (s2, Inr ds) \<Rightarrow>
               (case list_user_inbound_ids (u_id u) s2 of
                  (s3, Inl e) \<Rightarrow> (s3, Inl e)
                | (s3, Inr ins) \<Rightarrow> (s3, Inr (full_of u ds ins)))))"

definition get_user_by_username :: "string \<Rightarrow> full_user account_op" where
  "get_user_by_username name = load_user (\<lambda>u. u_name u = name)"

definition get_user :: "nat \<Rightarrow> full_user account_op" where
  "get_user i = load_user (\<lambda>u. u_id u = i)"

definition list_users :: "user_row list account_op" where
  "list_users = acct_step (\<lambda>s. (s, Inr (sort_key u_id (ac_users s))))"

definition count_global_users :: "nat account_op" where
  "count_global_users = acct_step (\<lambda>s. (s, Inr (length (filter (\<lambda>u. u_role u = role_global) (ac_users s)))))"

text \<open>One INSERT of an assignment: both ends must exist, and the pair be new.\<close>

fun assign_each :: "nat list \<Rightarrow> bool \<Rightarrow> nat \<Rightarrow> nat list \<Rightarrow> (nat \<times> nat) list \<Rightarrow> account_error + (nat \<times> nat) list" where
  "assign_each known user_known i [] ps = Inr ps"
| "assign_each known user_known i (d # ds) ps =
     (if (i, d) \<in> set ps then Inl Account_failed
      else if d \<notin> set known \<or> \<not> user_known then Inl No_such_domain
      else assign_each known user_known i ds (ps @ [(i, d)]))"

definition write_user_reach :: "nat \<Rightarrow> reach \<Rightarrow> unit account_op" where
  "write_user_reach i r s =
     (let s1 = s\<lparr>ac_users := map (\<lambda>u. if u_id u = i then u\<lparr>u_all_domains := re_all_domains r, u_all_inbound := re_all_inbound r\<rparr> else u) (ac_users s)\<rparr>;
          there = list_ex (\<lambda>u. u_id u = i) (ac_users s)
      in case assign_each (ac_domains s) there i (if re_all_domains r then [] else re_domains r)
                (filter (\<lambda>p. fst p \<noteq> i) (ac_user_domains s)) of
           Inl e \<Rightarrow> (s1, Inl e)
         | Inr ds \<Rightarrow>
             (case assign_each (ac_inbounds s) there i (if re_all_inbound r then [] else re_inbound r)
                     (filter (\<lambda>p. fst p \<noteq> i) (ac_user_inbound s)) of
                Inl e \<Rightarrow> (s1, Inl e)
              | Inr ins \<Rightarrow> (s1\<lparr>ac_user_domains := ds, ac_user_inbound := ins\<rparr>, Inr ())))"

definition require_a_global :: "accounts \<Rightarrow> account_error option" where
  "require_a_global s = (if list_ex (\<lambda>u. u_role u = role_global) (ac_users s) then None else Some Last_global)"

definition known_role :: "string \<Rightarrow> account_error option" where
  "known_role r = (if r \<noteq> role_global \<and> r \<noteq> role_domain then Some (Unknown_role r) else None)"

record user_change =
  uc_id :: nat
  uc_name :: string
  uc_hash :: string
  uc_email :: string
  uc_role :: string
  uc_reach :: reach

definition add_user :: "int \<Rightarrow> user_change \<Rightarrow> nat account_op" where
  "add_user now c s =
     (case known_role (uc_role c) of
        Some e \<Rightarrow> (s, Inl e)
      | None \<Rightarrow>
          (if uc_role c = role_domain \<and> reach_empty (uc_reach c) then (s, Inl Empty_reach)
           else acct_step (\<lambda>s.
             if list_ex (\<lambda>u. u_name u = uc_name c) (ac_users s) then (s, Inl User_exists)
             else (let i = ac_next_user s;
                       s1 = s\<lparr>ac_users := ac_users s @ [new_user i (uc_name c) (uc_hash c) (uc_role c) (uc_email c) now],
                              ac_next_user := i + 1\<rparr>
                   in if uc_role c = role_domain then
                        (case write_user_reach i (uc_reach c) s1 of (s2, Inl e) \<Rightarrow> (s2, Inl e) | (s2, Inr _) \<Rightarrow> (s2, Inr i))
                      else (s1, Inr i))) s))"

text \<open>The confirmation stays with an address that stays; the right side sees the row as it was.\<close>

definition keep_confirmed :: "string \<Rightarrow> user_row \<Rightarrow> int option" where
  "keep_confirmed email u = (if u_email u = email then u_confirmed u else None)"

text \<open>An UPDATE of the row of one id that may give it a name in use.\<close>

definition update_user_row :: "nat \<Rightarrow> string \<Rightarrow> (user_row \<Rightarrow> user_row) \<Rightarrow> unit account_op" where
  "update_user_row i name f s =
     (if \<not> list_ex (\<lambda>u. u_id u = i) (ac_users s) then (s, Inl User_not_found)
      else if list_ex (\<lambda>u. u_id u \<noteq> i \<and> u_name u = name) (ac_users s) then (s, Inl User_exists)
      else (s\<lparr>ac_users := map (\<lambda>u. if u_id u = i then f u else u) (ac_users s)\<rparr>, Inr ()))"

definition save_user :: "user_change \<Rightarrow> unit account_op" where
  "save_user c s =
     (case known_role (uc_role c) of
        Some e \<Rightarrow> (s, Inl e)
      | None \<Rightarrow>
          (if uc_role c = role_domain \<and> reach_empty (uc_reach c) then (s, Inl Empty_reach)
           else acct_step (\<lambda>s.
             case update_user_row (uc_id c) (uc_name c) (\<lambda>u. u\<lparr>u_name := uc_name c,
                    u_hash := (if uc_hash c = [] then u_hash u else uc_hash c), u_email := uc_email c, u_role := uc_role c,
                    u_confirmed := keep_confirmed (uc_email c) u\<rparr>) s of
               (s1, Inl e) \<Rightarrow> (s1, Inl e)
             | (s1, Inr _) \<Rightarrow>
                 (case require_a_global s1 of
                    Some e \<Rightarrow> (s1, Inl e)
                  | None \<Rightarrow> write_user_reach (uc_id c) (if uc_role c = role_global then no_reach else uc_reach c) s1)) s))"

definition update_user :: "nat \<Rightarrow> string \<Rightarrow> string \<Rightarrow> string \<Rightarrow> unit account_op" where
  "update_user i name h email = acct_step (update_user_row i name
     (\<lambda>u. u\<lparr>u_name := name, u_hash := h, u_email := email, u_confirmed := keep_confirmed email u\<rparr>))"

definition update_user_profile :: "nat \<Rightarrow> string \<Rightarrow> string \<Rightarrow> bool \<Rightarrow> unit account_op" where
  "update_user_profile i name email notify = acct_step (update_user_row i name
     (\<lambda>u. u\<lparr>u_name := name, u_email := email, u_notify := notify, u_confirmed := keep_confirmed email u\<rparr>))"

definition set_reach :: "nat \<Rightarrow> reach \<Rightarrow> unit account_op" where
  "set_reach i r = acct_step (write_user_reach i r)"

definition clear_user_reach :: "nat \<Rightarrow> unit account_op" where
  "clear_user_reach i = set_reach i no_reach"

definition set_user_reach :: "nat \<Rightarrow> reach \<Rightarrow> unit account_op" where
  "set_user_reach i r s =
     (case get_user i s of
        (s1, Inl e) \<Rightarrow> (s1, Inl e)
      | (s1, Inr u) \<Rightarrow>
          (if u_role u \<noteq> role_domain then (s1, Inl Not_domain_role)
           else if reach_empty r then (s1, Inl Empty_reach)
           else set_reach i r s1))"

text \<open>The cascade takes what refers to the user with it.\<close>

definition delete_user :: "nat \<Rightarrow> unit account_op" where
  "delete_user i = acct_step (\<lambda>s.
     if \<not> list_ex (\<lambda>u. u_id u = i) (ac_users s) then (s, Inl User_not_found)
     else (let s1 = s\<lparr>ac_users := filter (\<lambda>u. u_id u \<noteq> i) (ac_users s),
                      ac_user_domains := filter (\<lambda>p. fst p \<noteq> i) (ac_user_domains s),
                      ac_user_inbound := filter (\<lambda>p. fst p \<noteq> i) (ac_user_inbound s),
                      ac_sessions := filter (\<lambda>r. sn_user r \<noteq> i) (ac_sessions s),
                      ac_links := filter (\<lambda>l. lk_user l \<noteq> i) (ac_links s)\<rparr>
           in case require_a_global s1 of Some e \<Rightarrow> (s1, Inl e) | None \<Rightarrow> (s1, Inr ())))"

definition set_user_password :: "nat \<Rightarrow> string \<Rightarrow> unit account_op" where
  "set_user_password i h = acct_step (\<lambda>s.
     if \<not> list_ex (\<lambda>u. u_id u = i) (ac_users s) then (s, Inl User_not_found)
     else (s\<lparr>ac_users := map (\<lambda>u. if u_id u = i then u\<lparr>u_hash := h\<rparr> else u) (ac_users s)\<rparr>, Inr ()))"

text \<open>A domain that is deleted takes its assignments with it (the cascade of the two tables).\<close>

definition domain_gone :: "nat \<Rightarrow> accounts \<Rightarrow> accounts" where
  "domain_gone d s = s\<lparr>ac_domains := removeAll d (ac_domains s), ac_user_domains := filter (\<lambda>p. snd p \<noteq> d) (ac_user_domains s)\<rparr>"

definition inbound_gone :: "nat \<Rightarrow> accounts \<Rightarrow> accounts" where
  "inbound_gone d s = s\<lparr>ac_inbounds := removeAll d (ac_inbounds s), ac_user_inbound := filter (\<lambda>p. snd p \<noteq> d) (ac_user_inbound s)\<rparr>"

section \<open>Sessions\<close>

definition create_session :: "int \<Rightarrow> string \<Rightarrow> nat \<Rightarrow> int \<Rightarrow> unit account_op" where
  "create_session now h i expires = acct_step (\<lambda>s.
     if list_ex (\<lambda>r. sn_hash r = h) (ac_sessions s) \<or> \<not> list_ex (\<lambda>u. u_id u = i) (ac_users s) then (s, Inl Account_failed)
     else (s\<lparr>ac_sessions := ac_sessions s @ [\<lparr>sn_hash = h, sn_user = i, sn_created = stamp now, sn_expires = stamp expires\<rparr>]\<rparr>, Inr ()))"

definition lookup_session :: "string \<Rightarrow> session_row option account_op" where
  "lookup_session h = acct_step (\<lambda>s. (s, Inr (find (\<lambda>r. sn_hash r = h) (ac_sessions s))))"

definition renew_session :: "string \<Rightarrow> int \<Rightarrow> unit account_op" where
  "renew_session h expires = acct_step (\<lambda>s.
     (s\<lparr>ac_sessions := map (\<lambda>r. if sn_hash r = h then r\<lparr>sn_expires := stamp expires\<rparr> else r) (ac_sessions s)\<rparr>, Inr ()))"

definition drop_sessions :: "(session_row \<Rightarrow> bool) \<Rightarrow> unit account_op" where
  "drop_sessions p = acct_step (\<lambda>s. (s\<lparr>ac_sessions := filter (\<lambda>r. \<not> p r) (ac_sessions s)\<rparr>, Inr ()))"

definition delete_session :: "string \<Rightarrow> unit account_op" where
  "delete_session h = drop_sessions (\<lambda>r. sn_hash r = h)"

definition delete_other_sessions :: "nat \<Rightarrow> string \<Rightarrow> unit account_op" where
  "delete_other_sessions i keep = drop_sessions (\<lambda>r. sn_user r = i \<and> sn_hash r \<noteq> keep)"

definition delete_user_sessions :: "nat \<Rightarrow> unit account_op" where
  "delete_user_sessions i = drop_sessions (\<lambda>r. sn_user r = i)"

definition delete_expired_sessions :: "int \<Rightarrow> unit account_op" where
  "delete_expired_sessions now = drop_sessions (\<lambda>r. sn_expires r < stamp now)"

section \<open>Links\<close>

definition link_confirm :: string where "link_confirm = ''confirm''"
definition link_reset :: string where "link_reset = ''reset''"

definition create_user_link :: "string \<Rightarrow> nat \<Rightarrow> string \<Rightarrow> string \<Rightarrow> int \<Rightarrow> int \<Rightarrow> unit account_op" where
  "create_user_link h i purpose email now expires = acct_step (\<lambda>s.
     let kept = filter (\<lambda>l. \<not> ((purpose = link_confirm \<and> lk_user l = i \<and> lk_purpose l = link_confirm) \<or> lk_expires l \<le> stamp now)) (ac_links s)
     in if purpose \<noteq> link_confirm \<and> purpose \<noteq> link_reset \<or> list_ex (\<lambda>l. lk_hash l = h) kept \<or> \<not> list_ex (\<lambda>u. u_id u = i) (ac_users s)
          then (s, Inl Account_failed)
        else (s\<lparr>ac_links := kept @ [\<lparr>lk_hash = h, lk_user = i, lk_purpose = purpose, lk_email = email,
                                   lk_created = stamp now, lk_expires = stamp expires\<rparr>]\<rparr>, Inr ()))"

definition live_link :: "string \<Rightarrow> string \<Rightarrow> int \<Rightarrow> user_link \<Rightarrow> bool" where
  "live_link h purpose now l \<longleftrightarrow> lk_hash l = h \<and> lk_purpose l = purpose \<and> lk_expires l > stamp now"

definition peek_user_link :: "string \<Rightarrow> string \<Rightarrow> int \<Rightarrow> user_link account_op" where
  "peek_user_link h purpose now = acct_step (\<lambda>s.
     (s, case find (live_link h purpose now) (ac_links s) of None \<Rightarrow> Inl No_link | Some l \<Rightarrow> Inr l))"

definition take_user_link :: "string \<Rightarrow> string \<Rightarrow> int \<Rightarrow> user_link account_op" where
  "take_user_link h purpose now = acct_step (\<lambda>s.
     case find (live_link h purpose now) (ac_links s) of
       None \<Rightarrow> (s, Inl No_link)
     | Some l \<Rightarrow> (s\<lparr>ac_links := filter (\<lambda>l. \<not> live_link h purpose now l) (ac_links s)\<rparr>, Inr l))"

text \<open>Of the live links of the user the one created last; of equal times the one written first.\<close>

fun latest_link :: "user_link list \<Rightarrow> user_link option" where
  "latest_link [] = None"
| "latest_link (l # ls) = (case latest_link ls of None \<Rightarrow> Some l | Some m \<Rightarrow> if lk_created m > lk_created l then Some m else Some l)"

definition latest_user_link :: "nat \<Rightarrow> string \<Rightarrow> int \<Rightarrow> user_link account_op" where
  "latest_user_link i purpose now = acct_step (\<lambda>s.
     (s, case latest_link (filter (\<lambda>l. lk_user l = i \<and> lk_purpose l = purpose \<and> lk_expires l > stamp now) (ac_links s)) of
           None \<Rightarrow> Inl No_link | Some l \<Rightarrow> Inr l))"

definition delete_user_links :: "nat \<Rightarrow> string \<Rightarrow> unit account_op" where
  "delete_user_links i purpose = acct_step (\<lambda>s.
     (s\<lparr>ac_links := filter (\<lambda>l. \<not> (lk_user l = i \<and> lk_purpose l = purpose)) (ac_links s)\<rparr>, Inr ()))"

definition delete_all_user_links :: "unit account_op" where
  "delete_all_user_links = acct_step (\<lambda>s. (s\<lparr>ac_links := []\<rparr>, Inr ()))"

definition confirm_email :: "nat \<Rightarrow> string \<Rightarrow> int \<Rightarrow> bool account_op" where
  "confirm_email i email now = acct_step (\<lambda>s.
     let hit = (\<lambda>u. u_id u = i \<and> u_email u = email \<and> u_email u \<noteq> [])
     in (s\<lparr>ac_users := map (\<lambda>u. if hit u then u\<lparr>u_confirmed := Some (stamp now)\<rparr> else u) (ac_users s)\<rparr>,
         Inr (length (filter hit (ac_users s)) = 1)))"

definition take_reset_link :: "string \<Rightarrow> string \<Rightarrow> int \<Rightarrow> nat account_op" where
  "take_reset_link h pw now = acct_step (\<lambda>s.
     case find (live_link h link_reset now) (ac_links s) of
       None \<Rightarrow> (s, Inl No_link)
     | Some l \<Rightarrow>
         (let hit = (\<lambda>u. u_id u = lk_user l \<and> u_email u = lk_email l \<and> u_email u \<noteq> [] \<and> u_confirmed u \<noteq> None)
          in if length (filter hit (ac_users s)) \<noteq> 1 then (s, Inl No_link)
             else (s\<lparr>ac_users := map (\<lambda>u. if hit u then u\<lparr>u_hash := pw\<rparr> else u) (ac_users s),
                     ac_links := filter (\<lambda>x. \<not> live_link h link_reset now x \<and> \<not> (lk_user x = lk_user l \<and> lk_purpose x = link_reset)) (ac_links s)\<rparr>,
                   Inr (lk_user l))))"

section \<open>What every operation keeps\<close>

definition user_ids :: "accounts \<Rightarrow> nat set" where
  "user_ids s = u_id ` set (ac_users s)"

definition acct_wf :: "accounts \<Rightarrow> bool" where
  "acct_wf s \<longleftrightarrow>
     distinct (map u_id (ac_users s)) \<and> distinct (map u_name (ac_users s)) \<and>
     (\<forall>u \<in> set (ac_users s). u_id u < ac_next_user s \<and> u_role u \<in> {role_global, role_domain}) \<and>
     distinct (ac_user_domains s) \<and> set (ac_user_domains s) \<subseteq> user_ids s \<times> set (ac_domains s) \<and>
     distinct (ac_user_inbound s) \<and> set (ac_user_inbound s) \<subseteq> user_ids s \<times> set (ac_inbounds s) \<and>
     distinct (map sn_hash (ac_sessions s)) \<and> sn_user ` set (ac_sessions s) \<subseteq> user_ids s \<and>
     distinct (map lk_hash (ac_links s)) \<and> lk_user ` set (ac_links s) \<subseteq> user_ids s \<and>
     (\<forall>l \<in> set (ac_links s). lk_purpose l \<in> {link_confirm, link_reset})"

definition has_global :: "accounts \<Rightarrow> bool" where
  "has_global s \<longleftrightarrow> list_ex (\<lambda>u. u_role u = role_global) (ac_users s)"

text \<open>Any property a step's successful end has and a dropped fault mark does not touch is kept by the step.\<close>

lemma acct_step_keeps:
  assumes "P s" "\<And>fs. P s \<Longrightarrow> P (s\<lparr>ac_faults := fs\<rparr>)" "\<And>s s' x. P s \<Longrightarrow> f s = (s', Inr x) \<Longrightarrow> P s'"
  shows "P (fst (acct_step f s))"
proof -
  have f: "P (case f t of (s', Inl e) \<Rightarrow> t | (s', Inr x) \<Rightarrow> s')" if "P t" for t
    using assms(3) [OF that] that by (cases "f t"; cases "snd (f t)") auto
  show ?thesis
  proof (cases "ac_faults s")
    case Nil
    with f [OF assms(1)] show ?thesis by (simp add: acct_step_def split: prod.splits sum.splits)
  next
    case (Cons a fs)
    with f [OF assms(2) [OF assms(1), of fs]] assms(2) [OF assms(1), of fs] show ?thesis
      by (cases a) (simp_all add: acct_step_def split: prod.splits sum.splits)
  qed
qed

definition acct_ok :: "accounts \<Rightarrow> bool" where
  "acct_ok s \<longleftrightarrow> acct_wf s \<and> has_global s"

lemma acct_faults [simp]: "acct_wf (s\<lparr>ac_faults := fs\<rparr>) = acct_wf s" "has_global (s\<lparr>ac_faults := fs\<rparr>) = has_global s"
  "acct_ok (s\<lparr>ac_faults := fs\<rparr>) = acct_ok s"
  by (simp_all add: acct_wf_def has_global_def user_ids_def acct_ok_def)

lemma has_global_roles: "has_global s \<longleftrightarrow> role_global \<in> set (map u_role (ac_users s))"
  unfolding has_global_def list_ex_iff set_map image_iff by metis

text \<open>A map over the users that keeps ids, keeps names apart and roles known.\<close>

lemma map_users_wf:
  assumes "acct_wf s" "\<And>u. u_id (f u) = u_id u" "distinct (map (\<lambda>u. u_name (f u)) (ac_users s))"
    "\<And>u. u \<in> set (ac_users s) \<Longrightarrow> u_role (f u) \<in> {role_global, role_domain}"
  shows "acct_wf (s\<lparr>ac_users := map f (ac_users s)\<rparr>)"
proof -
  have "map u_id (map f (ac_users s)) = map u_id (ac_users s)" "user_ids (s\<lparr>ac_users := map f (ac_users s)\<rparr>) = user_ids s"
    using assms(2) by (simp_all add: user_ids_def image_image)
  with assms show ?thesis unfolding acct_wf_def by (simp add: comp_def)
qed

lemma map_users_same:
  assumes "acct_wf s" "\<And>u. u_id (f u) = u_id u" "\<And>u. u_name (f u) = u_name u" "\<And>u. u_role (f u) = u_role u"
  shows "acct_wf (s\<lparr>ac_users := map f (ac_users s)\<rparr>)"
  by (rule map_users_wf) (use assms in \<open>simp_all add: acct_wf_def\<close>)

lemma assign_each_ok:
  assumes "assign_each known there i ds ps = Inr ps'" "distinct ps" "set ps \<subseteq> A \<times> set known" "there \<longrightarrow> i \<in> A"
  shows "distinct ps' \<and> set ps' \<subseteq> A \<times> set known"
  using assms
proof (induction known there i ds ps rule: assign_each.induct)
  case (2 known there i d ds ps)
  from "2.prems"(1) have n: "\<not> (i, d) \<in> set ps" "\<not> (d \<notin> set known \<or> \<not> there)" "assign_each known there i ds (ps @ [(i, d)]) = Inr ps'"
    by (auto split: if_splits)
  from "2.IH" [OF n] "2.prems" n show ?case by auto
qed auto

lemma write_reach_users:
  assumes "write_user_reach i r s = (s', Inr ())"
  shows "\<exists>ds ins. s' = s\<lparr>ac_users := map (\<lambda>u. if u_id u = i then u\<lparr>u_all_domains := re_all_domains r, u_all_inbound := re_all_inbound r\<rparr> else u) (ac_users s),
      ac_user_domains := ds, ac_user_inbound := ins\<rparr> \<and>
    assign_each (ac_domains s) (list_ex (\<lambda>u. u_id u = i) (ac_users s)) i (if re_all_domains r then [] else re_domains r)
      (filter (\<lambda>p. fst p \<noteq> i) (ac_user_domains s)) = Inr ds \<and>
    assign_each (ac_inbounds s) (list_ex (\<lambda>u. u_id u = i) (ac_users s)) i (if re_all_inbound r then [] else re_inbound r)
      (filter (\<lambda>p. fst p \<noteq> i) (ac_user_inbound s)) = Inr ins"
  using assms by (auto simp: write_user_reach_def Let_def split: sum.splits)

lemma write_reach_wf:
  assumes "acct_wf s" "write_user_reach i r s = (s', Inr ())"
  shows "acct_wf s'" "has_global s' = has_global s"
proof -
  let ?f = "\<lambda>u. if u_id u = i then u\<lparr>u_all_domains := re_all_domains r, u_all_inbound := re_all_inbound r\<rparr> else u"
  from write_reach_users [OF assms(2)] obtain ds ins where
    s': "s' = s\<lparr>ac_users := map ?f (ac_users s), ac_user_domains := ds, ac_user_inbound := ins\<rparr>" and
    ds: "assign_each (ac_domains s) (list_ex (\<lambda>u. u_id u = i) (ac_users s)) i (if re_all_domains r then [] else re_domains r)
      (filter (\<lambda>p. fst p \<noteq> i) (ac_user_domains s)) = Inr ds" and
    ins: "assign_each (ac_inbounds s) (list_ex (\<lambda>u. u_id u = i) (ac_users s)) i (if re_all_inbound r then [] else re_inbound r)
      (filter (\<lambda>p. fst p \<noteq> i) (ac_user_inbound s)) = Inr ins" by blast
  have m: "acct_wf (s\<lparr>ac_users := map ?f (ac_users s)\<rparr>)"
  proof (rule map_users_wf [OF assms(1)])
    have "map (\<lambda>u. u_name (?f u)) (ac_users s) = map u_name (ac_users s)" by simp
    with assms(1) show "distinct (map (\<lambda>u. u_name (?f u)) (ac_users s))" by (simp only: acct_wf_def)
  qed (use assms(1) in \<open>auto simp: acct_wf_def\<close>)
  have there: "list_ex (\<lambda>u. u_id u = i) (ac_users s) \<longrightarrow> i \<in> user_ids s" by (auto simp: list_ex_iff user_ids_def)
  have "distinct ds \<and> set ds \<subseteq> user_ids s \<times> set (ac_domains s)"
    by (rule assign_each_ok [OF ds _ _ there]) (use assms(1) in \<open>auto simp: acct_wf_def\<close>)
  moreover have "distinct ins \<and> set ins \<subseteq> user_ids s \<times> set (ac_inbounds s)"
    by (rule assign_each_ok [OF ins _ _ there]) (use assms(1) in \<open>auto simp: acct_wf_def\<close>)
  moreover have ids: "user_ids s' = user_ids s"
  proof -
    have u: "ac_users s' = map ?f (ac_users s)" by (simp add: s')
    have "map u_id (map ?f (ac_users s)) = map u_id (ac_users s)" by simp
    then show ?thesis unfolding user_ids_def u set_map [symmetric] by (simp only:)
  qed
  moreover have "user_ids (s\<lparr>ac_users := map ?f (ac_users s)\<rparr>) = user_ids s'" by (simp add: s' user_ids_def)
  ultimately have all: "distinct ds \<and> set ds \<subseteq> user_ids s' \<times> set (ac_domains s)"
      "distinct ins \<and> set ins \<subseteq> user_ids s' \<times> set (ac_inbounds s)"
      "user_ids (s\<lparr>ac_users := map ?f (ac_users s)\<rparr>) = user_ids s'" by simp_all
  have acs: "ac_users s' = map ?f (ac_users s)" "ac_user_domains s' = ds" "ac_user_inbound s' = ins" "ac_domains s' = ac_domains s"
    "ac_inbounds s' = ac_inbounds s" "ac_sessions s' = ac_sessions s" "ac_links s' = ac_links s" "ac_next_user s' = ac_next_user s"
    by (simp_all add: s')
  define t where "t = s\<lparr>ac_users := map ?f (ac_users s)\<rparr>"
  have ts: "ac_users t = map ?f (ac_users s)" "ac_domains t = ac_domains s" "user_ids t = user_ids s'"
    "ac_inbounds t = ac_inbounds s" "ac_sessions t = ac_sessions s" "ac_links t = ac_links s" "ac_next_user t = ac_next_user s"
    using all(3) by (simp_all add: t_def)
  show "acct_wf s'" using m [folded t_def] all(1,2) unfolding acct_wf_def acs ts by (elim conjE) (intro conjI; assumption)
  have "map u_role (map ?f (ac_users s)) = map u_role (ac_users s)" by simp
  then show "has_global s' = has_global s" unfolding has_global_roles acs by (simp only:)
qed

lemma update_row_wf:
  assumes "acct_wf s" "update_user_row i name f s = (s', Inr ())"
    "\<And>u. u_id (f u) = u_id u" "\<And>u. u_name (f u) = name" "\<And>u. u_role u \<in> {role_global, role_domain} \<Longrightarrow> u_role (f u) \<in> {role_global, role_domain}"
  shows "acct_wf s'"
proof -
  from assms(2) have s': "s' = s\<lparr>ac_users := map (\<lambda>u. if u_id u = i then f u else u) (ac_users s)\<rparr>"
    and free: "\<forall>u \<in> set (ac_users s). u_id u \<noteq> i \<longrightarrow> u_name u \<noteq> name"
    by (auto simp: update_user_row_def list_ex_iff split: if_splits)
  show ?thesis unfolding s'
  proof (rule map_users_wf [OF assms(1)])
    have d: "distinct (map u_id (ac_users s))" "distinct (map u_name (ac_users s))" using assms(1) by (simp_all add: acct_wf_def)
    show "distinct (map (\<lambda>u. u_name (if u_id u = i then f u else u)) (ac_users s))"
      unfolding distinct_map
    proof (intro conjI inj_onI)
      show "distinct (ac_users s)" using d(1) by (simp add: distinct_map)
      fix x y assume x: "x \<in> set (ac_users s)" "y \<in> set (ac_users s)"
        and e: "u_name (if u_id x = i then f x else x) = u_name (if u_id y = i then f y else y)"
      show "x = y"
      proof (cases "u_id x = i"; cases "u_id y = i")
        assume "u_id x = i" "u_id y = i"
        with d(1) x show ?thesis by (simp add: distinct_map inj_on_def)
      qed (use e x free assms(4) d(2) in \<open>auto simp: distinct_map inj_on_def\<close>)
    qed
  qed (use assms(1,3,5) in \<open>auto simp: acct_wf_def\<close>)
qed

lemma add_user_ok:
  assumes "acct_ok s"
  shows "acct_ok (fst (add_user now c s))"
proof -
  let ?f = "\<lambda>s. if list_ex (\<lambda>u. u_name u = uc_name c) (ac_users s) then (s, Inl User_exists)
             else (let i = ac_next_user s;
                       s1 = s\<lparr>ac_users := ac_users s @ [new_user i (uc_name c) (uc_hash c) (uc_role c) (uc_email c) now],
                              ac_next_user := i + 1\<rparr>
                   in if uc_role c = role_domain then
                        (case write_user_reach i (uc_reach c) s1 of (s2, Inl e) \<Rightarrow> (s2, Inl e) | (s2, Inr _) \<Rightarrow> (s2, Inr i))
                      else (s1, Inr i))"
  have step: "acct_ok (fst (acct_step ?f s))" if role: "uc_role c \<in> {role_global, role_domain}"
  proof (rule acct_step_keeps [of acct_ok, OF assms])
    fix s s' x assume ok: "acct_ok s" and f: "?f s = (s', Inr x)"
    let ?s1 = "s\<lparr>ac_users := ac_users s @ [new_user (ac_next_user s) (uc_name c) (uc_hash c) (uc_role c) (uc_email c) now],
                              ac_next_user := ac_next_user s + 1\<rparr>"
    from f have free: "\<forall>u \<in> set (ac_users s). u_name u \<noteq> uc_name c" by (auto simp: list_ex_iff split: if_splits)
    have s1: "acct_wf ?s1" "has_global ?s1"
      using ok free role unfolding acct_ok_def acct_wf_def user_ids_def has_global_def new_user_def
      by (auto simp: less_Suc_eq)
    from f free show "acct_ok s'"
      using s1 write_reach_wf [of ?s1 "ac_next_user s" "uc_reach c" s'] by (auto simp: Let_def acct_ok_def list_ex_iff split: if_splits prod.splits sum.splits)
  qed simp
  show ?thesis using assms step
    by (auto simp: add_user_def known_role_def)
qed

lemma has_global_kept_by_map:
  "has_global s \<Longrightarrow> (\<And>u. u_role (f u) = u_role u) \<Longrightarrow> has_global (s\<lparr>ac_users := map f (ac_users s)\<rparr>)"
  by (simp add: has_global_roles image_image)

lemma save_user_ok:
  assumes "acct_ok s"
  shows "acct_ok (fst (save_user c s))"
proof -
  let ?g = "\<lambda>u. u\<lparr>u_name := uc_name c, u_hash := (if uc_hash c = [] then u_hash u else uc_hash c), u_email := uc_email c, u_role := uc_role c,
                    u_confirmed := keep_confirmed (uc_email c) u\<rparr>"
  let ?r = "if uc_role c = role_global then no_reach else uc_reach c"
  let ?f = "\<lambda>s. case update_user_row (uc_id c) (uc_name c) ?g s of
               (s1, Inl e) \<Rightarrow> (s1, Inl e)
             | (s1, Inr _) \<Rightarrow>
                 (case require_a_global s1 of Some e \<Rightarrow> (s1, Inl e) | None \<Rightarrow> write_user_reach (uc_id c) ?r s1)"
  have step: "acct_ok (fst (acct_step ?f s))" if role: "uc_role c \<in> {role_global, role_domain}"
  proof (rule acct_step_keeps [of acct_ok, OF assms])
    fix s s' x assume ok: "acct_ok s" and f: "?f s = (s', Inr x)"
    obtain s1 q where u: "update_user_row (uc_id c) (uc_name c) ?g s = (s1, q)" by fastforce
    with f have q: "q = Inr ()" by (cases q) auto
    from u q f have g: "require_a_global s1 = None" and w: "write_user_reach (uc_id c) ?r s1 = (s', Inr ())"
      by (auto split: option.splits)
    have "acct_wf s1"
      by (rule update_row_wf [OF _ u [unfolded q]]) (use ok role in \<open>auto simp: acct_ok_def\<close>)
    with write_reach_wf [OF this w] g show "acct_ok s'" by (auto simp: acct_ok_def require_a_global_def has_global_def split: if_splits)
  qed simp
  show ?thesis
  proof (cases "known_role (uc_role c)")
    case None
    then have "uc_role c \<in> {role_global, role_domain}" by (auto simp: known_role_def split: if_splits)
    from step [OF this] assms None show ?thesis by (simp only: save_user_def option.case if_False if_True split: if_split) simp
  qed (use assms in \<open>simp add: save_user_def\<close>)
qed

lemma update_rows_ok:
  assumes "acct_ok s" "\<And>u. u_id (f u) = u_id u" "\<And>u. u_name (f u) = name" "\<And>u. u_role (f u) = u_role u"
  shows "acct_ok (fst (acct_step (update_user_row i name f) s))"
proof (rule acct_step_keeps [of acct_ok, OF assms(1)])
  fix s s' x assume ok: "acct_ok s" and f: "update_user_row i name f s = (s', Inr x)"
  have "acct_wf s'" by (rule update_row_wf [of s i name f]) (use ok f assms(2-4) in \<open>auto simp: acct_ok_def\<close>)
  moreover from f have "s' = s\<lparr>ac_users := map (\<lambda>u. if u_id u = i then f u else u) (ac_users s)\<rparr>"
    by (auto simp: update_user_row_def split: if_splits)
  then have "has_global s'" using ok assms(4) has_global_kept_by_map [of s "\<lambda>u. if u_id u = i then f u else u"] by (simp add: acct_ok_def)
  ultimately show "acct_ok s'" by (simp add: acct_ok_def)
qed simp

lemma set_reach_ok: "acct_ok s \<Longrightarrow> acct_ok (fst (set_reach i r s))"
  unfolding set_reach_def using write_reach_wf by (intro acct_step_keeps [of acct_ok]) (auto simp: acct_ok_def)

lemma load_user_keeps:
  assumes "P s" "\<And>s fs. P s \<Longrightarrow> P (s\<lparr>ac_faults := fs\<rparr>)"
  shows "P (fst (load_user p s))"
proof -
  have r: "P (fst (acct_step (\<lambda>s. (s, g s)) t))" if "P t" for t and g :: "accounts \<Rightarrow> account_error + 'a"
    by (rule acct_step_keeps [of P, OF that]) (use assms(2) in auto)
  obtain s1 q where 1: "acct_step (\<lambda>s. (s, case find p (ac_users s) of None \<Rightarrow> Inl User_not_found | Some u \<Rightarrow> Inr u)) s = (s1, q)" by fastforce
  have p1: "P s1" using r [OF assms(1), of "\<lambda>s. case find p (ac_users s) of None \<Rightarrow> Inl User_not_found | Some u \<Rightarrow> Inr u"] 1 by simp
  show ?thesis
  proof (cases q)
    case (Inl e)
    with 1 p1 show ?thesis by (simp add: load_user_def)
  next
    case (Inr u)
    obtain s2 ds where 2: "list_user_domain_ids (u_id u) s1 = (s2, ds)" by fastforce
    have p2: "P s2" using r [OF p1, of "\<lambda>s. Inr (sort (map snd (filter (\<lambda>p. fst p = u_id u) (ac_user_domains s))))"] 2 by (simp add: list_user_domain_ids_def)
    obtain s3 ins where 3: "list_user_inbound_ids (u_id u) s2 = (s3, ins)" by fastforce
    have p3: "P s3" using r [OF p2, of "\<lambda>s. Inr (sort (map snd (filter (\<lambda>p. fst p = u_id u) (ac_user_inbound s))))"] 3 by (simp add: list_user_inbound_ids_def)
    from 1 2 3 Inr p2 p3 show ?thesis by (cases ds; cases ins) (simp_all add: load_user_def)
  qed
qed

lemma set_user_reach_ok: "acct_ok s \<Longrightarrow> acct_ok (fst (set_user_reach i r s))"
proof -
  assume ok: "acct_ok s"
  obtain s1 q where g: "get_user i s = (s1, q)" by fastforce
  have "acct_ok s1" using load_user_keeps [of acct_ok s "\<lambda>u. u_id u = i"] ok g by (simp add: get_user_def)
  with g set_reach_ok show ?thesis by (cases q) (auto simp: set_user_reach_def)
qed

lemma delete_user_ok: "acct_ok s \<Longrightarrow> acct_ok (fst (delete_user i s))"
  unfolding delete_user_def
proof (rule acct_step_keeps [of acct_ok])
  fix s s' x assume ok: "acct_ok s"
    and f: "(if \<not> list_ex (\<lambda>u. u_id u = i) (ac_users s) then (s, Inl User_not_found)
     else (let s1 = s\<lparr>ac_users := filter (\<lambda>u. u_id u \<noteq> i) (ac_users s),
                      ac_user_domains := filter (\<lambda>p. fst p \<noteq> i) (ac_user_domains s),
                      ac_user_inbound := filter (\<lambda>p. fst p \<noteq> i) (ac_user_inbound s),
                      ac_sessions := filter (\<lambda>r. sn_user r \<noteq> i) (ac_sessions s),
                      ac_links := filter (\<lambda>l. lk_user l \<noteq> i) (ac_links s)\<rparr>
           in case require_a_global s1 of Some e \<Rightarrow> (s1, Inl e) | None \<Rightarrow> (s1, Inr ()))) = (s', Inr x)"
  then have s': "s' = s\<lparr>ac_users := filter (\<lambda>u. u_id u \<noteq> i) (ac_users s),
                      ac_user_domains := filter (\<lambda>p. fst p \<noteq> i) (ac_user_domains s),
                      ac_user_inbound := filter (\<lambda>p. fst p \<noteq> i) (ac_user_inbound s),
                      ac_sessions := filter (\<lambda>r. sn_user r \<noteq> i) (ac_sessions s),
                      ac_links := filter (\<lambda>l. lk_user l \<noteq> i) (ac_links s)\<rparr>" and g: "require_a_global s' = None"
    by (auto simp: Let_def split: if_splits option.splits)
  have "user_ids s' = user_ids s - {i}" by (auto simp: s' user_ids_def)
  then have "acct_wf s'" using ok unfolding acct_ok_def acct_wf_def
    by (auto simp: s' distinct_map_filter)
  with g show "acct_ok s'" by (simp add: acct_ok_def require_a_global_def has_global_def split: if_splits)
qed simp_all

lemma set_password_ok: "acct_ok s \<Longrightarrow> acct_ok (fst (set_user_password i h s))"
  unfolding set_user_password_def
proof (rule acct_step_keeps [of acct_ok])
  fix s s' x assume ok: "acct_ok s"
    and f: "(if \<not> list_ex (\<lambda>u. u_id u = i) (ac_users s) then (s, Inl User_not_found)
     else (s\<lparr>ac_users := map (\<lambda>u. if u_id u = i then u\<lparr>u_hash := h\<rparr> else u) (ac_users s)\<rparr>, Inr ())) = (s', Inr x)"
  then have s': "s' = s\<lparr>ac_users := map (\<lambda>u. if u_id u = i then u\<lparr>u_hash := h\<rparr> else u) (ac_users s)\<rparr>" by (auto split: if_splits)
  from ok have "acct_wf s'" unfolding s' by (intro map_users_same) (simp_all add: acct_ok_def)
  with ok has_global_kept_by_map [of s "\<lambda>u. if u_id u = i then u\<lparr>u_hash := h\<rparr> else u"] show "acct_ok s'" by (simp add: acct_ok_def s')
qed simp_all

lemma kept_part:
  assumes "acct_ok s" "ac_users s' = ac_users s" "ac_next_user s' = ac_next_user s" "ac_domains s' = ac_domains s" "ac_inbounds s' = ac_inbounds s"
    "ac_user_domains s' = ac_user_domains s" "ac_user_inbound s' = ac_user_inbound s"
    "distinct (map sn_hash (ac_sessions s'))" "sn_user ` set (ac_sessions s') \<subseteq> user_ids s"
    "distinct (map lk_hash (ac_links s'))" "lk_user ` set (ac_links s') \<subseteq> user_ids s"
    "\<forall>l \<in> set (ac_links s'). lk_purpose l \<in> {link_confirm, link_reset}"
  shows "acct_ok s'"
  using assms by (simp add: acct_ok_def acct_wf_def user_ids_def has_global_def)

lemma acct_okD:
  assumes "acct_ok s"
  shows "distinct (map sn_hash (ac_sessions s))" "sn_user ` set (ac_sessions s) \<subseteq> user_ids s"
    "distinct (map lk_hash (ac_links s))" "lk_user ` set (ac_links s) \<subseteq> user_ids s"
    "\<forall>l \<in> set (ac_links s). lk_purpose l \<in> {link_confirm, link_reset}"
    "distinct (map u_id (ac_users s))"
  using assms by (simp_all add: acct_ok_def acct_wf_def)

lemma fewer_sessions_ok:
  assumes "acct_ok s"
  shows "acct_ok (s\<lparr>ac_sessions := filter p (ac_sessions s)\<rparr>)"
  by (rule kept_part [OF assms]) (use acct_okD [OF assms] in \<open>auto simp: distinct_map_filter\<close>)

lemma fewer_links_ok:
  assumes "acct_ok s"
  shows "acct_ok (s\<lparr>ac_links := filter p (ac_links s)\<rparr>)"
  by (rule kept_part [OF assms]) (use acct_okD [OF assms] in \<open>auto simp: distinct_map_filter\<close>)

lemma drop_sessions_ok: "acct_ok s \<Longrightarrow> acct_ok (fst (drop_sessions p s))"
  unfolding drop_sessions_def by (rule acct_step_keeps) (use fewer_sessions_ok in auto)

lemma create_session_ok: "acct_ok s \<Longrightarrow> acct_ok (fst (create_session now h i expires s))"
  unfolding create_session_def
proof (rule acct_step_keeps [of acct_ok])
  fix s s' x assume ok: "acct_ok s"
    and f: "(if list_ex (\<lambda>r. sn_hash r = h) (ac_sessions s) \<or> \<not> list_ex (\<lambda>u. u_id u = i) (ac_users s) then (s, Inl Account_failed)
     else (s\<lparr>ac_sessions := ac_sessions s @ [\<lparr>sn_hash = h, sn_user = i, sn_created = stamp now, sn_expires = stamp expires\<rparr>]\<rparr>, Inr ())) = (s', Inr x)"
  then have s': "s' = s\<lparr>ac_sessions := ac_sessions s @ [\<lparr>sn_hash = h, sn_user = i, sn_created = stamp now, sn_expires = stamp expires\<rparr>]\<rparr>"
    and fresh: "h \<notin> sn_hash ` set (ac_sessions s)" "i \<in> user_ids s"
    by (auto simp: list_ex_iff user_ids_def split: if_splits)
  show "acct_ok s'" by (rule kept_part [OF ok]) (use acct_okD [OF ok] fresh in \<open>auto simp: s'\<close>)
qed simp_all

lemma renew_session_ok: "acct_ok s \<Longrightarrow> acct_ok (fst (renew_session h expires s))"
  unfolding renew_session_def
proof (rule acct_step_keeps [of acct_ok])
  fix s s' x assume ok: "acct_ok s"
    and f: "(s\<lparr>ac_sessions := map (\<lambda>r. if sn_hash r = h then r\<lparr>sn_expires := stamp expires\<rparr> else r) (ac_sessions s)\<rparr>, Inr ()) = (s', (Inr x :: account_error + unit))"
  let ?f = "\<lambda>r. if sn_hash r = h then r\<lparr>sn_expires := stamp expires\<rparr> else r"
  from f have s': "s' = s\<lparr>ac_sessions := map ?f (ac_sessions s)\<rparr>" by simp
  have m: "map sn_hash (map ?f (ac_sessions s)) = map sn_hash (ac_sessions s)" "map sn_user (map ?f (ac_sessions s)) = map sn_user (ac_sessions s)"
    by simp_all
  have ss: "ac_sessions s' = map ?f (ac_sessions s)" by (simp add: s')
  show "acct_ok s'"
  proof (rule kept_part [OF ok])
    show "distinct (map sn_hash (ac_sessions s'))" unfolding ss m by (rule acct_okD(1) [OF ok])
    show "sn_user ` set (ac_sessions s') \<subseteq> user_ids s" unfolding ss set_map [symmetric] m unfolding set_map by (rule acct_okD(2) [OF ok])
  qed (use acct_okD [OF ok] in \<open>simp_all add: s'\<close>)
qed simp_all

lemma create_link_ok: "acct_ok s \<Longrightarrow> acct_ok (fst (create_user_link h i purpose email now expires s))"
  unfolding create_user_link_def
proof (rule acct_step_keeps [of acct_ok])
  fix s s' x
  let ?kept = "\<lambda>s. filter (\<lambda>l. \<not> ((purpose = link_confirm \<and> lk_user l = i \<and> lk_purpose l = link_confirm) \<or> lk_expires l \<le> stamp now)) (ac_links s)"
  assume ok: "acct_ok s"
    and f: "(let kept = ?kept s
     in if purpose \<noteq> link_confirm \<and> purpose \<noteq> link_reset \<or> list_ex (\<lambda>l. lk_hash l = h) kept \<or> \<not> list_ex (\<lambda>u. u_id u = i) (ac_users s)
          then (s, Inl Account_failed)
        else (s\<lparr>ac_links := kept @ [\<lparr>lk_hash = h, lk_user = i, lk_purpose = purpose, lk_email = email,
                                   lk_created = stamp now, lk_expires = stamp expires\<rparr>]\<rparr>, Inr ())) = (s', Inr x)"
  obtain ks where ks: "?kept s = ks" by blast
  from f have s': "s' = s\<lparr>ac_links := ks @ [\<lparr>lk_hash = h, lk_user = i, lk_purpose = purpose, lk_email = email,
                                   lk_created = stamp now, lk_expires = stamp expires\<rparr>]\<rparr>"
    and new: "h \<notin> lk_hash ` set ks" "i \<in> user_ids s" "purpose \<in> {link_confirm, link_reset}"
    unfolding ks Let_def by (auto simp: list_ex_iff user_ids_def split: if_splits)
  have k: "distinct (map lk_hash ks)" "set ks \<subseteq> set (ac_links s)" unfolding ks [symmetric] using acct_okD(3) [OF ok] by (auto simp: distinct_map_filter)
  then have k3: "lk_user ` set ks \<subseteq> user_ids s" using acct_okD(4) [OF ok] by blast
  show "acct_ok s'" by (rule kept_part [OF ok]) (use acct_okD [OF ok] new k k3 in \<open>auto simp: s'\<close>)
qed simp_all

lemma take_link_ok: "acct_ok s \<Longrightarrow> acct_ok (fst (take_user_link h purpose now s))"
  unfolding take_user_link_def by (rule acct_step_keeps) (use fewer_links_ok in \<open>auto split: option.splits\<close>)

lemma delete_links_ok: "acct_ok s \<Longrightarrow> acct_ok (fst (delete_user_links i purpose s))"
  unfolding delete_user_links_def by (rule acct_step_keeps) (use fewer_links_ok in auto)

lemma delete_all_links_ok: "acct_ok s \<Longrightarrow> acct_ok (fst (delete_all_user_links s))"
  unfolding delete_all_user_links_def by (rule acct_step_keeps) (use fewer_links_ok [where p = "\<lambda>_. False"] in auto)

lemma confirm_row_ok:
  assumes "acct_ok s" "\<And>u. u_id (f u) = u_id u" "\<And>u. u_name (f u) = u_name u" "\<And>u. u_role (f u) = u_role u"
  shows "acct_ok (s\<lparr>ac_users := map f (ac_users s)\<rparr>)"
  using assms map_users_same [of s f] has_global_kept_by_map [of s f] by (simp add: acct_ok_def)

lemma confirm_email_ok: "acct_ok s \<Longrightarrow> acct_ok (fst (confirm_email i email now s))"
  unfolding confirm_email_def Let_def
proof (rule acct_step_keeps [of acct_ok])
  fix s s' x assume ok: "acct_ok s"
    and f: "(s\<lparr>ac_users := map (\<lambda>u. if u_id u = i \<and> u_email u = email \<and> u_email u \<noteq> [] then u\<lparr>u_confirmed := Some (stamp now)\<rparr> else u) (ac_users s)\<rparr>,
         Inr (length (filter (\<lambda>u. u_id u = i \<and> u_email u = email \<and> u_email u \<noteq> []) (ac_users s)) = 1)) = (s', (Inr x :: account_error + bool))"
  from f have s': "s' = s\<lparr>ac_users := map (\<lambda>u. if u_id u = i \<and> u_email u = email \<and> u_email u \<noteq> [] then u\<lparr>u_confirmed := Some (stamp now)\<rparr> else u) (ac_users s)\<rparr>"
    by (simp only: prod.inject)
  show "acct_ok s'" unfolding s' by (rule confirm_row_ok [OF ok]) simp_all
qed simp_all

text \<open>The row a reset link sets the password of, and the state after it.\<close>

definition reset_hit :: "user_link \<Rightarrow> user_row \<Rightarrow> bool" where
  "reset_hit l u \<longleftrightarrow> u_id u = lk_user l \<and> u_email u = lk_email l \<and> u_email u \<noteq> [] \<and> u_confirmed u \<noteq> None"

definition after_reset :: "string \<Rightarrow> string \<Rightarrow> int \<Rightarrow> user_link \<Rightarrow> accounts \<Rightarrow> accounts" where
  "after_reset h pw now l s = s\<lparr>ac_users := map (\<lambda>u. if reset_hit l u then u\<lparr>u_hash := pw\<rparr> else u) (ac_users s),
     ac_links := filter (\<lambda>x. \<not> live_link h link_reset now x \<and> \<not> (lk_user x = lk_user l \<and> lk_purpose x = link_reset)) (ac_links s)\<rparr>"

lemma take_reset_link_eq:
  "take_reset_link h pw now = acct_step (\<lambda>s. case find (live_link h link_reset now) (ac_links s) of
       None \<Rightarrow> (s, Inl No_link)
     | Some l \<Rightarrow> if length (filter (reset_hit l) (ac_users s)) \<noteq> 1 then (s, Inl No_link) else (after_reset h pw now l s, Inr (lk_user l)))"
proof -
  have hit: "reset_hit l = (\<lambda>u. u_id u = lk_user l \<and> u_email u = lk_email l \<and> u_email u \<noteq> [] \<and> u_confirmed u \<noteq> None)" for l
    by (rule ext) (simp only: reset_hit_def)
  show ?thesis by (simp only: take_reset_link_def after_reset_def hit Let_def)
qed

lemma after_reset_ok:
  assumes "acct_ok s"
  shows "acct_ok (after_reset h pw now l s)"
proof -
  define t where "t = s\<lparr>ac_users := map (\<lambda>u. if reset_hit l u then u\<lparr>u_hash := pw\<rparr> else u) (ac_users s)\<rparr>"
  have "acct_ok t" unfolding t_def by (rule confirm_row_ok [OF assms]) simp_all
  from fewer_links_ok [OF this, of "\<lambda>x. \<not> live_link h link_reset now x \<and> \<not> (lk_user x = lk_user l \<and> lk_purpose x = link_reset)"]
  show ?thesis by (simp add: after_reset_def t_def)
qed

lemma take_reset_ok: "acct_ok s \<Longrightarrow> acct_ok (fst (take_reset_link h pw now s))"
  unfolding take_reset_link_eq
  by (rule acct_step_keeps [of acct_ok]) (auto simp: after_reset_ok split: option.splits if_splits)

section \<open>A run of the panel over the tables\<close>

datatype account_change =
    Create_global int string string | Add_user int user_change | Save_user user_change
  | Update_user nat string string string | Update_profile nat string string bool
  | Set_reach nat reach | Clear_reach nat | Set_user_reach nat reach
  | Delete_user nat | Set_password nat string
  | Create_session int string nat int | Renew_session string int | Delete_session string
  | Delete_other_sessions nat string | Delete_user_sessions nat | Delete_expired_sessions int
  | Create_link string nat string string int int | Take_link string string int
  | Delete_links nat string | Delete_all_links | Confirm_email nat string int | Take_reset string string int

fun account_act :: "account_change \<Rightarrow> accounts \<Rightarrow> accounts" where
  "account_act (Create_global now n h) s = fst (create_global_user now n h s)"
| "account_act (Add_user now c) s = fst (add_user now c s)"
| "account_act (Save_user c) s = fst (save_user c s)"
| "account_act (Update_user i n h e) s = fst (update_user i n h e s)"
| "account_act (Update_profile i n e b) s = fst (update_user_profile i n e b s)"
| "account_act (Set_reach i r) s = fst (set_reach i r s)"
| "account_act (Clear_reach i) s = fst (clear_user_reach i s)"
| "account_act (Set_user_reach i r) s = fst (set_user_reach i r s)"
| "account_act (Delete_user i) s = fst (delete_user i s)"
| "account_act (Set_password i h) s = fst (set_user_password i h s)"
| "account_act (Create_session now h i e) s = fst (create_session now h i e s)"
| "account_act (Renew_session h e) s = fst (renew_session h e s)"
| "account_act (Delete_session h) s = fst (delete_session h s)"
| "account_act (Delete_other_sessions i h) s = fst (delete_other_sessions i h s)"
| "account_act (Delete_user_sessions i) s = fst (delete_user_sessions i s)"
| "account_act (Delete_expired_sessions now) s = fst (delete_expired_sessions now s)"
| "account_act (Create_link h i p e now x) s = fst (create_user_link h i p e now x s)"
| "account_act (Take_link h p now) s = fst (take_user_link h p now s)"
| "account_act (Delete_links i p) s = fst (delete_user_links i p s)"
| "account_act Delete_all_links s = fst (delete_all_user_links s)"
| "account_act (Confirm_email i e now) s = fst (confirm_email i e now s)"
| "account_act (Take_reset h pw now) s = fst (take_reset_link h pw now s)"

definition no_accounts :: "nat list \<Rightarrow> nat list \<Rightarrow> bool list \<Rightarrow> accounts" where
  "no_accounts ds ins fs = \<lparr>ac_users = [], ac_next_user = 1, ac_user_domains = [], ac_user_inbound = [],
     ac_sessions = [], ac_links = [], ac_domains = ds, ac_inbounds = ins, ac_faults = fs\<rparr>"

lemma account_act_ok: "acct_ok s \<Longrightarrow> acct_ok (account_act c s)"
proof (cases c)
  case (Create_global now n h)
  assume ok: "acct_ok s"
  have "acct_ok (fst (create_global_user now n h s))" unfolding create_global_user_def
    by (rule acct_step_keeps [of acct_ok, OF ok]) (auto simp: acct_ok_def has_global_def split: if_splits)
  then show ?thesis by (simp add: Create_global)
qed (simp_all add: add_user_ok save_user_ok update_user_def update_user_profile_def update_rows_ok set_reach_ok clear_user_reach_def
       set_user_reach_ok delete_user_ok set_password_ok create_session_ok renew_session_ok drop_sessions_ok delete_session_def
       delete_other_sessions_def delete_user_sessions_def delete_expired_sessions_def create_link_ok take_link_ok delete_links_ok
       delete_all_links_ok confirm_email_ok take_reset_ok)

lemma account_acts_ok: "acct_ok s \<Longrightarrow> acct_ok (fold account_act cs s)"
  by (induction cs arbitrary: s) (simp_all add: account_act_ok)

lemma first_user_ok:
  assumes "create_global_user now n h (no_accounts ds ins fs) = (s, Inr ())"
  shows "acct_ok s"
  using assms
  by (auto simp: create_global_user_def acct_step_def no_accounts_def new_user_def acct_ok_def acct_wf_def has_global_def user_ids_def
        split: list.splits bool.splits)

text \<open>C30. From the first account on, whatever the panel does to its accounts and whichever statements
  fail: ids and names of users stay apart, roles are the two known ones, every assignment, session and
  link belongs to a user there is (and every assignment to a domain there is), no token is stored
  twice - and a global administrator remains.\<close>

theorem accounts_consistent:
  assumes "create_global_user now n h (no_accounts ds ins fs) = (s, Inr ())"
  shows "acct_wf (fold account_act cs s) \<and> has_global (fold account_act cs s)"
  using account_acts_ok [OF first_user_ok [OF assms]] by (simp add: acct_ok_def)

definition first_state :: accounts where
  "first_state = fst (create_global_user 0 ''root'' ''h'' (no_accounts [7] [] [False, False, False, True]))"

theorem accounts_consistent_witness:
  "acct_wf (fold account_act
      [Add_user 0 \<lparr>uc_id = 0, uc_name = ''ann'', uc_hash = ''x'', uc_email = [], uc_role = role_domain,
          uc_reach = no_reach\<lparr>re_domains := [7]\<rparr>\<rparr>, Delete_user 1, Delete_user 2] first_state) \<and>
   has_global (fold account_act
      [Add_user 0 \<lparr>uc_id = 0, uc_name = ''ann'', uc_hash = ''x'', uc_email = [], uc_role = role_domain,
          uc_reach = no_reach\<lparr>re_domains := [7]\<rparr>\<rparr>, Delete_user 1, Delete_user 2] first_state)"
  by (rule accounts_consistent [of 0 "''root''" "''h''" "[7]" "[]" "[False, False, False, True]"])
    (simp add: first_state_def create_global_user_def acct_step_def no_accounts_def)

section \<open>A link is taken once\<close>

definition no_token :: "string \<Rightarrow> accounts \<Rightarrow> bool" where
  "no_token h s \<longleftrightarrow> h \<notin> lk_hash ` set (ac_links s)"

definition makes_token :: "string \<Rightarrow> account_change \<Rightarrow> bool" where
  "makes_token h c \<longleftrightarrow> (\<exists>i p e now x. c = Create_link h i p e now x)"

lemma step_links:
  assumes "\<And>s s' x. f s = (s', Inr x) \<Longrightarrow> set (ac_links s') \<subseteq> set (ac_links s)"
  shows "set (ac_links (fst (acct_step f s))) \<subseteq> set (ac_links s)"
  by (rule acct_step_keeps [where P = "\<lambda>t. set (ac_links t) \<subseteq> set (ac_links s)"]) (use assms in \<open>auto dest: assms\<close>)

lemma write_reach_links: "write_user_reach i r s = (s', Inr x) \<Longrightarrow> ac_links s' = ac_links s"
  using write_reach_users [of i r s s'] by auto

lemma get_user_links: "ac_links (fst (load_user p s)) = ac_links s"
  by (rule load_user_keeps [where P = "\<lambda>t. ac_links t = ac_links s"]) simp_all

lemma set_reach_links: "set (ac_links (fst (set_reach i r s))) \<subseteq> set (ac_links s)"
  unfolding set_reach_def by (rule step_links) (simp add: write_reach_links)

lemma add_user_links: "set (ac_links (fst (add_user now c s))) \<subseteq> set (ac_links s)"
proof -
  have "set (ac_links (fst (acct_step (\<lambda>s.
             if list_ex (\<lambda>u. u_name u = uc_name c) (ac_users s) then (s, Inl User_exists)
             else (let i = ac_next_user s;
                       s1 = s\<lparr>ac_users := ac_users s @ [new_user i (uc_name c) (uc_hash c) (uc_role c) (uc_email c) now],
                              ac_next_user := i + 1\<rparr>
                   in if uc_role c = role_domain then
                        (case write_user_reach i (uc_reach c) s1 of (s2, Inl e) \<Rightarrow> (s2, Inl e) | (s2, Inr _) \<Rightarrow> (s2, Inr i))
                      else (s1, Inr i))) s))) \<subseteq> set (ac_links s)"
    by (rule step_links) (auto simp: Let_def dest: write_reach_links split: if_splits prod.splits sum.splits)
  then show ?thesis by (simp add: add_user_def split: option.split)
qed

lemma save_user_links: "set (ac_links (fst (save_user c s))) \<subseteq> set (ac_links s)"
proof -
  have "set (ac_links (fst (acct_step (\<lambda>s.
             case update_user_row (uc_id c) (uc_name c) (\<lambda>u. u\<lparr>u_name := uc_name c,
                    u_hash := (if uc_hash c = [] then u_hash u else uc_hash c), u_email := uc_email c, u_role := uc_role c,
                    u_confirmed := keep_confirmed (uc_email c) u\<rparr>) s of
               (s1, Inl e) \<Rightarrow> (s1, Inl e)
             | (s1, Inr _) \<Rightarrow>
                 (case require_a_global s1 of
                    Some e \<Rightarrow> (s1, Inl e)
                  | None \<Rightarrow> write_user_reach (uc_id c) (if uc_role c = role_global then no_reach else uc_reach c) s1)) s))) \<subseteq> set (ac_links s)"
    by (rule step_links) (auto simp: update_user_row_def dest: write_reach_links split: if_splits prod.splits sum.splits option.splits)
  then show ?thesis by (simp only: save_user_def split: option.split if_split) simp
qed

lemma account_act_links:
  assumes "\<And>h i p e now x. c \<noteq> Create_link h i p e now x"
  shows "set (ac_links (account_act c s)) \<subseteq> set (ac_links s)"
proof (cases c)
  case (Create_link h i p e now x)
  with assms show ?thesis by blast
next
  case (Set_user_reach i r)
  obtain s1 q where g: "get_user i s = (s1, q)" by fastforce
  then have "ac_links s1 = ac_links s" using get_user_links [of "\<lambda>u. u_id u = i" s] by (simp add: get_user_def)
  with g set_reach_links [of i r s1] show ?thesis unfolding Set_user_reach by (cases q) (auto simp: set_user_reach_def)
next
  case (Create_global now n h)
  show ?thesis unfolding Create_global account_act.simps create_global_user_def by (rule step_links) (auto split: if_splits)
next
  case (Update_user i n h e)
  show ?thesis unfolding Update_user account_act.simps update_user_def by (rule step_links) (auto simp: update_user_row_def split: if_splits)
next
  case (Update_profile i n e b)
  show ?thesis unfolding Update_profile account_act.simps update_user_profile_def by (rule step_links) (auto simp: update_user_row_def split: if_splits)
next
  case (Delete_user i)
  show ?thesis unfolding Delete_user account_act.simps delete_user_def by (rule step_links) (auto simp: Let_def split: if_splits option.splits)
next
  case (Set_password i h)
  show ?thesis unfolding Set_password account_act.simps set_user_password_def by (rule step_links) (auto split: if_splits)
next
  case (Create_session now h i e)
  show ?thesis unfolding Create_session account_act.simps create_session_def by (rule step_links) (auto split: if_splits)
next
  case (Renew_session h e)
  show ?thesis unfolding Renew_session account_act.simps renew_session_def by (rule step_links) auto
next
  case (Delete_session h)
  show ?thesis unfolding Delete_session account_act.simps delete_session_def drop_sessions_def by (rule step_links) auto
next
  case (Delete_other_sessions i h)
  show ?thesis unfolding Delete_other_sessions account_act.simps delete_other_sessions_def drop_sessions_def by (rule step_links) auto
next
  case (Delete_user_sessions i)
  show ?thesis unfolding Delete_user_sessions account_act.simps delete_user_sessions_def drop_sessions_def by (rule step_links) auto
next
  case (Delete_expired_sessions now)
  show ?thesis unfolding Delete_expired_sessions account_act.simps delete_expired_sessions_def drop_sessions_def by (rule step_links) auto
next
  case (Take_link h p now)
  show ?thesis unfolding Take_link account_act.simps take_user_link_def by (rule step_links) (auto split: option.splits)
next
  case (Delete_links i p)
  show ?thesis unfolding Delete_links account_act.simps delete_user_links_def by (rule step_links) auto
next
  case Delete_all_links
  show ?thesis unfolding Delete_all_links account_act.simps delete_all_user_links_def by (rule step_links) auto
next
  case (Confirm_email i e now)
  show ?thesis unfolding Confirm_email account_act.simps confirm_email_def by (rule step_links) (auto simp: Let_def)
next
  case (Take_reset h pw now)
  show ?thesis unfolding Take_reset account_act.simps take_reset_link_eq by (rule step_links) (auto simp: after_reset_def split: option.splits if_splits)
qed (use set_reach_links add_user_links save_user_links in \<open>simp_all add: clear_user_reach_def\<close>)

lemma create_link_hashes: "set (ac_links (fst (create_user_link h i p e now x s))) \<subseteq> set (ac_links s) \<union> {l. lk_hash l = h}"
  unfolding create_user_link_def
  by (rule acct_step_keeps [where P = "\<lambda>t. set (ac_links t) \<subseteq> set (ac_links s) \<union> {l. lk_hash l = h}"])
    (auto simp: Let_def split: if_splits)

lemma account_act_token: "no_token h s \<Longrightarrow> \<not> makes_token h c \<Longrightarrow> no_token h (account_act c s)"
proof (cases "\<exists>h i p e now x. c = Create_link h i p e now x")
  case True
  assume a: "no_token h s" "\<not> makes_token h c"
  from True obtain h' i p e now x where c: "c = Create_link h' i p e now x" by blast
  with a have "h' \<noteq> h" by (auto simp: makes_token_def)
  with a(1) create_link_hashes [of h' i p e now x s] show ?thesis by (auto simp: c no_token_def)
next
  case False
  assume "no_token h s"
  with account_act_links [of c s] False show ?thesis by (auto simp: no_token_def)
qed

lemma account_acts_token: "no_token h s \<Longrightarrow> \<forall>c \<in> set cs. \<not> makes_token h c \<Longrightarrow> no_token h (fold account_act cs s)"
  by (induction cs arbitrary: s) (simp_all add: account_act_token)

lemma step_Inr:
  assumes "acct_step f s = (s', Inr x)"
  obtains fs t where "f (s\<lparr>ac_faults := fs\<rparr>) = (s', Inr x)"
proof (cases "ac_faults s")
  case Nil
  then have "s\<lparr>ac_faults := []\<rparr> = s" by simp
  with assms Nil that [of "[]"] show ?thesis by (auto simp: acct_step_def split: prod.splits sum.splits)
next
  case (Cons a fs)
  with assms that [of fs] show ?thesis by (cases a) (auto simp: acct_step_def split: prod.splits sum.splits)
qed

lemma no_token_gone: "no_token h s \<Longrightarrow> find (live_link h p now) (ac_links s) = None"
  by (auto simp: no_token_def find_None_iff live_link_def)

lemma no_token_refused:
  assumes "no_token h s"
  shows "snd (take_user_link h p now s) \<noteq> Inr l" "snd (peek_user_link h p now s) \<noteq> Inr l" "snd (take_reset_link h pw now s) \<noteq> Inr i"
proof -
  have g: "find (live_link h q now) (ac_links (s\<lparr>ac_faults := fs\<rparr>)) = None" for q fs
    using no_token_gone [OF assms] by simp
  show "snd (take_user_link h p now s) \<noteq> Inr l"
    using g [of p] by (cases "take_user_link h p now s") (auto simp: take_user_link_def elim!: step_Inr)
  show "snd (peek_user_link h p now s) \<noteq> Inr l"
    using g [of p] by (cases "peek_user_link h p now s") (auto simp: peek_user_link_def elim!: step_Inr)
  show "snd (take_reset_link h pw now s) \<noteq> Inr i"
    using g [of link_reset] by (cases "take_reset_link h pw now s") (auto simp: take_reset_link_eq elim!: step_Inr)
qed

lemma live_gone:
  assumes "distinct (map lk_hash ls)" "find (live_link h p now) ls = Some l"
  shows "h \<notin> lk_hash ` set (filter (\<lambda>l. \<not> live_link h p now l) ls)"
proof
  assume "h \<in> lk_hash ` set (filter (\<lambda>l. \<not> live_link h p now l) ls)"
  then obtain m where m: "m \<in> set ls" "\<not> live_link h p now m" "lk_hash m = h" by auto
  from assms(2) have l: "l \<in> set ls" "live_link h p now l" by (auto simp: find_Some_iff)
  then have "lk_hash l = lk_hash m" using m by (simp add: live_link_def)
  with assms(1) l m(1) have "l = m" by (simp add: distinct_map inj_on_def)
  with l m show False by simp
qed

lemma taken_token:
  assumes "acct_wf s"
  shows "take_user_link h p now s = (s1, Inr l) \<Longrightarrow> no_token h s1"
    and "take_reset_link h pw now s = (s1, Inr i) \<Longrightarrow> no_token h s1"
proof -
  have d: "distinct (map lk_hash (ac_links s))" using assms by (simp add: acct_wf_def)
  show "no_token h s1" if "take_user_link h p now s = (s1, Inr l)"
    using that live_gone [OF d, of h p now] by (auto simp: take_user_link_def no_token_def elim!: step_Inr split: option.splits)
  show "no_token h s1" if "take_reset_link h pw now s = (s1, Inr i)"
    using that live_gone [OF d, of h link_reset now]
    by (auto simp: take_reset_link_eq after_reset_def no_token_def elim!: step_Inr split: option.splits if_splits)
qed

text \<open>C31. A link is taken at most once: after a request has taken it - to confirm an address or to set a
  password - no later request with the same token, for whatever purpose, at whatever time, is answered
  by anything but an error, whatever else happens to the accounts, unless a link of that very token is created again.\<close>

theorem link_taken_once:
  assumes "acct_wf s" "take_user_link h p now s = (s1, Inr l) \<or> take_reset_link h pw now s = (s1, Inr i)"
    "\<forall>c \<in> set cs. \<not> makes_token h c"
  shows "snd (take_user_link h p' now' (fold account_act cs s1)) \<noteq> Inr l' \<and>
    snd (peek_user_link h p' now' (fold account_act cs s1)) \<noteq> Inr l' \<and>
    snd (take_reset_link h pw' now' (fold account_act cs s1)) \<noteq> Inr i'"
proof -
  from assms(2) taken_token [OF assms(1)] have "no_token h s1" by blast
  from no_token_refused [OF account_acts_token [OF this assms(3)]] show ?thesis by blast
qed

definition linked_state :: accounts where
  "linked_state = fst (create_user_link ''t'' 1 link_confirm ''a@x.org'' 0 (90 * second)
     (fst (create_global_user 0 ''root'' ''h'' (no_accounts [] [] []))))"

lemma linked_state_eq: "linked_state =
  \<lparr>ac_users = [new_user 1 ''root'' ''h'' role_global [] 0], ac_next_user = 2, ac_user_domains = [], ac_user_inbound = [], ac_sessions = [],
   ac_links = [\<lparr>lk_hash = ''t'', lk_user = 1, lk_purpose = link_confirm, lk_email = ''a@x.org'', lk_created = stamp 0, lk_expires = stamp (90 * second)\<rparr>],
   ac_domains = [], ac_inbounds = [], ac_faults = []\<rparr>"
  by (simp add: linked_state_def create_user_link_def create_global_user_def acct_step_def no_accounts_def new_user_def)

theorem link_taken_once_witness:
  "fst (take_user_link ''t'' link_confirm 1 linked_state) = linked_state\<lparr>ac_links := []\<rparr> \<and>
   snd (take_reset_link ''t'' ''p'' 2 (fold account_act [Create_session 1 ''s'' 1 9] (linked_state\<lparr>ac_links := []\<rparr>))) \<noteq> Inr 1"
proof -
  let ?l = "\<lparr>lk_hash = ''t'', lk_user = 1, lk_purpose = link_confirm, lk_email = ''a@x.org'', lk_created = stamp 0, lk_expires = stamp (90 * second)\<rparr>"
  have wf: "acct_wf linked_state"
    by (simp add: linked_state_eq acct_wf_def user_ids_def new_user_def)
  have t: "take_user_link ''t'' link_confirm 1 linked_state = (linked_state\<lparr>ac_links := []\<rparr>, Inr ?l)"
    by (simp add: linked_state_eq take_user_link_def acct_step_def live_link_def stamp_def second_def)
  have "\<forall>c \<in> set [Create_session 1 ''s'' 1 9]. \<not> makes_token ''t'' c" by (simp add: makes_token_def)
  from link_taken_once [OF wf disjI1 [OF t] this] t show ?thesis by simp
qed

text \<open>C32. A password is set from a link only for the account the link was made for, while the link is
  live and the account's address is confirmed and still the one the link was sent to; every other
  account is untouched and no reset link of that account survives. A request that fails changes
  neither accounts nor links.\<close>

theorem reset_only_confirmed:
  assumes "acct_wf s" "take_reset_link h pw now s = (s1, r)"
  shows "case r of
      Inl e \<Rightarrow> ac_users s1 = ac_users s \<and> ac_links s1 = ac_links s
    | Inr i \<Rightarrow> \<exists>l \<in> set (ac_links s). \<exists>u \<in> set (ac_users s). live_link h link_reset now l \<and> lk_user l = i \<and>
        u_id u = i \<and> u_email u = lk_email l \<and> u_email u \<noteq> [] \<and> u_confirmed u \<noteq> None \<and>
        ac_users s1 = map (\<lambda>v. if v = u then v\<lparr>u_hash := pw\<rparr> else v) (ac_users s) \<and>
        ac_links s1 = filter (\<lambda>x. \<not> (lk_user x = i \<and> lk_purpose x = link_reset)) (ac_links s)"
proof (cases r)
  case (Inl e)
  with assms(2) show ?thesis
    by (auto simp: take_reset_link_eq acct_step_def split: list.splits bool.splits prod.splits sum.splits option.splits if_splits)
next
  case (Inr i)
  obtain fs where f: "(case find (live_link h link_reset now) (ac_links s) of
       None \<Rightarrow> (s\<lparr>ac_faults := fs\<rparr>, Inl No_link)
     | Some l \<Rightarrow> if length (filter (reset_hit l) (ac_users s)) \<noteq> 1 then (s\<lparr>ac_faults := fs\<rparr>, Inl No_link)
         else (after_reset h pw now l (s\<lparr>ac_faults := fs\<rparr>), Inr (lk_user l))) = (s1, Inr i)"
    by (rule step_Inr [OF assms(2) [unfolded take_reset_link_eq Inr]]) (simp split: option.splits)
  then obtain l where
    l: "find (live_link h link_reset now) (ac_links s) = Some l" and one: "length (filter (reset_hit l) (ac_users s)) = 1"
    and s1: "s1 = after_reset h pw now l (s\<lparr>ac_faults := fs\<rparr>)" and i: "i = lk_user l"
    by (auto split: option.splits if_splits)
  from l have lin: "l \<in> set (ac_links s)" "live_link h link_reset now l" by (auto simp: find_Some_iff)
  from one obtain u where u: "filter (reset_hit l) (ac_users s) = [u]" by (auto simp: length_Suc_conv)
  then have "u \<in> set (filter (reset_hit l) (ac_users s))" by simp
  then have uin: "u \<in> set (ac_users s)" "reset_hit l u" by auto
  have only: "reset_hit l v \<longleftrightarrow> v = u" if "v \<in> set (ac_users s)" for v
  proof
    assume "reset_hit l v"
    with that have "v \<in> set (filter (reset_hit l) (ac_users s))" by simp
    with u show "v = u" by simp
  qed (use uin in simp)
  have d: "distinct (map lk_hash (ac_links s))" using assms(1) by (simp add: acct_wf_def)
  have same: "x = l" if "x \<in> set (ac_links s)" "live_link h link_reset now x" for x
  proof -
    from that lin have "lk_hash x = lk_hash l" by (simp add: live_link_def)
    with d that(1) lin(1) show ?thesis by (simp add: distinct_map inj_on_def)
  qed
  have keep: "(\<not> live_link h link_reset now x \<and> \<not> (lk_user x = lk_user l \<and> lk_purpose x = link_reset)) \<longleftrightarrow>
      \<not> (lk_user x = lk_user l \<and> lk_purpose x = link_reset)" if "x \<in> set (ac_links s)" for x
    using same [OF that] lin(2) by (auto simp: live_link_def)
  have us: "ac_users s1 = map (\<lambda>v. if v = u then v\<lparr>u_hash := pw\<rparr> else v) (ac_users s)"
    using only by (simp add: s1 after_reset_def)
  have ls: "ac_links s1 = filter (\<lambda>x. \<not> (lk_user x = i \<and> lk_purpose x = link_reset)) (ac_links s)"
    using filter_cong [OF refl keep] by (simp add: s1 after_reset_def i)
  from uin(2) have "u_id u = i" "u_email u = lk_email l" "u_email u \<noteq> []" "u_confirmed u \<noteq> None" by (auto simp: reset_hit_def i)
  with lin uin(1) us ls i Inr show ?thesis unfolding Inr sum.case by blast
qed

theorem reset_only_confirmed_witness:
  "let s = linked_state\<lparr>ac_users := [(new_user 1 ''root'' ''h'' role_global ''a@x.org'' 0)\<lparr>u_confirmed := Some 3\<rparr>],
       ac_links := [\<lparr>lk_hash = ''r'', lk_user = 1, lk_purpose = link_reset, lk_email = ''a@x.org'', lk_created = 0, lk_expires = 9\<rparr>]\<rparr>
   in acct_wf s \<and> snd (take_reset_link ''r'' ''new'' 5 s) = Inr 1 \<and>
     map u_hash (ac_users (fst (take_reset_link ''r'' ''new'' 5 s))) = [''new'']"
proof -
  define s where "s = linked_state\<lparr>ac_users := [(new_user 1 ''root'' ''h'' role_global ''a@x.org'' 0)\<lparr>u_confirmed := Some 3\<rparr>],
       ac_links := [\<lparr>lk_hash = ''r'', lk_user = 1, lk_purpose = link_reset, lk_email = ''a@x.org'', lk_created = 0, lk_expires = 9\<rparr>]\<rparr>"
  have wf: "acct_wf s" by (simp add: s_def linked_state_eq acct_wf_def user_ids_def new_user_def)
  have "snd (take_reset_link ''r'' ''new'' 5 s) = Inr 1"
    by (simp add: s_def linked_state_eq take_reset_link_def acct_step_def live_link_def stamp_def second_def new_user_def)
  then obtain s1 where t: "take_reset_link ''r'' ''new'' 5 s = (s1, Inr 1)" by (cases "take_reset_link ''r'' ''new'' 5 s") auto
  from reset_only_confirmed [OF wf t] have "map u_hash (ac_users s1) = [''new'']"
    by (auto simp: s_def)
  with wf t show ?thesis unfolding s_def [symmetric] by simp
qed

section \<open>Where a confirmation comes from\<close>

definition confirmed_in :: "(nat \<times> string) set \<Rightarrow> accounts \<Rightarrow> bool" where
  "confirmed_in C s \<longleftrightarrow> (\<forall>u \<in> set (ac_users s). u_confirmed u \<noteq> None \<longrightarrow> (u_id u, u_email u) \<in> C)"

lemma confirmed_step:
  assumes "confirmed_in C s" "\<And>s s' x. confirmed_in C s \<Longrightarrow> f s = (s', Inr x) \<Longrightarrow> confirmed_in C s'"
  shows "confirmed_in C (fst (acct_step f s))"
  by (rule acct_step_keeps [of "confirmed_in C", OF assms(1)]) (simp add: confirmed_in_def, erule (1) assms(2))

lemma confirmed_map:
  assumes "confirmed_in C s" "\<And>u. u \<in> set (ac_users s) \<Longrightarrow> u_confirmed (f u) \<noteq> None \<Longrightarrow>
      (u_confirmed u \<noteq> None \<and> u_id (f u) = u_id u \<and> u_email (f u) = u_email u) \<or> (u_id (f u), u_email (f u)) \<in> C"
    "ac_users s' = map f (ac_users s)"
  shows "confirmed_in C s'"
  unfolding confirmed_in_def assms(3)
proof (intro ballI impI)
  fix v assume "v \<in> set (map f (ac_users s))" "u_confirmed v \<noteq> None"
  then obtain u where u: "u \<in> set (ac_users s)" "v = f u" by auto
  with assms(2) [OF u(1)] \<open>u_confirmed v \<noteq> None\<close> assms(1) show "(u_id v, u_email v) \<in> C" by (auto simp: confirmed_in_def)
qed

lemma confirmed_same: "confirmed_in C s \<Longrightarrow> ac_users s' = ac_users s \<Longrightarrow> confirmed_in C s'"
  by (simp add: confirmed_in_def)

lemma confirmed_reach: "confirmed_in C s \<Longrightarrow> write_user_reach i r s = (s', Inr ()) \<Longrightarrow> confirmed_in C s'"
  by (drule write_reach_users, elim exE conjE) (rule confirmed_map [where f = "\<lambda>u. if u_id u = i then u\<lparr>u_all_domains := re_all_domains r, u_all_inbound := re_all_inbound r\<rparr> else u"], auto)

lemma confirmed_row:
  assumes "confirmed_in C s" "update_user_row i name f s = (s', Inr ())"
    "\<And>u. u_id (f u) = u_id u" "\<And>u. u_confirmed (f u) \<noteq> None \<Longrightarrow> u_confirmed u \<noteq> None \<and> u_email (f u) = u_email u"
  shows "confirmed_in C s'"
proof (rule confirmed_map [OF assms(1)])
  show "ac_users s' = map (\<lambda>u. if u_id u = i then f u else u) (ac_users s)"
    using assms(2) by (auto simp: update_user_row_def split: if_splits)
qed (use assms(3,4) in auto)

lemma confirmed_add: "confirmed_in C s \<Longrightarrow> confirmed_in C (fst (add_user now c s))"
proof -
  assume C: "confirmed_in C s"
  have "confirmed_in C (fst (acct_step (\<lambda>s.
             if list_ex (\<lambda>u. u_name u = uc_name c) (ac_users s) then (s, Inl User_exists)
             else (let i = ac_next_user s;
                       s1 = s\<lparr>ac_users := ac_users s @ [new_user i (uc_name c) (uc_hash c) (uc_role c) (uc_email c) now],
                              ac_next_user := i + 1\<rparr>
                   in if uc_role c = role_domain then
                        (case write_user_reach i (uc_reach c) s1 of (s2, Inl e) \<Rightarrow> (s2, Inl e) | (s2, Inr _) \<Rightarrow> (s2, Inr i))
                      else (s1, Inr i))) s))"
  proof (rule confirmed_step [OF C])
    fix s s' :: accounts and x
    let ?s1 = "s\<lparr>ac_users := ac_users s @ [new_user (ac_next_user s) (uc_name c) (uc_hash c) (uc_role c) (uc_email c) now],
                              ac_next_user := ac_next_user s + 1\<rparr>"
    assume s: "confirmed_in C s" and f: "(if list_ex (\<lambda>u. u_name u = uc_name c) (ac_users s) then (s, Inl User_exists)
             else (let i = ac_next_user s;
                       s1 = s\<lparr>ac_users := ac_users s @ [new_user i (uc_name c) (uc_hash c) (uc_role c) (uc_email c) now],
                              ac_next_user := i + 1\<rparr>
                   in if uc_role c = role_domain then
                        (case write_user_reach i (uc_reach c) s1 of (s2, Inl e) \<Rightarrow> (s2, Inl e) | (s2, Inr _) \<Rightarrow> (s2, Inr i))
                      else (s1, Inr i))) = (s', Inr x)"
    have "confirmed_in C ?s1" using s by (simp add: confirmed_in_def new_user_def)
    with f confirmed_reach [of C ?s1 "ac_next_user s" "uc_reach c" s'] show "confirmed_in C s'"
      by (auto simp: Let_def split: if_splits prod.splits sum.splits)
  qed
  with C show ?thesis by (simp add: add_user_def split: option.split)
qed

lemma confirmed_save: "confirmed_in C s \<Longrightarrow> confirmed_in C (fst (save_user c s))"
proof -
  assume C: "confirmed_in C s"
  let ?g = "\<lambda>u. u\<lparr>u_name := uc_name c, u_hash := (if uc_hash c = [] then u_hash u else uc_hash c), u_email := uc_email c, u_role := uc_role c,
                    u_confirmed := keep_confirmed (uc_email c) u\<rparr>"
  let ?r = "if uc_role c = role_global then no_reach else uc_reach c"
  have "confirmed_in C (fst (acct_step (\<lambda>s. case update_user_row (uc_id c) (uc_name c) ?g s of
               (s1, Inl e) \<Rightarrow> (s1, Inl e)
             | (s1, Inr _) \<Rightarrow>
                 (case require_a_global s1 of Some e \<Rightarrow> (s1, Inl e) | None \<Rightarrow> write_user_reach (uc_id c) ?r s1)) s))"
  proof (rule confirmed_step [OF C])
    fix s s' x assume s: "confirmed_in C s" and f: "(case update_user_row (uc_id c) (uc_name c) ?g s of
               (s1, Inl e) \<Rightarrow> (s1, Inl e)
             | (s1, Inr _) \<Rightarrow>
                 (case require_a_global s1 of Some e \<Rightarrow> (s1, Inl e) | None \<Rightarrow> write_user_reach (uc_id c) ?r s1)) = (s', Inr x)"
    obtain s1 q where u: "update_user_row (uc_id c) (uc_name c) ?g s = (s1, q)" by fastforce
    with f have q: "q = Inr ()" by (cases q) auto
    from u q f have w: "write_user_reach (uc_id c) ?r s1 = (s', Inr ())" by (auto split: option.splits)
    have "confirmed_in C s1"
      by (rule confirmed_row [OF s u [unfolded q]]) (auto simp: keep_confirmed_def split: if_splits)
    from confirmed_reach [OF this w] show "confirmed_in C s'" .
  qed
  with C show ?thesis by (simp only: save_user_def split: option.split if_split) simp
qed

lemma confirmed_reset: "confirmed_in C s \<Longrightarrow> confirmed_in C (after_reset h pw now l s)"
  by (rule confirmed_map [where s = s and f = "\<lambda>u. if reset_hit l u then u\<lparr>u_hash := pw\<rparr> else u"]) (auto simp: after_reset_def split: if_splits)

lemma confirmed_confirm:
  assumes "confirmed_in C s" "(i, e) \<in> C"
  shows "confirmed_in C (fst (confirm_email i e now s))"
  unfolding confirm_email_def Let_def
proof (rule confirmed_step [OF assms(1)])
  fix s s' x
  let ?f = "\<lambda>u. if u_id u = i \<and> u_email u = e \<and> u_email u \<noteq> [] then u\<lparr>u_confirmed := Some (stamp now)\<rparr> else u"
  assume s: "confirmed_in C s" and f: "(s\<lparr>ac_users := map ?f (ac_users s)\<rparr>, Inr (length (filter (\<lambda>u. u_id u = i \<and> u_email u = e \<and> u_email u \<noteq> []) (ac_users s)) = 1)) =
     (s', (Inr x :: account_error + bool))"
  from f have s': "s' = s\<lparr>ac_users := map ?f (ac_users s)\<rparr>" by (simp only: prod.inject)
  show "confirmed_in C s'"
  proof (rule confirmed_map [OF s])
    show "ac_users s' = map ?f (ac_users s)" unfolding s' by simp
  qed (use assms(2) in auto)
qed

lemma confirmed_get: "confirmed_in C s \<Longrightarrow> confirmed_in C (fst (get_user i s))"
  unfolding get_user_def by (rule load_user_keeps) (simp_all add: confirmed_in_def)

lemma confirmed_set_reach: "confirmed_in C s \<Longrightarrow> confirmed_in C (fst (set_reach i r s))"
  unfolding set_reach_def by (rule confirmed_step) (auto dest: confirmed_reach)

lemma confirmed_act:
  assumes "confirmed_in C s" "\<And>i e now. c = Confirm_email i e now \<Longrightarrow> (i, e) \<in> C"
  shows "confirmed_in C (account_act c s)"
proof (cases c)
  case (Confirm_email i e now)
  with confirmed_confirm [OF assms(1), of i e now] assms(2) show ?thesis by simp
next
  case (Create_global now n h)
  show ?thesis unfolding Create_global account_act.simps create_global_user_def
    by (rule confirmed_step [OF assms(1)]) (auto simp: confirmed_in_def new_user_def split: if_splits)
next
  case (Update_user i n h e)
  show ?thesis unfolding Update_user account_act.simps update_user_def
    by (rule confirmed_step [OF assms(1)]) (erule confirmed_row [where f = "\<lambda>u. u\<lparr>u_name := n, u_hash := h, u_email := e, u_confirmed := keep_confirmed e u\<rparr>" and i = i and name = n], simp, simp_all add: keep_confirmed_def split: if_splits)
next
  case (Update_profile i n e b)
  show ?thesis unfolding Update_profile account_act.simps update_user_profile_def
    by (rule confirmed_step [OF assms(1)]) (erule confirmed_row [where f = "\<lambda>u. u\<lparr>u_name := n, u_email := e, u_notify := b, u_confirmed := keep_confirmed e u\<rparr>" and i = i and name = n], simp, simp_all add: keep_confirmed_def split: if_splits)
next
  case (Set_user_reach i r)
  obtain s1 q where g: "get_user i s = (s1, q)" by fastforce
  with confirmed_get [OF assms(1), of i] have "confirmed_in C s1" by simp
  with g confirmed_set_reach [of C s1 i r] show ?thesis unfolding Set_user_reach by (cases q) (auto simp: set_user_reach_def)
next
  case (Delete_user i)
  show ?thesis unfolding Delete_user account_act.simps delete_user_def
    by (rule confirmed_step [OF assms(1)]) (auto simp: Let_def confirmed_in_def split: if_splits option.splits)
next
  case (Set_password i h)
  show ?thesis unfolding Set_password account_act.simps set_user_password_def
    by (rule confirmed_step [OF assms(1)], rule confirmed_map [where f = "\<lambda>u. if u_id u = i then u\<lparr>u_hash := h\<rparr> else u"]) (auto split: if_splits)
next
  case (Create_session now h i e)
  show ?thesis unfolding Create_session account_act.simps create_session_def
    by (rule confirmed_step [OF assms(1)], erule confirmed_same) (auto split: if_splits)
next
  case (Create_link h i p e now x)
  show ?thesis unfolding Create_link account_act.simps create_user_link_def
    by (rule confirmed_step [OF assms(1)], erule confirmed_same) (auto simp: Let_def split: if_splits)
next
  case (Take_link h p now)
  show ?thesis unfolding Take_link account_act.simps take_user_link_def
    by (rule confirmed_step [OF assms(1)], erule confirmed_same) (auto split: option.splits)
next
  case (Take_reset h pw now)
  show ?thesis unfolding Take_reset account_act.simps take_reset_link_eq
    by (rule confirmed_step [OF assms(1)]) (auto simp: confirmed_reset split: option.splits if_splits)
next
  case (Renew_session h e)
  show ?thesis unfolding Renew_session account_act.simps renew_session_def
    by (rule confirmed_step [OF assms(1)], erule confirmed_same) auto
next
  case (Delete_links i p)
  show ?thesis unfolding Delete_links account_act.simps delete_user_links_def
    by (rule confirmed_step [OF assms(1)], erule confirmed_same) auto
next
  case Delete_all_links
  show ?thesis unfolding Delete_all_links account_act.simps delete_all_user_links_def
    by (rule confirmed_step [OF assms(1)], erule confirmed_same) auto
next
  case (Delete_session h)
  show ?thesis unfolding Delete_session account_act.simps delete_session_def drop_sessions_def
    by (rule confirmed_step [OF assms(1)], erule confirmed_same) auto
next
  case (Delete_other_sessions i h)
  show ?thesis unfolding Delete_other_sessions account_act.simps delete_other_sessions_def drop_sessions_def
    by (rule confirmed_step [OF assms(1)], erule confirmed_same) auto
next
  case (Delete_user_sessions i)
  show ?thesis unfolding Delete_user_sessions account_act.simps delete_user_sessions_def drop_sessions_def
    by (rule confirmed_step [OF assms(1)], erule confirmed_same) auto
next
  case (Delete_expired_sessions now)
  show ?thesis unfolding Delete_expired_sessions account_act.simps delete_expired_sessions_def drop_sessions_def
    by (rule confirmed_step [OF assms(1)], erule confirmed_same) auto
qed (use assms(1) confirmed_add confirmed_save confirmed_set_reach in \<open>simp_all add: clear_user_reach_def\<close>)

lemma confirmed_acts:
  "confirmed_in C s \<Longrightarrow> \<forall>i e now. Confirm_email i e now \<in> set cs \<longrightarrow> (i, e) \<in> C \<Longrightarrow> confirmed_in C (fold account_act cs s)"
proof (induction cs arbitrary: s)
  case (Cons c cs)
  have "confirmed_in C (account_act c s)" by (rule confirmed_act [OF Cons.prems(1)]) (use Cons.prems(2) in auto)
  from Cons.IH [OF this] Cons.prems(2) show ?case by auto
qed simp

text \<open>C33. An account's address counts as confirmed only if it was confirmed, for that account and that
  very address: no edit of the account, by its owner or by an administrator, carries a confirmation
  over to another address.\<close>

theorem confirmed_was_confirmed:
  assumes "create_global_user now n h (no_accounts ds ins fs) = (s, Inr ())"
    "u \<in> set (ac_users (fold account_act cs s))" "u_confirmed u \<noteq> None"
  shows "\<exists>t. Confirm_email (u_id u) (u_email u) t \<in> set cs"
proof -
  let ?C = "{(i, e). \<exists>t. Confirm_email i e t \<in> set cs}"
  have "confirmed_in ?C s" using assms(1)
    by (auto simp: create_global_user_def acct_step_def no_accounts_def new_user_def confirmed_in_def split: list.splits bool.splits)
  then have "confirmed_in ?C (fold account_act cs s)" by (rule confirmed_acts) auto
  with assms(2,3) show ?thesis by (auto simp: confirmed_in_def)
qed

theorem confirmed_was_confirmed_witness:
  "let cs = [Update_profile 1 ''root'' ''a@x.org'' True, Confirm_email 1 ''a@x.org'' 5];
       s = fst (create_global_user 0 ''root'' ''h'' (no_accounts [] [] []))
   in \<exists>u \<in> set (ac_users (fold account_act cs s)). u_confirmed u \<noteq> None \<and> (\<exists>t. Confirm_email (u_id u) (u_email u) t \<in> set cs)"
proof -
  let ?cs = "[Update_profile 1 ''root'' ''a@x.org'' True, Confirm_email 1 ''a@x.org'' 5]"
  obtain s where s: "create_global_user 0 ''root'' ''h'' (no_accounts [] [] []) = (s, Inr ())"
    by (simp add: create_global_user_def acct_step_def no_accounts_def)
  let ?u = "(new_user 1 ''root'' ''h'' role_global ''a@x.org'' 0)\<lparr>u_confirmed := Some 0\<rparr>"
  have "ac_users (fold account_act ?cs s) = [?u]"
    using s by (auto simp: create_global_user_def acct_step_def no_accounts_def new_user_def update_user_profile_def update_user_row_def
        confirm_email_def keep_confirmed_def stamp_def second_def)
  then have u: "?u \<in> set (ac_users (fold account_act ?cs s))" by simp
  have c: "u_confirmed ?u \<noteq> None" by simp
  from confirmed_was_confirmed [OF s u c] u c have "\<exists>u \<in> set (ac_users (fold account_act ?cs s)). u_confirmed u \<noteq> None \<and> (\<exists>t. Confirm_email (u_id u) (u_email u) t \<in> set ?cs)"
    by (intro bexI [of _ ?u] conjI)
  with s show ?thesis unfolding Let_def by (simp only: fst_conv)
qed

end
