(* ===== verification/Spec2Isabelle.thy ===== *)
theory Spec2Isabelle
  imports App_Service Sender_Check Journal Auth_Limiter Postfix_Time Notify Domain_Lifecycle Dkim_Signer Log_Safety Inbound_Service Inbound_Milter Filter_Lists Accounts
begin

text \<open>
  SelfPost (Go, under \<open>src/\<close>) is a mail relay with a control panel: applications authenticate to
  Postfix with a login and may send as addresses of one domain; the panel (\<open>cmd/panel\<close>) keeps the
  registry of domains and applications and writes the tables Postfix, the sender check and the DKIM
  signer read; three milters (\<open>internal/milter\<close>) stand in the way of every message; the panel's
  other half reads the mail log, watches the machine and writes to its administrators.

  The parts and the theories that model them, in the order of the data's way:

  \<^item> Prelude: strings of bytes as Go has them (lower case, trimming, splitting, runes), error values.
  \<^item> Validators (\<open>internal/web/validate\<close>, \<open>internal/app/validate.go\<close>, \<open>internal/inbound/validate.go\<close>)
    and Net_Addr (what \<open>net.ParseIP\<close> and \<open>net/netip\<close> do): the checks on what is typed in.
  \<^item> Registry (\<open>internal/store/domains.go\<close>, \<open>applications.go\<close>, \<open>ratelimits.go\<close>): the tables in
    SQLite as lists of rows, each statement or transaction a step that may fail as a fault list says.
  \<^item> App_Service (\<open>internal/app\<close>): creating, importing, changing and deleting applications over three
    places - rows, SASL accounts, sender map - with every rollback.
  \<^item> Signing_Keys, Domain_Service, Domain_Lifecycle (\<open>internal/domain\<close>, the tables of
    \<open>internal/milter/sign.go\<close>): domains with their keys on disk and the selector table.
  \<^item> Sender_Map (\<open>internal/postfix/postfix.go\<close>, \<open>Bindings\<close> of \<open>internal/milter/sender.go\<close>): the map
    from sender addresses to logins, written by the panel and read by the sender check.
  \<^item> Mail_Header, Sender_Check (\<open>internal/milter/sender.go\<close>), Inflight and Journal
    (\<open>internal/milter/ratelimit.go\<close>, \<open>inflight.go\<close>, \<open>authip.go\<close>, \<open>milter.go\<close>), Dkim_Signer
    (\<open>internal/milter/sign.go\<close>): the milters, callback by callback.
  \<^item> Send_Log (\<open>internal/store/sendlog.go\<close>, \<open>sendloglines.go\<close>): the journal of what was sent.
  \<^item> Auth_Limiter (\<open>internal/web/auth/ratelimit.go\<close>), Postfix_Time (\<open>internal/postfix/duration.go\<close>,
    \<open>retry.go\<close>), Health_Status, Notify (\<open>internal/notify\<close>): the panel's own machinery.
  \<^item> Go_Regexp (\<open>regexp\<close> as the source uses it), Log_Lines (the regular expressions and the readers of
    a line of \<open>internal/logtail\<close>), Log_Tail (\<open>follow\<close> and the saved place of \<open>offset.go\<close>), Log_Handlers
    (what \<open>Run\<close> does with a line, the reconcile sweep, the readers of the log file): the mail log
    tailer, over any client given as a record of its handlers and then over the panel's own;
    Log_Safety is what holds of it over any log.
  \<^item> Inbound_Store (\<open>internal/store/inbound.go\<close>, \<open>inboundspam.go\<close>, \<open>deliverylog.go\<close>,
    \<open>sendercheck.go\<close>, \<open>logtail.go\<close>): the inbound domains, their journal, the filter lists, the day
    counters and the tailer's place.
  \<^item> Inbound_Service (\<open>internal/inbound/service.go\<close>, \<open>internal/postfix/inbound.go\<close>, \<open>write.go\<close>):
    the four lookup tables of the relay, and the changes of the inbound domains that keep them in step
    with the registry.
  \<^item> Inbound_Milter (\<open>internal/milter/inbound.go\<close>): the journal milter of port 25 and the filter's
    verdict; Filter_Lists (\<open>internal/inbound/lists.go\<close>): the allow and deny lists, their map files, and
    the count of what an entry decided.
  \<^item> Accounts (\<open>internal/store/users.go\<close>, \<open>sessions.go\<close>, \<open>userlinks.go\<close>): the panel's users, what they
    reach, their login sessions and their one-time links.

  Bounds: a loop over lines is a recursion on the text that is left; a regular expression is run by
  recursion on the expression and, in a repetition, on the text left, so nothing needs fuel.

  Not modelled: HTTP handlers, templates and view models; reads of /proc, sockets and certificates;
  archives and encryption; the supervisor's and the update feed's clients; start-up and wiring.

  The properties stand at the end of the theory whose component they are about; this theory holds
  those that span components.
\<close>

section \<open>Inputs the witnesses share\<close>

text \<open>One domain, an application with one address and a second one for the whole domain.\<close>

definition demo_db :: db where
  "demo_db =
     \<lparr>db_domains = [\<lparr>d_id = 1, d_name = ''a.io'', d_selector = ''s'', d_rua = [], d_created = 0\<rparr>],
      db_apps =
        [\<lparr>a_id = 1, a_domain_id = 1, a_login = ''app'', a_mode = Address_list, a_created = 0,
          a_addresses = [''x@a.io''], a_restrict = False, a_ips = []\<rparr>,
         \<lparr>a_id = 2, a_domain_id = 1, a_login = ''any'', a_mode = Wildcard, a_created = 0,
          a_addresses = [], a_restrict = False, a_ips = []\<rparr>],
      db_limits = [], db_next_domain = 2, db_next_app = 3, db_faults = []\<rparr>"

definition demo_map :: string where
  "demo_map = ''@a.io any'' @ [newline] @ ''x@a.io app'' @ [newline]"

definition demo_view :: file_view where
  "demo_view = \<lparr>fv_stat = Some (1, 20), fv_read = Some demo_map\<rparr>"

definition demo_macros :: macros where
  "demo_macros = [''auth_authen'' \<mapsto> ''app'']"

definition demo_world :: world where
  "demo_world = \<lparr>w_db = demo_db, w_sasl = [''app'' \<mapsto> ''pw'', ''any'' \<mapsto> ''pw''],
     w_map = Some demo_map, w_live = Some demo_map, w_faults = []\<rparr>"

section \<open>The sender map between the panel and the sender check\<close>

text \<open>
  C2. What the panel renders (\<open>renderSenderLoginMaps\<close>) the sender check reads back
  (\<open>parseSenderMap\<close>) without a fault, and it answers a lookup as the bindings themselves do.
\<close>

theorem sender_map_round_trip:
  assumes "list_all plain_binding bs"
  shows "\<exists>out t. render_sender_login_maps ul bs = Inr out \<and>
    parse_sender_map ul (split_on newline out) = Inr t \<and>
    (\<forall>login addr. allowed_in t login addr = spec_allowed bs login addr)"
  using sm.loads [OF assms] sm.answers [OF assms] by blast

lemma sender_map_round_trip_witness:
  "\<exists>out t. render_sender_login_maps (\<lambda>s. s) [\<lparr>b_address = ''@a.io'', b_login = ''app''\<rparr>] = Inr out \<and>
    parse_sender_map (\<lambda>s. s) (split_on newline out) = Inr t \<and>
    (\<forall>login addr. allowed_in t login addr = spec_allowed [\<lparr>b_address = ''@a.io'', b_login = ''app''\<rparr>] login addr)"
  by (rule sender_map_round_trip) code_simp



text \<open>
  C12. The sender check lets a message through exactly when a login authenticated, it has one
  From: line, of one address the login may send as, and no Sender: line or one such line.
\<close>

theorem message_passes_iff:
  "snd (snd (sc_headers ul pl vf vs vd m' (message_session wd from m rcpts hs ses) b q)) = Continue \<longleftrightarrow>
     macro m ''auth_authen'' \<noteq> [] \<and>
     (\<exists>f. field_values ''From'' hs = [f] \<and> line_ok ul pl vf (macro m ''auth_authen'') f b \<and>
        (field_values ''Sender'' hs = [] \<or>
         (\<exists>sender. field_values ''Sender'' hs = [sender] \<and>
            line_ok ul pl vs (macro m ''auth_authen'') sender
              (fst (judge_line ul pl vf (macro m ''auth_authen'') f b)))))"
  by (auto simp: sc_headers_Continue judge_Pass message_session_fields take2_single take2_Nil)

text \<open>
  An application sends as every address bound to it, in any letter case: read back from the
  map the panel wrote, the binding's address passes for the binding's login.
\<close>

theorem bound_address_passes:
  assumes "wf_db s" and "bnd \<in> set (bindings_of s)"
    and "render_sender_login_maps ul (bindings_of s) = Inr content"
    and "fv_stat v = Some (mt, sz)" and "fv_read v = Some content"
    and "\<not> (tf_loaded (bs_file b) \<and> mt = tf_mod_time (bs_file b) \<and> sz = tf_size (bs_file b))"
    and "ascii_lower login = ascii_lower (b_login bnd)" "ascii_lower addr = ascii_lower (b_address bnd)"
  shows "snd (allowed ul v login addr b) = Inr True"
proof -
  have p: "list_all plain_binding (bindings_of s)"
    using bindings_plain [of s] assms(1) by (simp add: list_all_iff wf_db_def)
  obtain out t where t: "render_sender_login_maps ul (bindings_of s) = Inr out"
    "parse_sender_map ul (split_on newline out) = Inr t" using sm.loads [OF p] by blast
  have "spec_allowed (bindings_of s) login addr"
    using sm.owner_passes [OF p t assms(2)] sm.case_blind [OF p t assms(7,8)] sm.answers [OF p t] by simp
  with allowed_rendered [OF bindings_plain assms(3-6)] assms(1) show ?thesis by (simp add: wf_db_def)
qed

lemma bound_address_passes_witness:
  "snd (allowed id demo_view ''ANY'' ''@A.IO'' new_bindings) = Inr True"
proof (rule bound_address_passes)
  show "wf_db demo_db" by code_simp
  show "\<lparr>b_address = ''@a.io'', b_login = ''any''\<rparr> \<in> set (bindings_of demo_db)" by code_simp
  show "render_sender_login_maps id (bindings_of demo_db) = Inr demo_map" by code_simp
  show "fv_stat demo_view = Some (1, 20)" by code_simp
  show "fv_read demo_view = Some demo_map" by code_simp
  show "\<not> (tf_loaded (bs_file new_bindings) \<and> (1::int) = tf_mod_time (bs_file new_bindings) \<and>
     (20::nat) = tf_size (bs_file new_bindings))" by code_simp
  show "ascii_lower ''ANY'' = ascii_lower (b_login \<lparr>b_address = ''@a.io'', b_login = ''any''\<rparr>)" by code_simp
  show "ascii_lower ''@A.IO'' = ascii_lower (b_address \<lparr>b_address = ''@a.io'', b_login = ''any''\<rparr>)" by code_simp
qed


text \<open>
  A message is signed as the domain of the application that sends it: for the login of an
  application that may send anything, in any letter case, the domain the signer takes from the
  rendered map is its application's.
\<close>

theorem signed_as_own_domain:
  assumes "wf_db s" and "render_sender_login_maps ul (bindings_of s) = Inr content"
    and "fv_stat v = Some (mt, sz)" and "fv_read v = Some content"
    and "\<not> (tf_loaded (bs_file b) \<and> mt = tf_mod_time (bs_file b) \<and> sz = tf_size (bs_file b))"
    and "a \<in> set (db_apps s)" "app_bindings s a \<noteq> []" "find_domain (a_domain_id a) s = Some d"
    and "ascii_lower login = ascii_lower (a_login a)"
  shows "snd (domain_of_login ul v login b) = d_name d"
proof -
  have inv: "registry_inv s" "registry_checked s" using assms(1) by (simp_all add: wf_db_def)
  note facts = app_binding_facts [OF inv]
  from fresh_rendered [OF bindings_plain [OF inv] assms(2-5)] obtain b' where
    b': "fresh ul v b = (b', None)" "table_of (bindings_of s) (bs_table b')" by blast
  have ok: "domains_ok ul (bs_table b')"
    using b'(1) assms(3-5) parse_sender_map_domains_ok by (auto simp: fresh_def changed_def split: sum.splits)
  let ?l = "ascii_lower login"
  from assms(7) obtain x where x: "x \<in> set (app_bindings s a)" by (cases "app_bindings s a") auto
  have "a_login a \<in> owners_of (bindings_of s) (ascii_lower (b_address x))" by (rule owners_of_app [OF inv assms(6) x])
  with b'(2) have "tbl_logins (bs_table b') (ascii_lower (b_address x)) = Some (ascii_lower ` owners_of (bindings_of s) (ascii_lower (b_address x)))"
    "?l \<in> ascii_lower ` owners_of (bindings_of s) (ascii_lower (b_address x))"
    using assms(9) by (auto simp: table_of_def)
  with ok obtain dn where dn: "tbl_domains (bs_table b') ?l = Some dn" unfolding domains_ok_def by blast
  with ok obtain k owners where k: "tbl_logins (bs_table b') k = Some owners" "?l \<in> owners" "dn = domain_of ul k"
    unfolding domains_ok_def by blast
  with b'(2) have "owners = ascii_lower ` owners_of (bindings_of s) k" by (auto simp: table_of_def split: if_splits)
  with k(2) obtain y where y: "y \<in> set (bindings_of s)" "ascii_lower (b_address y) = k" "ascii_lower (b_login y) = ?l"
    by (auto simp: owners_of_def)
  from y(1) obtain a2 where a2: "a2 \<in> set (db_apps s)" "y \<in> set (app_bindings s a2)" by (auto simp: set_bindings_of)
  note f2 = facts [OF a2]
  with y(3) assms(9) have "ascii_lower (a_login a2) = ascii_lower (a_login a)" by simp
  with same_login_same_app [OF inv(1) a2(1) assms(6)] have "a2 = a" by simp
  with f2 y(2) assms(8) have "domain_part k = d_name d" by auto
  moreover have "domain_check (d_name d) = None"
    using find_domain_Some [OF assms(8)] inv(2) by (auto simp: registry_checked_def)
  ultimately have "dn = d_name d" by (simp add: k(3) domain_of_part checked_name_lower)
  with b'(1) dn show ?thesis by (simp add: domain_of_login_def)
qed
lemma signed_as_own_domain_witness: "snd (domain_of_login id demo_view ''ANY'' new_bindings) = ''a.io''"
proof -
  let ?a = "\<lparr>a_id = 2, a_domain_id = 1, a_login = ''any'', a_mode = Wildcard, a_created = 0,
    a_addresses = [], a_restrict = False, a_ips = []\<rparr> :: app_row"
  let ?d = "\<lparr>d_id = 1, d_name = ''a.io'', d_selector = ''s'', d_rua = [], d_created = 0\<rparr> :: domain_row"
  have "snd (domain_of_login id demo_view ''ANY'' new_bindings) = d_name ?d"
  proof (rule signed_as_own_domain [where a = ?a])
    show "wf_db demo_db" by code_simp
    show "render_sender_login_maps id (bindings_of demo_db) = Inr demo_map" by code_simp
    show "fv_stat demo_view = Some (1, 20)" by code_simp
    show "fv_read demo_view = Some demo_map" by code_simp
    show "\<not> (tf_loaded (bs_file new_bindings) \<and> (1::int) = tf_mod_time (bs_file new_bindings) \<and>
       (20::nat) = tf_size (bs_file new_bindings))" by code_simp
    show "?a \<in> set (db_apps demo_db)" by (simp add: demo_db_def)
    show "app_bindings demo_db ?a \<noteq> []" by code_simp
    show "find_domain (a_domain_id ?a) demo_db = Some ?d" by code_simp
    show "ascii_lower ''ANY'' = ascii_lower (a_login ?a)" by code_simp
  qed
  then show ?thesis by simp
qed

section \<open>The application service: registry, SASL accounts and sender map together\<close>



text \<open>
  Saving an application's settings in one form keeps the registry well-formed, also when a
  step fails and the settings from before are put back; the caller's recalculation of an
  automatic limit is any operation that leaves domains, ids and addresses alone.
\<close>

theorem settings_keep_registry:
  assumes "wf_db (w_db w)" and "\<And>s f. recalc = Some f \<Longrightarrow> keeps_ids s (f (i::nat))"
  shows "wf_db (w_db (fst (save_settings ul recalc i cfg w)))"
  by (rule keeps_wfD [OF save_settings_wf [OF assms(2)] assms(1)])

lemma settings_keep_registry_witness:
  "wf_db (w_db (fst (save_settings id (Some (\<lambda>i w. (w, Inl Command_failed))) 1
     \<lparr>st_mode = ''wildcard'', st_addresses = [], st_restrict = True, st_ips = [''10.0.0.1''],
      st_limit = Auto_limit 2 3600\<rparr> demo_world)))"
proof (rule settings_keep_registry)
  show "wf_db (w_db demo_world)" by code_simp
qed (auto simp: triple_def)

text \<open>
  C3. Creating an application is all or nothing: when it fails, through one failure of the
  database or of a command, the registry's rows and the SASL accounts are as they were.
\<close>

theorem create_all_or_nothing:
  assumes "wf_db (w_db w)" "no_orphans w" "failures w \<le> 1"
    and "create ul now pw did login0 mode raw w = (w', Inl e)"
  shows "db_apps (w_db w') = db_apps (w_db w) \<and> db_domains (w_db w') = db_domains (w_db w) \<and>
    db_limits (w_db w') = db_limits (w_db w) \<and> w_sasl w' = w_sasl w"
  using create_failed [OF assms] .

lemma create_all_or_nothing_witness:
  "let w' = fst (create id 0 ''pw'' 1 ''new'' ''list'' [''n@a.io''] (demo_world\<lparr>w_faults := [False, True]\<rparr>)) in
     db_apps (w_db w') = db_apps demo_db \<and> w_sasl w' = w_sasl demo_world"
proof -
  let ?w = "demo_world\<lparr>w_faults := [False, True]\<rparr>"
  let ?c = "create id 0 ''pw'' 1 ''new'' ''list'' [''n@a.io''] ?w"
  have "wf_db (w_db ?w)" by code_simp
  moreover have "no_orphans ?w" by (auto simp: no_orphans_def demo_world_def demo_db_def)
  moreover have "failures ?w \<le> 1" by code_simp
  moreover have "?c = (fst ?c, Inl Command_failed)" by (rule call_result) code_simp
  ultimately have "db_apps (w_db (fst ?c)) = db_apps (w_db ?w) \<and> w_sasl (fst ?c) = w_sasl ?w"
    using create_all_or_nothing by blast
  then show ?thesis by (simp add: demo_world_def)
qed

text \<open>
  A created application has the folded login, unused before in any letter case, a SASL
  account with the password shown, and the sender map on disk rendered from the new registry.
\<close>

theorem created_application:
  assumes "create ul now pw did login0 mode raw w = (w', Inr (a, p))"
  shows "p = pw \<and> a_login a = fold_login ul login0 \<and> a_domain_id a = did \<and>
    db_apps (w_db w') = db_apps (w_db w) @ [a] \<and> w_sasl w' = (w_sasl w)(fold_login ul login0 \<mapsto> pw) \<and>
    ascii_lower (fold_login ul login0) \<notin> (\<lambda>a. ascii_lower (a_login a)) ` set (db_apps (w_db w)) \<and> in_step ul w'"
  using create_done [OF assms] .

lemma created_application_witness:
  "\<exists>a. db_apps (w_db (fst (create id 0 ''pw'' 1 ''New'' ''list'' [''N@a.io''] demo_world))) = db_apps demo_db @ [a] \<and>
     a_login a = fold_login id ''New'' \<and>
     in_step id (fst (create id 0 ''pw'' 1 ''New'' ''list'' [''N@a.io''] demo_world))"
proof -
  let ?c = "create id 0 ''pw'' 1 ''New'' ''list'' [''N@a.io''] demo_world"
  have "case snd ?c of Inr (a, p) \<Rightarrow> a_id a = 3 \<and> p = ''pw'' | Inl _ \<Rightarrow> False" by code_simp
  then obtain a where "snd ?c = Inr (a, ''pw'')" by (auto split: sum.splits)
  from created_application [OF call_result [OF this]] show ?thesis by (auto simp: demo_world_def)
qed

text \<open>
  No deletion of an application leaves a SASL account without an application, at whatever
  step it fails.
\<close>

theorem delete_leaves_no_account:
  assumes "registry_inv (w_db w)" "no_orphans w"
  shows "no_orphans (fst (delete_app ul i w))"
  using delete_app_no_orphans [OF assms] .

lemma delete_leaves_no_account_witness: "no_orphans (fst (delete_app id 1 (demo_world\<lparr>w_faults := [True]\<rparr>)))"
proof (rule delete_leaves_no_account)
  show "registry_inv (w_db (demo_world\<lparr>w_faults := [True]\<rparr>))" by code_simp
  show "no_orphans (demo_world\<lparr>w_faults := [True]\<rparr>)" by (auto simp: no_orphans_def demo_world_def demo_db_def)
qed

text \<open>
  A deleted application is gone everywhere: its row, its SASL account, its limit, and
  the sender map on disk is the one of the remaining registry.
\<close>

theorem deleted_application:
  assumes "delete_app ul i w = (w', Inr ())"
  shows "\<exists>a. find_app i (w_db w) = Some a \<and> w_sasl w' = (w_sasl w)(a_login a := None) \<and>
    db_apps (w_db w') = filter (\<lambda>a. a_id a \<noteq> i) (db_apps (w_db w)) \<and>
    find_limit Scope_app i (w_db w') = None \<and> in_step ul w'"
  using delete_app_done [OF assms] .

lemma deleted_application_witness:
  "in_step id (fst (delete_app id 1 demo_world)) \<and> find_limit Scope_app 1 (w_db (fst (delete_app id 1 demo_world))) = None"
proof -
  have "snd (delete_app id 1 demo_world) = Inr ()" by code_simp
  from deleted_application [OF call_result [OF this]] show ?thesis by blast
qed

end
